(* ===== verification/Bpir_Prelude.thy ===== *)
theory Bpir_Prelude
  imports Main "HOL-Library.Word"
begin

text \<open>
  Shared vocabulary of the development: the machine integers of the Rust sources as fixed-width
  words, byte strings, the little- and big-endian conversions \<open>to_le_bytes\<close> / \<open>from_le_bytes\<close> /
  \<open>to_be_bytes\<close>, the \<open>?\<close> operator on \<open>Result\<close> values, and the generic list lemmas that the
  component theories use. \<open>usize\<close> quantities that only count things are natural numbers; where
  the width of an integer matters it is written as a word.
\<close>

unbundle bit_operations_syntax

section \<open>Types\<close>

type_synonym u8 = "8 word"
type_synonym u16 = "16 word"
type_synonym u32 = "32 word"
type_synonym u64 = "64 word"
type_synonym bytes = "8 word list"
type_synonym ('e, 'a) result = "'e + 'a"

named_theorems byte_simps \<open>lengths and round trips of the byte conversions\<close>

section \<open>Results\<close>

text \<open>The \<open>?\<close> operator: continue with an \<open>Ok\<close> value (\<open>Inr\<close>), return an error (\<open>Inl\<close>) at once.\<close>

definition rbind :: "('e, 'a) result \<Rightarrow> ('a \<Rightarrow> ('e, 'b) result) \<Rightarrow> ('e, 'b) result" where
  "rbind m f = (case m of Inl e \<Rightarrow> Inl e | Inr x \<Rightarrow> f x)"

definition map_err :: "('e \<Rightarrow> 'd) \<Rightarrow> ('e, 'a) result \<Rightarrow> ('d, 'a) result" where
  "map_err f m = (case m of Inl e \<Rightarrow> Inl (f e) | Inr x \<Rightarrow> Inr x)"

definition ok_or :: "'e \<Rightarrow> 'a option \<Rightarrow> ('e, 'a) result" where
  "ok_or e m = (case m of None \<Rightarrow> Inl e | Some x \<Rightarrow> Inr x)"

lemma rbind_simps [simp]:
  "rbind (Inl e) f = Inl e"
  "rbind (Inr x) f = f x"
  by (simp_all add: rbind_def)

lemma map_err_simps [simp]:
  "map_err g (Inl e) = Inl (g e)"
  "map_err g (Inr x) = Inr x"
  by (simp_all add: map_err_def)

lemma ok_or_simps [simp]:
  "ok_or e None = Inl e"
  "ok_or e (Some x) = Inr x"
  by (simp_all add: ok_or_def)

lemma rbind_eq_InrE [elim!]:
  assumes "rbind m f = Inr y"
  obtains x where "m = Inr x" and "f x = Inr y"
  using assms by (cases m) auto

lemma map_err_eq_Inr [simp]: "map_err g m = Inr x \<longleftrightarrow> m = Inr x"
  by (cases m) auto

lemma ok_or_eq_Inr [simp]: "ok_or e m = Inr x \<longleftrightarrow> m = Some x"
  by (cases m) auto

section \<open>Byte conversions\<close>

fun to_le :: "nat \<Rightarrow> nat \<Rightarrow> bytes" where
  "to_le 0 x = []"
| "to_le (Suc k) x = of_nat (x mod 256) # to_le k (x div 256)"

fun from_le :: "bytes \<Rightarrow> nat" where
  "from_le [] = 0"
| "from_le (b # bs) = unat b + 256 * from_le bs"

definition to_be :: "nat \<Rightarrow> nat \<Rightarrow> bytes" where
  "to_be k x = rev (to_le k x)"

definition from_be :: "bytes \<Rightarrow> nat" where
  "from_be bs = from_le (rev bs)"

definition u16_to_le :: "u16 \<Rightarrow> bytes" where "u16_to_le w = to_le 2 (unat w)"
definition u32_to_le :: "u32 \<Rightarrow> bytes" where "u32_to_le w = to_le 4 (unat w)"
definition u64_to_le :: "u64 \<Rightarrow> bytes" where "u64_to_le w = to_le 8 (unat w)"
definition u16_from_le :: "bytes \<Rightarrow> u16" where "u16_from_le bs = of_nat (from_le bs)"
definition u32_from_le :: "bytes \<Rightarrow> u32" where "u32_from_le bs = of_nat (from_le bs)"
definition u64_from_le :: "bytes \<Rightarrow> u64" where "u64_from_le bs = of_nat (from_le bs)"
definition u32_to_be :: "u32 \<Rightarrow> bytes" where "u32_to_be w = to_be 4 (unat w)"
definition u64_to_be :: "u64 \<Rightarrow> bytes" where "u64_to_be w = to_be 8 (unat w)"
definition u32_from_be :: "bytes \<Rightarrow> u32" where "u32_from_be bs = of_nat (from_be bs)"

text \<open>\<open>&data[a..a + n]\<close>, where the caller has checked the bounds.\<close>

definition slice :: "'a list \<Rightarrow> nat \<Rightarrow> nat \<Rightarrow> 'a list" where
  "slice xs a n = take n (drop a xs)"

text \<open>\<open>usize::div_ceil\<close>.\<close>

definition div_ceil :: "nat \<Rightarrow> nat \<Rightarrow> nat" where
  "div_ceil a b = (a + b - 1) div b"

text \<open>\<open>Vec::resize\<close>: pad with \<open>v\<close>, or truncate.\<close>

definition resize :: "nat \<Rightarrow> 'a \<Rightarrow> 'a list \<Rightarrow> 'a list" where
  "resize n v xs = take n xs @ replicate (n - length xs) v"

lemma length_to_le [simp, byte_simps]: "length (to_le k x) = k"
  by (induction k arbitrary: x) auto

lemma length_to_be [simp, byte_simps]: "length (to_be k x) = k"
  by (simp add: to_be_def)

lemma unat_of_nat_mod_256 [simp]: "unat (of_nat (x mod 256) :: u8) = x mod 256"
  by (simp add: unat_of_nat)

lemma from_le_to_le: "from_le (to_le k x) = x mod 256 ^ k"
proof (induction k arbitrary: x)
  case (Suc k)
  have "x mod 256 + 256 * (x div 256 mod 256 ^ k) = x mod (256 * 256 ^ k)"
    by (simp add: mod_mult2_eq)
  with Suc show ?case by simp
qed simp

lemma from_le_less: "from_le bs < 256 ^ length bs"
proof (induction bs)
  case (Cons b bs)
  have "unat b < 256" using unsigned_less [of b] by simp
  moreover have "from_le bs + 1 \<le> 256 ^ length bs" using Cons by simp
  ultimately have "unat b + 256 * from_le bs < 256 * 256 ^ length bs" by linarith
  then show ?case by simp
qed simp

lemma to_le_from_le: "length bs = k \<Longrightarrow> to_le k (from_le bs) = bs"
proof (induction bs arbitrary: k)
  case (Cons b bs)
  have b: "unat b < 256" using unsigned_less [of b] by simp
  have "(unat b + 256 * from_le bs) mod 256 = unat b" using b by simp
  moreover have "(unat b + 256 * from_le bs) div 256 = from_le bs" using b by simp
  ultimately show ?case using Cons by (auto simp: word_unat_eq_iff)
qed simp

lemma from_le_inject: "from_le xs = from_le ys \<Longrightarrow> length xs = length ys \<Longrightarrow> xs = ys"
  by (metis to_le_from_le)

lemma from_le_append: "from_le (xs @ ys) = from_le xs + 256 ^ length xs * from_le ys"
  by (induction xs) auto

lemma le_roundtrips [simp, byte_simps]:
  "u16_from_le (u16_to_le a) = a"
  "u32_from_le (u32_to_le b) = b"
  "u64_from_le (u64_to_le c) = c"
proof -
  have "unat a < 256 ^ 2" "unat b < 256 ^ 4" "unat c < 256 ^ 8"
    using unsigned_less [of a] unsigned_less [of b] unsigned_less [of c] by simp_all
  then show "u16_from_le (u16_to_le a) = a" "u32_from_le (u32_to_le b) = b"
    "u64_from_le (u64_to_le c) = c"
    by (simp_all add: u16_from_le_def u16_to_le_def u32_from_le_def u32_to_le_def
        u64_from_le_def u64_to_le_def from_le_to_le)
qed

lemma length_le_words [simp, byte_simps]:
  "length (u16_to_le a) = 2"
  "length (u32_to_le b) = 4"
  "length (u64_to_le c) = 8"
  "length (u32_to_be b) = 4"
  "length (u64_to_be c) = 8"
  by (simp_all add: u16_to_le_def u32_to_le_def u64_to_le_def u32_to_be_def u64_to_be_def)

lemma le_roundtrips_bytes:
  "length bs = 2 \<Longrightarrow> u16_to_le (u16_from_le bs) = bs"
  "length bs = 4 \<Longrightarrow> u32_to_le (u32_from_le bs) = bs"
  "length bs = 8 \<Longrightarrow> u64_to_le (u64_from_le bs) = bs"
  using from_le_less [of bs]
  by (simp_all add: u16_from_le_def u16_to_le_def u32_from_le_def u32_to_le_def
      u64_from_le_def u64_to_le_def unat_of_nat to_le_from_le)

lemma unat_u32_from_le: "length bs = 4 \<Longrightarrow> unat (u32_from_le bs) = from_le bs"
  using from_le_less [of bs] by (simp add: u32_from_le_def unat_of_nat)

lemma le_words_inject [simp]:
  "u16_to_le a = u16_to_le a' \<longleftrightarrow> a = a'"
  "u32_to_le b = u32_to_le b' \<longleftrightarrow> b = b'"
  "u64_to_le c = u64_to_le c' \<longleftrightarrow> c = c'"
  by (metis le_roundtrips)+

lemma length_slice [simp]: "length (slice xs a n) = min n (length xs - a)"
  by (simp add: slice_def)

lemma slice_append_left [simp]: "a + n \<le> length xs \<Longrightarrow> slice (xs @ ys) a n = slice xs a n"
  by (simp add: slice_def)

lemma slice_0_length [simp]: "slice xs 0 (length xs) = xs"
  by (simp add: slice_def)

lemma slice_append_mid:
  "a = length xs \<Longrightarrow> n = length ys \<Longrightarrow> slice (xs @ ys @ zs) a n = ys"
  by (simp add: slice_def)

lemma length_resize [simp]: "length (resize n v xs) = n"
  by (simp add: resize_def)

lemma resize_id [simp]: "length xs = n \<Longrightarrow> resize n v xs = xs"
  by (simp add: resize_def)

lemma nth_resize:
  "i < n \<Longrightarrow> resize n v xs ! i = (if i < length xs then xs ! i else v)"
  by (auto simp: resize_def nth_append)

section \<open>Arithmetic and lists\<close>

lemma div_ceil_le_iff: "0 < b \<Longrightarrow> div_ceil a b \<le> c \<longleftrightarrow> a \<le> c * b"
proof -
  assume b: "0 < b"
  have "div_ceil a b \<le> c \<longleftrightarrow> (a + b - 1) div b < Suc c"
    by (simp add: div_ceil_def less_Suc_eq_le)
  also have "\<dots> \<longleftrightarrow> a + b - 1 < Suc c * b"
    using b by (simp add: div_less_iff_less_mult)
  also have "\<dots> \<longleftrightarrow> a \<le> c * b" using b by auto
  finally show ?thesis .
qed

lemma less_div_ceil_iff: "0 < b \<Longrightarrow> c < div_ceil a b \<longleftrightarrow> c * b < a"
  using div_ceil_le_iff [of b a c] by (metis not_le)

lemma div_ceil_smaller: "1 < b \<Longrightarrow> 1 < a \<Longrightarrow> div_ceil a b < a"
proof -
  assume b: "1 < b" and a: "1 < a"
  have "(a - 1) * 2 \<le> (a - 1) * b" using b by (intro mult_le_mono) auto
  then have "a \<le> (a - 1) * b" using a by linarith
  then have "div_ceil a b \<le> a - 1" using b by (simp add: div_ceil_le_iff)
  with a show ?thesis by linarith
qed

lemma div_less_div_ceil: "0 < b \<Longrightarrow> i < a \<Longrightarrow> i div b < div_ceil a b"
  by (simp add: less_div_ceil_iff) (metis div_times_less_eq_dividend le_less_trans)

lemma div_ceil_mult [simp]: "0 < b \<Longrightarrow> div_ceil (b * n) b = n"
proof (rule antisym)
  assume b: "0 < b"
  then show "div_ceil (b * n) b \<le> n" by (simp add: div_ceil_le_iff)
  show "n \<le> div_ceil (b * n) b"
    using b div_ceil_le_iff [of b "b * n" "div_ceil (b * n) b"] by (simp add: mult.commute)
qed

lemma unat_pow2: "i < LENGTH('a::len) \<Longrightarrow> unat (2 ^ i :: 'a word) = 2 ^ i"
proof -
  assume "i < LENGTH('a)"
  then have "unat (of_nat (2 ^ i) :: 'a word) = 2 ^ i"
    by (simp add: unat_of_nat take_bit_nat_eq_self del: of_nat_power of_nat_numeral)
  then show ?thesis by simp
qed

lemma word_or_disjoint_add:
  fixes a b :: "'a::len word"
  assumes "unat a < 2 ^ s"
  shows "a OR push_bit s b = a + push_bit s b"
proof -
  have "a AND push_bit s b = 0"
  proof (rule bit_eqI)
    fix n
    have "\<not> bit a n" if "s \<le> n"
      using assms that
      by (metis bit_take_bit_iff leD take_bit_nat_eq_self_iff unsigned_take_bit_eq word_unat_eq_iff)
    then show "bit (a AND push_bit s b) n = bit 0 n"
      by (auto simp: bit_and_iff bit_push_bit_iff)
  qed
  then show ?thesis by (simp add: disjunctive_add_eq_or)
qed

text \<open>\<open>slice::chunks\<close>: the last chunk may be shorter.\<close>

function chunks :: "nat \<Rightarrow> 'a list \<Rightarrow> 'a list list" where
  "chunks n xs = (if xs = [] \<or> n = 0 then [] else take n xs # chunks n (drop n xs))"
  by pat_completeness auto
termination by (relation "measure (length \<circ> snd)") auto

declare chunks.simps [simp del]

lemma chunks_Nil [simp]: "chunks n [] = []"
  by (simp add: chunks.simps)

lemma concat_chunks [simp]: "0 < n \<Longrightarrow> concat (chunks n xs) = xs"
  by (induction n xs rule: chunks.induct) (subst chunks.simps, auto)

lemma length_chunks: "0 < n \<Longrightarrow> length (chunks n xs) = div_ceil (length xs) n"
proof (induction n xs rule: chunks.induct)
  case (1 n xs)
  show ?case
  proof (cases "xs = []")
    case False
    then obtain l where l: "length xs = Suc l" by (cases xs) auto
    have "div_ceil (length xs) n = Suc (div_ceil (length xs - n) n)"
      using 1(2) l by (cases "n \<le> length xs") (auto simp: div_ceil_def le_div_geq)
    with 1 False show ?thesis by (subst chunks.simps) simp
  qed (use 1(2) in \<open>simp add: div_ceil_def\<close>)
qed

lemma length_concat_fixed:
  "\<forall>x \<in> set xs. length x = n \<Longrightarrow> length (concat xs) = length xs * n"
  by (induction xs) auto

lemma slice_concat_fixed:
  "\<forall>x \<in> set xs. length x = n \<Longrightarrow> i < length xs \<Longrightarrow> slice (concat xs @ ys) (i * n) n = xs ! i"
proof (induction xs arbitrary: i)
  case (Cons x xs)
  then show ?case by (cases i) (auto simp: slice_def)
qed simp

lemma slice_drop: "slice (drop a xs) b n = slice xs (a + b) n"
  by (simp add: slice_def add.commute)

lemma slice_shift: "slice (xs @ ys) (length xs + a) n = slice ys a n"
  by (simp add: slice_def)

lemma unat_of_nat_small: "n < 2 ^ LENGTH('a::len) \<Longrightarrow> unat (of_nat n :: 'a word) = n"
  by (simp add: unat_of_nat take_bit_nat_eq_self)

end
