(* ===== verification/Codec.thy ===== *)
theory Codec
  imports Bpir_Prelude "HOL-Library.Sublist"
begin

text \<open>
  The binary codec of \<open>crates/protocol/core/src/codec.rs\<close>: LEB128 varints and the UTXO records of
  a chunk. Values are 64-bit words, so the shifts drop the bits that the code drops.
\<close>

section \<open>Definitions\<close>

datatype varint_error = TooLarge | Truncated

fun try_read_varint_loop :: "bytes \<Rightarrow> nat \<Rightarrow> u64 \<Rightarrow> nat \<Rightarrow> (varint_error, u64 \<times> nat) result" where
  "try_read_varint_loop [] i acc shift = Inl Truncated"
| "try_read_varint_loop (byte # data) i acc shift =
     (let acc' = acc OR push_bit shift (ucast (byte AND 0x7F))
      in if byte AND 0x80 = 0 then Inr (acc', i + 1)
         else if shift + 7 \<ge> 64 then Inl TooLarge
         else try_read_varint_loop data (i + 1) acc' (shift + 7))"

definition try_read_varint :: "bytes \<Rightarrow> (varint_error, u64 \<times> nat) result" where
  "try_read_varint data = try_read_varint_loop data 0 0 0"

text \<open>\<open>read_varint\<close> panics on a malformed input: \<open>None\<close>.\<close>

definition read_varint :: "bytes \<Rightarrow> (u64 \<times> nat) option" where
  "read_varint data = (case try_read_varint data of Inl e \<Rightarrow> None | Inr out \<Rightarrow> Some out)"

lemma unat_drop_bit_7: "unat (drop_bit 7 (v :: u64)) = unat v div 128"
  by (simp only: unat_drop_bit_eq) (simp add: drop_bit_eq_div)

lemma drop_bit_7_decreases: "drop_bit 7 (v :: u64) \<noteq> 0 \<Longrightarrow> unat (drop_bit 7 v) < unat v"
proof -
  assume "drop_bit 7 v \<noteq> 0"
  then have "0 < unat v" by (metis drop_bit_of_0 gr0I unat_eq_zero)
  then show ?thesis by (simp add: unat_drop_bit_7)
qed

function write_varint_loop :: "u64 \<Rightarrow> bytes" where
  "write_varint_loop v =
     (let byte = ucast (v AND 0x7F) :: u8;
          v' = drop_bit 7 v
      in if v' \<noteq> 0 then (byte OR 0x80) # write_varint_loop v' else [byte])"
  by pat_completeness auto
termination
  by (relation "measure unat") (auto simp: drop_bit_7_decreases)

declare write_varint_loop.simps [simp del]

definition write_varint :: "u64 \<Rightarrow> bytes \<Rightarrow> bytes" where
  "write_varint v out = out @ write_varint_loop v"

function varint_len_loop :: "u64 \<Rightarrow> nat \<Rightarrow> nat" where
  "varint_len_loop v len = (if v \<ge> 0x80 then varint_len_loop (drop_bit 7 v) (len + 1) else len)"
  by pat_completeness auto
termination
proof (relation "measure (\<lambda>(v, len). unat v)", goal_cases)
  case (2 v len)
  then have "128 \<le> unat v" by (simp add: word_le_nat_alt)
  then show ?case by (simp add: unat_drop_bit_7)
qed simp

declare varint_len_loop.simps [simp del]

definition varint_len :: "u64 \<Rightarrow> nat" where
  "varint_len v = varint_len_loop v 1"

record utxo_entry =
  txid :: bytes
  vout :: u32
  amount :: u64

fun parse_utxo_loop :: "bytes \<Rightarrow> nat \<Rightarrow> nat \<Rightarrow> utxo_entry list" where
  "parse_utxo_loop data count pos =
     (if count = 0 then []
      else if pos + 32 > length data then []
      else (case try_read_varint (drop (pos + 32) data) of
              Inl e \<Rightarrow> []
            | Inr (v, consumed) \<Rightarrow>
                (let pos' = pos + 32 + consumed
                 in case try_read_varint (drop pos' data) of
                      Inl e \<Rightarrow> []
                    | Inr (a, consumed') \<Rightarrow>
                        \<lparr>txid = slice data pos 32, vout = ucast v, amount = a\<rparr>
                        # parse_utxo_loop data (count - 1) (pos' + consumed'))))"

declare parse_utxo_loop.simps [simp del]

definition parse_utxo_data :: "bytes \<Rightarrow> utxo_entry list" where
  "parse_utxo_data data =
     (if data = [] then []
      else case try_read_varint data of
             Inl e \<Rightarrow> []
           | Inr (count, pos) \<Rightarrow> parse_utxo_loop data (unat count) pos)"

definition serialize_utxo_entry :: "utxo_entry \<Rightarrow> bytes" where
  "serialize_utxo_entry e =
     txid e @ write_varint_loop (ucast (vout e)) @ write_varint_loop (amount e)"

definition serialize_utxo_data :: "utxo_entry list \<Rightarrow> bytes" where
  "serialize_utxo_data entries =
     write_varint (of_nat (length entries)) [] @ concat (map serialize_utxo_entry entries)"

section \<open>Varints\<close>

lemma and_0x7F: "(x :: 'a::len word) AND 0x7F = take_bit 7 x"
  by (simp add: take_bit_eq_mask mask_numeral)

lemma varint_bytes [simp]:
  fixes v :: u64
  shows "(ucast (v AND 0x7F) :: u8) AND 0x80 = 0"
    and "((ucast (v AND 0x7F) :: u8) OR 0x80) AND 0x80 \<noteq> 0"
    and "(ucast ((ucast (v AND 0x7F) :: u8) AND 0x7F) :: u64) = v AND 0x7F"
    and "(ucast (((ucast (v AND 0x7F) :: u8) OR 0x80) AND 0x7F) :: u64) = v AND 0x7F"
proof -
  have [simp]: "bit (0x80 :: int) n \<longleftrightarrow> n = 7" for n
  proof -
    have "bit (2 ^ 7 :: int) n \<longleftrightarrow> n = 7" by (simp only: bit_exp_iff) auto
    then show ?thesis by simp
  qed
  show "(ucast (v AND 0x7F) :: u8) AND 0x80 = 0"
    unfolding and_0x7F by (rule bit_eqI) (auto simp: bit_simps)
  show "((ucast (v AND 0x7F) :: u8) OR 0x80) AND 0x80 \<noteq> 0"
    unfolding and_0x7F by (auto simp: bit_eq_iff bit_simps intro!: exI [of _ 7])
  show "(ucast ((ucast (v AND 0x7F) :: u8) AND 0x7F) :: u64) = v AND 0x7F"
    unfolding and_0x7F by (rule bit_word_eqI) (auto simp: bit_simps)
  show "(ucast (((ucast (v AND 0x7F) :: u8) OR 0x80) AND 0x7F) :: u64) = v AND 0x7F"
    unfolding and_0x7F by (rule bit_word_eqI) (auto simp: bit_simps)
qed

lemma unat_and_0x7F: "unat ((v :: u64) AND 0x7F) = unat v mod 128"
  by (simp only: and_0x7F unsigned_take_bit_eq) (simp add: take_bit_eq_mod)

lemma varint_split: "(v :: u64) = (v AND 0x7F) + drop_bit 7 v * 128"
proof -
  have "v = take_bit 7 v + push_bit 7 (drop_bit 7 v)" by (metis add.commute bits_ident)
  then show ?thesis by (simp add: and_0x7F push_bit_eq_mult)
qed

text \<open>What the reading loop does with one byte of a value written at bit \<open>s\<close>.\<close>

lemma acc_step:
  assumes "unat acc < 2 ^ s"
  shows "acc OR push_bit s x = acc + x * 2 ^ s"
  using word_or_disjoint_add [OF assms, of x] by (simp add: push_bit_eq_mult)

lemma acc_step_bound:
  fixes acc v :: u64
  assumes "unat acc < 2 ^ s" and "s + 7 < 64"
  shows "unat (acc + (v AND 0x7F) * 2 ^ s) < 2 ^ (s + 7)"
proof -
  have "unat (v AND 0x7F) * 2 ^ s \<le> 127 * 2 ^ s" by (intro mult_right_mono) (auto simp: unat_and_0x7F)
  moreover have "(2 :: nat) ^ (s + 7) = 128 * 2 ^ s" by (simp add: power_add)
  ultimately have lt: "unat acc + unat (v AND 0x7F) * 2 ^ s < 2 ^ (s + 7)"
    using assms(1) by linarith
  also have "(2 :: nat) ^ (s + 7) < 2 ^ 64" using assms(2) by (intro power_strict_increasing) auto
  finally have "unat (acc + (v AND 0x7F) * 2 ^ s) = unat acc + unat (v AND 0x7F) * 2 ^ s"
    using assms(2) by (simp add: unat_word_ariths unat_pow2)
  with lt show ?thesis by simp
qed

lemma read_write_varint_loop:
  assumes "unat acc < 2 ^ s" and "unat v * 2 ^ s < 2 ^ 64"
  shows "try_read_varint_loop (take m (write_varint_loop v @ rest)) i acc s =
    (if m < length (write_varint_loop v) then Inl Truncated
     else Inr (acc + v * 2 ^ s, i + length (write_varint_loop v)))"
  using assms
proof (induction v arbitrary: i acc s m rule: write_varint_loop.induct)
  case (1 v)
  let ?v' = "drop_bit 7 v"
  show ?case
  proof (cases "?v' = 0")
    case True
    then have v: "v AND 0x7F = v" using varint_split [of v] by simp
    have "try_read_varint_loop (take m (write_varint_loop v @ rest)) i acc s =
      (if m < 1 then Inl Truncated else Inr (acc + (v AND 0x7F) * 2 ^ s, i + 1))"
      using True 1(2) by (subst write_varint_loop.simps) (cases m, auto simp: acc_step simp del: push_bit_and)
    then show ?thesis unfolding v using True by (subst (2 3) write_varint_loop.simps) simp
  next
    case False
    then have big: "128 \<le> unat v" by (metis div_less not_le unat_drop_bit_7 unat_eq_zero)
    then have "128 * 2 ^ s \<le> unat v * 2 ^ s" by (intro mult_right_mono) auto
    moreover have "(2 :: nat) ^ (s + 7) = 128 * 2 ^ s" by (simp add: power_add)
    ultimately have "(2 :: nat) ^ (s + 7) < 2 ^ 64" using 1(3) by linarith
    then have s: "s + 7 < 64" by (simp only: power_strict_increasing_iff)
    have "unat ?v' * 2 ^ (s + 7) \<le> unat v * 2 ^ s" by (simp add: unat_drop_bit_7 power_add)
    then have "unat ?v' * 2 ^ (s + 7) < 2 ^ 64" using 1(3) by linarith
    note IH = 1(1) [OF refl refl False acc_step_bound [OF 1(2) s, of v] this]
    have "acc + (v AND 0x7F) * 2 ^ s + ?v' * 2 ^ (s + 7) = acc + v * 2 ^ s"
      by (subst (3) varint_split) (simp add: power_add algebra_simps)
    with False s 1(2) IH show ?thesis
      by (subst (1 2 3) write_varint_loop.simps)
        (cases m, auto simp: acc_step simp del: push_bit_and take_append)
  qed
qed

lemma try_read_write_varint:
  "try_read_varint (take m (write_varint_loop v @ rest)) =
     (if m < length (write_varint_loop v) then Inl Truncated
      else Inr (v, length (write_varint_loop v)))"
proof -
  have "unat v * 2 ^ 0 < 2 ^ 64" using unsigned_less [of v, where 'a = nat] by simp
  from read_write_varint_loop [OF _ this, of 0] show ?thesis
    by (simp add: try_read_varint_def del: take_append)
qed

lemma length_write_varint_loop_le:
  "unat v < 2 ^ (7 * Suc n) \<Longrightarrow> length (write_varint_loop v) \<le> Suc n"
proof (induction n arbitrary: v)
  case 0
  then have "unat (drop_bit 7 v) = 0" by (simp add: unat_drop_bit_7)
  then have "drop_bit 7 v = 0" by (simp only: unat_eq_zero)
  then show ?case by (subst write_varint_loop.simps) simp
next
  case (Suc n)
  have "2 ^ (7 * Suc (Suc n)) = (2 :: nat) ^ (7 * Suc n) * 128" by (simp add: power_add)
  with Suc.prems have "unat (drop_bit 7 v) < 2 ^ (7 * Suc n)"
    by (simp only: unat_drop_bit_7 less_mult_imp_div_less)
  then have "length (write_varint_loop (drop_bit 7 v)) \<le> Suc n" by (rule Suc.IH)
  then show ?case by (subst write_varint_loop.simps) (simp add: Let_def)
qed

lemma write_varint_loop_not_Nil [simp]: "write_varint_loop v \<noteq> []"
  by (subst write_varint_loop.simps) (simp add: Let_def)

lemma varint_len_loop_eq: "varint_len_loop v n + 1 = n + length (write_varint_loop v)"
proof (induction v n rule: varint_len_loop.induct)
  case (1 v n)
  have "v \<ge> 0x80 \<longleftrightarrow> drop_bit 7 v \<noteq> 0"
  proof -
    have "v \<ge> 0x80 \<longleftrightarrow> 128 \<le> unat v" by (simp add: word_le_nat_alt)
    also have "\<dots> \<longleftrightarrow> unat (drop_bit 7 v) \<noteq> 0" by (auto simp: unat_drop_bit_7 div_eq_0_iff)
    finally show ?thesis by (simp add: unat_eq_zero)
  qed
  with 1 show ?case
    by (subst varint_len_loop.simps, subst write_varint_loop.simps) auto
qed

section \<open>UTXO records\<close>

text \<open>The entries of which all bytes lie in the first \<open>m\<close> bytes of the records.\<close>

fun complete_entries :: "nat \<Rightarrow> utxo_entry list \<Rightarrow> utxo_entry list" where
  "complete_entries m [] = []"
| "complete_entries m (e # es) =
     (if length (serialize_utxo_entry e) \<le> m
      then e # complete_entries (m - length (serialize_utxo_entry e)) es else [])"

lemma complete_entries_all:
  "length (concat (map serialize_utxo_entry es)) \<le> m \<Longrightarrow> complete_entries m es = es"
  by (induction es arbitrary: m) auto

lemma ucast_vout [simp]: "(ucast (ucast (x :: u32) :: u64) :: u32) = x"
  by (rule bit_word_eqI) (auto simp: bit_simps)

lemma parse_utxo_loop_take:
  assumes "drop pos data = take m (concat (map serialize_utxo_entry es) @ pad)"
    and "pos \<le> length data" and "\<forall>e \<in> set es. length (txid e) = 32"
  shows "parse_utxo_loop data (length es) pos = complete_entries m es"
  using assms
proof (induction es arbitrary: pos m)
  case Nil
  then show ?case by (simp add: parse_utxo_loop.simps)
next
  case (Cons e es)
  let ?v = "write_varint_loop (ucast (vout e) :: u64)" and ?a = "write_varint_loop (amount e)"
  let ?R = "concat (map serialize_utxo_entry es) @ pad"
  have len: "length (txid e) = 32" using Cons.prems(3) by simp
  have d: "drop pos data = take m (txid e @ ?v @ ?a @ ?R)"
    using Cons.prems(1) by (simp add: serialize_utxo_entry_def [of e] del: take_append)
  have drop_at: "drop (pos + j) data = take (m - j) (drop j (txid e @ ?v @ ?a @ ?R))" for j
    using d by (metis add.commute drop_drop drop_take)
  have lend: "length data - pos = length (take m (txid e @ ?v @ ?a @ ?R))"
    using d by (metis length_drop)
  have ser: "length (serialize_utxo_entry e) = 32 + length ?v + length ?a"
    by (simp add: serialize_utxo_entry_def len)
  have v: "try_read_varint (drop (pos + 32) data) =
    (if m - 32 < length ?v then Inl Truncated else Inr (ucast (vout e), length ?v))"
    unfolding drop_at using try_read_write_varint [of "m - 32" "ucast (vout e)" "?a @ ?R"]
    by (simp add: len del: take_append)
  have a: "try_read_varint (drop (pos + 32 + length ?v) data) =
    (if m - (32 + length ?v) < length ?a then Inl Truncated else Inr (amount e, length ?a))"
    unfolding add.assoc drop_at using try_read_write_varint [of "m - (32 + length ?v)" "amount e" ?R]
    by (simp add: len del: take_append)
  show ?case
  proof (cases "length (serialize_utxo_entry e) \<le> m")
    case False
    with lend len v a ser show ?thesis
      by (subst parse_utxo_loop.simps) (auto split: if_splits)
  next
    case True
    let ?n = "length (serialize_utxo_entry e)"
    have "parse_utxo_loop data (length es) (pos + ?n) = complete_entries (m - ?n) es"
      using True lend Cons.prems(2,3)
      by (intro Cons.IH) (auto simp: drop_at ser len simp del: take_append)
    moreover have "slice data pos 32 = txid e" using True ser by (simp add: slice_def d len)
    ultimately show ?thesis
      using True lend len v a ser Cons.prems(2)
      by (subst parse_utxo_loop.simps) (auto simp: add.assoc)
  qed
qed

lemma parse_utxo_data_take:
  assumes "\<forall>e \<in> set es. length (txid e) = 32" and "length es < 2 ^ 64"
  defines "h \<equiv> length (write_varint_loop (of_nat (length es)))"
  shows "parse_utxo_data (take m (serialize_utxo_data es @ pad)) = complete_entries (m - h) es"
proof -
  let ?w = "write_varint_loop (of_nat (length es))" and ?R = "concat (map serialize_utxo_entry es) @ pad"
  let ?d = "take m (?w @ ?R)"
  have u: "unat (of_nat (length es) :: u64) = length es"
    using assms(2) by (simp add: unat_of_nat take_bit_nat_eq_self)
  have Nil: "complete_entries 0 es = []"
    using assms(1) by (cases es) (auto simp: serialize_utxo_entry_def)
  have "parse_utxo_loop ?d (length es) h = complete_entries (m - h) es" if "h \<le> m"
    using that assms(1) by (intro parse_utxo_loop_take) (auto simp: h_def drop_take)
  then have "parse_utxo_data ?d = complete_entries (m - h) es"
    using Nil try_read_write_varint [of m "of_nat (length es)" ?R] u
    by (auto simp: parse_utxo_data_def h_def not_less simp del: take_append)
  then show ?thesis by (simp add: serialize_utxo_data_def write_varint_def)
qed

section \<open>Properties\<close>

text \<open>
  C35: Reading back a written varint, whatever follows it, gives the value and the length that
  \<open>varint_len\<close> predicts (1 to 10 bytes), and every proper prefix of the encoding is reported as
  truncated.
\<close>

theorem varint_roundtrip:
  "try_read_varint (take m (write_varint v [] @ rest)) =
     (if m < varint_len v then Inl Truncated else Inr (v, varint_len v)) \<and>
   length (write_varint v []) = varint_len v \<and> 1 \<le> varint_len v \<and> varint_len v \<le> 10"
proof -
  have l: "varint_len v = length (write_varint_loop v)"
    using varint_len_loop_eq [of v 1] by (simp add: varint_len_def)
  have "unat v < 2 ^ (7 * Suc 9)" using unsigned_less [of v, where 'a = nat] by simp
  then have "length (write_varint_loop v) \<le> 10" using length_write_varint_loop_le [of v 9] by simp
  with l show ?thesis
    using try_read_write_varint [of m v rest]
    by (auto simp: write_varint_def Suc_le_eq simp del: take_append)
qed

text \<open>
  C11: Parsing the serialisation of a list of entries, followed by any padding and cut after any
  number of bytes, yields exactly the entries that are complete in what is left.
\<close>

theorem parse_utxo_data_truncated:
  assumes "\<forall>e \<in> set es. length (txid e) = 32" and "length es < 2 ^ 64"
  shows "parse_utxo_data (take m (serialize_utxo_data es @ pad)) =
    complete_entries (m - varint_len (of_nat (length es))) es"
  using parse_utxo_data_take [OF assms] varint_len_loop_eq [of "of_nat (length es)" 1]
  by (simp add: varint_len_def)

theorem parse_utxo_data_truncated_witness:
  "parse_utxo_data (take 70 (serialize_utxo_data
      [\<lparr>txid = replicate 32 7, vout = 1, amount = 300\<rparr>, \<lparr>txid = replicate 32 9, vout = 0, amount = 5\<rparr>] @ [0, 0]))
   = [\<lparr>txid = replicate 32 7, vout = 1, amount = 300\<rparr>, \<lparr>txid = replicate 32 9, vout = 0, amount = 5\<rparr>] \<and>
   parse_utxo_data (take 69 (serialize_utxo_data
      [\<lparr>txid = replicate 32 7, vout = 1, amount = 300\<rparr>, \<lparr>txid = replicate 32 9, vout = 0, amount = 5\<rparr>] @ [0, 0]))
   = [\<lparr>txid = replicate 32 7, vout = 1, amount = 300\<rparr>]"
proof -
  note [simp] = write_varint_loop.simps [of 1] write_varint_loop.simps [of 300]
    write_varint_loop.simps [of 0] write_varint_loop.simps [of 5] write_varint_loop.simps [of 2]
    write_varint_loop.simps
  show ?thesis
    by (subst (1 2) parse_utxo_data_truncated)
      (simp_all add: serialize_utxo_entry_def varint_len_def varint_len_loop.simps)
qed

text \<open>
  C39: In a ten-byte varint the reader keeps only the lowest payload bit of the last byte: every
  last byte with the same lowest bit decodes to the same value, so an encoding of a number of more
  than 64 bits is accepted and not reported as too large.
\<close>

theorem tenth_byte_bits_dropped:
  assumes "length bs = 9" and "\<forall>b \<in> set bs. b AND 0x80 \<noteq> 0" and "b AND 0x80 = 0"
  shows "\<exists>v. try_read_varint (bs @ [b]) = Inr (v, 10) \<and> try_read_varint (bs @ [b AND 1]) = Inr (v, 10)"
proof -
  have "\<exists>acc. \<forall>b. try_read_varint_loop (bs @ [b]) i a s = try_read_varint_loop [b] (i + n) acc (s + 7 * n)"
    if "length bs = n" "s + 7 * n < 64" "\<forall>b \<in> set bs. b AND 0x80 \<noteq> 0" for bs i a s n
    using that
  proof (induction bs arbitrary: n i a s)
    case (Cons c bs)
    then obtain m where "n = Suc m" by (cases n) auto
    with Cons show ?case
      using Cons.IH [of m "s + 7" "i + 1" "a OR push_bit s (ucast (c AND 0x7F))"]
      by (simp add: Let_def ac_simps del: try_read_varint_loop.simps(2) push_bit_and)
         (simp add: Let_def ac_simps del: push_bit_and)
  qed auto
  from this [of bs 9 0 0 0] obtain acc where
    acc: "\<And>b. try_read_varint (bs @ [b]) = try_read_varint_loop [b] 9 acc 63"
    using assms(1,2) by (auto simp: try_read_varint_def)
  have "push_bit 63 (ucast (b AND 0x7F) :: u64) = push_bit 63 (ucast (b AND 1 AND 0x7F))"
    unfolding and_0x7F by (rule bit_word_eqI) (auto simp: bit_simps)
  then show ?thesis using assms(3) by (simp add: acc Let_def and.assoc del: push_bit_and)
qed

theorem tenth_byte_bits_dropped_witness:
  "try_read_varint (replicate 9 0xFF @ [0x7F]) = try_read_varint (replicate 9 0xFF @ [1])"
proof -
  have "(0x7F :: u8) AND 1 = 1" by simp
  then show ?thesis using tenth_byte_bits_dropped [of "replicate 9 0xFF" "0x7F"] by auto
qed

end
