(* ===== verification/Sha256.thy ===== *)
theory Sha256
  imports Bpir_Prelude
begin

text \<open>
  The SHA-256 implementation of \<open>crates/protocol/core/src/merkle.rs\<close>, on 32-bit words: padding,
  message schedule, the 64 rounds on eight registers, and the big-endian output.
\<close>

section \<open>Definitions\<close>

definition HASH_SIZE :: nat where "HASH_SIZE = 32"

definition ZERO_HASH :: bytes where "ZERO_HASH = replicate HASH_SIZE 0"

definition rotate_right :: "nat \<Rightarrow> u32 \<Rightarrow> u32" where
  "rotate_right n x = drop_bit n x OR push_bit (32 - n) x"

definition sha256_K :: "u32 list" where
  "sha256_K =
     [1116352408, 1899447441, 3049323471, 3921009573, 961987163, 1508970993,
      2453635748, 2870763221, 3624381080, 310598401, 607225278, 1426881987,
      1925078388, 2162078206, 2614888103, 3248222580, 3835390401, 4022224774,
      264347078, 604807628, 770255983, 1249150122, 1555081692, 1996064986,
      2554220882, 2821834349, 2952996808, 3210313671, 3336571891, 3584528711,
      113926993, 338241895, 666307205, 773529912, 1294757372, 1396182291,
      1695183700, 1986661051, 2177026350, 2456956037, 2730485921, 2820302411,
      3259730800, 3345764771, 3516065817, 3600352804, 4094571909, 275423344,
      430227734, 506948616, 659060556, 883997877, 958139571, 1322822218,
      1537002063, 1747873779, 1955562222, 2024104815, 2227730452, 2361852424,
      2428436474, 2756734187, 3204031479, 3329325298]"

type_synonym sha_state = "u32 \<times> u32 \<times> u32 \<times> u32 \<times> u32 \<times> u32 \<times> u32 \<times> u32"

definition sha256_H0 :: sha_state where
  "sha256_H0 =
     (1779033703, 3144134277, 1013904242, 2773480762, 1359893119, 2600822924,
      528734635, 1541459225)"

function pad_zeros :: "bytes \<Rightarrow> bytes" where
  "pad_zeros padded = (if length padded mod 64 \<noteq> 56 then pad_zeros (padded @ [0]) else padded)"
  by pat_completeness auto
termination
proof (relation "measure (\<lambda>p. let m = length p mod 64 in if m \<le> 56 then 56 - m else 120 - m)",
    goal_cases)
  case (2 p)
  have "length p mod 64 < 64" by simp
  with 2 show ?case by (auto simp: Let_def mod_Suc)
qed simp

declare pad_zeros.simps [simp del]

definition sha256_pad :: "bytes \<Rightarrow> bytes" where
  "sha256_pad data =
     (let bit_len = of_nat (length data) * 8 :: u64
      in pad_zeros (data @ [0x80]) @ u64_to_be bit_len)"

definition schedule_init :: "bytes \<Rightarrow> u32 list" where
  "schedule_init block = map (\<lambda>i. u32_from_be (slice block (i * 4) 4)) [0..<16]"

text \<open>\<open>w[i]\<close> for \<open>i\<close> from 16: the words computed so far are a list of length \<open>i\<close>.\<close>

definition schedule_step :: "u32 list \<Rightarrow> nat \<Rightarrow> u32 list" where
  "schedule_step w i =
     (let w15 = w ! (i - 15); w2 = w ! (i - 2);
          s0 = rotate_right 7 w15 XOR rotate_right 18 w15 XOR drop_bit 3 w15;
          s1 = rotate_right 17 w2 XOR rotate_right 19 w2 XOR drop_bit 10 w2
      in w @ [w ! (i - 16) + s0 + w ! (i - 7) + s1])"

definition schedule :: "bytes \<Rightarrow> u32 list" where
  "schedule block = foldl schedule_step (schedule_init block) [16..<64]"

fun sha_round :: "sha_state \<Rightarrow> u32 \<times> u32 \<Rightarrow> sha_state" where
  "sha_round (a, b, c, d, e, f, g, hh) (ki, wi) =
     (let s1 = rotate_right 6 e XOR rotate_right 11 e XOR rotate_right 25 e;
          ch = (e AND f) XOR (NOT e AND g);
          temp1 = hh + s1 + ch + ki + wi;
          s0 = rotate_right 2 a XOR rotate_right 13 a XOR rotate_right 22 a;
          maj = (a AND b) XOR (a AND c) XOR (b AND c);
          temp2 = s0 + maj
      in (temp1 + temp2, a, b, c, d + temp1, e, f, g))"

fun state_add :: "sha_state \<Rightarrow> sha_state \<Rightarrow> sha_state" where
  "state_add (h0, h1, h2, h3, h4, h5, h6, h7) (a, b, c, d, e, f, g, hh) =
     (h0 + a, h1 + b, h2 + c, h3 + d, h4 + e, h5 + f, h6 + g, h7 + hh)"

definition compress :: "sha_state \<Rightarrow> bytes \<Rightarrow> sha_state" where
  "compress h block = state_add h (foldl sha_round h (zip sha256_K (schedule block)))"

fun state_to_bytes :: "sha_state \<Rightarrow> bytes" where
  "state_to_bytes (h0, h1, h2, h3, h4, h5, h6, h7) =
     concat (map u32_to_be [h0, h1, h2, h3, h4, h5, h6, h7])"

definition sha256 :: "bytes \<Rightarrow> bytes" where
  "sha256 data = state_to_bytes (foldl compress sha256_H0 (chunks 64 (sha256_pad data)))"

end
