(* ===== verification/Merkle.thy ===== *)
theory Merkle
  imports Sha256
begin

text \<open>
  The Merkle trees of \<open>crates/protocol/core/src/merkle.rs\<close>: leaf and node hashes, and the N-ary
  tree \<open>MerkleTreeN\<close> with its sibling and cache accessors. A collision of the digest is always
  given by an executable function that returns the two preimages: the mere existence of a
  collision is true of every hash function.
\<close>

section \<open>Definitions\<close>

definition compute_bin_leaf_hash :: "u32 \<Rightarrow> bytes \<Rightarrow> bytes" where
  "compute_bin_leaf_hash bin_index bin_content = sha256 (u32_to_le bin_index @ bin_content)"

definition compute_parent_n :: "bytes list \<Rightarrow> bytes" where
  "compute_parent_n children = sha256 (concat children)"

record merkle_tree_n =
  mt_levels :: "bytes list list"
  mt_arity :: nat
  mt_num_real_leaves :: nat

text \<open>The loop of \<open>next_power_of\<close>; the product wraps at 64 bits.\<close>

partial_function (option) next_power_of_loop :: "nat \<Rightarrow> nat \<Rightarrow> nat \<Rightarrow> nat option" where
  "next_power_of_loop n base v =
     (if v < n then next_power_of_loop n base (v * base mod 2 ^ 64) else Some v)"

definition next_power_of :: "nat \<Rightarrow> nat \<Rightarrow> nat option" where
  "next_power_of n base = (if n \<le> 1 then Some 1 else next_power_of_loop n base 1)"

text \<open>The children of node \<open>i\<close> of the next level, an incomplete last group padded.\<close>

definition node_children :: "nat \<Rightarrow> bytes list \<Rightarrow> nat \<Rightarrow> bytes list" where
  "node_children arity prev i =
     (let start = i * arity;
          stop = min (start + arity) (length prev)
      in resize arity ZERO_HASH (slice prev start (stop - start)))"

definition next_level :: "nat \<Rightarrow> bytes list \<Rightarrow> bytes list" where
  "next_level arity prev =
     map (\<lambda>i. compute_parent_n (node_children arity prev i)) [0..<div_ceil (length prev) arity]"

lemma length_next_level [simp]: "length (next_level a prev) = div_ceil (length prev) a"
  by (simp add: next_level_def)

function build_levels :: "nat \<Rightarrow> bytes list \<Rightarrow> bytes list list" where
  "build_levels arity prev =
     (if length prev \<le> 1 \<or> arity < 2 then [prev]
      else prev # build_levels arity (next_level arity prev))"
  by pat_completeness auto
termination
  by (relation "measure (length \<circ> snd)") (auto simp: div_ceil_smaller)

declare build_levels.simps [simp del]

text \<open>\<open>None\<close> is the assertion failure or a padding loop that does not end.\<close>

definition merkle_build :: "bytes list \<Rightarrow> nat \<Rightarrow> merkle_tree_n option" where
  "merkle_build leaf_hashes arity =
     (if arity < 2 then None
      else case next_power_of (length leaf_hashes) arity of
             None \<Rightarrow> None
           | Some num_leaves \<Rightarrow>
               Some \<lparr>mt_levels = build_levels arity (resize num_leaves ZERO_HASH leaf_hashes),
                     mt_arity = arity, mt_num_real_leaves = length leaf_hashes\<rparr>)"

definition tree_depth :: "merkle_tree_n \<Rightarrow> nat" where
  "tree_depth t = length (mt_levels t) - 1"

definition tree_num_leaves :: "merkle_tree_n \<Rightarrow> nat" where
  "tree_num_leaves t = length (mt_levels t ! 0)"

definition tree_root :: "merkle_tree_n \<Rightarrow> bytes" where
  "tree_root t = mt_levels t ! tree_depth t ! 0"

definition siblings_of :: "merkle_tree_n \<Rightarrow> nat \<Rightarrow> nat \<Rightarrow> bytes list option" where
  "siblings_of t level local_idx =
     (if mt_arity t = 0 \<or> length (mt_levels t) \<le> level then None
      else (let a = mt_arity t;
                first_child = local_idx div a * a;
                level_nodes = mt_levels t ! level
            in Some (map (\<lambda>c. if c < length level_nodes then level_nodes ! c else ZERO_HASH)
                 (filter (\<lambda>c. c \<noteq> local_idx) [first_child..<first_child + a]))))"

fun first_small :: "nat \<Rightarrow> bytes list list \<Rightarrow> nat \<Rightarrow> nat option" where
  "first_small threshold [] i = None"
| "first_small threshold (level # levels) i =
     (if length level \<le> threshold then Some i else first_small threshold levels (i + 1))"

definition tree_top_cache :: "merkle_tree_n \<Rightarrow> nat \<Rightarrow> nat \<times> bytes list list" where
  "tree_top_cache t threshold =
     (let cache_from_level = (case first_small threshold (mt_levels t) 0 of
            None \<Rightarrow> tree_depth t | Some i \<Rightarrow> i)
      in (cache_from_level, drop cache_from_level (mt_levels t)))"

section \<open>The digest as an interface\<close>

definition collision :: "(bytes \<Rightarrow> bytes) \<Rightarrow> bytes \<times> bytes \<Rightarrow> bool" where
  "collision digest pq \<longleftrightarrow> fst pq \<noteq> snd pq \<and> digest (fst pq) = digest (snd pq)"

lemma concat_fixed_inject:
  assumes "\<forall>x \<in> set xs. length x = n" and "\<forall>y \<in> set ys. length y = n"
    and "length xs = length ys" and "concat xs = concat ys"
  shows "xs = ys"
  using assms(3,1,2,4) by (induction xs ys rule: list_induct2) auto

text \<open>What a client of a hash function relies on: outputs of 32 bytes. Equal digests of two lists
  of hashes then show the lists equal, unless the two concatenations are a collision.\<close>

locale digest32 =
  fixes digest :: "bytes \<Rightarrow> bytes"
  assumes length_digest: "length (digest p) = 32"
begin

lemma digest_binds:
  assumes "digest p = digest q" and "\<not> collision digest (p, q)"
  shows "p = q"
  using assms by (auto simp: collision_def)

lemma digest_concat_binds:
  assumes "digest (concat xs) = digest (concat ys)" and "\<not> collision digest (concat xs, concat ys)"
    and "\<forall>x \<in> set xs. length x = 32" and "\<forall>y \<in> set ys. length y = 32"
    and "length xs = length ys"
  shows "xs = ys"
  using digest_binds [OF assms(1,2)] assms(3-5) concat_fixed_inject by metis

end

lemma length_sha256 [simp]: "length (sha256 data) = 32"
proof -
  have "length (state_to_bytes h) = 32" for h by (cases h rule: state_to_bytes.cases) simp
  then show ?thesis by (simp add: sha256_def)
qed

interpretation sha: digest32 sha256
  by unfold_locales simp

lemma length_ZERO_HASH [simp]: "length ZERO_HASH = 32"
  by (simp add: ZERO_HASH_def HASH_SIZE_def)

lemma length_leaf_parent [simp]:
  "length (compute_bin_leaf_hash i c) = 32" "length (compute_parent_n cs) = 32"
  by (simp_all add: compute_bin_leaf_hash_def compute_parent_n_def)

section \<open>Levels\<close>

lemma length_node_children [simp]: "length (node_children a prev i) = a"
  by (simp add: node_children_def Let_def)

lemma nth_node_children:
  "c < a \<Longrightarrow> node_children a prev i ! c =
     (if i * a + c < length prev then prev ! (i * a + c) else ZERO_HASH)"
  by (auto simp: node_children_def nth_resize slice_def min_def Let_def)

lemma node_children_32:
  assumes "\<forall>x \<in> set prev. length x = 32"
  shows "\<forall>x \<in> set (node_children a prev i). length x = 32"
proof
  fix x assume "x \<in> set (node_children a prev i)"
  then obtain c where "c < a" "x = node_children a prev i ! c" by (metis in_set_conv_nth length_node_children)
  then show "length x = 32" using assms by (simp add: nth_node_children)
qed

lemma nth_next_level:
  "i < div_ceil (length prev) a \<Longrightarrow> next_level a prev ! i = compute_parent_n (node_children a prev i)"
  by (simp add: next_level_def)

lemma next_level_32: "\<forall>x \<in> set (next_level a prev). length x = 32"
  by (auto simp: next_level_def)

lemma build_levels_not_Nil [simp]: "build_levels a xs \<noteq> []"
  by (subst build_levels.simps) simp

lemma build_levels_0 [simp]: "build_levels a xs ! 0 = xs"
  by (subst build_levels.simps) simp

lemma build_levels_Suc:
  "Suc l < length (build_levels a xs) \<Longrightarrow>
     build_levels a xs ! Suc l = next_level a (build_levels a xs ! l)"
proof (induction a xs arbitrary: l rule: build_levels.induct)
  case (1 a xs)
  show ?case
  proof (cases "length xs \<le> 1 \<or> a < 2")
    case True
    then show ?thesis using 1(2) by (simp add: build_levels.simps)
  next
    case False
    then have eq: "build_levels a xs = xs # build_levels a (next_level a xs)"
      by (simp add: build_levels.simps)
    show ?thesis
    proof (cases l)
      case (Suc m)
      then show ?thesis using 1(1) [OF False, of m] 1(2) by (simp add: eq)
    qed (simp add: eq)
  qed
qed

lemma build_levels_last:
  "2 \<le> a \<Longrightarrow> xs \<noteq> [] \<Longrightarrow> length (last (build_levels a xs)) = 1"
proof (induction a xs rule: build_levels.induct)
  case (1 a xs)
  show ?case
  proof (cases "length xs \<le> 1")
    case True
    with 1(3) have "length xs = 1" by (cases xs) auto
    then show ?thesis by (simp add: build_levels.simps)
  next
    case False
    then have "next_level a xs \<noteq> []"
      using less_div_ceil_iff [of a 0 "length xs"] 1(2) by (metis False length_greater_0_conv
          length_next_level le_zero_eq linorder_not_less mult_zero_left not_numeral_le_zero zero_le)
    then show ?thesis using 1 False by (subst build_levels.simps) auto
  qed
qed

lemma build_levels_32:
  assumes "\<forall>x \<in> set xs. length x = 32"
  shows "l < length (build_levels a xs) \<Longrightarrow> \<forall>x \<in> set (build_levels a xs ! l). length x = 32"
  using assms next_level_32 by (cases l) (auto simp: build_levels_Suc)

lemma node_children_map:
  "node_children a prev p =
     map (\<lambda>c. if c < length prev then prev ! c else ZERO_HASH) [p * a..<p * a + a]"
  by (rule nth_equalityI) (auto simp: nth_node_children)

lemma filter_neq_upt:
  assumes "m \<le> i" and "i < n"
  shows "filter (\<lambda>c. c \<noteq> i) [m..<n] = [m..<i] @ [Suc i..<n]"
proof -
  have "[m..<n] = [m..<i] @ i # [Suc i..<n]"
    using assms by (metis le_add_diff_inverse less_imp_le_nat upt_add_eq_append upt_conv_Cons)
  then show ?thesis by (simp add: filter_id_conv)
qed

lemma siblings_of_children:
  assumes "0 < mt_arity t" and "l < length (mt_levels t)" and "i < length (mt_levels t ! l)"
  defines "a \<equiv> mt_arity t"
  shows "\<exists>sibs. siblings_of t l i = Some sibs \<and> length sibs = a - 1 \<and>
    node_children a (mt_levels t ! l) (i div a) =
      take (i mod a) sibs @ [mt_levels t ! l ! i] @ drop (i mod a) sibs"
proof -
  let ?f = "\<lambda>c. if c < length (mt_levels t ! l) then mt_levels t ! l ! c else ZERO_HASH"
  let ?m = "i div a * a"
  have i: "?m \<le> i" "i < ?m + a" using assms(1) by (simp_all add: a_def)
      (metis add.commute assms(1) dividend_less_times_div mult.commute)
  have r: "i - ?m = i mod a" by (simp add: minus_div_mult_eq_mod)
  let ?sibs = "map ?f [?m..<i] @ map ?f [Suc i..<?m + a]"
  have s: "siblings_of t l i = Some ?sibs"
    using assms(1,2) filter_neq_upt [OF i] by (simp add: siblings_of_def Let_def a_def)
  have n: "node_children a (mt_levels t ! l) (i div a) =
      map ?f [?m..<i] @ [mt_levels t ! l ! i] @ map ?f [Suc i..<?m + a]"
  proof -
    have "[?m..<?m + a] = [?m..<i] @ i # [Suc i..<?m + a]"
      using i by (metis le_add_diff_inverse less_imp_le_nat upt_add_eq_append upt_conv_Cons)
    then show ?thesis using assms(3) by (simp add: node_children_map)
  qed
  have l: "length ?sibs = a - 1" using i by simp
  have t: "take (i mod a) ?sibs = map ?f [?m..<i]" "drop (i mod a) ?sibs = map ?f [Suc i..<?m + a]"
    using r by auto
  show ?thesis by (intro exI [of _ ?sibs] conjI s l) (simp only: n t)
qed

section \<open>Binding\<close>

text \<open>The collision that two different leaf levels under one root give away: at the first level
  from the leaves whose parents agree, the first group of children that differs.\<close>

function tree_collision :: "nat \<Rightarrow> bytes list \<Rightarrow> bytes list \<Rightarrow> (bytes \<times> bytes) option" where
  "tree_collision a xs ys =
     (if length xs \<le> 1 \<or> a < 2 then None
      else if next_level a xs = next_level a ys
      then map_option (\<lambda>i. (concat (node_children a xs i), concat (node_children a ys i)))
             (find (\<lambda>i. node_children a xs i \<noteq> node_children a ys i) [0..<div_ceil (length xs) a])
      else tree_collision a (next_level a xs) (next_level a ys))"
  by pat_completeness auto
termination
  by (relation "measure (\<lambda>(a, xs, ys). length xs)") (auto simp: div_ceil_smaller)

declare tree_collision.simps [simp del]

lemma node_children_differ:
  assumes "length xs = length ys" and "xs \<noteq> ys" and "0 < a"
  shows "\<exists>i < div_ceil (length xs) a. node_children a xs i \<noteq> node_children a ys i"
proof -
  obtain j where j: "j < length xs" "xs ! j \<noteq> ys ! j" using assms(1,2) nth_equalityI by blast
  have "node_children a xs (j div a) ! (j mod a) \<noteq> node_children a ys (j div a) ! (j mod a)"
    using j assms(1,3) by (simp add: nth_node_children)
  then show ?thesis using div_less_div_ceil [OF assms(3) j(1)] by metis
qed

lemma tree_collision_found:
  assumes "2 \<le> a" and "length xs = length ys" and "xs \<noteq> ys"
    and "\<forall>x \<in> set xs. length x = 32" and "\<forall>y \<in> set ys. length y = 32"
    and "last (build_levels a xs) = last (build_levels a ys)"
  shows "\<exists>pq. tree_collision a xs ys = Some pq \<and> collision sha256 pq"
  using assms
proof (induction a xs ys rule: tree_collision.induct)
  case (1 a xs ys)
  have len: "\<not> (length xs \<le> 1 \<or> a < 2)"
  proof
    assume "length xs \<le> 1 \<or> a < 2"
    then have "build_levels a xs = [xs]" "build_levels a ys = [ys]"
      using 1(2,3) by (simp_all add: build_levels.simps)
    with 1(4,7) show False by simp
  qed
  show ?case
  proof (cases "next_level a xs = next_level a ys")
    case True
    let ?P = "\<lambda>i. node_children a xs i \<noteq> node_children a ys i"
    obtain i where i: "find ?P [0..<div_ceil (length xs) a] = Some i"
      using node_children_differ [OF 1(3,4), of a] len
      by (cases "find ?P [0..<div_ceil (length xs) a]") (auto simp: find_None_iff)
    then have i': "i < div_ceil (length xs) a" "?P i" by (auto simp: find_Some_iff)
    have "compute_parent_n (node_children a xs i) = compute_parent_n (node_children a ys i)"
      using True i'(1) 1(3) by (metis nth_next_level)
    then have "sha256 (concat (node_children a xs i)) = sha256 (concat (node_children a ys i))"
      by (simp add: compute_parent_n_def)
    from sha.digest_concat_binds [OF this _ node_children_32 [OF 1(5)] node_children_32 [OF 1(6)]] i'(2)
    have "collision sha256 (concat (node_children a xs i), concat (node_children a ys i))" by auto
    then show ?thesis using True len i by (subst tree_collision.simps) simp
  next
    case False
    have "last (build_levels a (next_level a xs)) = last (build_levels a (next_level a ys))"
      using 1(7) len 1(3) by (subst (asm) (1 2) build_levels.simps) simp
    with 1(1) [OF len False] 1(2,3) False len next_level_32 show ?thesis
      by (subst tree_collision.simps) simp
  qed
qed

section \<open>The shape of a built tree\<close>

lemma next_power_of_loop_returns:
  assumes "2 \<le> b" and "n \<le> b ^ e" and "b ^ e < 2 ^ 64" and "i \<le> e" and "0 < i \<Longrightarrow> b ^ (i - 1) < n"
  shows "\<exists>m\<le>e. next_power_of_loop n b (b ^ i) = Some (b ^ m) \<and> n \<le> b ^ m \<and> (0 < m \<longrightarrow> b ^ (m - 1) < n)"
  using assms(4,5)
proof (induction "e - i" arbitrary: i)
  case 0
  then show ?case using assms(2) by (subst next_power_of_loop.simps) auto
next
  case (Suc d)
  show ?case
  proof (cases "b ^ i < n")
    case True
    have lt: "b ^ Suc i < 2 ^ 64"
    proof -
      have "b ^ Suc i \<le> b ^ e" using Suc.hyps(2) assms(1) by (intro power_increasing) auto
      then show ?thesis using assms(3) by linarith
    qed
    have "\<exists>m\<le>e. next_power_of_loop n b (b ^ Suc i) = Some (b ^ m) \<and> n \<le> b ^ m \<and> (0 < m \<longrightarrow> b ^ (m - 1) < n)"
      by (rule Suc.hyps(1)) (use Suc.hyps(2) True in auto)
    then show ?thesis using True lt by (subst next_power_of_loop.simps) (simp add: mult.commute)
  next
    case False
    then show ?thesis using Suc by (subst next_power_of_loop.simps) auto
  qed
qed

lemma next_power_of_returns:
  assumes "2 \<le> b" and "n \<le> b ^ e" and "b ^ e < 2 ^ 64"
  shows "\<exists>m\<le>e. next_power_of n b = Some (b ^ m) \<and> n \<le> b ^ m \<and> (0 < m \<longrightarrow> b ^ (m - 1) < n)"
  using next_power_of_loop_returns [OF assms, of 0]
  by (cases "n \<le> 1") (auto simp: next_power_of_def intro: exI [of _ 0])

lemma build_levels_perfect:
  "2 \<le> a \<Longrightarrow> length xs = a ^ m \<Longrightarrow>
     length (build_levels a xs) = Suc m \<and> (\<forall>l \<le> m. length (build_levels a xs ! l) = a ^ (m - l))"
proof (induction m arbitrary: xs)
  case 0
  then show ?case by (simp add: build_levels.simps)
next
  case (Suc m)
  have "1 < length xs" using Suc.prems by (metis One_nat_def Suc_1 Suc_le_lessD one_less_power zero_less_Suc)
  then have eq: "build_levels a xs = xs # build_levels a (next_level a xs)"
    using Suc.prems(1) by (subst build_levels.simps) simp
  have "length (next_level a xs) = a ^ m"
    using Suc.prems by simp
  from Suc.IH [OF Suc.prems(1) this] Suc.prems(2) show ?case
    by (auto simp: eq nth_Cons' le_diff_conv less_Suc_eq_0_disj not_less_eq_eq [symmetric])
qed

lemma merkle_build_SomeD:
  assumes "merkle_build ls a = Some t"
  shows "2 \<le> a \<and> mt_arity t = a \<and> (\<exists>p. next_power_of (length ls) a = Some p \<and>
    mt_levels t = build_levels a (resize p ZERO_HASH ls))"
  using assms by (auto simp: merkle_build_def split: if_splits option.splits)

lemma tree_root_last:
  assumes "merkle_build ls a = Some t"
  shows "tree_root t = last (mt_levels t) ! 0"
  using merkle_build_SomeD [OF assms]
  by (auto simp: tree_root_def tree_depth_def last_conv_nth)

section \<open>Properties\<close>

text \<open>
  C33: As long as the next power of the arity fits in 64 bits, \<open>MerkleTreeN::build\<close> returns a perfect
  tree: its depth is the least one that holds the leaves, level \<open>l\<close> has \<open>arity ^ (depth - l)\<close> nodes,
  and the leaves are kept and followed by zero hashes.
\<close>

theorem merkle_build_shape:
  assumes "2 \<le> a" and "length ls \<le> a ^ e" and "a ^ e < 2 ^ 64"
  shows "\<exists>t m. merkle_build ls a = Some t \<and> tree_depth t = m \<and> m \<le> e \<and>
    length ls \<le> a ^ m \<and> (0 < m \<longrightarrow> a ^ (m - 1) < length ls) \<and>
    (\<forall>l \<le> m. length (mt_levels t ! l) = a ^ (m - l)) \<and>
    mt_levels t ! 0 = ls @ replicate (a ^ m - length ls) ZERO_HASH"
proof -
  obtain m where m: "m \<le> e" "next_power_of (length ls) a = Some (a ^ m)" "length ls \<le> a ^ m"
    "0 < m \<longrightarrow> a ^ (m - 1) < length ls"
    using next_power_of_returns [OF assms] by auto
  let ?t = "\<lparr>mt_levels = build_levels a (resize (a ^ m) ZERO_HASH ls), mt_arity = a,
     mt_num_real_leaves = length ls\<rparr>"
  have b: "merkle_build ls a = Some ?t" using assms(1) m(2) by (simp add: merkle_build_def)
  from build_levels_perfect [OF assms(1), of "resize (a ^ m) ZERO_HASH ls" m] m b show ?thesis
    by (intro exI [of _ ?t] exI [of _ m]) (simp add: tree_depth_def resize_def)
qed

theorem merkle_build_shape_witness:
  "\<exists>t m. merkle_build (replicate 9 ZERO_HASH) 8 = Some t \<and> tree_depth t = m \<and> m \<le> 3 \<and>
    length (replicate 9 ZERO_HASH) \<le> 8 ^ m \<and> (0 < m \<longrightarrow> 8 ^ (m - 1) < length (replicate 9 ZERO_HASH)) \<and>
    (\<forall>l \<le> m. length (mt_levels t ! l) = 8 ^ (m - l)) \<and>
    mt_levels t ! 0 = replicate 9 ZERO_HASH @ replicate (8 ^ m - length (replicate 9 ZERO_HASH)) ZERO_HASH"
  by (rule merkle_build_shape) simp_all

text \<open>
  C34: In a built tree the siblings of every node authenticate it: put back at its position among
  them, the node hashes to its parent at the next level, up to the root.
\<close>

theorem siblings_authenticate:
  assumes "merkle_build ls a = Some t" and "l < tree_depth t" and "i < length (mt_levels t ! l)"
  shows "\<exists>sibs. siblings_of t l i = Some sibs \<and> length sibs = a - 1 \<and>
    mt_levels t ! Suc l ! (i div a) =
      compute_parent_n (take (i mod a) sibs @ [mt_levels t ! l ! i] @ drop (i mod a) sibs)"
proof -
  obtain xs where xs: "2 \<le> a" "mt_arity t = a" "mt_levels t = build_levels a xs"
    using merkle_build_SomeD [OF assms(1)] by auto
  have l: "l < length (mt_levels t)" "Suc l < length (build_levels a xs)"
    using assms(2) xs(3) by (auto simp: tree_depth_def)
  have "mt_levels t ! Suc l ! (i div a) = compute_parent_n (node_children a (mt_levels t ! l) (i div a))"
    using assms(3) xs div_less_div_ceil [of a i] by (simp add: build_levels_Suc [OF l(2)] nth_next_level)
  with siblings_of_children [OF _ l(1) assms(3)] xs show ?thesis by auto
qed

theorem siblings_authenticate_witness:
  "\<exists>t. merkle_build [ZERO_HASH, replicate 32 1] 2 = Some t \<and> tree_depth t = 1 \<and>
     (\<exists>sibs. siblings_of t 0 1 = Some sibs \<and>
        mt_levels t ! 1 ! 0 = compute_parent_n (take 1 sibs @ [replicate 32 1] @ drop 1 sibs))"
proof -
  let ?ls = "[ZERO_HASH, replicate 32 1 :: bytes]"
  have p: "next_power_of 2 2 = Some 2"
    by (simp add: next_power_of_def) (subst next_power_of_loop.simps, simp, subst next_power_of_loop.simps, simp)
  let ?t = "\<lparr>mt_levels = build_levels 2 ?ls, mt_arity = 2, mt_num_real_leaves = 2\<rparr>"
  have "next_power_of (length ?ls) 2 = Some 2" using p by (simp add: numeral_2_eq_2)
  then have t: "merkle_build ?ls 2 = Some ?t" by (simp add: merkle_build_def resize_def)
  have d: "tree_depth ?t = 1"
    using build_levels_perfect [of 2 ?ls 1] by (simp add: tree_depth_def)
  from siblings_authenticate [OF t, of 0 1] d t show ?thesis by (intro exI [of _ ?t]) auto
qed

text \<open>
  C24: The root binds the leaves: two leaf lists of the same length with the same root are equal,
  unless the extractor returns two different preimages of one SHA-256 value.
\<close>

theorem merkle_root_binds:
  assumes "merkle_build ls a = Some t" and "merkle_build ls' a = Some t'" and "length ls = length ls'"
    and "\<forall>x \<in> set ls. length x = 32" and "\<forall>x \<in> set ls'. length x = 32"
    and "tree_root t = tree_root t'"
  shows "ls = ls' \<or>
    (\<exists>pq. tree_collision a (mt_levels t ! 0) (mt_levels t' ! 0) = Some pq \<and> collision sha256 pq)"
proof (cases "ls = ls'")
  case neq: False
  obtain p where a: "2 \<le> a" and p: "next_power_of (length ls) a = Some p"
    and lv: "mt_levels t = build_levels a (resize p ZERO_HASH ls)"
      "mt_levels t' = build_levels a (resize p ZERO_HASH ls')"
    using merkle_build_SomeD [OF assms(1)] merkle_build_SomeD [OF assms(2)] assms(3) by auto
  let ?x = "resize p ZERO_HASH ls" and ?y = "resize p ZERO_HASH ls'"
  have p_ge: "length ls \<le> p"
  proof -
    have "n \<le> v" if "next_power_of_loop n b w = Some v" for n b w v
      by (rule next_power_of_loop.raw_induct [where P = "\<lambda>n b w v. n \<le> v", OF _ that])
        (auto split: if_splits)
    then show ?thesis using p by (auto simp: next_power_of_def split: if_splits)
  qed
  have "?x \<noteq> ?y" using neq assms(3) p_ge by (auto simp: resize_def)
  moreover have "\<forall>x \<in> set ?x. length x = 32" "\<forall>y \<in> set ?y. length y = 32"
    using assms(4,5) by (auto simp: resize_def dest: in_set_takeD)
  moreover have "last (build_levels a ?x) = last (build_levels a ?y)"
  proof (cases "p = 0")
    case False
    then have "length (last (build_levels a ?x)) = 1" "length (last (build_levels a ?y)) = 1"
      using build_levels_last [OF a] length_resize [of p ZERO_HASH] by (metis length_0_conv)+
    then show ?thesis
      using assms(6) tree_root_last [OF assms(1)] tree_root_last [OF assms(2)] lv
      by (intro nth_equalityI) auto
  qed (use p_ge neq assms(3) in simp)
  ultimately show ?thesis using tree_collision_found [OF a, of ?x ?y] lv by simp
qed simp

theorem merkle_root_binds_witness:
  "\<exists>t. merkle_build [replicate 32 1] 2 = Some t \<and>
     ([replicate 32 1] = [replicate 32 (1 :: u8)] \<or>
      (\<exists>pq. tree_collision 2 (mt_levels t ! 0) (mt_levels t ! 0) = Some pq \<and> collision sha256 pq))"
proof -
  let ?t = "\<lparr>mt_levels = build_levels 2 [replicate 32 1], mt_arity = 2, mt_num_real_leaves = 1\<rparr>"
  have "merkle_build [replicate 32 1] 2 = Some ?t" by (simp add: merkle_build_def next_power_of_def)
  from merkle_root_binds [OF this this] this show ?thesis by auto
qed

end
