(* ===== verification/Seeds.thy ===== *)
theory Seeds
  imports Merkle
begin

text \<open>
  Chain anchors and the seeds derived from them, \<open>crates/protocol/core/src/seeds.rs\<close>. The SHA-256
  of the \<open>sha2\<close> crate is a parameter \<open>H\<close> of the definitions; a hasher that is updated several
  times hashes the concatenation. Reading and writing the anchor files is left to the caller: a
  loader takes the bytes of the file.
\<close>

section \<open>Definitions\<close>

datatype io_error = InvalidData string

record chain_anchor =
  block_hash :: bytes
  block_height :: u32

record delta_anchor =
  anchor_from :: chain_anchor
  anchor_to :: chain_anchor

text \<open>The two implementations of \<open>SeedContext\<close>.\<close>

datatype seed_context = Snapshot_Ctx chain_anchor | Delta_Ctx delta_anchor

definition str_bytes :: "string \<Rightarrow> bytes" where
  "str_bytes s = map of_char s"

fun absorb :: "seed_context \<Rightarrow> bytes" where
  "absorb (Snapshot_Ctx a) = str_bytes ''snapshot/'' @ u32_to_le (block_height a) @ block_hash a"
| "absorb (Delta_Ctx d) =
     str_bytes ''delta/'' @
     u32_to_le (block_height (anchor_from d)) @ block_hash (anchor_from d) @
     u32_to_le (block_height (anchor_to d)) @ block_hash (anchor_to d)"

definition TAG_PREFIX_V1 :: bytes where
  "TAG_PREFIX_V1 = str_bytes ''BitcoinPIR/seed/v1/''"

definition tagged_preimage :: "(bytes \<Rightarrow> bytes) \<Rightarrow> string \<Rightarrow> seed_context \<Rightarrow> bytes" where
  "tagged_preimage H dm ctx =
     (let tag_hash = H (TAG_PREFIX_V1 @ str_bytes dm) in tag_hash @ tag_hash @ absorb ctx)"

definition tagged_hash :: "(bytes \<Rightarrow> bytes) \<Rightarrow> string \<Rightarrow> seed_context \<Rightarrow> bytes" where
  "tagged_hash H dm ctx = H (tagged_preimage H dm ctx)"

definition derive_seed_u64 :: "(bytes \<Rightarrow> bytes) \<Rightarrow> string \<Rightarrow> seed_context \<Rightarrow> u64" where
  "derive_seed_u64 H dm ctx = u64_from_le (take 8 (tagged_hash H dm ctx))"

definition derive_seed_32 :: "(bytes \<Rightarrow> bytes) \<Rightarrow> string \<Rightarrow> seed_context \<Rightarrow> bytes" where
  "derive_seed_32 H dm ctx = tagged_hash H dm ctx"

definition INDEX_CUCKOO_MASTER :: string where "INDEX_CUCKOO_MASTER = ''index/cuckoo/master''"
definition CHUNK_CUCKOO_MASTER :: string where "CHUNK_CUCKOO_MASTER = ''chunk/cuckoo/master''"
definition INDEX_TAG_FINGERPRINT :: string where "INDEX_TAG_FINGERPRINT = ''index/tag/fingerprint''"
definition MERKLE_DATA_CUCKOO_MASTER :: string where
  "MERKLE_DATA_CUCKOO_MASTER = ''merkle/data/cuckoo/master''"

record snapshot_seeds =
  ss_index_master :: u64
  ss_chunk_master :: u64
  ss_index_tag :: u64
  ss_merkle_data_master :: u64

definition derive_snapshot_seeds :: "(bytes \<Rightarrow> bytes) \<Rightarrow> chain_anchor \<Rightarrow> snapshot_seeds" where
  "derive_snapshot_seeds H a =
     \<lparr>ss_index_master = derive_seed_u64 H INDEX_CUCKOO_MASTER (Snapshot_Ctx a),
      ss_chunk_master = derive_seed_u64 H CHUNK_CUCKOO_MASTER (Snapshot_Ctx a),
      ss_index_tag = derive_seed_u64 H INDEX_TAG_FINGERPRINT (Snapshot_Ctx a),
      ss_merkle_data_master = derive_seed_u64 H MERKLE_DATA_CUCKOO_MASTER (Snapshot_Ctx a)\<rparr>"

record delta_seeds =
  ds_index_master :: u64
  ds_chunk_master :: u64
  ds_index_tag :: u64

definition derive_delta_seeds :: "(bytes \<Rightarrow> bytes) \<Rightarrow> delta_anchor \<Rightarrow> delta_seeds" where
  "derive_delta_seeds H d =
     \<lparr>ds_index_master = derive_seed_u64 H INDEX_CUCKOO_MASTER (Delta_Ctx d),
      ds_chunk_master = derive_seed_u64 H CHUNK_CUCKOO_MASTER (Delta_Ctx d),
      ds_index_tag = derive_seed_u64 H INDEX_TAG_FINGERPRINT (Delta_Ctx d)\<rparr>"

definition CHAIN_ANCHOR_BYTES :: nat where "CHAIN_ANCHOR_BYTES = 36"
definition DELTA_ANCHOR_BYTES :: nat where "DELTA_ANCHOR_BYTES = 72"

definition chain_anchor_to_bytes :: "chain_anchor \<Rightarrow> bytes" where
  "chain_anchor_to_bytes a = block_hash a @ u32_to_le (block_height a)"

definition chain_anchor_from_bytes :: "bytes \<Rightarrow> (io_error, chain_anchor) result" where
  "chain_anchor_from_bytes bs =
     (if length bs \<noteq> CHAIN_ANCHOR_BYTES then Inl (InvalidData ''ChainAnchor'')
      else Inr \<lparr>block_hash = take 32 bs, block_height = u32_from_le (slice bs 32 4)\<rparr>)"

definition delta_anchor_to_bytes :: "delta_anchor \<Rightarrow> bytes" where
  "delta_anchor_to_bytes d =
     chain_anchor_to_bytes (anchor_from d) @ chain_anchor_to_bytes (anchor_to d)"

definition delta_anchor_from_bytes :: "bytes \<Rightarrow> (io_error, delta_anchor) result" where
  "delta_anchor_from_bytes bs =
     (if length bs \<noteq> DELTA_ANCHOR_BYTES then Inl (InvalidData ''DeltaAnchor'')
      else rbind (chain_anchor_from_bytes (take CHAIN_ANCHOR_BYTES bs)) (\<lambda>f.
           rbind (chain_anchor_from_bytes (drop CHAIN_ANCHOR_BYTES bs)) (\<lambda>t.
           Inr \<lparr>anchor_from = f, anchor_to = t\<rparr>)))"

datatype anchor_seeds = Snapshot_Seeds snapshot_seeds | Delta_Seeds delta_seeds

definition load_anchor_seeds :: "(bytes \<Rightarrow> bytes) \<Rightarrow> bytes \<Rightarrow> (io_error, anchor_seeds) result" where
  "load_anchor_seeds H bs =
     (if length bs = CHAIN_ANCHOR_BYTES
      then rbind (chain_anchor_from_bytes bs) (\<lambda>a. Inr (Snapshot_Seeds (derive_snapshot_seeds H a)))
      else if length bs = DELTA_ANCHOR_BYTES
      then rbind (delta_anchor_from_bytes bs) (\<lambda>d. Inr (Delta_Seeds (derive_delta_seeds H d)))
      else Inl (InvalidData ''anchor file has unknown size''))"

fun index_master :: "anchor_seeds \<Rightarrow> u64" where
  "index_master (Snapshot_Seeds s) = ss_index_master s"
| "index_master (Delta_Seeds d) = ds_index_master d"

fun chunk_master :: "anchor_seeds \<Rightarrow> u64" where
  "chunk_master (Snapshot_Seeds s) = ss_chunk_master s"
| "chunk_master (Delta_Seeds d) = ds_chunk_master d"

fun index_tag :: "anchor_seeds \<Rightarrow> u64" where
  "index_tag (Snapshot_Seeds s) = ss_index_tag s"
| "index_tag (Delta_Seeds d) = ds_index_tag d"

fun merkle_data_master :: "anchor_seeds \<Rightarrow> u64 option" where
  "merkle_data_master (Snapshot_Seeds s) = Some (ss_merkle_data_master s)"
| "merkle_data_master (Delta_Seeds d) = None"

fun is_snapshot :: "anchor_seeds \<Rightarrow> bool" where
  "is_snapshot (Snapshot_Seeds s) = True"
| "is_snapshot (Delta_Seeds d) = False"

text \<open>The block hashes are arrays of 32 bytes.\<close>

definition wf_chain_anchor :: "chain_anchor \<Rightarrow> bool" where
  "wf_chain_anchor a \<longleftrightarrow> length (block_hash a) = 32"

definition wf_delta_anchor :: "delta_anchor \<Rightarrow> bool" where
  "wf_delta_anchor d \<longleftrightarrow> wf_chain_anchor (anchor_from d) \<and> wf_chain_anchor (anchor_to d)"

fun wf_seed_context :: "seed_context \<Rightarrow> bool" where
  "wf_seed_context (Snapshot_Ctx a) = wf_chain_anchor a"
| "wf_seed_context (Delta_Ctx d) = wf_delta_anchor d"

section \<open>Anchors\<close>

lemma length_str_bytes [simp]: "length (str_bytes s) = length s"
  by (simp add: str_bytes_def)

lemma inj_str_bytes: "str_bytes s = str_bytes s' \<longleftrightarrow> s = s'"
proof -
  have "inj (of_char :: char \<Rightarrow> u8)"
  proof (rule injI)
    fix c d :: char assume "(of_char c :: u8) = of_char d"
    then have "unat (of_nat (of_char c) :: u8) = unat (of_nat (of_char d) :: u8)"
      by (simp only: of_nat_of_char)
    then have "(of_char c :: nat) mod 256 = of_char d mod 256" by (simp only: unat_of_nat) simp
    then show "c = d" by simp
  qed
  then show ?thesis by (simp add: str_bytes_def inj_map_eq_map)
qed

lemma length_chain_anchor_to_bytes [simp]:
  "wf_chain_anchor a \<Longrightarrow> length (chain_anchor_to_bytes a) = 36"
  by (simp add: wf_chain_anchor_def chain_anchor_to_bytes_def)

lemma chain_anchor_roundtrip [simp]:
  "wf_chain_anchor a \<Longrightarrow> chain_anchor_from_bytes (chain_anchor_to_bytes a) = Inr a"
  by (simp add: chain_anchor_from_bytes_def CHAIN_ANCHOR_BYTES_def)
    (simp add: wf_chain_anchor_def chain_anchor_to_bytes_def slice_def)

lemma delta_anchor_roundtrip [simp]:
  "wf_delta_anchor d \<Longrightarrow> delta_anchor_from_bytes (delta_anchor_to_bytes d) = Inr d"
  by (simp add: delta_anchor_from_bytes_def wf_delta_anchor_def delta_anchor_to_bytes_def
      CHAIN_ANCHOR_BYTES_def DELTA_ANCHOR_BYTES_def)

lemma chain_anchor_from_bytes_inv:
  assumes "chain_anchor_from_bytes bs = Inr a"
  shows "wf_chain_anchor a \<and> chain_anchor_to_bytes a = bs"
  using assms append_take_drop_id [of 32 bs]
  by (auto simp: chain_anchor_from_bytes_def chain_anchor_to_bytes_def wf_chain_anchor_def
      CHAIN_ANCHOR_BYTES_def slice_def le_roundtrips_bytes split: if_splits)

text \<open>An anchor file loads back, its size telling the kind of the anchor.\<close>

lemma load_anchor_seeds_roundtrip:
  assumes "wf_chain_anchor a" and "wf_delta_anchor d" and "length bs \<noteq> 36" and "length bs \<noteq> 72"
  shows "load_anchor_seeds H (chain_anchor_to_bytes a) = Inr (Snapshot_Seeds (derive_snapshot_seeds H a))"
    and "load_anchor_seeds H (delta_anchor_to_bytes d) = Inr (Delta_Seeds (derive_delta_seeds H d))"
    and "load_anchor_seeds H bs = Inl (InvalidData ''anchor file has unknown size'')"
  using assms
  by (simp_all add: load_anchor_seeds_def CHAIN_ANCHOR_BYTES_def DELTA_ANCHOR_BYTES_def)
    (simp add: delta_anchor_to_bytes_def wf_delta_anchor_def)

section \<open>Domain separation\<close>

lemma absorb_inject:
  assumes "wf_seed_context c" and "wf_seed_context c'" and "absorb c = absorb c'"
  shows "c = c'"
proof -
  have len: "length (absorb c) = (case c of Snapshot_Ctx a \<Rightarrow> 45 | Delta_Ctx d \<Rightarrow> 78)"
    if "wf_seed_context c" for c
    using that by (cases c) (auto simp: wf_chain_anchor_def wf_delta_anchor_def)
  have a: "a = a'" if "wf_chain_anchor a" "wf_chain_anchor a'" "block_hash a = block_hash a'"
    "block_height a = block_height a'" for a a' :: chain_anchor
    using that by (cases a; cases a') auto
  show ?thesis
    using len [OF assms(1)] len [OF assms(2)] assms
    by (cases c; cases c') (auto simp: wf_delta_anchor_def wf_chain_anchor_def intro!: a delta_anchor.equality)
qed

lemma tagged_preimage_inject:
  assumes "length (H (TAG_PREFIX_V1 @ str_bytes d)) = length (H (TAG_PREFIX_V1 @ str_bytes d'))"
    and "wf_seed_context c" and "wf_seed_context c'"
    and "tagged_preimage H d c = tagged_preimage H d' c'"
  shows "c = c' \<and> H (TAG_PREFIX_V1 @ str_bytes d) = H (TAG_PREFIX_V1 @ str_bytes d')"
  using assms absorb_inject by (auto simp: tagged_preimage_def Let_def)

text \<open>Two different inputs whose hashes agree on the 64 bits that a seed keeps.\<close>

definition seed_clash :: "(bytes \<Rightarrow> bytes) \<Rightarrow> bytes \<Rightarrow> bytes \<Rightarrow> bool" where
  "seed_clash H p p' \<longleftrightarrow> p \<noteq> p' \<and> take 8 (H p) = take 8 (H p')"

lemma equal_seeds:
  assumes "\<forall>p. length (H p) = 32" and "wf_seed_context c" and "wf_seed_context c'"
    and "derive_seed_u64 H d c = derive_seed_u64 H d' c'"
  shows "d = d' \<and> c = c' \<or> seed_clash H (tagged_preimage H d c) (tagged_preimage H d' c') \<or>
    seed_clash H (TAG_PREFIX_V1 @ str_bytes d) (TAG_PREFIX_V1 @ str_bytes d')"
proof (cases "tagged_preimage H d c = tagged_preimage H d' c'")
  case True
  then have "c = c'" "H (TAG_PREFIX_V1 @ str_bytes d) = H (TAG_PREFIX_V1 @ str_bytes d')"
    using tagged_preimage_inject [OF _ assms(2,3) True] assms(1) by simp_all
  then show ?thesis by (auto simp: seed_clash_def inj_str_bytes)
next
  case False
  have "length (take 8 (H p)) = 8" for p using assms(1) by simp
  from le_roundtrips_bytes(3) [OF this] have "take 8 (H p) = take 8 (H p')" if "u64_from_le (take 8 (H p)) = u64_from_le (take 8 (H p'))" for p p'
    using that by metis
  then show ?thesis using False assms(4) by (simp add: derive_seed_u64_def tagged_hash_def seed_clash_def)
qed

text \<open>The seed context that an anchor file gives.\<close>

definition file_context :: "bytes \<Rightarrow> seed_context" where
  "file_context bs =
     (case chain_anchor_from_bytes bs of
        Inr a \<Rightarrow> Snapshot_Ctx a
      | Inl _ \<Rightarrow> (case delta_anchor_from_bytes bs of Inr d \<Rightarrow> Delta_Ctx d | Inl _ \<Rightarrow> undefined))"

lemma delta_anchor_from_bytes_inv:
  assumes "delta_anchor_from_bytes bs = Inr d"
  shows "wf_delta_anchor d \<and> delta_anchor_to_bytes d = bs"
  using assms by (auto simp: delta_anchor_from_bytes_def wf_delta_anchor_def delta_anchor_to_bytes_def split: if_splits
    elim!: rbind_eq_InrE dest!: chain_anchor_from_bytes_inv)

lemma loaded_seeds:
  assumes "load_anchor_seeds H bs = Inr s"
  shows "wf_seed_context (file_context bs)" and "index_master s = derive_seed_u64 H INDEX_CUCKOO_MASTER (file_context bs)"
    and "chunk_master s = derive_seed_u64 H CHUNK_CUCKOO_MASTER (file_context bs)"
    and "index_tag s = derive_seed_u64 H INDEX_TAG_FINGERPRINT (file_context bs)"
    and "bs = (case file_context bs of Snapshot_Ctx a \<Rightarrow> chain_anchor_to_bytes a | Delta_Ctx d \<Rightarrow> delta_anchor_to_bytes d)"
proof -
  consider a where "chain_anchor_from_bytes bs = Inr a" "s = Snapshot_Seeds (derive_snapshot_seeds H a)"
    | e d where "chain_anchor_from_bytes bs = Inl e" "delta_anchor_from_bytes bs = Inr d" "s = Delta_Seeds (derive_delta_seeds H d)"
    using assms by (auto simp: load_anchor_seeds_def chain_anchor_from_bytes_def split: if_splits elim!: rbind_eq_InrE)
  then have "wf_seed_context (file_context bs) \<and> index_master s = derive_seed_u64 H INDEX_CUCKOO_MASTER (file_context bs) \<and>
    chunk_master s = derive_seed_u64 H CHUNK_CUCKOO_MASTER (file_context bs) \<and> index_tag s = derive_seed_u64 H INDEX_TAG_FINGERPRINT (file_context bs) \<and>
    bs = (case file_context bs of Snapshot_Ctx a \<Rightarrow> chain_anchor_to_bytes a | Delta_Ctx d \<Rightarrow> delta_anchor_to_bytes d)"
    by cases (auto simp: file_context_def derive_snapshot_seeds_def derive_delta_seeds_def
      dest: chain_anchor_from_bytes_inv delta_anchor_from_bytes_inv)
  then show "wf_seed_context (file_context bs)" "index_master s = derive_seed_u64 H INDEX_CUCKOO_MASTER (file_context bs)"
    "chunk_master s = derive_seed_u64 H CHUNK_CUCKOO_MASTER (file_context bs)" "index_tag s = derive_seed_u64 H INDEX_TAG_FINGERPRINT (file_context bs)"
    "bs = (case file_context bs of Snapshot_Ctx a \<Rightarrow> chain_anchor_to_bytes a | Delta_Ctx d \<Rightarrow> delta_anchor_to_bytes d)" by blast+
qed

section \<open>Properties\<close>

text \<open>
  C27: The seeds of a database are bound to its anchor file. When two anchor files load, snapshot or delta, and
  give the same INDEX, CHUNK or tag seed, then the files are the same, or the two hash inputs of that
  seed are different and agree on the 64 bits that a seed keeps. An INDEX seed and a CHUNK seed agree only
  through such a clash, of the two seed inputs or of the two domain tags. \<open>H\<close> is any hash with 32 bytes of output.
\<close>

theorem anchor_seeds_bound:
  assumes "\<forall>p. length (H p) = 32" and "load_anchor_seeds H bs = Inr s" and "load_anchor_seeds H bs' = Inr s'"
  shows "(index_master s = index_master s' \<longrightarrow> bs = bs' \<or>
      seed_clash H (tagged_preimage H INDEX_CUCKOO_MASTER (file_context bs)) (tagged_preimage H INDEX_CUCKOO_MASTER (file_context bs'))) \<and>
    (chunk_master s = chunk_master s' \<longrightarrow> bs = bs' \<or>
      seed_clash H (tagged_preimage H CHUNK_CUCKOO_MASTER (file_context bs)) (tagged_preimage H CHUNK_CUCKOO_MASTER (file_context bs'))) \<and>
    (index_tag s = index_tag s' \<longrightarrow> bs = bs' \<or>
      seed_clash H (tagged_preimage H INDEX_TAG_FINGERPRINT (file_context bs)) (tagged_preimage H INDEX_TAG_FINGERPRINT (file_context bs'))) \<and>
    (index_master s = chunk_master s' \<longrightarrow>
      seed_clash H (tagged_preimage H INDEX_CUCKOO_MASTER (file_context bs)) (tagged_preimage H CHUNK_CUCKOO_MASTER (file_context bs')) \<or>
      seed_clash H (TAG_PREFIX_V1 @ str_bytes INDEX_CUCKOO_MASTER) (TAG_PREFIX_V1 @ str_bytes CHUNK_CUCKOO_MASTER))"
proof -
  note L = loaded_seeds [OF assms(2)] and L' = loaded_seeds [OF assms(3)]
  have same: "bs = bs'" if "file_context bs = file_context bs'" using L(5) L'(5) that by metis
  have n: "INDEX_CUCKOO_MASTER \<noteq> CHUNK_CUCKOO_MASTER" by (simp add: INDEX_CUCKOO_MASTER_def CHUNK_CUCKOO_MASTER_def)
  have tag: "\<not> seed_clash H x x" for x by (simp add: seed_clash_def)
  show ?thesis using equal_seeds [OF assms(1) L(1) L'(1)] same n tag unfolding L(2-4) L'(2-4) by metis
qed

text \<open>Two snapshots at heights 7 and 8.\<close>

theorem anchor_seeds_bound_witness:
  "\<exists>s s'. load_anchor_seeds sha256 (replicate 32 1 @ [7, 0, 0, 0]) = Inr s \<and> load_anchor_seeds sha256 (replicate 32 1 @ [8, 0, 0, 0]) = Inr s' \<and>
    (index_master s \<noteq> index_master s' \<or>
     seed_clash sha256 (tagged_preimage sha256 INDEX_CUCKOO_MASTER (file_context (replicate 32 1 @ [7, 0, 0, 0])))
       (tagged_preimage sha256 INDEX_CUCKOO_MASTER (file_context (replicate 32 1 @ [8, 0, 0, 0]))))"
proof -
  obtain s s' where l: "load_anchor_seeds sha256 (replicate 32 1 @ [7, 0, 0, 0]) = Inr s" "load_anchor_seeds sha256 (replicate 32 1 @ [8, 0, 0, 0]) = Inr s'"
    by (simp add: load_anchor_seeds_def chain_anchor_from_bytes_def CHAIN_ANCHOR_BYTES_def)
  have "replicate 32 1 @ [7, 0, 0, 0 :: u8] \<noteq> replicate 32 1 @ [8, 0, 0, 0]" by simp
  with anchor_seeds_bound [OF _ l] l show ?thesis by auto
qed

end
