(* ===== verification/Params.thy ===== *)
theory Params
  imports Bpir_Prelude
begin

text \<open>
  The sub-table parameters of \<open>crates/protocol/core/src/params.rs\<close>: the \<open>TableParams\<close> struct, the
  two standard configurations and the constants the other components use, and \<open>compute_dpf_n\<close>,
  the exponent of the smallest power of two that covers a table. \<open>usize\<close> is 64 bits wide; the
  doubling loop of \<open>compute_dpf_n\<close> drops the top bit, so it is a partial function into \<open>option\<close>.
\<close>

section \<open>Definitions\<close>

record table_params =
  tp_k :: nat
  tp_num_hashes :: nat
  tp_master_seed :: u64
  tp_slots_per_bin :: nat
  tp_cuckoo_num_hashes :: nat
  tp_slot_size :: nat
  tp_dpf_n :: u8
  tp_magic :: u64
  tp_header_size :: nat
  tp_has_tag_seed :: bool

definition tp_bin_size :: "table_params \<Rightarrow> nat" where
  "tp_bin_size p = tp_slots_per_bin p * tp_slot_size p"

definition tp_table_byte_size :: "table_params \<Rightarrow> nat \<Rightarrow> nat" where
  "tp_table_byte_size p bins_per_table = bins_per_table * tp_bin_size p"

definition tp_result_size :: "table_params \<Rightarrow> nat" where
  "tp_result_size p = tp_bin_size p"

definition with_master_seed :: "table_params \<Rightarrow> u64 \<Rightarrow> table_params" where
  "with_master_seed p seed = p\<lparr>tp_master_seed := seed\<rparr>"

partial_function (option) compute_dpf_n_loop :: "nat \<Rightarrow> u64 \<Rightarrow> u8 \<Rightarrow> u8 option" where
  "compute_dpf_n_loop bins_per_table v n =
     (if unat v < bins_per_table
      then compute_dpf_n_loop bins_per_table (push_bit 1 v) (n + 1)
      else Some n)"

definition compute_dpf_n :: "nat \<Rightarrow> u8 option" where
  "compute_dpf_n bins_per_table =
     (if bins_per_table \<le> 1 then Some 1 else compute_dpf_n_loop bins_per_table 1 0)"

definition SCRIPT_HASH_SIZE :: nat where "SCRIPT_HASH_SIZE = 20"
definition TAG_SIZE :: nat where "TAG_SIZE = 8"
definition CHUNK_SIZE :: nat where "CHUNK_SIZE = 40"
definition INDEX_SLOT_SIZE :: nat where "INDEX_SLOT_SIZE = TAG_SIZE + 4 + 1"
definition CHUNK_SLOT_SIZE :: nat where "CHUNK_SLOT_SIZE = 4 + CHUNK_SIZE"

definition INDEX_PARAMS :: table_params where
  "INDEX_PARAMS =
     \<lparr>tp_k = 75, tp_num_hashes = 3, tp_master_seed = 0, tp_slots_per_bin = 4, tp_cuckoo_num_hashes = 2,
      tp_slot_size = INDEX_SLOT_SIZE, tp_dpf_n = 20, tp_magic = 0xBA7CC000C0000004, tp_header_size = 40,
      tp_has_tag_seed = True\<rparr>"

definition CHUNK_PARAMS :: table_params where
  "CHUNK_PARAMS =
     \<lparr>tp_k = 80, tp_num_hashes = 3, tp_master_seed = 0, tp_slots_per_bin = 3, tp_cuckoo_num_hashes = 2,
      tp_slot_size = CHUNK_SLOT_SIZE, tp_dpf_n = 21, tp_magic = 0xBA7CC000C0000002, tp_header_size = 32,
      tp_has_tag_seed = False\<rparr>"

definition INDEX_SLOTS_PER_BIN :: nat where "INDEX_SLOTS_PER_BIN = tp_slots_per_bin INDEX_PARAMS"
definition INDEX_CUCKOO_NUM_HASHES :: nat where "INDEX_CUCKOO_NUM_HASHES = tp_cuckoo_num_hashes INDEX_PARAMS"
definition CHUNK_SLOTS_PER_BIN :: nat where "CHUNK_SLOTS_PER_BIN = tp_slots_per_bin CHUNK_PARAMS"
definition CHUNK_CUCKOO_NUM_HASHES :: nat where "CHUNK_CUCKOO_NUM_HASHES = tp_cuckoo_num_hashes CHUNK_PARAMS"

lemma level_constants:
  "INDEX_SLOTS_PER_BIN = 4" "INDEX_CUCKOO_NUM_HASHES = 2" "CHUNK_SLOTS_PER_BIN = 3" "CHUNK_CUCKOO_NUM_HASHES = 2"
  by (simp_all add: INDEX_SLOTS_PER_BIN_def INDEX_CUCKOO_NUM_HASHES_def CHUNK_SLOTS_PER_BIN_def
      CHUNK_CUCKOO_NUM_HASHES_def INDEX_PARAMS_def CHUNK_PARAMS_def)

section \<open>The domain exponent\<close>

lemma compute_dpf_n_loop_returns:
  assumes "i \<le> 63" and "bins \<le> 2 ^ 63" and "0 < i \<Longrightarrow> 2 ^ (i - 1) < bins"
  shows "\<exists>m. compute_dpf_n_loop bins (2 ^ i) (of_nat i) = Some (of_nat m) \<and> m \<le> 63 \<and>
    bins \<le> 2 ^ m \<and> (0 < m \<longrightarrow> 2 ^ (m - 1) < bins)"
  using assms
proof (induction "63 - i" arbitrary: i)
  case 0
  then have i: "i = 63" by simp
  then show ?case using 0 by (subst compute_dpf_n_loop.simps) (intro exI [of _ 63], simp)
next
  case (Suc d)
  have u: "unat (2 ^ i :: u64) = 2 ^ i" using Suc.prems(1) by (simp add: unat_pow2)
  show ?case
  proof (cases "2 ^ i < bins")
    case True
    have "\<exists>m. compute_dpf_n_loop bins (2 ^ Suc i) (of_nat (Suc i)) = Some (of_nat m) \<and> m \<le> 63 \<and>
        bins \<le> 2 ^ m \<and> (0 < m \<longrightarrow> 2 ^ (m - 1) < bins)"
      by (rule Suc.hyps(1)) (use Suc.hyps(2) Suc.prems True in auto)
    with True u show ?thesis
      by (subst compute_dpf_n_loop.simps) (simp add: push_bit_eq_mult ac_simps)
  next
    case False
    with u Suc.prems show ?thesis
      by (subst compute_dpf_n_loop.simps) (intro exI [of _ i], auto)
  qed
qed

lemma compute_dpf_n_loop_diverges:
  assumes "2 ^ 63 < bins" and "v = 0 \<or> (\<exists>i\<le>63. v = 2 ^ i)"
  shows "compute_dpf_n_loop bins v n = None"
proof -
  let ?P = "\<lambda>bins (v :: u64) (n :: u8) (r :: u8). \<not> (2 ^ 63 < bins \<and> (v = 0 \<or> (\<exists>i\<le>63. v = 2 ^ i)))"
  have "?P bins v n r" if "compute_dpf_n_loop bins v n = Some r" for r
  proof (rule compute_dpf_n_loop.raw_induct [where P = ?P, OF _ that], rule notI)
    fix f bins v n r
    assume IH: "\<And>bins v n r. f bins v n = Some r \<Longrightarrow> ?P bins v n r"
      and eq: "(if unat v < bins then f bins (push_bit 1 v) (n + 1) else Some n) = Some r"
      and v: "2 ^ 63 < bins \<and> (v = 0 \<or> (\<exists>i\<le>63. v = 2 ^ i))"
    have "unat v \<le> 2 ^ 63"
      using v power_increasing [of _ 63 "2 :: nat"] by (auto simp: unat_pow2)
    then have "f bins (push_bit 1 v) (n + 1) = Some r"
      using eq v by (simp split: if_splits)
    then have "?P bins (push_bit 1 v) (n + 1) r" by (rule IH)
    moreover have "push_bit 1 v = 0 \<or> (\<exists>i\<le>63. push_bit 1 v = 2 ^ i)"
    proof (cases "v = 0")
      case False
      with v obtain i where i: "i \<le> 63" "v = 2 ^ i" by auto
      then have "push_bit 1 v = 2 ^ Suc i" by (simp add: push_bit_eq_mult)
      moreover have "(2 ^ Suc i :: u64) = 0" if "i = 63" using that by simp
      ultimately show ?thesis using i by (metis Suc_leI le_neq_implies_less)
    qed simp
    ultimately show False using v by blast
  qed
  with assms show ?thesis by (cases "compute_dpf_n_loop bins v n") blast+
qed

lemma compute_dpf_n_returns:
  assumes "1 < bins" and "bins \<le> 2 ^ 63"
  shows "\<exists>m. compute_dpf_n bins = Some (of_nat m) \<and> 0 < m \<and> m \<le> 63 \<and>
    bins \<le> 2 ^ m \<and> 2 ^ (m - 1) < bins"
proof -
  obtain m where m: "compute_dpf_n_loop bins (2 ^ 0) (of_nat 0) = Some (of_nat m)" "m \<le> 63"
    "bins \<le> 2 ^ m" "0 < m \<longrightarrow> 2 ^ (m - 1) < bins"
    using compute_dpf_n_loop_returns [of 0 bins] assms by auto
  moreover have "0 < m" using m(3) assms(1) by (cases m) auto
  ultimately show ?thesis using assms by (auto simp: compute_dpf_n_def)
qed

text \<open>
  C38: \<open>compute_dpf_n\<close> returns exactly for tables of at most \<open>2 ^ 63\<close> bins, and then the exponent is
  the least positive one whose domain covers every bin; past that the doubling word overflows to 0
  and the loop never ends.
\<close>

theorem compute_dpf_n_correct:
  "case compute_dpf_n bins of
     None \<Rightarrow> 2 ^ 63 < bins
   | Some n \<Rightarrow> bins \<le> 2 ^ 63 \<and> unat n = (LEAST m. 0 < m \<and> bins \<le> 2 ^ m)"
proof (cases "bins \<le> 2 ^ 63")
  case True
  obtain m where m: "compute_dpf_n bins = Some (of_nat m)" "0 < m" "m \<le> 63" "bins \<le> 2 ^ m"
    "1 < bins \<longrightarrow> 2 ^ (m - 1) < bins" "bins \<le> 1 \<longrightarrow> m = 1"
  proof (cases "1 < bins")
    case False
    then show ?thesis by (intro that [of 1]) (auto simp: compute_dpf_n_def)
  qed (use compute_dpf_n_returns [OF _ True] that in auto)
  have "(LEAST l. 0 < l \<and> bins \<le> 2 ^ l) = m"
  proof (rule Least_equality)
    fix l assume l: "0 < l \<and> bins \<le> 2 ^ l"
    show "m \<le> l"
    proof (rule ccontr)
      assume "\<not> m \<le> l"
      then have "(2 :: nat) ^ l \<le> 2 ^ (m - 1)" by (intro power_increasing) auto
      moreover have "1 < bins" using m(6) l \<open>\<not> m \<le> l\<close> by linarith
      ultimately show False using l m(5) by linarith
    qed
  qed (use m in auto)
  moreover have "unat (of_nat m :: u8) = m"
    using m(3) by (simp add: unat_of_nat take_bit_nat_eq_self)
  ultimately show ?thesis using True m(1) by simp
next
  case False
  then have "compute_dpf_n bins = None"
    using compute_dpf_n_loop_diverges [of bins "2 ^ 0" 0, OF _ disjI2 [OF exI [of _ 0]]]
    by (simp add: compute_dpf_n_def)
  with False show ?thesis by simp
qed

end
