(* ===== verification/Hash_Fns.thy ===== *)
theory Hash_Fns
  imports Params
begin

text \<open>
  The hash functions of \<open>crates/protocol/core/src/hash.rs\<close>: the splitmix64 mixer, the fields of a
  script hash, the derivation of the distinct batch-code groups of an item by rejection sampling,
  the cuckoo bin hashes and the fingerprint tag, and the reader of the legacy table header.

  The rejection-sampling loops may run forever, so they are partial functions into \<open>option\<close>
  (\<open>None\<close>: the call does not return). A panic is the value \<open>Inl Panic\<close>. The \<open>nonce\<close> counter wraps,
  as in the release profile, which leaves overflow checks off.
\<close>

section \<open>Definitions\<close>

datatype rust_panic = Panic

type_synonym 'a run = "(rust_panic + 'a) option"

definition splitmix64 :: "u64 \<Rightarrow> u64" where
  "splitmix64 x0 =
     (let x1 = x0 XOR drop_bit 30 x0;
          x2 = x1 * 0xbf58476d1ce4e5b9;
          x3 = x2 XOR drop_bit 27 x2;
          x4 = x3 * 0x94d049bb133111eb
      in x4 XOR drop_bit 31 x4)"

definition GOLDEN_RATIO :: u64 where "GOLDEN_RATIO = 0x9e3779b97f4a7c15"

definition CUCKOO_KEY_MIX :: u64 where "CUCKOO_KEY_MIX = 0x517cc1b727220a95"

definition sh_a :: "bytes \<Rightarrow> u64" where
  "sh_a script_hash = u64_from_le (slice script_hash 0 8)"

definition sh_b :: "bytes \<Rightarrow> u64" where
  "sh_b script_hash = u64_from_le (slice script_hash 8 8)"

definition sh_c :: "bytes \<Rightarrow> u64" where
  "sh_c script_hash = ucast (u32_from_le (slice script_hash 16 4))"

definition hash_for_group :: "bytes \<Rightarrow> u64 \<Rightarrow> u64" where
  "hash_for_group script_hash nonce =
     (let h = sh_a script_hash + nonce * GOLDEN_RATIO;
          h' = h XOR sh_b script_hash
      in splitmix64 (h' XOR sh_c script_hash))"

definition hash_int_for_group :: "u32 \<Rightarrow> u64 \<Rightarrow> u64" where
  "hash_int_for_group i nonce = splitmix64 (ucast i + nonce * GOLDEN_RATIO)"

text \<open>The loop of \<open>derive_groups\<close>: a growing vector.\<close>

partial_function (option) derive_groups_loop ::
  "(u64 \<Rightarrow> u64) \<Rightarrow> nat \<Rightarrow> nat \<Rightarrow> u64 \<Rightarrow> nat list \<Rightarrow> nat list option" where
  "derive_groups_loop h k num_hashes nonce groups =
     (if length groups < num_hashes then
        (let group = unat (h nonce) mod k
         in derive_groups_loop h k num_hashes (nonce + 1)
              (if group \<in> set groups then groups else groups @ [group]))
      else Some groups)"

definition derive_groups :: "bytes \<Rightarrow> nat \<Rightarrow> nat \<Rightarrow> nat list run" where
  "derive_groups script_hash k num_hashes =
     (if 0 < num_hashes \<and> (length script_hash < 20 \<or> k = 0) then Some (Inl Panic)
      else map_option Inr (derive_groups_loop (hash_for_group script_hash) k num_hashes 0 []))"

text \<open>The loop of \<open>derive_groups_3\<close> and \<open>derive_int_groups_3\<close>: a fixed array and a counter.\<close>

partial_function (option) derive_groups_3_loop ::
  "(u64 \<Rightarrow> u64) \<Rightarrow> nat \<Rightarrow> u64 \<Rightarrow> nat list \<Rightarrow> nat \<Rightarrow> nat list option" where
  "derive_groups_3_loop h k nonce groups count =
     (if count < 3 then
        (let group = unat (h nonce) mod k
         in if group \<in> set (take count groups)
            then derive_groups_3_loop h k (nonce + 1) groups count
            else derive_groups_3_loop h k (nonce + 1) (groups[count := group]) (count + 1))
      else Some groups)"

definition derive_groups_3 :: "bytes \<Rightarrow> nat \<Rightarrow> nat list run" where
  "derive_groups_3 script_hash k =
     (if length script_hash < 20 \<or> k = 0 then Some (Inl Panic)
      else map_option Inr (derive_groups_3_loop (hash_for_group script_hash) k 0 [0, 0, 0] 0))"

definition derive_int_groups_3 :: "u32 \<Rightarrow> nat \<Rightarrow> nat list run" where
  "derive_int_groups_3 i k =
     (if k = 0 then Some (Inl Panic)
      else map_option Inr (derive_groups_3_loop (hash_int_for_group i) k 0 [0, 0, 0] 0))"

definition derive_cuckoo_key :: "u64 \<Rightarrow> nat \<Rightarrow> nat \<Rightarrow> u64" where
  "derive_cuckoo_key master_seed group_id hash_fn =
     splitmix64 (master_seed + of_nat group_id * GOLDEN_RATIO + of_nat hash_fn * CUCKOO_KEY_MIX)"

text \<open>The bin hashes index the script hash and take a remainder: \<open>None\<close> where that panics.\<close>

definition cuckoo_hash :: "bytes \<Rightarrow> u64 \<Rightarrow> nat \<Rightarrow> nat option" where
  "cuckoo_hash script_hash key num_bins =
     (if length script_hash < 20 \<or> num_bins = 0 then None
      else (let h = sh_a script_hash XOR key;
                h' = h XOR sh_b script_hash;
                h'' = splitmix64 (h' XOR sh_c script_hash)
            in Some (unat h'' mod num_bins)))"

definition cuckoo_hash_int :: "u32 \<Rightarrow> u64 \<Rightarrow> nat \<Rightarrow> nat option" where
  "cuckoo_hash_int i key num_bins =
     (if num_bins = 0 then None else Some (unat (splitmix64 (ucast i XOR key)) mod num_bins))"

definition compute_tag :: "u64 \<Rightarrow> bytes \<Rightarrow> u64 option" where
  "compute_tag tag_seed script_hash =
     (if length script_hash < 20 then None
      else (let h = sh_a script_hash XOR tag_seed;
                h' = h XOR sh_b script_hash
            in Some (splitmix64 (h' XOR sh_c script_hash))))"

text \<open>\<open>read_cuckoo_header\<close> asserts the length and the magic number; \<open>None\<close> is the panic.\<close>

definition read_cuckoo_header :: "bytes \<Rightarrow> u64 \<Rightarrow> nat \<Rightarrow> bool \<Rightarrow> (nat \<times> u64) option" where
  "read_cuckoo_header data expected_magic header_size has_tag_seed =
     (if length data < header_size \<or> length data < 8 then None
      else if u64_from_le (slice data 0 8) \<noteq> expected_magic then None
      else if length data < 20 \<or> has_tag_seed \<and> length data < 40 then None
      else Some (unat (u32_from_le (slice data 16 4)),
                 if has_tag_seed then u64_from_le (slice data 32 8) else 0))"

definition read_chunk_cuckoo_header :: "bytes \<Rightarrow> nat option" where
  "read_chunk_cuckoo_header data =
     map_option fst (read_cuckoo_header data (tp_magic CHUNK_PARAMS) (tp_header_size CHUNK_PARAMS)
       (tp_has_tag_seed CHUNK_PARAMS))"

section \<open>The mixer is a bijection\<close>

lemma xorshift_inj: "0 < s \<Longrightarrow> inj (\<lambda>x :: 'a::len word. x XOR drop_bit s x)"
proof (rule injI)
  fix x y :: "'a word"
  assume s: "0 < s" and eq: "x XOR drop_bit s x = y XOR drop_bit s y"
  define d where "d = x XOR y"
  have "x XOR y = drop_bit s x XOR drop_bit s y"
    using eq by (metis xor.assoc xor.commute xor.left_neutral xor_self_eq)
  then have "d = drop_bit s d" unfolding d_def drop_bit_xor .
  then have "unat d = unat d div 2 ^ s" by (metis unat_drop_bit_eq drop_bit_eq_div)
  then have "unat d = 0" using s by (metis div_less_dividend gr0I less_irrefl
        one_less_numeral_iff one_less_power semiring_norm(76))
  then have "d = 0" by (simp add: unat_eq_zero)
  then show "x = y"
    unfolding d_def by (metis xor.assoc xor.right_neutral xor_self_eq xor.left_neutral)
qed

lemma mult_inverse_inj:
  fixes c :: "'a::len word"
  assumes "c' * c = 1"
  shows "inj (\<lambda>x. x * c)"
proof (rule injI)
  fix x y assume "x * c = y * c"
  then have "x * (c * c') = y * (c * c')" by (simp only: mult.assoc [symmetric])
  then show "x = y" using assms by (simp add: mult.commute)
qed

lemma inj_GOLDEN_RATIO: "inj (\<lambda>x. x * GOLDEN_RATIO)"
  by (rule mult_inverse_inj [where c' = 17428512612931826493]) (simp add: GOLDEN_RATIO_def)

lemma inj_splitmix64: "inj splitmix64"
proof -
  have m1: "inj (\<lambda>x :: u64. x * 0xbf58476d1ce4e5b9)"
    by (rule mult_inverse_inj [where c' = 10871156337175269513]) simp
  have m2: "inj (\<lambda>x :: u64. x * 0x94d049bb133111eb)"
    by (rule mult_inverse_inj [where c' = 3573116690164977347]) simp
  have x: "inj (\<lambda>x :: u64. x XOR drop_bit s x)" if "0 < s" for s
    using that by (rule xorshift_inj)
  have "splitmix64 = (\<lambda>x. x XOR drop_bit 31 x) \<circ> (\<lambda>x. x * 0x94d049bb133111eb) \<circ>
      (\<lambda>x. x XOR drop_bit 27 x) \<circ> (\<lambda>x. x * 0xbf58476d1ce4e5b9) \<circ> (\<lambda>x. x XOR drop_bit 30 x)"
    by (simp add: fun_eq_iff splitmix64_def Let_def)
  moreover have "inj \<dots>" by (intro inj_compose m1 m2 x) simp_all
  ultimately show ?thesis by simp
qed

lemma inj_word_bij: "inj (f :: 'a::len word \<Rightarrow> 'a word) \<Longrightarrow> bij f"
  using finite_UNIV_inj_surj [of f] by (simp add: bij_def)

lemma inj_xor: "inj (\<lambda>x :: 'a::len word. x XOR a)"
  by (rule injI) (metis xor.assoc xor.right_neutral xor_self_eq)

lemma bij_hash_for_group: "bij (hash_for_group sh)"
proof (rule inj_word_bij)
  have "hash_for_group sh =
      splitmix64 \<circ> (\<lambda>x. x XOR sh_c sh) \<circ> (\<lambda>x. x XOR sh_b sh) \<circ> (\<lambda>x. sh_a sh + x) \<circ>
      (\<lambda>x. x * GOLDEN_RATIO)"
    by (simp add: fun_eq_iff hash_for_group_def Let_def)
  then show "inj (hash_for_group sh)"
    by (auto intro!: inj_compose simp: inj_splitmix64 inj_xor inj_GOLDEN_RATIO)
qed

lemma bij_hash_int_for_group: "bij (hash_int_for_group i)"
proof (rule inj_word_bij)
  have "hash_int_for_group i =
      splitmix64 \<circ> (\<lambda>x. ucast i + x) \<circ> (\<lambda>x. x * GOLDEN_RATIO)"
    by (simp add: fun_eq_iff hash_int_for_group_def)
  then show "inj (hash_int_for_group i)"
    by (auto intro!: inj_compose simp: inj_splitmix64 inj_GOLDEN_RATIO)
qed

section \<open>Rejection sampling\<close>

text \<open>The interface of the sampling loops: a hash that visits every 64-bit value exactly once as
  the nonce runs through the 64-bit values.\<close>

definition NONCES :: nat where "NONCES = 2 ^ 64"

locale group_hash =
  fixes h :: "u64 \<Rightarrow> u64"
  assumes bij_h: "bij h"
begin

lemma residues_cover:
  assumes "0 < k" and "k \<le> NONCES"
  shows "(\<lambda>i. unat (h (of_nat i)) mod k) ` {..<NONCES} = {..<k}"
proof
  show "(\<lambda>i. unat (h (of_nat i)) mod k) ` {..<NONCES} \<subseteq> {..<k}"
    using assms by auto
  show "{..<k} \<subseteq> (\<lambda>i. unat (h (of_nat i)) mod k) ` {..<NONCES}"
  proof
    fix r assume "r \<in> {..<k}"
    then have r: "r < k" by simp
    obtain x where x: "h x = of_nat r"
      using bij_h by (metis bij_pointE)
    have "unat (of_nat r :: u64) = r"
      using r assms(2) by (simp add: unat_of_nat NONCES_def)
    then have "unat (h (of_nat (unat x))) mod k = r"
      using x r by simp
    moreover have "unat x \<in> {..<NONCES}" using unsigned_less [of x] by (simp add: NONCES_def)
    ultimately show "r \<in> (\<lambda>i. unat (h (of_nat i)) mod k) ` {..<NONCES}"
      by (intro image_eqI [where x = "unat x"]) simp_all
  qed
qed

lemma derive_groups_loop_returns:
  assumes k: "0 < k" "k \<le> NONCES" "n \<le> k"
    and i: "i \<le> NONCES" and g: "distinct g"
    and seen: "set g = (\<lambda>i. unat (h (of_nat i)) mod k) ` {..<i}"
    and n: "length g \<le> n"
  shows "\<exists>r. derive_groups_loop h k n (of_nat i) g = Some r \<and> length r = n \<and> distinct r
    \<and> set r \<subseteq> {..<k}"
  using i g seen n
proof (induction "NONCES - i" arbitrary: i g)
  case 0
  then have "i = NONCES" by simp
  then have "set g = {..<k}" using 0 residues_cover k by simp
  then have "length g = k" using 0 by (metis card_lessThan distinct_card)
  then show ?case using 0 k \<open>set g = {..<k}\<close>
    by (subst derive_groups_loop.simps) simp
next
  case (Suc m)
  let ?r = "unat (h (of_nat i)) mod k"
  let ?g = "if ?r \<in> set g then g else g @ [?r]"
  show ?case
  proof (cases "length g < n")
    case False
    have "set g \<subseteq> {..<k}" using Suc.prems(3) k(1) by auto
    with False Suc.prems show ?thesis by (subst derive_groups_loop.simps) simp
  next
    case True
    have seen': "set ?g = (\<lambda>i. unat (h (of_nat i)) mod k) ` {..<Suc i}"
      using Suc.prems(3) by (auto simp: lessThan_Suc)
    have "\<exists>r. derive_groups_loop h k n (of_nat (Suc i)) ?g = Some r \<and> length r = n \<and>
        distinct r \<and> set r \<subseteq> {..<k}"
      by (rule Suc.hyps(1)) (use Suc.hyps(2) Suc.prems True seen' in auto)
    then show ?thesis using True
      by (subst derive_groups_loop.simps) (simp add: add.commute Let_def)
  qed
qed

lemma derive_groups_loop_total:
  assumes "0 < k" and "k \<le> NONCES" and "n \<le> k"
  shows "\<exists>r. derive_groups_loop h k n 0 [] = Some r \<and> length r = n \<and> distinct r
    \<and> set r \<subseteq> {..<k}"
  using derive_groups_loop_returns [of k n 0 "[]"] assms by simp

end

lemma derive_groups_loop_inv:
  assumes "derive_groups_loop h k n nonce g = Some r"
    and "distinct g" and "set g \<subseteq> {..<k}" and "0 < k"
  shows "distinct r \<and> set r \<subseteq> {..<k} \<and> n \<le> length r"
proof -
  have "distinct g \<longrightarrow> set g \<subseteq> {..<k} \<longrightarrow> 0 < k \<longrightarrow>
      distinct r \<and> set r \<subseteq> {..<k} \<and> n \<le> length r"
    by (rule derive_groups_loop.raw_induct [where P = "\<lambda>h k n nonce g r. distinct g \<longrightarrow>
          set g \<subseteq> {..<k} \<longrightarrow> 0 < k \<longrightarrow> distinct r \<and> set r \<subseteq> {..<k} \<and> n \<le> length r",
          OF _ assms(1)])
      (fastforce simp: Let_def split: if_splits)
  with assms(2-) show ?thesis by simp
qed

text \<open>The array loop computes what the vector loop computes for three groups.\<close>

lemma take_Suc_update: "c < length gs \<Longrightarrow> take (Suc c) (gs[c := g]) = take c gs @ [g]"
  by (simp add: take_Suc_conv_app_nth)

lemma derive_groups_3_loop_imp:
  assumes "derive_groups_3_loop h k nonce gs c = Some r" and "length gs = 3" and "c \<le> 3"
  shows "derive_groups_loop h k 3 nonce (take c gs) = Some r"
proof -
  let ?P = "\<lambda>h k nonce gs c r. length gs = 3 \<longrightarrow> c \<le> 3 \<longrightarrow>
     derive_groups_loop h k 3 nonce (take c gs) = Some r"
  have "?P h k nonce gs c r"
  proof (rule derive_groups_3_loop.raw_induct [where P = ?P, OF _ assms(1)], intro impI)
    fix f h k nonce gs c r
    assume IH: "\<And>h k nonce gs c r. f h k nonce gs c = Some r \<Longrightarrow> ?P h k nonce gs c r"
      and eq: "(if c < 3 then let group = unat (h nonce) mod k
           in if group \<in> set (take c gs) then f h k (nonce + 1) gs c
              else f h k (nonce + 1) (gs[c := group]) (c + 1)
         else Some gs) = Some r"
      and l: "length gs = 3" "c \<le> 3"
    show "derive_groups_loop h k 3 nonce (take c gs) = Some r"
    proof (cases "c < 3")
      case False
      with eq l show ?thesis by (subst derive_groups_loop.simps) simp
    next
      case True
      let ?g = "unat (h nonce) mod k"
      from True eq have step: "(if ?g \<in> set (take c gs) then f h k (nonce + 1) gs c
          else f h k (nonce + 1) (gs[c := ?g]) (Suc c)) = Some r"
        by (simp add: Let_def cong: if_cong)
      have "derive_groups_loop h k 3 (nonce + 1)
          (if ?g \<in> set (take c gs) then take c gs else take c gs @ [?g]) = Some r"
      proof (cases "?g \<in> set (take c gs)")
        case True
        with step IH [of h k "nonce + 1" gs c r] l show ?thesis by simp
      next
        case False
        with step IH [of h k "nonce + 1" "gs[c := ?g]" "Suc c" r] l \<open>c < 3\<close>
        show ?thesis by (simp add: take_Suc_update)
      qed
      with True l show ?thesis
        by (subst derive_groups_loop.simps) (simp add: Let_def cong: if_cong)
    qed
  qed
  with assms(2,3) show ?thesis by simp
qed

lemma derive_groups_loop_imp:
  assumes "derive_groups_loop h k n nonce g = Some r" and "n = 3" and "length gs = 3"
    and "c \<le> 3" and "g = take c gs"
  shows "derive_groups_3_loop h k nonce gs c = Some r"
proof -
  let ?P = "\<lambda>h k n nonce g r. \<forall>gs c. n = 3 \<longrightarrow> length gs = 3 \<longrightarrow> c \<le> 3 \<longrightarrow> g = take c gs \<longrightarrow>
     derive_groups_3_loop h k nonce gs c = Some r"
  have "?P h k n nonce g r"
  proof (rule derive_groups_loop.raw_induct [where P = ?P, OF _ assms(1)], intro allI impI)
    fix f h k n nonce g r gs c
    assume IH: "\<And>h k n nonce g r. f h k n nonce g = Some r \<Longrightarrow> ?P h k n nonce g r"
      and eq: "(if length g < n then let group = unat (h nonce) mod k
           in f h k n (nonce + 1) (if group \<in> set g then g else g @ [group])
         else Some g) = Some r"
      and l: "n = 3" "length gs = 3" "c \<le> 3" "g = take c gs"
    show "derive_groups_3_loop h k nonce gs c = Some r"
    proof (cases "c < 3")
      case False
      with eq l show ?thesis by (subst derive_groups_3_loop.simps) simp
    next
      case True
      let ?g = "unat (h nonce) mod k"
      from True eq l have step: "f h k 3 (nonce + 1)
          (if ?g \<in> set (take c gs) then take c gs else take c gs @ [?g]) = Some r"
        by (simp add: Let_def cong: if_cong)
      have "(if ?g \<in> set (take c gs) then derive_groups_3_loop h k (nonce + 1) gs c
          else derive_groups_3_loop h k (nonce + 1) (gs[c := ?g]) (Suc c)) = Some r"
      proof (cases "?g \<in> set (take c gs)")
        case True
        with IH [OF step, rule_format, of gs c] l show ?thesis by simp
      next
        case False
        with IH [OF step, rule_format, of "gs[c := ?g]" "Suc c"] l \<open>c < 3\<close>
        show ?thesis by (simp add: take_Suc_update)
      qed
      with True l show ?thesis
        by (subst derive_groups_3_loop.simps) (simp add: Let_def cong: if_cong)
    qed
  qed
  with assms(2-) show ?thesis by simp
qed

lemma derive_groups_3_loop_eq:
  "derive_groups_3_loop h k 0 [0, 0, 0] 0 = derive_groups_loop h k 3 0 []"
proof (cases "derive_groups_loop h k 3 0 []")
  case None
  then show ?thesis
    using derive_groups_3_loop_imp [of h k 0 "[0, 0, 0]" 0]
    by (cases "derive_groups_3_loop h k 0 [0, 0, 0] 0") auto
next
  case (Some r)
  then show ?thesis using derive_groups_loop_imp [of h k 3 0 "[]" r "[0, 0, 0]" 0] by simp
qed

interpretation byte_groups: group_hash "hash_for_group sh" for sh
  by unfold_locales (rule bij_hash_for_group)

interpretation int_groups: group_hash "hash_int_for_group i" for i
  by unfold_locales (rule bij_hash_int_for_group)

text \<open>What a caller learns about the sampled groups, for either hash.\<close>

context group_hash
begin

lemma derive_groups_loop_cases:
  assumes "k \<le> 2 ^ 64" and "0 < k \<or> n = 0"
  shows "case derive_groups_loop h k n 0 [] of
      None \<Rightarrow> 0 < k \<and> k < n
    | Some r \<Rightarrow> length r = n \<and> distinct r \<and> set r \<subseteq> {..<k}"
proof (cases "n = 0")
  case True
  then show ?thesis by (subst derive_groups_loop.simps) simp
next
  case False
  with assms have k: "0 < k" "k \<le> NONCES" by (auto simp: NONCES_def)
  show ?thesis
  proof (cases "n \<le> k")
    case True
    then show ?thesis using derive_groups_loop_total [OF k] by fastforce
  next
    case n: False
    have "derive_groups_loop h k n 0 [] \<noteq> Some r" for r
    proof
      assume r: "derive_groups_loop h k n 0 [] = Some r"
      then have "distinct r" "set r \<subseteq> {..<k}" "n \<le> length r"
        using derive_groups_loop_inv [OF r] k(1) by auto
      then have "length r \<le> k" by (metis card_lessThan card_mono distinct_card finite_lessThan)
      with \<open>n \<le> length r\<close> n show False by simp
    qed
    then show ?thesis using k n by (cases "derive_groups_loop h k n 0 []") auto
  qed
qed

end

section \<open>Properties\<close>

text \<open>
  C10: The sampling loop of \<open>derive_groups\<close> ends for every script hash exactly when it can. Asked for at least
  one group, it panics exactly on a hash shorter than 20 bytes or \<open>k = 0\<close>; on other inputs it runs forever
  exactly when more groups are asked for than there are. In every remaining case, which is a hash of 20 bytes
  (or no group asked for) and \<open>num_hashes \<le> k\<close>, it returns \<open>num_hashes\<close> pairwise distinct groups below
  \<open>k\<close>. (Each hash is a bijection of the nonce, so every residue comes up.)
\<close>

theorem derive_groups_correct:
  assumes "k \<le> 2 ^ 64"
  shows "case derive_groups sh k n of
      None \<Rightarrow> 20 \<le> length sh \<and> 0 < k \<and> k < n
    | Some (Inl Panic) \<Rightarrow> 0 < n \<and> (length sh < 20 \<or> k = 0)
    | Some (Inr gs) \<Rightarrow> (n = 0 \<or> 20 \<le> length sh) \<and> n \<le> k \<and> length gs = n \<and> distinct gs \<and> set gs \<subseteq> {..<k}"
proof (cases "0 < n \<and> (length sh < 20 \<or> k = 0)")
  case False
  then have "0 < k \<or> n = 0" by auto
  moreover have "length gs \<le> k" if "distinct gs" "set gs \<subseteq> {..<k}" for gs
    using that by (metis card_lessThan card_mono distinct_card finite_lessThan)
  ultimately show ?thesis using byte_groups.derive_groups_loop_cases [OF assms, of n sh] False
    by (auto simp: derive_groups_def not_less split: option.splits)
qed (simp add: derive_groups_def)

theorem derive_groups_correct_witness:
  "case derive_groups (replicate 20 7) 75 3 of
      None \<Rightarrow> False
    | Some (Inl Panic) \<Rightarrow> False
    | Some (Inr gs) \<Rightarrow> length gs = 3 \<and> distinct gs \<and> set gs \<subseteq> {..<75}"
  using derive_groups_correct [of 75 "replicate 20 7" 3]
  by (simp split: option.splits sum.splits rust_panic.splits)

text \<open>
  C36: The array version \<open>derive_groups_3\<close> agrees with \<open>derive_groups\<close> for three hashes on every
  input, the panicking and the diverging ones included.
\<close>

theorem derive_groups_3_equiv: "derive_groups_3 sh k = derive_groups sh k 3"
  by (simp add: derive_groups_3_def derive_groups_def derive_groups_3_loop_eq)

text \<open>
  C37: For integer keys, \<open>derive_int_groups_3\<close> panics exactly for \<open>k = 0\<close>, runs forever exactly for
  \<open>k = 1\<close> and \<open>k = 2\<close>, and otherwise returns three distinct groups below \<open>k\<close>.
\<close>

theorem derive_int_groups_3_correct:
  assumes "k \<le> 2 ^ 64"
  shows "case derive_int_groups_3 i k of
      None \<Rightarrow> k = 1 \<or> k = 2
    | Some (Inl Panic) \<Rightarrow> k = 0
    | Some (Inr gs) \<Rightarrow> 3 \<le> k \<and> length gs = 3 \<and> distinct gs \<and> set gs \<subseteq> {..<k}"
proof (cases "k = 0")
  case False
  have "3 \<le> k" if "length gs = 3" "distinct gs" "set gs \<subseteq> {..<k}" for gs
    using that by (metis card_lessThan card_mono distinct_card finite_lessThan)
  with int_groups.derive_groups_loop_cases [OF assms, of 3 i] False show ?thesis
    by (auto simp: derive_int_groups_3_def derive_groups_3_loop_eq split: option.splits)
qed (simp add: derive_int_groups_3_def)

theorem derive_int_groups_3_correct_witness:
  "derive_int_groups_3 5 2 = None"
proof -
  have "\<not> 3 \<le> (2 :: nat)" by simp
  then show ?thesis using derive_int_groups_3_correct [of 2 5]
    by (simp split: option.splits sum.splits rust_panic.splits)
qed

end
