(* ===== verification/Cuckoo_Header.thy ===== *)
theory Cuckoo_Header
  imports Seeds Params Hash_Fns
begin

text \<open>
  The file headers of the cuckoo tables in \<open>crates/protocol/core/src/cuckoo.rs\<close>: the legacy header,
  the chain-anchored version 2, its reader and the check of the embedded seeds.
\<close>

section \<open>Definitions\<close>

text \<open>Writing into a header of less than 32 bytes panics: \<open>None\<close>.\<close>

definition write_header :: "table_params \<Rightarrow> nat \<Rightarrow> u64 \<Rightarrow> bytes option" where
  "write_header params bins_per_table tag_seed =
     (if tp_header_size params < 32 then None
      else Some (u64_to_le (tp_magic params) @ u32_to_le (of_nat (tp_k params)) @
        u32_to_le (of_nat (tp_slots_per_bin params)) @ u32_to_le (of_nat bins_per_table) @
        u32_to_le (of_nat (tp_num_hashes params)) @ u64_to_le (tp_master_seed params) @
        (if tp_has_tag_seed params \<and> tp_header_size params \<ge> 40
         then u64_to_le tag_seed @ replicate (tp_header_size params - 40) 0
         else replicate (tp_header_size params - 32) 0)))"

definition ANCHOR_MAGIC_SNAPSHOT_XOR :: u64 where "ANCHOR_MAGIC_SNAPSHOT_XOR = 0x0000000100000000"
definition ANCHOR_MAGIC_DELTA_XOR :: u64 where "ANCHOR_MAGIC_DELTA_XOR = 0x0000000200000000"

datatype header_anchor = Header_Snapshot chain_anchor | Header_Delta delta_anchor

fun magic_xor :: "header_anchor \<Rightarrow> u64" where
  "magic_xor (Header_Snapshot a) = ANCHOR_MAGIC_SNAPSHOT_XOR"
| "magic_xor (Header_Delta d) = ANCHOR_MAGIC_DELTA_XOR"

fun anchor_bytes_len :: "header_anchor \<Rightarrow> nat" where
  "anchor_bytes_len (Header_Snapshot a) = CHAIN_ANCHOR_BYTES"
| "anchor_bytes_len (Header_Delta d) = DELTA_ANCHOR_BYTES"

fun header_anchor_to_bytes :: "header_anchor \<Rightarrow> bytes" where
  "header_anchor_to_bytes (Header_Snapshot a) = chain_anchor_to_bytes a"
| "header_anchor_to_bytes (Header_Delta d) = delta_anchor_to_bytes d"

definition write_header_with_anchor ::
  "table_params \<Rightarrow> nat \<Rightarrow> u64 \<Rightarrow> header_anchor option \<Rightarrow> bytes option" where
  "write_header_with_anchor params bins_per_table tag_seed anchor =
     (case write_header params bins_per_table tag_seed of
        None \<Rightarrow> None
      | Some header \<Rightarrow>
          (case anchor of
             None \<Rightarrow> Some header
           | Some a \<Rightarrow>
               (let new_magic = tp_magic params XOR magic_xor a
                in Some (u64_to_le new_magic @ drop 8 header @ header_anchor_to_bytes a))))"

record cuckoo_header =
  ch_bins_per_table :: nat
  ch_master_seed :: u64
  ch_tag_seed :: u64
  ch_anchor :: "header_anchor option"
  ch_header_size :: nat

datatype anchor_variant = Legacy_Header | Snapshot_Header | Delta_Header

definition header_variant :: "u64 \<Rightarrow> table_params \<Rightarrow> anchor_variant option" where
  "header_variant m params =
     (if m = tp_magic params then Some Legacy_Header
      else if m = tp_magic params XOR ANCHOR_MAGIC_SNAPSHOT_XOR then Some Snapshot_Header
      else if m = tp_magic params XOR ANCHOR_MAGIC_DELTA_XOR then Some Delta_Header
      else None)"

fun anchor_payload_len :: "anchor_variant \<Rightarrow> nat" where
  "anchor_payload_len Legacy_Header = 0"
| "anchor_payload_len Snapshot_Header = CHAIN_ANCHOR_BYTES"
| "anchor_payload_len Delta_Header = DELTA_ANCHOR_BYTES"

fun read_anchor :: "bytes \<Rightarrow> nat \<Rightarrow> anchor_variant \<Rightarrow> (io_error, header_anchor option) result" where
  "read_anchor data start Legacy_Header = Inr None"
| "read_anchor data start Snapshot_Header =
     rbind (chain_anchor_from_bytes (slice data start CHAIN_ANCHOR_BYTES)) (\<lambda>a. Inr (Some (Header_Snapshot a)))"
| "read_anchor data start Delta_Header =
     rbind (delta_anchor_from_bytes (slice data start DELTA_ANCHOR_BYTES)) (\<lambda>d. Inr (Some (Header_Delta d)))"

text \<open>With a \<open>header_size\<close> of at least 32 the fixed offsets are in range after the length check.\<close>

definition read_cuckoo_header_with_anchor ::
  "bytes \<Rightarrow> table_params \<Rightarrow> (io_error, cuckoo_header) result" where
  "read_cuckoo_header_with_anchor data params =
     (if length data < 8 then Inl (InvalidData ''cuckoo header: file too small'')
      else case header_variant (u64_from_le (slice data 0 8)) params of
        None \<Rightarrow> Inl (InvalidData ''cuckoo header: bad magic'')
      | Some variant \<Rightarrow>
          (let total_header_size = tp_header_size params + anchor_payload_len variant
           in if length data < total_header_size
              then Inl (InvalidData ''cuckoo header: truncated'')
              else rbind (read_anchor data (tp_header_size params) variant) (\<lambda>anchor.
                Inr \<lparr>ch_bins_per_table = unat (u32_from_le (slice data 16 4)),
                     ch_master_seed = u64_from_le (slice data 24 8),
                     ch_tag_seed = (if tp_has_tag_seed params \<and> tp_header_size params \<ge> 40
                                    then u64_from_le (slice data 32 8) else 0),
                     ch_anchor = anchor,
                     ch_header_size = total_header_size\<rparr>)))"

fun anchor_context :: "header_anchor \<Rightarrow> seed_context" where
  "anchor_context (Header_Snapshot a) = Snapshot_Ctx a"
| "anchor_context (Header_Delta d) = Delta_Ctx d"

datatype seed_check_error = NoAnchor | MasterSeedMismatch | TagSeedMismatch

definition verify_anchor_seeds ::
  "(bytes \<Rightarrow> bytes) \<Rightarrow> cuckoo_header \<Rightarrow> string \<Rightarrow> string option \<Rightarrow> (seed_check_error, unit) result" where
  "verify_anchor_seeds H header master_domain tag_domain =
     (case ch_anchor header of
        None \<Rightarrow> Inl NoAnchor
      | Some anchor \<Rightarrow>
          (let ctx = anchor_context anchor;
               derived_master = derive_seed_u64 H master_domain ctx;
               derived_tag = map_option (\<lambda>d. derive_seed_u64 H d ctx) tag_domain
           in if derived_master \<noteq> ch_master_seed header then Inl MasterSeedMismatch
              else case derived_tag of
                     None \<Rightarrow> Inr ()
                   | Some dt \<Rightarrow> if dt \<noteq> ch_tag_seed header then Inl TagSeedMismatch else Inr ()))"

fun wf_header_anchor :: "header_anchor \<Rightarrow> bool" where
  "wf_header_anchor (Header_Snapshot a) = wf_chain_anchor a"
| "wf_header_anchor (Header_Delta d) = wf_delta_anchor d"

section \<open>Round trip\<close>

lemma length_header_anchor_to_bytes [simp]:
  "wf_header_anchor a \<Longrightarrow> length (header_anchor_to_bytes a) = anchor_bytes_len a"
  by (cases a) (auto simp: CHAIN_ANCHOR_BYTES_def DELTA_ANCHOR_BYTES_def wf_delta_anchor_def
      delta_anchor_to_bytes_def)

lemma xor_cancel: "(x :: u64) XOR a = x XOR b \<longleftrightarrow> a = b"
  using injD [OF inj_xor [of x], of a b] by (auto simp: xor.commute)

lemma header_variant_cases [simp]:
  "header_variant (tp_magic p) p = Some Legacy_Header"
  "header_variant (tp_magic p XOR magic_xor (Header_Snapshot a)) p = Some Snapshot_Header"
  "header_variant (tp_magic p XOR magic_xor (Header_Delta d)) p = Some Delta_Header"
proof -
  have z: "tp_magic p XOR x = tp_magic p \<longleftrightarrow> x = 0" for x
    using xor_cancel [of "tp_magic p" x 0] by simp
  show "header_variant (tp_magic p) p = Some Legacy_Header" by (simp add: header_variant_def)
  show "header_variant (tp_magic p XOR magic_xor (Header_Snapshot a)) p = Some Snapshot_Header"
    unfolding header_variant_def magic_xor.simps z xor_cancel by (simp add: ANCHOR_MAGIC_SNAPSHOT_XOR_def)
  show "header_variant (tp_magic p XOR magic_xor (Header_Delta d)) p = Some Delta_Header"
    unfolding header_variant_def magic_xor.simps z xor_cancel
    by (simp add: ANCHOR_MAGIC_SNAPSHOT_XOR_def ANCHOR_MAGIC_DELTA_XOR_def)
qed

text \<open>The fields of a written header, whatever its first eight bytes say and what follows it.\<close>

lemma written_header_fields:
  assumes "write_header p bins tag = Some h" and "length m = 8" and "bins < 2 ^ 32"
    and "d = m @ drop 8 h @ rest"
  shows "length h = tp_header_size p" "slice d 0 8 = m" "unat (u32_from_le (slice d 16 4)) = bins"
    "u64_from_le (slice d 24 8) = tp_master_seed p"
    "tp_has_tag_seed p \<and> 40 \<le> tp_header_size p \<Longrightarrow> u64_from_le (slice d 32 8) = tag"
    "slice d (tp_header_size p) n = take n rest"
proof -
  define tail where "tail = (if tp_has_tag_seed p \<and> tp_header_size p \<ge> 40
      then u64_to_le tag @ replicate (tp_header_size p - 40) 0 else replicate (tp_header_size p - 32) 0)"
  have hs: "32 \<le> tp_header_size p"
    using assms(1) unfolding write_header_def by (metis not_le option.distinct(1))
  have h: "h = u64_to_le (tp_magic p) @ (u32_to_le (of_nat (tp_k p)) @
        u32_to_le (of_nat (tp_slots_per_bin p))) @ u32_to_le (of_nat bins) @
        u32_to_le (of_nat (tp_num_hashes p)) @ u64_to_le (tp_master_seed p) @ tail"
    using assms(1) hs unfolding write_header_def tail_def [symmetric] by simp
  have tail: "32 + length tail = tp_header_size p"
      "tp_has_tag_seed p \<and> 40 \<le> tp_header_size p \<Longrightarrow> take 8 tail = u64_to_le tag"
    using hs by (simp_all add: tail_def)
  have d: "d = m @ (u32_to_le (of_nat (tp_k p)) @ u32_to_le (of_nat (tp_slots_per_bin p))) @
      u32_to_le (of_nat bins) @ u32_to_le (of_nat (tp_num_hashes p)) @ u64_to_le (tp_master_seed p) @
      tail @ rest"
    using assms(4) by (simp add: h)
  show "length h = tp_header_size p" using tail(1) by (simp add: h)
  show "slice d 0 8 = m" using assms(2) by (simp add: d slice_def)
  have "slice d 16 4 = u32_to_le (of_nat bins)" using assms(2) by (simp add: d slice_def)
  then show "unat (u32_from_le (slice d 16 4)) = bins"
    using assms(3) by (simp add: unat_of_nat take_bit_nat_eq_self)
  have "slice d 24 8 = u64_to_le (tp_master_seed p)" using assms(2) by (simp add: d slice_def)
  then show "u64_from_le (slice d 24 8) = tp_master_seed p" by simp
  have "slice d 32 8 = take 8 (tail @ rest)" using assms(2) by (simp add: d slice_def)
  then show "u64_from_le (slice d 32 8) = tag" if "tp_has_tag_seed p \<and> 40 \<le> tp_header_size p"
    using tail(1) tail(2) [OF that] that by simp
  show "slice d (tp_header_size p) n = take n rest"
    using assms(2) unfolding tail(1) [symmetric] by (simp add: d slice_def)
qed

lemma write_header_returns:
  assumes "32 \<le> tp_header_size p"
  shows "\<exists>h. write_header p bins tag = Some h \<and> length h = tp_header_size p \<and>
    h = u64_to_le (tp_magic p) @ drop 8 h"
  using assms by (auto simp: write_header_def)

definition expected_header :: "table_params \<Rightarrow> nat \<Rightarrow> u64 \<Rightarrow> header_anchor option \<Rightarrow> cuckoo_header" where
  "expected_header p bins tag anchor =
     \<lparr>ch_bins_per_table = bins, ch_master_seed = tp_master_seed p,
      ch_tag_seed = (if tp_has_tag_seed p \<and> 40 \<le> tp_header_size p then tag else 0),
      ch_anchor = anchor,
      ch_header_size = tp_header_size p + (case anchor of None \<Rightarrow> 0 | Some a \<Rightarrow> anchor_bytes_len a)\<rparr>"

text \<open>Reading a written header back, for each of the three magic numbers.\<close>

lemma read_written_header:
  assumes h: "write_header p bins tag = Some h" and hs: "32 \<le> tp_header_size p" and b: "bins < 2 ^ 32"
    and v: "header_variant m p = Some v" and l: "anchor_payload_len v \<le> length rest"
    and r: "\<And>d. slice d (tp_header_size p) (anchor_payload_len v) = take (anchor_payload_len v) rest \<Longrightarrow>
      read_anchor d (tp_header_size p) v = Inr anchor"
  shows "read_cuckoo_header_with_anchor (u64_to_le m @ drop 8 h @ rest) p =
    Inr \<lparr>ch_bins_per_table = bins, ch_master_seed = tp_master_seed p,
      ch_tag_seed = (if tp_has_tag_seed p \<and> 40 \<le> tp_header_size p then tag else 0),
      ch_anchor = anchor, ch_header_size = tp_header_size p + anchor_payload_len v\<rparr>"
proof -
  let ?d = "u64_to_le m @ drop 8 h @ rest"
  have m8: "length (u64_to_le m) = 8" by simp
  note f = written_header_fields [OF h m8 b refl]
  have len: "length ?d = tp_header_size p + length rest" using f(1) hs by simp
  have a: "read_anchor ?d (tp_header_size p) v = Inr anchor" by (rule r) (rule f(6))
  show ?thesis
    unfolding read_cuckoo_header_with_anchor_def f(2,3,4)
    using len l hs v a f(5) by (simp add: Let_def del: length_append)
qed

lemma header_roundtrip_aux:
  assumes "32 \<le> tp_header_size p" and "bins < 2 ^ 32" and "\<forall>a. anchor = Some a \<longrightarrow> wf_header_anchor a"
  shows "\<exists>h. write_header_with_anchor p bins tag anchor = Some h \<and>
    length h = ch_header_size (expected_header p bins tag anchor) \<and>
    read_cuckoo_header_with_anchor (h @ body) p = Inr (expected_header p bins tag anchor)"
proof -
  obtain h where h: "write_header p bins tag = Some h" "length h = tp_header_size p"
    "h = u64_to_le (tp_magic p) @ drop 8 h"
    using write_header_returns [OF assms(1)] by blast
  note rd = read_written_header [OF h(1) assms(1,2)]
  show ?thesis
  proof (cases anchor)
    case None
    have "read_cuckoo_header_with_anchor (u64_to_le (tp_magic p) @ drop 8 h @ body) p =
        Inr (expected_header p bins tag anchor)"
      by (subst rd [of _ Legacy_Header _ None]) (simp_all add: expected_header_def None)
    moreover have "u64_to_le (tp_magic p) @ drop 8 h @ body = h @ body"
      using h(3) by (metis append.assoc)
    ultimately show ?thesis using None h(1,2)
      by (simp add: write_header_with_anchor_def) (simp add: expected_header_def)
  next
    case (Some a)
    have wf: "wf_header_anchor a" using assms(3) Some by simp
    let ?rest = "header_anchor_to_bytes a @ body"
    obtain v where v: "header_variant (tp_magic p XOR magic_xor a) p = Some v"
      "anchor_payload_len v = anchor_bytes_len a"
      "\<And>d. slice d (tp_header_size p) (anchor_payload_len v) = take (anchor_payload_len v) ?rest \<Longrightarrow>
        read_anchor d (tp_header_size p) v = Inr (Some a)"
    proof (cases a)
      case (Header_Snapshot c)
      with wf length_header_anchor_to_bytes [OF wf] show ?thesis
        by (intro that [of Snapshot_Header]) (auto simp del: magic_xor.simps)
    next
      case (Header_Delta d)
      with wf length_header_anchor_to_bytes [OF wf] show ?thesis
        by (intro that [of Delta_Header]) (auto simp del: magic_xor.simps)
    qed
    from rd [OF v(1) _ v(3)] wf v(2)
    have "read_cuckoo_header_with_anchor (u64_to_le (tp_magic p XOR magic_xor a) @ drop 8 h @ ?rest) p =
        Inr (expected_header p bins tag anchor)"
      by (simp add: expected_header_def Some)
    then show ?thesis using Some h(1,2) wf assms(1)
      by (simp add: write_header_with_anchor_def expected_header_def Let_def)
  qed
qed

lemma legacy_header_readable:
  assumes "32 \<le> tp_header_size p" and "tp_has_tag_seed p \<longrightarrow> 40 \<le> tp_header_size p" and "bins < 2 ^ 32"
    and "write_header p bins tag = Some h"
  shows "read_cuckoo_header (h @ body) (tp_magic p) (tp_header_size p) (tp_has_tag_seed p) =
    Some (bins, if tp_has_tag_seed p then tag else 0)"
proof -
  have m8: "length (u64_to_le (tp_magic p)) = 8" by simp
  have "h = u64_to_le (tp_magic p) @ drop 8 h"
    using write_header_returns [OF assms(1), of bins tag] assms(4) by auto
  then have d: "h @ body = u64_to_le (tp_magic p) @ drop 8 h @ body" by (metis append.assoc)
  note f = written_header_fields [OF assms(4) m8 assms(3) d]
  show ?thesis unfolding read_cuckoo_header_def f(2,3) using f(1,5) assms(1,2) by auto
qed

lemma verify_anchor_seeds_iff:
  "verify_anchor_seeds H header md td = Inr () \<longleftrightarrow>
     (case ch_anchor header of
        None \<Rightarrow> False
      | Some a \<Rightarrow> ch_master_seed header = derive_seed_u64 H md (anchor_context a) \<and>
          (case td of None \<Rightarrow> True | Some d \<Rightarrow> ch_tag_seed header = derive_seed_u64 H d (anchor_context a)))"
  by (auto simp: verify_anchor_seeds_def Let_def split: option.splits)

lemma read_with_master_seed:
  "read_cuckoo_header_with_anchor data (with_master_seed p s) = read_cuckoo_header_with_anchor data p"
proof -
  have "header_variant m (with_master_seed p s) = header_variant m p" for m
    by (simp add: header_variant_def with_master_seed_def)
  moreover have "tp_header_size (with_master_seed p s) = tp_header_size p"
    "tp_has_tag_seed (with_master_seed p s) = tp_has_tag_seed p"
    by (simp_all add: with_master_seed_def)
  ultimately show ?thesis by (simp only: read_cuckoo_header_with_anchor_def)
qed

section \<open>Properties\<close>

text \<open>
  C13: Writing a cuckoo header, legacy or with an embedded snapshot or delta anchor, and reading it
  back from the start of a file returns the table size, the seeds, the anchor and the offset at
  which the bins begin; without an anchor the older reader accepts the same bytes.
\<close>

theorem header_roundtrip:
  assumes "32 \<le> tp_header_size p" and "tp_has_tag_seed p \<longrightarrow> 40 \<le> tp_header_size p"
    and "bins < 2 ^ 32" and "\<forall>a. anchor = Some a \<longrightarrow> wf_header_anchor a"
  shows "\<exists>h. write_header_with_anchor p bins tag anchor = Some h \<and>
    read_cuckoo_header_with_anchor (h @ body) p =
      Inr \<lparr>ch_bins_per_table = bins, ch_master_seed = tp_master_seed p,
           ch_tag_seed = (if tp_has_tag_seed p then tag else 0), ch_anchor = anchor,
           ch_header_size = length h\<rparr> \<and>
    (anchor = None \<longrightarrow>
      read_cuckoo_header (h @ body) (tp_magic p) (tp_header_size p) (tp_has_tag_seed p) =
        Some (bins, if tp_has_tag_seed p then tag else 0))"
proof -
  obtain h where h: "write_header_with_anchor p bins tag anchor = Some h"
    "length h = ch_header_size (expected_header p bins tag anchor)"
    "read_cuckoo_header_with_anchor (h @ body) p = Inr (expected_header p bins tag anchor)"
    using header_roundtrip_aux [OF assms(1,3,4)] by blast
  have "read_cuckoo_header (h @ body) (tp_magic p) (tp_header_size p) (tp_has_tag_seed p) =
        Some (bins, if tp_has_tag_seed p then tag else 0)" if "anchor = None"
    using legacy_header_readable [OF assms(1-3)] h(1) that
    by (auto simp: write_header_with_anchor_def split: option.splits)
  with h assms(2) show ?thesis by (auto simp: expected_header_def)
qed

theorem header_roundtrip_witness:
  "\<exists>h. write_header_with_anchor INDEX_PARAMS 1000 5
       (Some (Header_Snapshot \<lparr>block_hash = replicate 32 7, block_height = 900000\<rparr>)) = Some h \<and>
     read_cuckoo_header_with_anchor (h @ [1, 2, 3]) INDEX_PARAMS =
       Inr \<lparr>ch_bins_per_table = 1000, ch_master_seed = 0, ch_tag_seed = 5,
            ch_anchor = Some (Header_Snapshot \<lparr>block_hash = replicate 32 7, block_height = 900000\<rparr>),
            ch_header_size = length h\<rparr>"
  using header_roundtrip [of INDEX_PARAMS 1000
      "Some (Header_Snapshot \<lparr>block_hash = replicate 32 7, block_height = 900000\<rparr>)" 5 "[1, 2, 3]"]
  by (auto simp: INDEX_PARAMS_def wf_chain_anchor_def)

text \<open>
  C28: A table header of a kind that has a tag seed, written with master seed \<open>s\<close>, tag seed \<open>t\<close> and anchor \<open>a\<close>, read back with the
  standard parameters, passes the seed check exactly when both seeds are the values derived from
  that anchor: a builder cannot choose them.
\<close>

theorem anchored_header_check:
  assumes "40 \<le> tp_header_size p" and "tp_has_tag_seed p" and "bins < 2 ^ 32" and "wf_header_anchor a"
  shows "\<exists>h hdr. write_header_with_anchor (with_master_seed p s) bins t (Some a) = Some h \<and>
    read_cuckoo_header_with_anchor (h @ body) p = Inr hdr \<and>
    (verify_anchor_seeds H hdr md (Some td) = Inr () \<longleftrightarrow>
       s = derive_seed_u64 H md (anchor_context a) \<and> t = derive_seed_u64 H td (anchor_context a))"
proof -
  let ?p = "with_master_seed p s"
  have "32 \<le> tp_header_size ?p" "\<forall>a'. Some a = Some a' \<longrightarrow> wf_header_anchor a'"
    using assms(1,4) by (auto simp: with_master_seed_def)
  from header_roundtrip_aux [OF this(1) assms(3) this(2), of t body] obtain h where
    h: "write_header_with_anchor ?p bins t (Some a) = Some h"
      "read_cuckoo_header_with_anchor (h @ body) ?p = Inr (expected_header ?p bins t (Some a))"
    by blast
  have e: "expected_header ?p bins t (Some a) = \<lparr>ch_bins_per_table = bins, ch_master_seed = s,
      ch_tag_seed = t, ch_anchor = Some a, ch_header_size = tp_header_size p + anchor_bytes_len a\<rparr>"
    using assms(1,2) by (simp add: expected_header_def with_master_seed_def)
  show ?thesis
    by (intro exI [of _ h] exI [of _ "expected_header ?p bins t (Some a)"] conjI h(1)
        h(2) [unfolded read_with_master_seed]) (simp add: e verify_anchor_seeds_iff)
qed

theorem anchored_header_check_witness:
  "\<exists>h hdr. write_header_with_anchor (with_master_seed INDEX_PARAMS
         (derive_seed_u64 sha256 INDEX_CUCKOO_MASTER (Snapshot_Ctx \<lparr>block_hash = replicate 32 7, block_height = 9\<rparr>)))
       1000 (derive_seed_u64 sha256 INDEX_TAG_FINGERPRINT (Snapshot_Ctx \<lparr>block_hash = replicate 32 7, block_height = 9\<rparr>))
       (Some (Header_Snapshot \<lparr>block_hash = replicate 32 7, block_height = 9\<rparr>)) = Some h \<and>
     read_cuckoo_header_with_anchor (h @ [1]) INDEX_PARAMS = Inr hdr \<and>
     verify_anchor_seeds sha256 hdr INDEX_CUCKOO_MASTER (Some INDEX_TAG_FINGERPRINT) = Inr ()"
  using anchored_header_check [of INDEX_PARAMS 1000 "Header_Snapshot \<lparr>block_hash = replicate 32 7, block_height = 9\<rparr>"]
  by (simp add: INDEX_PARAMS_def wf_chain_anchor_def) blast

end
