(* ===== verification/Bucket_Build.thy ===== *)
theory Bucket_Build
  imports Cuckoo_Header
begin

text \<open>
  The per-bucket Merkle builder, \<open>tools/db-builder/src/merkle_bucket_builder.rs\<close>: for every PBC
  group an arity-8 tree over the bins of its cuckoo table, the flat sibling tables, the tree-top
  caches and the super-root over all group roots. Files are byte lists; \<open>None\<close> is a panic.
\<close>

section \<open>Definitions\<close>

definition ARITY :: nat where "ARITY = 8"
definition SIB_ROW_SIZE :: nat where "SIB_ROW_SIZE = ARITY * 32"
definition TREE_TOP_THRESHOLD :: nat where "TREE_TOP_THRESHOLD = 1024"

definition bucket_sib_magic :: "u8 \<Rightarrow> u8 \<Rightarrow> u64" where
  "bucket_sib_magic table_type level =
     0xBA7CB00000000000 OR push_bit 40 (ucast table_type) OR push_bit 16 (ucast level)"

record per_group_tree =
  pg_levels :: "bytes list list"
  pg_root :: bytes

definition leaf_hashes :: "bytes \<Rightarrow> nat \<Rightarrow> nat \<Rightarrow> bytes list" where
  "leaf_hashes group_data bins_per_table bin_size =
     map (\<lambda>i. compute_bin_leaf_hash (of_nat i) (slice group_data (i * bin_size) bin_size))
       [0..<bins_per_table]"

definition group_data :: "bytes \<Rightarrow> nat \<Rightarrow> nat \<Rightarrow> nat \<Rightarrow> nat \<Rightarrow> bytes" where
  "group_data mmap data_offset group_id bins_per_table bin_size =
     slice mmap (data_offset + group_id * (bins_per_table * bin_size)) (bins_per_table * bin_size)"

definition build_group_tree :: "bytes \<Rightarrow> nat \<Rightarrow> nat \<Rightarrow> nat \<Rightarrow> nat \<Rightarrow> per_group_tree option" where
  "build_group_tree mmap data_offset group_id bins_per_table bin_size =
     (if length mmap < data_offset + group_id * (bins_per_table * bin_size) + bins_per_table * bin_size
      then None
      else (let levels = build_levels ARITY (leaf_hashes
                  (group_data mmap data_offset group_id bins_per_table bin_size) bins_per_table bin_size)
            in case last levels of
                 [] \<Rightarrow> None
               | r # _ \<Rightarrow> Some \<lparr>pg_levels = levels, pg_root = r\<rparr>))"

function sibling_levels_loop :: "nat \<Rightarrow> nat list" where
  "sibling_levels_loop nodes_at_level =
     (let num_groups = div_ceil nodes_at_level ARITY
      in if num_groups \<le> TREE_TOP_THRESHOLD then [] else num_groups # sibling_levels_loop num_groups)"
  by pat_completeness auto
termination
proof (relation "measure id", goal_cases)
  case (2 n x)
  have "1 < n"
  proof (rule ccontr)
    assume "\<not> 1 < n"
    then have "div_ceil n ARITY \<le> 1" by (simp add: div_ceil_le_iff ARITY_def)
    with 2 show False by (simp add: TREE_TOP_THRESHOLD_def)
  qed
  then show ?case using 2 div_ceil_smaller [of ARITY n] by (simp add: ARITY_def)
qed simp

declare sibling_levels_loop.simps [simp del]

definition compute_sibling_levels :: "nat \<Rightarrow> nat list" where
  "compute_sibling_levels bins_per_table = sibling_levels_loop bins_per_table"

definition sibling_row :: "bytes list \<Rightarrow> nat \<Rightarrow> bytes" where
  "sibling_row children_level r =
     concat (map (\<lambda>c. let idx = r * ARITY + c
                      in if idx < length children_level then children_level ! idx else ZERO_HASH)
       [0..<ARITY])"

definition sibling_table_header :: "nat \<Rightarrow> nat \<Rightarrow> u64 \<Rightarrow> bytes" where
  "sibling_table_header num_groups k mg =
     u64_to_le mg @ u32_to_le (of_nat k) @ u32_to_le 1 @ u32_to_le (of_nat num_groups) @
     u32_to_le 0 @ u64_to_le 0"

definition write_flat_sibling_table ::
  "per_group_tree list \<Rightarrow> nat \<Rightarrow> nat \<Rightarrow> nat \<Rightarrow> u64 \<Rightarrow> bytes option" where
  "write_flat_sibling_table trees level_idx num_groups k mg =
     (if \<exists>t \<in> set (take k trees). length (pg_levels t) \<le> level_idx then None
      else Some (sibling_table_header num_groups k mg @
        concat (map (\<lambda>t. concat (map (sibling_row (pg_levels t ! level_idx)) [0..<num_groups]))
          (take k trees))))"

definition write_level :: "bytes list \<Rightarrow> bytes" where
  "write_level level = u32_to_le (of_nat (length level)) @ concat level"

definition write_one_tree_top :: "per_group_tree \<Rightarrow> nat \<Rightarrow> bytes option" where
  "write_one_tree_top t cache_from_level =
     (if length (pg_levels t) < cache_from_level then None
      else (let cached = drop cache_from_level (pg_levels t);
                total_nodes = sum_list (map length cached)
            in Some ([of_nat cache_from_level] @ u32_to_le (of_nat total_nodes) @
                 u16_to_le (of_nat ARITY) @ [of_nat (length (pg_levels t) - cache_from_level)] @
                 concat (map write_level cached))))"

fun write_tops_loop :: "(per_group_tree \<times> nat) list \<Rightarrow> bytes option" where
  "write_tops_loop [] = Some []"
| "write_tops_loop ((t, cfl) # ts) =
     (case write_one_tree_top t cfl of
        None \<Rightarrow> None
      | Some b \<Rightarrow> map_option (\<lambda>bs. b @ bs) (write_tops_loop ts))"

definition write_tree_tops ::
  "per_group_tree list \<Rightarrow> per_group_tree list \<Rightarrow> nat list \<Rightarrow> nat list \<Rightarrow> bytes option" where
  "write_tree_tops index_trees chunk_trees index_sib_levels chunk_sib_levels =
     map_option (\<lambda>bs. u32_to_le (of_nat (length index_trees + length chunk_trees)) @ bs)
       (write_tops_loop (map (\<lambda>t. (t, length index_sib_levels)) index_trees @
                         map (\<lambda>t. (t, length chunk_sib_levels)) chunk_trees))"

definition bucket_super_root :: "per_group_tree list \<Rightarrow> per_group_tree list \<Rightarrow> bytes" where
  "bucket_super_root index_trees chunk_trees = sha256 (concat (map pg_root (index_trees @ chunk_trees)))"

text \<open>The files that \<open>build_bucket_merkle\<close> writes.\<close>

record bucket_merkle_files =
  bm_index_sib :: "bytes list"
  bm_chunk_sib :: "bytes list"
  bm_tree_tops :: bytes
  bm_roots :: bytes
  bm_root :: bytes

fun collect_options :: "'a option list \<Rightarrow> 'a list option" where
  "collect_options [] = Some []"
| "collect_options (x # xs) =
     (case x of None \<Rightarrow> None | Some y \<Rightarrow> map_option (\<lambda>ys. y # ys) (collect_options xs))"

definition build_trees :: "bytes \<Rightarrow> table_params \<Rightarrow> cuckoo_header \<Rightarrow> per_group_tree list option" where
  "build_trees mmap params header =
     collect_options (map (\<lambda>g. build_group_tree mmap (ch_header_size header) g
       (ch_bins_per_table header) (tp_bin_size params)) [0..<tp_k params])"

definition write_sib_tables :: "per_group_tree list \<Rightarrow> nat list \<Rightarrow> nat \<Rightarrow> u8 \<Rightarrow> bytes list option" where
  "write_sib_tables trees sib_levels k table_type =
     collect_options (map (\<lambda>(level_idx, num_groups).
         write_flat_sibling_table trees level_idx num_groups k
           (bucket_sib_magic table_type (of_nat level_idx)))
       (zip [0..<length sib_levels] sib_levels))"

definition build_bucket_merkle :: "bytes \<Rightarrow> bytes \<Rightarrow> bucket_merkle_files option" where
  "build_bucket_merkle index_mmap chunk_mmap =
     (case (read_cuckoo_header_with_anchor index_mmap INDEX_PARAMS,
            read_cuckoo_header_with_anchor chunk_mmap CHUNK_PARAMS) of
        (Inr index_header, Inr chunk_header) \<Rightarrow>
          (case (build_trees index_mmap INDEX_PARAMS index_header,
                 build_trees chunk_mmap CHUNK_PARAMS chunk_header) of
             (Some index_trees, Some chunk_trees) \<Rightarrow>
               (let index_sib_levels = compute_sibling_levels (ch_bins_per_table index_header);
                    chunk_sib_levels = compute_sibling_levels (ch_bins_per_table chunk_header)
                in case (write_sib_tables index_trees index_sib_levels (tp_k INDEX_PARAMS) 0,
                         write_sib_tables chunk_trees chunk_sib_levels (tp_k CHUNK_PARAMS) 1,
                         write_tree_tops index_trees chunk_trees index_sib_levels chunk_sib_levels) of
                     (Some isib, Some csib, Some tops) \<Rightarrow>
                       Some \<lparr>bm_index_sib = isib, bm_chunk_sib = csib, bm_tree_tops = tops,
                             bm_roots = concat (map pg_root (index_trees @ chunk_trees)),
                             bm_root = bucket_super_root index_trees chunk_trees\<rparr>
                   | _ \<Rightarrow> None)
           | _ \<Rightarrow> None)
      | _ \<Rightarrow> None)"

section \<open>The tree as an interface\<close>

text \<open>What a verifier relies on: how the levels hang together, and which bytes a leaf commits to.\<close>

locale honest_tree =
  fixes levels :: "bytes list list" and bins :: nat and content :: "nat \<Rightarrow> bytes"
  assumes levels_not_Nil: "levels \<noteq> []"
    and num_bins: "length (levels ! 0) = bins"
    and leaf: "i < bins \<Longrightarrow> levels ! 0 ! i = compute_bin_leaf_hash (of_nat i) (content i)"
    and next_size: "Suc l < length levels \<Longrightarrow> length (levels ! Suc l) = div_ceil (length (levels ! l)) ARITY"
    and node: "Suc l < length levels \<Longrightarrow> i < length (levels ! Suc l) \<Longrightarrow>
      levels ! Suc l ! i = compute_parent_n (node_children ARITY (levels ! l) i)"
    and top: "0 < bins \<Longrightarrow> length (last levels) = 1"

lemma length_leaf_hashes [simp]: "length (leaf_hashes d bins bs) = bins"
  by (simp add: leaf_hashes_def)

interpretation group_tree: honest_tree "build_levels ARITY (leaf_hashes d bins bs)" bins
  "\<lambda>i. slice d (i * bs) bs" for d bins bs
proof unfold_locales
  let ?l = "build_levels ARITY (leaf_hashes d bins bs)"
  show "?l \<noteq> []" "length (?l ! 0) = bins" by simp_all
  show "?l ! 0 ! i = compute_bin_leaf_hash (of_nat i) (slice d (i * bs) bs)" if "i < bins" for i
    using that by (simp add: leaf_hashes_def)
  fix l assume l: "Suc l < length ?l"
  show "length (?l ! Suc l) = div_ceil (length (?l ! l)) ARITY" by (simp add: build_levels_Suc [OF l])
  then show "?l ! Suc l ! i = compute_parent_n (node_children ARITY (?l ! l) i)"
    if "i < length (?l ! Suc l)" for i
    using that by (simp add: build_levels_Suc [OF l] nth_next_level)
next
  show "length (last (build_levels ARITY (leaf_hashes d bins bs))) = 1" if "0 < bins"
    using that by (intro build_levels_last) (auto simp: ARITY_def simp flip: length_greater_0_conv)
qed

lemma build_group_tree_SomeD:
  assumes "build_group_tree mmap off g bins bs = Some t"
  shows "pg_levels t = build_levels ARITY (leaf_hashes (group_data mmap off g bins bs) bins bs)"
    and "pg_root t = last (pg_levels t) ! 0" and "0 < bins" and "length (pg_root t) = 32"
proof -
  let ?ls = "build_levels ARITY (leaf_hashes (group_data mmap off g bins bs) bins bs)"
  obtain r rs where r: "last ?ls = r # rs" "t = \<lparr>pg_levels = ?ls, pg_root = r\<rparr>"
    using assms by (auto simp: build_group_tree_def Let_def split: if_splits list.splits)
  show "pg_levels t = ?ls" "pg_root t = last (pg_levels t) ! 0" using r by simp_all
  show "0 < bins"
  proof (rule ccontr)
    assume "\<not> 0 < bins"
    then have "last ?ls = []" by (simp add: leaf_hashes_def build_levels.simps)
    with r show False by simp
  qed
  have "\<forall>x \<in> set (leaf_hashes (group_data mmap off g bins bs) bins bs). length x = 32"
    by (auto simp: leaf_hashes_def)
  from build_levels_32 [OF this, of "length ?ls - 1" ARITY]
  have "\<forall>x \<in> set (last ?ls). length x = 32" by (simp add: last_conv_nth)
  then show "length (pg_root t) = 32" using r by simp
qed

section \<open>Sizes\<close>

lemma build_levels_depth:
  "length xs \<le> ARITY ^ m \<Longrightarrow> length (build_levels ARITY xs) \<le> Suc m"
proof (induction m arbitrary: xs)
  case 0
  then show ?case by (simp add: build_levels.simps)
next
  case (Suc m)
  have "length (next_level ARITY xs) \<le> ARITY ^ m"
    using Suc.prems by (simp add: div_ceil_le_iff ARITY_def mult.commute)
  from Suc.IH [OF this] show ?case by (subst build_levels.simps) simp
qed

text \<open>Below every sibling table there is a level of the tree, and its rows are that level's parents.\<close>

lemma sibling_levels_of_tree:
  "length (sibling_levels_loop (length xs)) < length (build_levels ARITY xs) \<and>
   (\<forall>l < length (sibling_levels_loop (length xs)).
      sibling_levels_loop (length xs) ! l = length (build_levels ARITY xs ! Suc l))"
proof (induction "length xs" arbitrary: xs rule: sibling_levels_loop.induct)
  case 1
  let ?g = "div_ceil (length xs) ARITY"
  show ?case
  proof (cases "?g \<le> TREE_TOP_THRESHOLD")
    case True
    then show ?thesis by (simp add: sibling_levels_loop.simps)
  next
    case False
    then have "\<not> length xs \<le> 1"
      by (metis ARITY_def TREE_TOP_THRESHOLD_def div_ceil_le_iff dual_order.trans mult_1 nat_le_linear
          numeral_le_iff one_le_numeral order.trans zero_less_numeral)
    then have eq: "build_levels ARITY xs = xs # build_levels ARITY (next_level ARITY xs)"
      by (subst build_levels.simps) (simp add: ARITY_def)
    have "length (sibling_levels_loop ?g) < length (build_levels ARITY (next_level ARITY xs)) \<and>
      (\<forall>l < length (sibling_levels_loop ?g).
         sibling_levels_loop ?g ! l = length (build_levels ARITY (next_level ARITY xs) ! Suc l))"
      using 1 [of "next_level ARITY xs"] False by simp
    moreover have "sibling_levels_loop (length xs) = ?g # sibling_levels_loop ?g"
      using False by (subst sibling_levels_loop.simps) (simp add: Let_def)
    ultimately show ?thesis by (auto simp: eq less_Suc_eq_0_disj)
  qed
qed

lemma sibling_row_children: "sibling_row lv r = concat (node_children ARITY lv r)"
proof -
  have "map (\<lambda>c. let idx = r * ARITY + c in if idx < length lv then lv ! idx else ZERO_HASH) [0..<ARITY] =
      node_children ARITY lv r"
    by (rule nth_equalityI) (auto simp: nth_node_children Let_def)
  then show ?thesis by (simp add: sibling_row_def)
qed

end
