(* ===== verification/Pir_Error.thy ===== *)
theory Pir_Error
  imports Bpir_Prelude
begin

text \<open>
  The error type of the client SDK, \<open>crates/sdk/core/src/error.rs\<close>. A message is kept as its fixed
  text; the values that the code formats into it are dropped.
\<close>

datatype error_kind =
    K_TransientNetwork | K_SessionEvicted | K_ProtocolSkew | K_MerkleVerificationFailed
  | K_ServerError | K_ClientError | K_DataError | K_Other

datatype pir_error =
    ConnectionFailed string
  | ConnectionClosed string
  | Timeout string
  | NotConnected
  | Transient string string
  | Protocol string
  | ServerError string
  | UnexpectedResponse string string
  | ProtocolSkew string string
  | SessionEvicted string
  | DatabaseNotFound u8
  | InvalidCatalog string
  | NoSyncPath string
  | InvalidScriptHash string
  | QueryFailed string
  | VerificationFailed string
  | MerkleVerificationFailed string
  | InvalidState string
  | BackendState string
  | Config string
  | MissingServer string
  | Io string
  | Decode string
  | Encode string
  | MergeError string
  | Internal string

type_synonym 'a pir_result = "(pir_error, 'a) result"

fun error_kind_of :: "pir_error \<Rightarrow> error_kind" where
  "error_kind_of (Timeout s) = K_TransientNetwork"
| "error_kind_of (ConnectionClosed s) = K_TransientNetwork"
| "error_kind_of (ConnectionFailed s) = K_TransientNetwork"
| "error_kind_of (Transient s t) = K_TransientNetwork"
| "error_kind_of (SessionEvicted s) = K_SessionEvicted"
| "error_kind_of (ProtocolSkew s t) = K_ProtocolSkew"
| "error_kind_of (UnexpectedResponse s t) = K_ProtocolSkew"
| "error_kind_of (MerkleVerificationFailed s) = K_MerkleVerificationFailed"
| "error_kind_of (VerificationFailed s) = K_MerkleVerificationFailed"
| "error_kind_of (Protocol s) = K_ServerError"
| "error_kind_of (ServerError s) = K_ServerError"
| "error_kind_of NotConnected = K_ClientError"
| "error_kind_of (InvalidState s) = K_ClientError"
| "error_kind_of (BackendState s) = K_ClientError"
| "error_kind_of (Config s) = K_ClientError"
| "error_kind_of (MissingServer s) = K_ClientError"
| "error_kind_of (InvalidScriptHash s) = K_ClientError"
| "error_kind_of (DatabaseNotFound d) = K_DataError"
| "error_kind_of (InvalidCatalog s) = K_DataError"
| "error_kind_of (NoSyncPath s) = K_DataError"
| "error_kind_of (QueryFailed s) = K_DataError"
| "error_kind_of (Decode s) = K_DataError"
| "error_kind_of (Encode s) = K_DataError"
| "error_kind_of (MergeError s) = K_DataError"
| "error_kind_of (Io s) = K_Other"
| "error_kind_of (Internal s) = K_Other"

fun is_connection_error :: "pir_error \<Rightarrow> bool" where
  "is_connection_error (ConnectionFailed s) = True"
| "is_connection_error (ConnectionClosed s) = True"
| "is_connection_error (Timeout s) = True"
| "is_connection_error NotConnected = True"
| "is_connection_error (Transient s t) = True"
| "is_connection_error _ = False"

fun is_protocol_error :: "pir_error \<Rightarrow> bool" where
  "is_protocol_error (Protocol s) = True"
| "is_protocol_error (ServerError s) = True"
| "is_protocol_error (UnexpectedResponse s t) = True"
| "is_protocol_error (ProtocolSkew s t) = True"
| "is_protocol_error _ = False"

definition is_retryable :: "pir_error \<Rightarrow> bool" where
  "is_retryable e \<longleftrightarrow> error_kind_of e \<in> {K_TransientNetwork, K_SessionEvicted}"

definition is_transient_network :: "pir_error \<Rightarrow> bool" where
  "is_transient_network e \<longleftrightarrow> error_kind_of e = K_TransientNetwork"

definition is_session_lost :: "pir_error \<Rightarrow> bool" where
  "is_session_lost e \<longleftrightarrow> error_kind_of e \<in> {K_SessionEvicted, K_TransientNetwork}"

definition is_verification_failure :: "pir_error \<Rightarrow> bool" where
  "is_verification_failure e \<longleftrightarrow> error_kind_of e = K_MerkleVerificationFailed"

definition is_protocol_skew :: "pir_error \<Rightarrow> bool" where
  "is_protocol_skew e \<longleftrightarrow> error_kind_of e = K_ProtocolSkew"

text \<open>A verification failure is never retried, and only a lost connection is transient.\<close>

lemma verification_failure_not_retryable: "is_verification_failure e \<Longrightarrow> \<not> is_retryable e \<and> \<not> is_connection_error e"
  by (cases e) (auto simp: is_verification_failure_def is_retryable_def)

lemma transient_is_connection_error:
  "is_transient_network e \<longleftrightarrow> is_connection_error e \<and> e \<noteq> NotConnected"
  by (cases e) (auto simp: is_transient_network_def)

end
