(* ===== verification/Tree_Tops.thy ===== *)
theory Tree_Tops
  imports Bucket_Build Pir_Error
begin

text \<open>
  The tree-top blob on the client side, \<open>crates/sdk/client/src/merkle_verify.rs\<close>: its parser, the
  binding of the ordered group roots to an attested super-root, and the round trip with the blob
  that the database builder writes.
\<close>

section \<open>Definitions\<close>

definition BUCKET_MERKLE_ARITY :: nat where "BUCKET_MERKLE_ARITY = 8"
definition BUCKET_MERKLE_SIB_ROW_SIZE :: nat where
  "BUCKET_MERKLE_SIB_ROW_SIZE = BUCKET_MERKLE_ARITY * 32"

record tree_top =
  cache_from_level :: nat
  top_levels :: "bytes list list"

definition top_root :: "tree_top \<Rightarrow> bytes option" where
  "top_root t =
     (if top_levels t = [] then None
      else case last (top_levels t) of [] \<Rightarrow> None | r # _ \<Rightarrow> Some r)"

text \<open>The roots in order, or the first position without one; \<open>H\<close> is the SHA-256 of the \<open>sha2\<close> crate.\<close>

fun collect_roots :: "tree_top list \<Rightarrow> bytes list pir_result" where
  "collect_roots [] = Inr []"
| "collect_roots (t # ts) =
     (case top_root t of
        None \<Rightarrow> Inl (VerificationFailed ''bucket tree-top has no root'')
      | Some r \<Rightarrow> rbind (collect_roots ts) (\<lambda>rs. Inr (r # rs)))"

definition verify_tree_tops_super_root ::
  "(bytes \<Rightarrow> bytes) \<Rightarrow> tree_top list \<Rightarrow> nat \<Rightarrow> nat \<Rightarrow> bytes \<Rightarrow> unit pir_result" where
  "verify_tree_tops_super_root H tree_tops index_k chunk_k expected =
     (if length tree_tops \<noteq> index_k + chunk_k
      then Inl (VerificationFailed ''bucket tree-tops count mismatch'')
      else rbind (collect_roots tree_tops) (\<lambda>roots.
        if H (concat roots) \<noteq> expected
        then Inl (VerificationFailed ''bucket tree-tops super-root mismatch'')
        else Inr ()))"

text \<open>The offsets of the parser stay below \<open>2 ^ 64\<close> for a buffer in memory, so the checked sums are
  plain ones. Each function returns what it read and the new offset.\<close>

definition parse_top_level :: "bytes \<Rightarrow> nat \<Rightarrow> (bytes list \<times> nat) pir_result" where
  "parse_top_level data off =
     (let count_end = off + 4
      in if count_end > length data then Inl (Decode ''tree-tops: truncated level count'')
         else (let n = unat (u32_from_le (slice data off 4));
                   hashes_end = count_end + n * 32
               in if hashes_end > length data then Inl (Decode ''tree-tops: truncated hashes'')
                  else Inr (map (\<lambda>i. slice data (count_end + i * 32) 32) [0..<n], hashes_end)))"

fun parse_top_levels :: "bytes \<Rightarrow> nat \<Rightarrow> nat \<Rightarrow> (bytes list list \<times> nat) pir_result" where
  "parse_top_levels data 0 off = Inr ([], off)"
| "parse_top_levels data (Suc num_levels) off =
     rbind (parse_top_level data off) (\<lambda>(nodes, off').
     rbind (parse_top_levels data num_levels off') (\<lambda>(levels, off'').
     Inr (nodes # levels, off'')))"

definition parse_top :: "bytes \<Rightarrow> nat \<Rightarrow> (tree_top \<times> nat) pir_result" where
  "parse_top data off =
     (let header_end = off + 8
      in if header_end > length data then Inl (Decode ''tree-tops: truncated header'')
         else (let cfl = unat (data ! off);
                   arity = unat (u16_from_le (slice data (off + 5) 2));
                   num_levels = unat (data ! (off + 7))
               in if arity \<noteq> BUCKET_MERKLE_ARITY then Inl (Decode ''tree-tops: arity'')
                  else rbind (parse_top_levels data num_levels header_end) (\<lambda>(levels, off').
                       Inr (\<lparr>cache_from_level = cfl, top_levels = levels\<rparr>, off'))))"

fun parse_tops_loop :: "bytes \<Rightarrow> nat \<Rightarrow> nat \<Rightarrow> (tree_top list \<times> nat) pir_result" where
  "parse_tops_loop data 0 off = Inr ([], off)"
| "parse_tops_loop data (Suc num_trees) off =
     rbind (parse_top data off) (\<lambda>(t, off').
     rbind (parse_tops_loop data num_trees off') (\<lambda>(ts, off'').
     Inr (t # ts, off'')))"

definition parse_tree_tops :: "bytes \<Rightarrow> tree_top list pir_result" where
  "parse_tree_tops data =
     (if length data < 4 then Inl (Decode ''tree-tops blob too short'')
      else (let num_trees = unat (u32_from_le (slice data 0 4));
                max_trees_from_headers = (length data - 4) div 8
            in if num_trees > max_trees_from_headers then Inl (Decode ''tree-tops declares too many trees'')
               else rbind (parse_tops_loop data num_trees 4) (\<lambda>(out, off).
                    if off \<noteq> length data then Inl (Decode ''tree-tops: trailing bytes'') else Inr out)))"

section \<open>Parsing what the builder writes\<close>

definition wf_level :: "bytes list \<Rightarrow> bool" where
  "wf_level level \<longleftrightarrow> length level < 2 ^ 32 \<and> (\<forall>x \<in> set level. length x = 32)"

lemma length_write_level:
  "wf_level level \<Longrightarrow> length (write_level level) = 4 + length level * 32"
  by (simp add: write_level_def wf_level_def length_concat_fixed)

lemma parse_write_level:
  assumes "wf_level level"
  shows "parse_top_level (pre @ write_level level @ rest) (length pre) =
    Inr (level, length pre + length (write_level level))"
proof -
  let ?d = "pre @ write_level level @ rest"
  have l: "length (concat level) = length level * 32"
    using assms by (simp add: wf_level_def length_concat_fixed)
  have n: "unat (u32_from_le (slice ?d (length pre) 4)) = length level"
  proof -
    have "slice ?d (length pre) 4 = u32_to_le (of_nat (length level))"
      by (simp add: write_level_def slice_def)
    then show ?thesis using assms by (simp add: wf_level_def unat_of_nat take_bit_nat_eq_self)
  qed
  have nodes: "map (\<lambda>i. slice ?d (length pre + 4 + i * 32) 32) [0..<length level] = level"
  proof (rule nth_equalityI)
    fix i assume "i < length (map (\<lambda>i. slice ?d (length pre + 4 + i * 32) 32) [0..<length level])"
    then have i: "i < length level" by simp
    have "slice ?d (length pre + 4 + i * 32) 32 =
        slice ((pre @ u32_to_le (of_nat (length level))) @ concat level @ rest)
          (length (pre @ u32_to_le (of_nat (length level))) + i * 32) 32"
      by (simp add: write_level_def)
    also have "\<dots> = level ! i"
      unfolding slice_shift using assms i by (simp add: slice_concat_fixed wf_level_def)
    finally show "map (\<lambda>i. slice ?d (length pre + 4 + i * 32) 32) [0..<length level] ! i = level ! i"
      using i by simp
  qed simp
  show ?thesis
    unfolding parse_top_level_def n Let_def nodes
    by (simp add: length_write_level [OF assms])
qed

lemma parse_write_levels:
  assumes "\<forall>l \<in> set levels. wf_level l"
  shows "parse_top_levels (pre @ concat (map write_level levels) @ rest) (length levels) (length pre) =
    Inr (levels, length pre + length (concat (map write_level levels)))"
  using assms
proof (induction levels arbitrary: pre)
  case (Cons l levels)
  have "parse_top_levels ((pre @ write_level l) @ concat (map write_level levels) @ rest)
      (length levels) (length (pre @ write_level l)) =
    Inr (levels, length (pre @ write_level l) + length (concat (map write_level levels)))"
    using Cons by (intro Cons.IH) auto
  moreover have "parse_top_level (pre @ write_level l @ concat (map write_level levels) @ rest) (length pre) =
      Inr (l, length pre + length (write_level l))"
    using Cons.prems by (intro parse_write_level) auto
  ultimately show ?case by simp
qed simp

text \<open>The trees that the format can carry: less than 256 levels, each of less than \<open>2 ^ 32\<close> nodes.\<close>

definition wf_top_source :: "per_group_tree \<times> nat \<Rightarrow> bool" where
  "wf_top_source tc \<longleftrightarrow> snd tc \<le> length (pg_levels (fst tc)) \<and> length (pg_levels (fst tc)) < 256 \<and>
     (\<forall>l \<in> set (pg_levels (fst tc)). wf_level l)"

definition top_of :: "per_group_tree \<times> nat \<Rightarrow> tree_top" where
  "top_of tc = \<lparr>cache_from_level = snd tc, top_levels = drop (snd tc) (pg_levels (fst tc))\<rparr>"

lemma parse_write_top:
  assumes "wf_top_source (t, c)"
  shows "\<exists>b. write_one_tree_top t c = Some b \<and> 8 \<le> length b \<and>
    (\<forall>pre rest. parse_top (pre @ b @ rest) (length pre) = Inr (top_of (t, c), length pre + length b))"
proof -
  let ?lv = "drop c (pg_levels t)"
  let ?tn = "u32_to_le (of_nat (sum_list (map length ?lv)))"
  let ?b = "[of_nat c] @ ?tn @ u16_to_le (of_nat ARITY) @
      [of_nat (length (pg_levels t) - c)] @ concat (map write_level ?lv)"
  have c: "c \<le> length (pg_levels t)" "length (pg_levels t) < 256" "\<forall>l \<in> set ?lv. wf_level l"
    using assms by (auto simp: wf_top_source_def dest: in_set_dropD)
  have w: "write_one_tree_top t c = Some ?b"
    using c(1) by (simp add: write_one_tree_top_def Let_def)
  have u: "unat (of_nat c :: u8) = c" "unat (of_nat (length (pg_levels t) - c) :: u8) = length ?lv"
    using c unat_of_nat_small [of c, where 'a = 8]
      unat_of_nat_small [of "length (pg_levels t) - c", where 'a = 8]
    by (simp_all del: of_nat_diff)
  have "parse_top (pre @ ?b @ rest) (length pre) = Inr (top_of (t, c), length pre + length ?b)" for pre rest
  proof -
    let ?d = "pre @ ?b @ rest"
    have f: "?d ! length pre = of_nat c" "?d ! (length pre + 7) = of_nat (length (pg_levels t) - c)"
      "slice ?d (length pre + 5) 2 = u16_to_le (of_nat ARITY)"
      by (simp_all add: nth_append slice_def)
    have "?d = (pre @ [of_nat c] @ ?tn @ u16_to_le (of_nat ARITY) @ [of_nat (length (pg_levels t) - c)]) @
        concat (map write_level ?lv) @ rest"
      by simp
    with parse_write_levels [OF c(3), of "pre @ [of_nat c] @ ?tn @ u16_to_le (of_nat ARITY) @ [of_nat (length (pg_levels t) - c)]" rest]
    have "parse_top_levels ?d (length ?lv) (length pre + 8) = Inr (?lv, length pre + length ?b)"
      by (simp add: add.assoc)
    then show ?thesis
      unfolding parse_top_def Let_def f u by (simp add: top_of_def ARITY_def BUCKET_MERKLE_ARITY_def)
  qed
  with w show ?thesis by auto
qed

lemma parse_write_tops:
  assumes "\<forall>tc \<in> set tcs. wf_top_source tc"
  shows "\<exists>b. write_tops_loop tcs = Some b \<and> 8 * length tcs \<le> length b \<and>
    (\<forall>pre rest. parse_tops_loop (pre @ b @ rest) (length tcs) (length pre) =
       Inr (map top_of tcs, length pre + length b))"
  using assms
proof (induction tcs)
  case (Cons tc tcs)
  obtain t c where tc: "tc = (t, c)" by (cases tc)
  obtain b where b: "write_one_tree_top t c = Some b" "8 \<le> length b"
    "\<And>pre rest. parse_top (pre @ b @ rest) (length pre) = Inr (top_of (t, c), length pre + length b)"
    using parse_write_top [of t c] Cons.prems tc by auto
  obtain bs where bs: "write_tops_loop tcs = Some bs" "8 * length tcs \<le> length bs"
    "\<And>pre rest. parse_tops_loop (pre @ bs @ rest) (length tcs) (length pre) =
       Inr (map top_of tcs, length pre + length bs)"
    using Cons by auto
  have "parse_tops_loop (pre @ (b @ bs) @ rest) (length (tc # tcs)) (length pre) =
      Inr (map top_of (tc # tcs), length pre + length (b @ bs))" for pre rest
    using b(3) [of pre "bs @ rest"] bs(3) [of "pre @ b" rest] by (simp add: tc)
  then show ?case using b(1,2) bs(1,2) by (auto simp: tc)
qed simp

lemma parse_write_tree_tops:
  assumes "\<forall>t \<in> set its. wf_top_source (t, length isls)" and "\<forall>t \<in> set cts. wf_top_source (t, length csls)"
    and "length its + length cts < 2 ^ 32"
  shows "\<exists>b. write_tree_tops its cts isls csls = Some b \<and>
    parse_tree_tops b = Inr (map (\<lambda>t. top_of (t, length isls)) its @ map (\<lambda>t. top_of (t, length csls)) cts)"
proof -
  let ?tcs = "map (\<lambda>t. (t, length isls)) its @ map (\<lambda>t. (t, length csls)) cts"
  obtain b where b: "write_tops_loop ?tcs = Some b" "8 * length ?tcs \<le> length b"
    "\<And>pre rest. parse_tops_loop (pre @ b @ rest) (length ?tcs) (length pre) =
       Inr (map top_of ?tcs, length pre + length b)"
    using parse_write_tops [of ?tcs] assms(1,2) by auto
  let ?n = "u32_to_le (of_nat (length its + length cts))"
  have n: "slice (?n @ b) 0 4 = ?n" by (simp add: slice_def)
  have u: "unat (of_nat (length its + length cts) :: u32) = length ?tcs"
    using unat_of_nat_small [of "length its + length cts", where 'a = 32] assms(3)
    by (simp del: of_nat_add)
  have "parse_tree_tops (?n @ b) = Inr (map top_of ?tcs)"
    unfolding parse_tree_tops_def n Let_def le_roundtrips u using b(2) b(3) [of ?n "[]"] by simp
  then show ?thesis using b(1) by (simp add: write_tree_tops_def o_def)
qed

section \<open>The super-root\<close>

lemma collect_roots_eq: "collect_roots tops = Inr rs \<longleftrightarrow> map top_root tops = map Some rs"
proof (induction tops arbitrary: rs)
  case (Cons t tops)
  show ?case
  proof (cases "\<exists>rs'. collect_roots tops = Inr rs'")
    case True
    then obtain rs' where rs': "collect_roots tops = Inr rs'" by blast
    then have "map top_root tops = map Some rs'" using Cons by blast
    with rs' show ?thesis by (cases rs) (auto split: option.splits simp: inj_map_eq_map)
  next
    case False
    then have "\<nexists>rs'. map top_root tops = map Some rs'" using Cons by blast
    moreover from False obtain e where "collect_roots tops = Inl e" by (metis sum.exhaust)
    ultimately show ?thesis by (cases rs) (auto split: option.splits)
  qed
qed auto

definition wf_top :: "tree_top \<Rightarrow> bool" where
  "wf_top t \<longleftrightarrow> (\<forall>l \<in> set (top_levels t). \<forall>x \<in> set l. length x = 32)"

lemma top_root_32: "wf_top t \<Longrightarrow> top_root t = Some r \<Longrightarrow> length r = 32"
  by (auto simp: wf_top_def top_root_def split: if_splits list.splits)
     (metis last_in_set list.set_intros(1))

lemma parse_top_level_wf:
  "parse_top_level data off = Inr (nodes, off') \<Longrightarrow> \<forall>x \<in> set nodes. length x = 32"
  by (auto simp: parse_top_level_def Let_def split: if_splits)

lemma parse_top_levels_wf:
  "parse_top_levels data n off = Inr (levels, off') \<Longrightarrow> \<forall>l \<in> set levels. \<forall>x \<in> set l. length x = 32"
proof (induction data n off arbitrary: levels off' rule: parse_top_levels.induct)
  case (2 data n off)
  then obtain nodes off1 ls where "parse_top_level data off = Inr (nodes, off1)"
    "parse_top_levels data n off1 = Inr (ls, off')" "levels = nodes # ls"
    by auto
  with 2 parse_top_level_wf show ?case by fastforce
qed simp

lemma parse_tops_loop_wf:
  "parse_tops_loop data n off = Inr (tops, off') \<Longrightarrow> \<forall>t \<in> set tops. wf_top t"
proof (induction data n off arbitrary: tops off' rule: parse_tops_loop.induct)
  case (2 data n off)
  then obtain t off1 ts where t: "parse_top data off = Inr (t, off1)"
    "parse_tops_loop data n off1 = Inr (ts, off')" "tops = t # ts"
    by auto
  have "wf_top t" using t(1)
    by (auto simp: parse_top_def Let_def wf_top_def dest: parse_top_levels_wf split: if_splits)
  with t 2 show ?case by auto
qed simp

lemma parse_tree_tops_wf: "parse_tree_tops data = Inr tops \<Longrightarrow> \<forall>t \<in> set tops. wf_top t"
  using parse_tops_loop_wf by (fastforce simp: parse_tree_tops_def Let_def split: if_splits)

text \<open>The hash of the ordered roots pins every root.\<close>

lemma super_root_binds:
  assumes "verify_tree_tops_super_root sha256 tops (length its) (length cts) (bucket_super_root its cts) = Inr ()"
    and "\<forall>t \<in> set tops. wf_top t" and "\<forall>t \<in> set (its @ cts). length (pg_root t) = 32"
  shows "map top_root tops = map (\<lambda>t. Some (pg_root t)) (its @ cts) \<or>
    (\<exists>rs. collect_roots tops = Inr rs \<and> collision sha256 (concat rs, concat (map pg_root (its @ cts))))"
proof -
  obtain rs where rs: "collect_roots tops = Inr rs"
    "sha256 (concat rs) = sha256 (concat (map pg_root (its @ cts)))" "length tops = length (its @ cts)"
    using assms(1) by (auto simp: verify_tree_tops_super_root_def bucket_super_root_def split: if_splits)
  then have m: "map top_root tops = map Some rs" by (simp add: collect_roots_eq)
  then have "length rs = length (its @ cts)" using rs(3) by (metis length_map)
  moreover have "\<forall>x \<in> set rs. length x = 32"
  proof
    fix x assume "x \<in> set rs"
    then have "Some x \<in> set (map top_root tops)" using m by auto
    then show "length x = 32" using assms(2) top_root_32 by (metis (no_types, lifting) imageE list.set_map)
  qed
  ultimately show ?thesis
    using sha.digest_concat_binds [OF rs(2)] assms(3) m rs(1) by fastforce
qed

end
