(* ===== verification/Bucket_Verify.thy ===== *)
theory Bucket_Verify
  imports Tree_Tops
begin

text \<open>
  The per-bucket Merkle verification of the client, \<open>crates/sdk/client/src/merkle_verify.rs\<close>: the
  walk of every item through the sibling rows and the cached tree top, and the batch that combines
  INDEX and CHUNK bins. The querier that fetches the rows is a parameter: one function from the
  planned levels to the rows it returns or an error. The parallel vectors of the code (running
  hash, node index, malformed flag) are one list of records; a \<open>HashMap\<close> over the groups is the list of its
  entries in the order of the first occurrence, and no result depends on that order because an item
  belongs to one group.
\<close>

section \<open>Definitions\<close>

record bucket_merkle_item =
  index_pbc_group :: nat
  index_bin_index :: u32
  index_bin_content :: bytes
  chunk_pbc_groups :: "nat list"
  chunk_bin_indices :: "u32 list"
  chunk_bin_contents :: "bytes list"

record sub_item =
  si_group :: nat
  si_bin_index :: u32
  si_bin_content :: bytes

record sibling_level_plan =
  slp_level :: nat
  slp_bins_per_table :: u32
  slp_passes :: "u32 option list list"

text \<open>Rows by level, pass and group.\<close>

type_synonym level_rows = "bytes option list list"
type_synonym querier = "u8 \<Rightarrow> sibling_level_plan list \<Rightarrow> u8 \<Rightarrow> level_rows list pir_result"

record walk_state =
  ws_hash :: bytes
  ws_idx :: u32
  ws_malformed :: bool

definition init_walk :: "sub_item \<Rightarrow> walk_state" where
  "init_walk it =
     \<lparr>ws_hash = compute_bin_leaf_hash (si_bin_index it) (si_bin_content it),
      ws_idx = si_bin_index it, ws_malformed = False\<rparr>"

definition item_groups :: "sub_item list \<Rightarrow> nat list" where
  "item_groups items = remdups (map si_group items)"

definition items_by_group :: "sub_item list \<Rightarrow> nat \<Rightarrow> nat list" where
  "items_by_group items g = filter (\<lambda>i. si_group (items ! i) = g) [0..<length items]"

definition max_items_per_group :: "sub_item list \<Rightarrow> nat" where
  "max_items_per_group items =
     (if items = [] then 1 else Max (set (map (length \<circ> items_by_group items) (item_groups items))))"

definition max_sib_levels :: "tree_top list \<Rightarrow> nat" where
  "max_sib_levels tree_tops = (if tree_tops = [] then 0 else Max (set (map cache_from_level tree_tops)))"

text \<open>\<open>nodes\<close> is a \<open>u64\<close>, each count is cast to \<open>u32\<close>.\<close>

fun level_groups_count :: "nat \<Rightarrow> nat \<Rightarrow> u32 list" where
  "level_groups_count 0 nodes = []"
| "level_groups_count (Suc n) nodes =
     (let groups = div_ceil nodes BUCKET_MERKLE_ARITY in of_nat groups # level_groups_count n groups)"

definition pass_group_to_item :: "sub_item list \<Rightarrow> nat \<Rightarrow> (nat \<times> nat) list" where
  "pass_group_to_item items pass =
     map (\<lambda>g. (g, items_by_group items g ! pass))
       (filter (\<lambda>g. pass < length (items_by_group items g)) (item_groups items))"

definition pass_targets :: "sub_item list \<Rightarrow> nat \<Rightarrow> nat \<Rightarrow> u32 list \<Rightarrow> u32 option list" where
  "pass_targets items table_k pass planned_node_idx =
     map (\<lambda>g. map_option (\<lambda>item_idx. planned_node_idx ! item_idx div 8)
                (map_of (pass_group_to_item items pass) g)) [0..<table_k]"

fun level_plans_loop ::
  "sub_item list \<Rightarrow> nat \<Rightarrow> nat \<Rightarrow> u32 list \<Rightarrow> u32 list \<Rightarrow> sibling_level_plan list" where
  "level_plans_loop items table_k level [] planned = []"
| "level_plans_loop items table_k level (groups_at_level # counts) planned =
     \<lparr>slp_level = level, slp_bins_per_table = groups_at_level,
      slp_passes = map (\<lambda>pass. pass_targets items table_k pass planned) [0..<max_items_per_group items]\<rparr>
     # level_plans_loop items table_k (level + 1) counts (map (\<lambda>idx. idx div 8) planned)"

definition level_plans :: "sub_item list \<Rightarrow> u32 \<Rightarrow> nat \<Rightarrow> tree_top list \<Rightarrow> sibling_level_plan list" where
  "level_plans items bins table_k tree_tops =
     level_plans_loop items table_k 0 (level_groups_count (max_sib_levels tree_tops) (unat bins))
       (map si_bin_index items)"

text \<open>The children of the parent: the sibling row with the running hash put in its place.\<close>

definition row_children :: "bytes \<Rightarrow> nat \<Rightarrow> bytes \<Rightarrow> bytes list" where
  "row_children row child_pos h =
     map (\<lambda>c. if c = child_pos then h else slice row (c * 32) 32) [0..<BUCKET_MERKLE_ARITY]"

definition walk_row :: "bytes option \<Rightarrow> walk_state \<Rightarrow> walk_state" where
  "walk_row row_opt st =
     (case row_opt of
        None \<Rightarrow> \<lparr>ws_hash = ZERO_HASH, ws_idx = ws_idx st div 8, ws_malformed = True\<rparr>
      | Some row \<Rightarrow>
          if length row \<noteq> BUCKET_MERKLE_SIB_ROW_SIZE
          then \<lparr>ws_hash = ZERO_HASH, ws_idx = ws_idx st div 8, ws_malformed = True\<rparr>
          else st\<lparr>ws_hash := compute_parent_n (row_children row (unat (ws_idx st) mod 8) (ws_hash st)),
                  ws_idx := ws_idx st div 8\<rparr>)"

definition get_row :: "bytes option list \<Rightarrow> nat \<Rightarrow> bytes option" where
  "get_row rows g = (if g < length rows then rows ! g else None)"

definition walk_pass :: "bytes option list \<Rightarrow> (nat \<times> nat) list \<Rightarrow> walk_state list \<Rightarrow> walk_state list" where
  "walk_pass rows pgi sts =
     foldl (\<lambda>sts (g, i). sts[i := walk_row (get_row rows g) (sts ! i)]) sts pgi"

definition walk_level :: "sub_item list \<Rightarrow> level_rows \<Rightarrow> walk_state list \<Rightarrow> walk_state list pir_result" where
  "walk_level items batch_rows sts =
     (if length batch_rows \<noteq> max_items_per_group items
      then Inl (Protocol ''Merkle: querier returned wrong number of pass results'')
      else Inr (foldl (\<lambda>sts (pass, rows). walk_pass rows (pass_group_to_item items pass) sts) sts
             (zip [0..<length batch_rows] batch_rows)))"

fun walk_levels :: "sub_item list \<Rightarrow> level_rows list \<Rightarrow> walk_state list \<Rightarrow> walk_state list pir_result" where
  "walk_levels items [] sts = Inr sts"
| "walk_levels items (batch_rows # rest) sts =
     rbind (walk_level items batch_rows sts) (walk_levels items rest)"

definition top_children :: "bytes list \<Rightarrow> u32 \<Rightarrow> bytes \<Rightarrow> bytes list" where
  "top_children level_nodes idx h =
     (let parent_start = unat (idx div 8 * 8);
          child_pos = unat idx mod BUCKET_MERKLE_ARITY
      in map (\<lambda>c. if c = child_pos then h
                  else if parent_start + c < length level_nodes then level_nodes ! (parent_start + c)
                  else ZERO_HASH) [0..<BUCKET_MERKLE_ARITY])"

fun walk_top :: "bytes list list \<Rightarrow> bytes \<Rightarrow> u32 \<Rightarrow> bytes" where
  "walk_top [] h idx = h"
| "walk_top (level_nodes # rest) h idx =
     walk_top rest (compute_parent_n (top_children level_nodes idx h)) (idx div 8)"

definition check_item :: "tree_top list \<Rightarrow> sub_item \<Rightarrow> walk_state \<Rightarrow> bool" where
  "check_item tree_tops it st =
     (if length tree_tops \<le> si_group it then False
      else (let top = tree_tops ! si_group it
            in if top_levels top = [] then False
               else (let h = walk_top (butlast (top_levels top)) (ws_hash st) (ws_idx st);
                         expected_root = (case top_root top of None \<Rightarrow> ZERO_HASH | Some r \<Rightarrow> r)
                     in \<not> ws_malformed st \<and> h = expected_root)))"

definition verify_sibling_levels ::
  "querier \<Rightarrow> sub_item list \<Rightarrow> u32 \<Rightarrow> nat \<Rightarrow> u8 \<Rightarrow> tree_top list \<Rightarrow> u8 \<Rightarrow> bool list pir_result" where
  "verify_sibling_levels query_levels items bins table_k table_type tree_tops db_id =
     (let plans = level_plans items bins table_k tree_tops
      in rbind (query_levels table_type plans db_id) (\<lambda>all_level_rows.
         if length all_level_rows \<noteq> length plans
         then Inl (Protocol ''Merkle querier returned wrong number of level results'')
         else rbind (walk_levels items all_level_rows (map init_walk items)) (\<lambda>sts.
              Inr (map2 (check_item tree_tops) items sts))))"

text \<open>The chunk bins of all items, each with the item it belongs to; the three vectors of an item
  are indexed together and \<open>None\<close> is the panic on a short one.\<close>

definition chunk_subs :: "bucket_merkle_item \<Rightarrow> sub_item list option" where
  "chunk_subs it =
     (let n = length (chunk_pbc_groups it)
      in if length (chunk_bin_indices it) < n \<or> length (chunk_bin_contents it) < n then None
         else Some (map (\<lambda>c. \<lparr>si_group = chunk_pbc_groups it ! c, si_bin_index = chunk_bin_indices it ! c,
                             si_bin_content = chunk_bin_contents it ! c\<rparr>) [0..<n]))"

fun flatten_chunks :: "nat \<Rightarrow> bucket_merkle_item list \<Rightarrow> (nat \<times> sub_item) list option" where
  "flatten_chunks i [] = Some []"
| "flatten_chunks i (it # items) =
     (case chunk_subs it of
        None \<Rightarrow> None
      | Some subs \<Rightarrow> map_option (\<lambda>rest. map (\<lambda>s. (i, s)) subs @ rest) (flatten_chunks (i + 1) items))"

definition index_sub :: "bucket_merkle_item \<Rightarrow> sub_item" where
  "index_sub it = \<lparr>si_group = index_pbc_group it, si_bin_index = index_bin_index it,
                   si_bin_content = index_bin_content it\<rparr>"

definition clear_failed :: "nat list \<Rightarrow> bool list \<Rightarrow> bool list \<Rightarrow> bool list" where
  "clear_failed owners oks acc =
     foldl (\<lambda>acc (i, ok). if ok then acc else acc[i := False]) acc (zip owners oks)"

definition verify_bucket_merkle_batch_generic ::
  "querier \<Rightarrow> bucket_merkle_item list \<Rightarrow> u32 \<Rightarrow> u32 \<Rightarrow> nat \<Rightarrow> nat \<Rightarrow> u8 \<Rightarrow> tree_top list \<Rightarrow>
     bool list pir_result option" where
  "verify_bucket_merkle_batch_generic query_levels items index_bins chunk_bins index_k chunk_k db_id tree_tops =
     (if length tree_tops < index_k + chunk_k
      then Some (Inl (ProtocolSkew ''at least K tree-top entries'' ''fewer tree-top entries''))
      else case verify_sibling_levels query_levels (map index_sub items) index_bins index_k 0
                  (take index_k tree_tops) db_id of
        Inl e \<Rightarrow> Some (Inl e)
      | Inr index_verified \<Rightarrow>
          (case flatten_chunks 0 items of
             None \<Rightarrow> None
           | Some chunk_items \<Rightarrow>
               Some (rbind (verify_sibling_levels query_levels (map snd chunk_items) chunk_bins chunk_k 1
                       (slice tree_tops index_k chunk_k) db_id) (\<lambda>chunk_verified.
                 Inr (clear_failed (map fst chunk_items) chunk_verified
                   (clear_failed [0..<length items] index_verified (replicate (length items) True)))))))"

section \<open>Every item is walked alone\<close>

text \<open>The pass in which an item is served: its position among the items of its group.\<close>

definition item_rank :: "sub_item list \<Rightarrow> nat \<Rightarrow> nat" where
  "item_rank items i = length (filter (\<lambda>j. si_group (items ! j) = si_group (items ! i)) [0..<i])"

lemma items_by_group_rank:
  assumes "i < length items"
  shows "item_rank items i < length (items_by_group items (si_group (items ! i)))"
    and "items_by_group items (si_group (items ! i)) ! item_rank items i = i"
proof -
  have "[0..<length items] = [0..<i] @ i # [Suc i..<length items]"
    using assms by (metis le_add_diff_inverse less_imp_le_nat upt_add_eq_append upt_conv_Cons zero_le add_0)
  then have "items_by_group items (si_group (items ! i)) =
      filter (\<lambda>j. si_group (items ! j) = si_group (items ! i)) [0..<i] @ i #
      filter (\<lambda>j. si_group (items ! j) = si_group (items ! i)) [Suc i..<length items]"
    by (simp add: items_by_group_def)
  then show "item_rank items i < length (items_by_group items (si_group (items ! i)))"
    "items_by_group items (si_group (items ! i)) ! item_rank items i = i"
    by (simp_all add: item_rank_def nth_append)
qed

lemma items_by_group_nth:
  assumes "p < length (items_by_group items g)" and "items_by_group items g ! p = i"
  shows "i < length items \<and> g = si_group (items ! i) \<and> p = item_rank items i"
proof -
  have i: "i < length items" "g = si_group (items ! i)"
    using nth_mem [OF assms(1)] assms(2) by (auto simp: items_by_group_def)
  have "distinct (items_by_group items g)" by (simp add: items_by_group_def)
  then show ?thesis
    using i items_by_group_rank [OF i(1)] assms nth_eq_iff_index_eq by metis
qed

lemma rank_less_max: "i < length items \<Longrightarrow> item_rank items i < max_items_per_group items"
proof -
  assume i: "i < length items"
  have "length (items_by_group items (si_group (items ! i))) \<le>
      Max (set (map (length \<circ> items_by_group items) (item_groups items)))"
    using i by (intro Max_ge) (auto simp: item_groups_def)
  with items_by_group_rank(1) [OF i] i show ?thesis
    by (auto simp: max_items_per_group_def)
qed

lemma pass_group_to_item_iff:
  "(g, i) \<in> set (pass_group_to_item items p) \<longleftrightarrow>
     i < length items \<and> g = si_group (items ! i) \<and> p = item_rank items i"
proof
  assume "(g, i) \<in> set (pass_group_to_item items p)"
  then show "i < length items \<and> g = si_group (items ! i) \<and> p = item_rank items i"
    using items_by_group_nth by (auto simp: pass_group_to_item_def)
next
  assume i: "i < length items \<and> g = si_group (items ! i) \<and> p = item_rank items i"
  then have "g \<in> set (item_groups items)" by (auto simp: item_groups_def)
  with i items_by_group_rank [of i items] show "(g, i) \<in> set (pass_group_to_item items p)"
    by (auto simp: pass_group_to_item_def image_iff intro!: bexI [of _ g])
qed

lemma distinct_pass_items: "distinct (map snd (pass_group_to_item items p))"
proof -
  have "inj_on (\<lambda>g. items_by_group items g ! p)
      (set (filter (\<lambda>g. p < length (items_by_group items g)) (item_groups items)))"
    using items_by_group_nth by (intro inj_onI) (metis (mono_tags, lifting) mem_Collect_eq set_filter)
  moreover have "distinct (filter (\<lambda>g. p < length (items_by_group items g)) (item_groups items))"
    by (simp add: item_groups_def)
  ultimately show ?thesis by (simp add: pass_group_to_item_def o_def distinct_map)
qed

lemma length_walk_pass [simp]: "length (walk_pass rows pgi sts) = length sts"
  unfolding walk_pass_def by (induction pgi arbitrary: sts) auto

lemma walk_pass_nth:
  assumes "distinct (map snd pgi)" and "i < length sts"
  shows "(g, i) \<in> set pgi \<Longrightarrow> walk_pass rows pgi sts ! i = walk_row (get_row rows g) (sts ! i)"
    and "i \<notin> snd ` set pgi \<Longrightarrow> walk_pass rows pgi sts ! i = sts ! i"
proof -
  have out: "i \<notin> snd ` set pgi \<Longrightarrow> walk_pass rows pgi sts ! i = sts ! i" for pgi sts
    unfolding walk_pass_def by (induction pgi arbitrary: sts) auto
  then show "i \<notin> snd ` set pgi \<Longrightarrow> walk_pass rows pgi sts ! i = sts ! i" .
  show "(g, i) \<in> set pgi \<Longrightarrow> walk_pass rows pgi sts ! i = walk_row (get_row rows g) (sts ! i)"
    using assms
  proof (induction pgi arbitrary: sts)
    case (Cons p pgi)
    obtain h j where p: "p = (h, j)" by (cases p)
    have step: "walk_pass rows (p # pgi) sts = walk_pass rows pgi (sts[j := walk_row (get_row rows h) (sts ! j)])"
      by (simp add: walk_pass_def p)
    show ?case
    proof (cases "(g, i) = (h, j)")
      case True
      then have "i \<notin> snd ` set pgi" using Cons.prems(2) p by auto
      from out [OF this] True step Cons.prems(3) show ?thesis by simp
    next
      case False
      then have "(g, i) \<in> set pgi" using Cons.prems(1) p by auto
      moreover have "i \<noteq> j" using Cons.prems(2) p calculation by force
      ultimately show ?thesis using Cons step p by simp
    qed
  qed simp
qed

lemma length_walk_passes [simp]:
  "length (foldl (\<lambda>sts (pass, rows). walk_pass rows (pass_group_to_item items pass) sts) sts prs) = length sts"
  by (induction prs arbitrary: sts) auto

lemma walk_passes_nth:
  assumes "distinct (map fst prs)" and "i < length items" and "length sts = length items"
  shows "foldl (\<lambda>sts (pass, rows). walk_pass rows (pass_group_to_item items pass) sts) sts prs ! i =
      (case map_of prs (item_rank items i) of
         None \<Rightarrow> sts ! i
       | Some rows \<Rightarrow> walk_row (get_row rows (si_group (items ! i))) (sts ! i))"
  using assms
proof (induction prs arbitrary: sts)
  case (Cons pr prs)
  obtain p rows where pr: "pr = (p, rows)" by (cases pr)
  let ?s = "walk_pass rows (pass_group_to_item items p) sts"
  have IH: "foldl (\<lambda>sts (pass, rows). walk_pass rows (pass_group_to_item items pass) sts) ?s prs ! i =
    (case map_of prs (item_rank items i) of
       None \<Rightarrow> ?s ! i | Some rows \<Rightarrow> walk_row (get_row rows (si_group (items ! i))) (?s ! i))"
    by (rule Cons.IH) (use Cons.prems in auto)
  show ?case
  proof (cases "p = item_rank items i")
    case True
    then have "?s ! i = walk_row (get_row rows (si_group (items ! i))) (sts ! i)"
      using Cons.prems by (intro walk_pass_nth distinct_pass_items) (auto simp: pass_group_to_item_iff)
    moreover have "map_of prs (item_rank items i) = None"
      using Cons.prems(1) pr True by (simp add: map_of_eq_None_iff)
    ultimately show ?thesis using IH True pr by simp
  next
    case False
    then have "?s ! i = sts ! i"
      using Cons.prems by (intro walk_pass_nth distinct_pass_items) (auto simp: pass_group_to_item_iff)
    then show ?thesis using IH False pr by (simp cong: option.case_cong)
  qed
qed simp

lemma walk_level_nth:
  assumes "walk_level items rows sts = Inr sts'" and "length sts = length items"
  shows "length sts' = length items \<and> (\<forall>i < length items.
    sts' ! i = walk_row (get_row (rows ! item_rank items i) (si_group (items ! i))) (sts ! i))"
proof -
  have l: "length rows = max_items_per_group items"
    and s: "sts' = foldl (\<lambda>sts (pass, rows). walk_pass rows (pass_group_to_item items pass) sts) sts
      (zip [0..<length rows] rows)"
    using assms(1) by (auto simp: walk_level_def split: if_splits)
  have "map_of (zip [0..<length rows] rows) (item_rank items i) = Some (rows ! item_rank items i)"
    if "i < length items" for i
    using rank_less_max [OF that] l by (intro map_of_is_SomeI) (auto simp: in_set_zip intro!: exI [of _ "item_rank items i"])
  then show ?thesis using assms(2) walk_passes_nth [of "zip [0..<length rows] rows" _ items sts] s
    by (simp del: map_of_eq_Some_iff)
qed

text \<open>The walk of one item through the rows that its pass and group select.\<close>

definition item_rows :: "sub_item list \<Rightarrow> nat \<Rightarrow> level_rows list \<Rightarrow> bytes option list" where
  "item_rows items i all_rows =
     map (\<lambda>rows. get_row (rows ! item_rank items i) (si_group (items ! i))) all_rows"

lemma walk_levels_nth:
  assumes "walk_levels items all_rows sts = Inr sts'" and "length sts = length items"
  shows "length sts' = length items \<and>
    (\<forall>i < length items. sts' ! i = foldl (\<lambda>st row. walk_row row st) (sts ! i) (item_rows items i all_rows))"
  using assms
proof (induction all_rows arbitrary: sts)
  case (Cons rows all_rows)
  then obtain s1 where s1: "walk_level items rows sts = Inr s1" "walk_levels items all_rows s1 = Inr sts'"
    by auto
  from walk_level_nth [OF s1(1) Cons.prems(2)] Cons.IH [OF s1(2)] show ?case by (simp add: item_rows_def)
qed (simp add: item_rows_def)

lemma walk_levels_returns:
  assumes "\<forall>rows \<in> set all_rows. length rows = max_items_per_group items"
  shows "\<exists>sts'. walk_levels items all_rows sts = Inr sts'"
  using assms by (induction all_rows arbitrary: sts) (auto simp: walk_level_def)

definition verify_item :: "tree_top list \<Rightarrow> sub_item \<Rightarrow> bytes option list \<Rightarrow> bool" where
  "verify_item tree_tops it rows =
     check_item tree_tops it (foldl (\<lambda>st row. walk_row row st) (init_walk it) rows)"

lemma verify_sibling_levels_items:
  assumes "verify_sibling_levels q items bins k tt tops db = Inr oks"
  shows "\<exists>rows. q tt (level_plans items bins k tops) db = Inr rows \<and>
    length rows = length (level_plans items bins k tops) \<and> length oks = length items \<and>
    (\<forall>i < length items. oks ! i = verify_item tops (items ! i) (item_rows items i rows))"
proof -
  obtain rows sts where r: "q tt (level_plans items bins k tops) db = Inr rows"
    "length rows = length (level_plans items bins k tops)"
    "walk_levels items rows (map init_walk items) = Inr sts"
    "oks = map2 (check_item tops) items sts"
    using assms by (auto simp: verify_sibling_levels_def Let_def split: if_splits)
  from walk_levels_nth [OF r(3)] r(1,2,4) show ?thesis
    by (auto simp: verify_item_def)
qed

end
