(* ===== verification/Bucket_Soundness.thy ===== *)
theory Bucket_Soundness
  imports Bucket_Verify
begin

text \<open>
  What an accepted bin proves. From the evidence of an accepted item and the honest tree a function
  computes either that the bin is the committed one, or two different inputs with one SHA-256 value,
  or an input that hashes to the all-zero padding value. The number of levels is not trusted: a path
  that is shorter or longer than the tree also yields a collision, unless the claimed bin has the length
  of an inner preimage; then it is an inner node of the tree.
\<close>

section \<open>The evidence of an item as a path\<close>

type_synonym merkle_path = "(bytes list \<times> nat) list"

text \<open>Bottom-up: the eight children of each parent and the position of the running hash.\<close>

fun row_path :: "bytes option list \<Rightarrow> bytes \<Rightarrow> u32 \<Rightarrow> merkle_path" where
  "row_path [] h idx = []"
| "row_path (None # rows) h idx = []"
| "row_path (Some row # rows) h idx =
     (let cs = row_children row (unat idx mod 8) h
      in (cs, unat idx mod 8) # row_path rows (compute_parent_n cs) (idx div 8))"

fun top_path :: "bytes list list \<Rightarrow> bytes \<Rightarrow> u32 \<Rightarrow> merkle_path" where
  "top_path [] h idx = []"
| "top_path (level_nodes # rest) h idx =
     (let cs = top_children level_nodes idx h
      in (cs, unat idx mod 8) # top_path rest (compute_parent_n cs) (idx div 8))"

fun chained :: "bytes \<Rightarrow> merkle_path \<Rightarrow> bytes \<Rightarrow> bool" where
  "chained h [] r \<longleftrightarrow> h = r"
| "chained h ((cs, pos) # ps) r \<longleftrightarrow>
     length cs = ARITY \<and> (\<forall>x \<in> set cs. length x = 32) \<and> pos < ARITY \<and> cs ! pos = h \<and>
     chained (compute_parent_n cs) ps r"

lemma chained_append: "chained h ps r \<Longrightarrow> chained r qs s \<Longrightarrow> chained h (ps @ qs) s"
  by (induction h ps r rule: chained.induct) auto

lemma walk_row_malformed: "ws_malformed st \<Longrightarrow> ws_malformed (walk_row row st)"
  by (auto simp: walk_row_def split: option.splits)

lemma walk_rows_malformed:
  "ws_malformed st \<Longrightarrow> ws_malformed (foldl (\<lambda>st row. walk_row row st) st rows)"
  by (induction rows arbitrary: st) (auto simp: walk_row_malformed)

lemma length_row_children [simp]: "length (row_children row p h) = 8"
  by (simp add: row_children_def BUCKET_MERKLE_ARITY_def)

lemma row_children_at: "p < 8 \<Longrightarrow> row_children row p h ! p = h"
  by (simp add: row_children_def BUCKET_MERKLE_ARITY_def)

lemma row_children_32:
  "length row = 256 \<Longrightarrow> length h = 32 \<Longrightarrow> \<forall>x \<in> set (row_children row p h). length x = 32"
  by (auto simp: row_children_def BUCKET_MERKLE_ARITY_def)

lemma rows_chained:
  assumes "length (ws_hash st) = 32" and "\<not> ws_malformed (foldl (\<lambda>st row. walk_row row st) st rows)"
  shows "chained (ws_hash st) (row_path rows (ws_hash st) (ws_idx st))
    (ws_hash (foldl (\<lambda>st row. walk_row row st) st rows))"
  using assms
proof (induction rows arbitrary: st)
  case (Cons row rows)
  have nm: "\<not> ws_malformed (walk_row row st)"
    using Cons.prems(2) walk_rows_malformed [of "walk_row row st" rows] by auto
  then obtain r where r: "row = Some r" "length r = 256"
    by (auto simp: walk_row_def BUCKET_MERKLE_SIB_ROW_SIZE_def BUCKET_MERKLE_ARITY_def
        split: option.splits if_splits)
  let ?cs = "row_children r (unat (ws_idx st) mod 8) (ws_hash st)"
  have st: "ws_hash (walk_row row st) = compute_parent_n ?cs" "ws_idx (walk_row row st) = ws_idx st div 8"
    using r by (simp_all add: walk_row_def BUCKET_MERKLE_SIB_ROW_SIZE_def BUCKET_MERKLE_ARITY_def)
  have "chained (ws_hash (walk_row row st)) (row_path rows (ws_hash (walk_row row st)) (ws_idx (walk_row row st)))
      (ws_hash (foldl (\<lambda>st row. walk_row row st) (walk_row row st) rows))"
    by (rule Cons.IH) (use Cons.prems st in simp_all)
  then show ?case
    using r st row_children_32 [OF r(2) Cons.prems(1)] by (simp add: ARITY_def row_children_at Let_def)
qed simp

lemma top_children_at: "top_children lv idx h ! (unat idx mod 8) = h"
  by (simp add: top_children_def BUCKET_MERKLE_ARITY_def Let_def)

lemma length_top_children [simp]: "length (top_children lv idx h) = 8"
  by (simp add: top_children_def BUCKET_MERKLE_ARITY_def Let_def)

lemma top_children_32:
  "\<forall>x \<in> set lv. length x = 32 \<Longrightarrow> length h = 32 \<Longrightarrow> \<forall>x \<in> set (top_children lv idx h). length x = 32"
  by (auto simp: top_children_def Let_def)

lemma top_chained:
  assumes "\<forall>l \<in> set lvs. \<forall>x \<in> set l. length x = 32" and "length h = 32"
  shows "chained h (top_path lvs h idx) (walk_top lvs h idx)"
  using assms
proof (induction lvs h idx rule: top_path.induct)
  case (2 lv rest h idx)
  have "\<forall>x \<in> set (top_children lv idx h). length x = 32" using 2 by (intro top_children_32) auto
  with 2 show ?case by (simp add: Let_def ARITY_def top_children_at)
qed simp

text \<open>The whole path of an accepted item ends in the root of its tree top.\<close>

definition evidence_path :: "tree_top \<Rightarrow> sub_item \<Rightarrow> bytes option list \<Rightarrow> merkle_path" where
  "evidence_path tt it rows =
     (let st = foldl (\<lambda>st row. walk_row row st) (init_walk it) rows
      in row_path rows (ws_hash (init_walk it)) (si_bin_index it) @
         top_path (butlast (top_levels tt)) (ws_hash st) (ws_idx st))"

lemma walk_rows_32:
  "length (ws_hash st) = 32 \<Longrightarrow> length (ws_hash (foldl (\<lambda>st row. walk_row row st) st rows)) = 32"
proof (induction rows arbitrary: st)
  case (Cons row rows)
  have "length (ws_hash (walk_row row st)) = 32"
    by (auto simp: walk_row_def split: option.splits)
  with Cons show ?case by simp
qed simp

lemma verify_item_path:
  assumes "verify_item tops it rows" and "\<forall>t \<in> set tops. wf_top t"
    and "si_group it < length tops" and "top_root (tops ! si_group it) = Some r"
  shows "chained (compute_bin_leaf_hash (si_bin_index it) (si_bin_content it))
    (evidence_path (tops ! si_group it) it rows) r"
proof -
  let ?top = "tops ! si_group it" and ?st = "foldl (\<lambda>st row. walk_row row st) (init_walk it) rows"
  have v: "\<not> ws_malformed ?st" "walk_top (butlast (top_levels ?top)) (ws_hash ?st) (ws_idx ?st) = r"
    using assms(1,3,4) by (auto simp: verify_item_def check_item_def Let_def split: if_splits)
  have h32: "length (ws_hash (init_walk it)) = 32" by (simp add: init_walk_def)
  have "wf_top ?top" using assms(2,3) by simp
  then have "\<forall>l \<in> set (butlast (top_levels ?top)). \<forall>x \<in> set l. length x = 32"
    by (auto simp: wf_top_def dest: in_set_butlastD)
  from top_chained [OF this walk_rows_32 [OF h32]] v(2)
  have "chained (ws_hash ?st) (top_path (butlast (top_levels ?top)) (ws_hash ?st) (ws_idx ?st)) r" by metis
  from chained_append [OF rows_chained [OF h32 v(1)] this] show ?thesis
    by (simp add: evidence_path_def Let_def init_walk_def)
qed

section \<open>The extractor\<close>

datatype evidence = Matches | Collision bytes bytes | Zero_Preimage bytes

fun breaks_sha256 :: "evidence \<Rightarrow> bool" where
  "breaks_sha256 Matches = False"
| "breaks_sha256 (Collision p q) = collision sha256 (p, q)"
| "breaks_sha256 (Zero_Preimage p) = (sha256 p = ZERO_HASH)"

definition honest_preimage :: "bytes list list \<Rightarrow> (nat \<Rightarrow> bytes) \<Rightarrow> nat \<Rightarrow> nat \<Rightarrow> bytes" where
  "honest_preimage levels content d j =
     (if d = 0 then u32_to_le (of_nat j) @ content j else concat (node_children ARITY (levels ! (d - 1)) j))"

text \<open>Descend from node \<open>j\<close> of level \<open>d\<close> along the path, top-down, to the claimed leaf preimage.\<close>

fun descend :: "bytes list list \<Rightarrow> (nat \<Rightarrow> bytes) \<Rightarrow> bytes \<Rightarrow> nat \<Rightarrow> nat \<Rightarrow> merkle_path \<Rightarrow> evidence" where
  "descend levels content leaf_pre d j [] =
     (if length (levels ! d) \<le> j then Zero_Preimage leaf_pre
      else if honest_preimage levels content d j = leaf_pre then Matches
      else Collision (honest_preimage levels content d j) leaf_pre)"
| "descend levels content leaf_pre d j ((cs, pos) # ps) =
     (if length (levels ! d) \<le> j then Zero_Preimage (concat cs)
      else if honest_preimage levels content d j \<noteq> concat cs
      then Collision (honest_preimage levels content d j) (concat cs)
      else descend levels content leaf_pre (d - 1) (j * ARITY + pos) ps)"

definition extract_evidence :: "bytes list list \<Rightarrow> (nat \<Rightarrow> bytes) \<Rightarrow> tree_top \<Rightarrow> sub_item \<Rightarrow> bytes option list \<Rightarrow> evidence" where
  "extract_evidence levels content tt it rows =
     descend levels content (u32_to_le (si_bin_index it) @ si_bin_content it) (length levels - 1) 0
       (rev (evidence_path tt it rows))"

fun chain_down :: "bytes \<Rightarrow> merkle_path \<Rightarrow> bytes \<Rightarrow> bool" where
  "chain_down h [] l \<longleftrightarrow> h = l"
| "chain_down h ((cs, pos) # ps) l \<longleftrightarrow>
     h = compute_parent_n cs \<and> length cs = ARITY \<and> (\<forall>x \<in> set cs. length x = 32) \<and> pos < ARITY \<and>
     chain_down (cs ! pos) ps l"

lemma chain_down_snoc:
  "chain_down r (ps @ [(cs, pos)]) h \<longleftrightarrow>
     chain_down r ps (compute_parent_n cs) \<and> length cs = ARITY \<and> (\<forall>x \<in> set cs. length x = 32) \<and>
     pos < ARITY \<and> cs ! pos = h"
  by (induction r ps "compute_parent_n cs" rule: chain_down.induct) auto

lemma chained_down: "chained h ps r \<Longrightarrow> chain_down r (rev ps) h"
  by (induction h ps r rule: chained.induct) (auto simp: chain_down_snoc)

text \<open>
  Leaves and inner nodes are hashed alike, without a tag. So the bytes of an inner node, which are eight child
  hashes, are also the preimage of a leaf whose index is given by the first four bytes and whose content is
  the other 252: the item is such a node of the tree.
\<close>

definition node_preimage :: "bytes list list \<Rightarrow> sub_item \<Rightarrow> bool" where
  "node_preimage levels it \<longleftrightarrow> length (si_bin_content it) = 252 \<and>
     (\<exists>l m. Suc l < length levels \<and> m < length (levels ! Suc l) \<and>
        u32_to_le (si_bin_index it) @ si_bin_content it = concat (node_children ARITY (levels ! l) m))"

context honest_tree
begin

definition node_value :: "nat \<Rightarrow> nat \<Rightarrow> bytes" where
  "node_value d j = (if j < length (levels ! d) then levels ! d ! j else ZERO_HASH)"

lemma node_value_hash:
  assumes "d < length levels" and "j < length (levels ! d)"
  shows "node_value d j = sha256 (honest_preimage levels content d j)"
proof (cases d)
  case 0
  then show ?thesis using assms num_bins leaf
    by (simp add: node_value_def honest_preimage_def compute_bin_leaf_hash_def)
next
  case (Suc l)
  then show ?thesis using assms node
    by (simp add: node_value_def honest_preimage_def compute_parent_n_def)
qed

lemma levels_32: "l < length levels \<Longrightarrow> \<forall>x \<in> set (levels ! l). length x = 32"
proof (cases l)
  case 0
  then show ?thesis using num_bins leaf by (metis in_set_conv_nth length_leaf_parent(1))
next
  case (Suc m)
  moreover assume "l < length levels"
  ultimately show ?thesis using node by (metis in_set_conv_nth length_leaf_parent(2))
qed

lemma honest_preimage_256: "0 < d \<Longrightarrow> d < length levels \<Longrightarrow> length (honest_preimage levels content d j) = 256"
proof -
  assume d: "0 < d" "d < length levels"
  then have "\<forall>x \<in> set (node_children ARITY (levels ! (d - 1)) j). length x = 32"
    by (intro node_children_32 levels_32) simp
  from length_concat_fixed [OF this] d show ?thesis by (simp add: honest_preimage_def ARITY_def)
qed

lemma descend_sound:
  assumes "d < length levels" and "chain_down (node_value d j) ps (sha256 leaf_pre)"
    and "\<forall>i < bins. length (content i) \<noteq> 252"
  shows "breaks_sha256 (descend levels content leaf_pre d j ps) \<or>
    (\<exists>i < bins. leaf_pre = u32_to_le (of_nat i) @ content i) \<or>
    (\<exists>l m. Suc l < length levels \<and> m < length (levels ! Suc l) \<and> leaf_pre = concat (node_children ARITY (levels ! l) m))"
  using assms(1,2)
proof (induction ps arbitrary: d j)
  case Nil
  then have h: "node_value d j = sha256 leaf_pre" by simp
  show ?case
  proof (cases "j < length (levels ! d)")
    case True
    then have eq: "sha256 (honest_preimage levels content d j) = sha256 leaf_pre"
      using node_value_hash [OF Nil(1) True] h by simp
    show ?thesis
    proof (cases "honest_preimage levels content d j = leaf_pre")
      case same: True
      then show ?thesis
      proof (cases d)
        case 0
        then show ?thesis using same True num_bins by (auto simp: honest_preimage_def)
      next
        case (Suc l)
        then show ?thesis using same True Nil(1) by (auto simp: honest_preimage_def)
      qed
    qed (use True eq in \<open>simp add: collision_def\<close>)
  qed (use h in \<open>simp add: node_value_def\<close>)
next
  case (Cons p ps)
  obtain cs pos where p: "p = (cs, pos)" by (cases p)
  have h: "node_value d j = sha256 (concat cs)" and cs: "length cs = ARITY" "\<forall>x \<in> set cs. length x = 32"
    and pos: "pos < ARITY" and tl: "chain_down (cs ! pos) ps (sha256 leaf_pre)"
    using Cons.prems(2) by (auto simp: p compute_parent_n_def)
  show ?case
  proof (cases "j < length (levels ! d)")
    case True
    then have eq: "sha256 (honest_preimage levels content d j) = sha256 (concat cs)"
      using node_value_hash [OF Cons.prems(1) True] h by simp
    show ?thesis
    proof (cases "honest_preimage levels content d j = concat cs")
      case same: True
      have l256: "length (concat cs) = 256" using length_concat_fixed [OF cs(2)] cs(1) by (simp add: ARITY_def)
      have d: "0 < d"
      proof (rule ccontr)
        assume "\<not> 0 < d"
        then have "length (u32_to_le (of_nat j) @ content j) = 256"
          using same l256 by (simp add: honest_preimage_def)
        then have "length (content j) = 252" by simp
        then show False using assms(3) True num_bins \<open>\<not> 0 < d\<close> by simp
      qed
      have "concat (node_children ARITY (levels ! (d - 1)) j) = concat cs"
        using same d by (simp add: honest_preimage_def)
      then have "node_children ARITY (levels ! (d - 1)) j = cs"
        using cs levels_32 [of "d - 1"] Cons.prems(1) d
        by (intro concat_fixed_inject [of _ 32] node_children_32) auto
      then have "cs ! pos = node_value (d - 1) (j * ARITY + pos)"
        using nth_node_children [OF pos, of "levels ! (d - 1)" j] by (simp add: node_value_def)
      with tl Cons.IH [of "d - 1" "j * ARITY + pos"] Cons.prems(1) show ?thesis
        using True same by (simp add: p)
    qed (use True eq in \<open>simp add: collision_def p\<close>)
  qed (use h in \<open>simp add: node_value_def p\<close>)
qed

lemma accepted_item_sound:
  assumes "verify_item tops it rows" and "\<forall>t \<in> set tops. wf_top t" and "si_group it < length tops"
    and "top_root (tops ! si_group it) = Some (last levels ! 0)"
    and "0 < bins" and "bins \<le> 2 ^ 32"
    and "\<forall>i < bins. length (content i) \<noteq> 252"
  shows "unat (si_bin_index it) < bins \<and> si_bin_content it = content (unat (si_bin_index it)) \<or>
    breaks_sha256 (extract_evidence levels content (tops ! si_group it) it rows) \<or> node_preimage levels it"
proof -
  let ?lp = "u32_to_le (si_bin_index it) @ si_bin_content it"
  have "last levels ! 0 = node_value (length levels - 1) 0"
    using top [OF assms(5)] levels_not_Nil by (simp add: node_value_def last_conv_nth)
  with chained_down [OF verify_item_path [OF assms(1-4)]]
  have "chain_down (node_value (length levels - 1) 0) (rev (evidence_path (tops ! si_group it) it rows)) (sha256 ?lp)"
    by (simp add: compute_bin_leaf_hash_def)
  from descend_sound [OF _ this assms(7)] levels_not_Nil
  consider "breaks_sha256 (extract_evidence levels content (tops ! si_group it) it rows)"
    | i where "i < bins" "?lp = u32_to_le (of_nat i) @ content i"
    | l m where "Suc l < length levels" "m < length (levels ! Suc l)" "?lp = concat (node_children ARITY (levels ! l) m)"
    unfolding extract_evidence_def by (metis diff_less length_greater_0_conv zero_less_one)
  then show ?thesis
  proof cases
    case 2
    then have "si_bin_index it = of_nat i" "si_bin_content it = content i" by simp_all
    moreover have "unat (of_nat i :: u32) = i" using 2(1) assms(6) by (intro unat_of_nat_small) simp
    ultimately show ?thesis using 2(1) by simp
  next
    case 3
    have "length ?lp = 256" using 3 honest_preimage_256 [of "Suc l" m] by (simp add: honest_preimage_def)
    then have "length (si_bin_content it) = 252" by simp
    with 3 show ?thesis unfolding node_preimage_def by blast
  qed simp
qed

end

section \<open>Tables and batches\<close>

definition bin_content :: "bytes \<Rightarrow> cuckoo_header \<Rightarrow> table_params \<Rightarrow> nat \<Rightarrow> nat \<Rightarrow> bytes" where
  "bin_content mmap header params g i =
     slice (group_data mmap (ch_header_size header) g (ch_bins_per_table header) (tp_bin_size params))
       (i * tp_bin_size params) (tp_bin_size params)"

text \<open>The claimed bin is the bin of the table file that the database was built from.\<close>

definition committed_bin :: "bytes \<Rightarrow> cuckoo_header \<Rightarrow> table_params \<Rightarrow> sub_item \<Rightarrow> bool" where
  "committed_bin mmap header params it \<longleftrightarrow>
     si_group it < tp_k params \<and> unat (si_bin_index it) < ch_bins_per_table header \<and>
     si_bin_content it = bin_content mmap header params (si_group it) (unat (si_bin_index it))"

definition poses_as_node :: "per_group_tree list \<Rightarrow> sub_item \<Rightarrow> bool" where
  "poses_as_node trees it \<longleftrightarrow> si_group it < length trees \<and> node_preimage (pg_levels (trees ! si_group it)) it"

lemma poses_as_node_length: "poses_as_node trees it \<Longrightarrow> length (si_bin_content it) = 252"
  by (simp add: poses_as_node_def node_preimage_def)

definition sub_evidence ::
  "bytes \<Rightarrow> cuckoo_header \<Rightarrow> table_params \<Rightarrow> per_group_tree list \<Rightarrow> querier \<Rightarrow> sub_item list \<Rightarrow> u32 \<Rightarrow> u8 \<Rightarrow>
     tree_top list \<Rightarrow> u8 \<Rightarrow> nat \<Rightarrow> evidence" where
  "sub_evidence mmap header params trees q items bins table_type tops db_id i =
     (case q table_type (level_plans items bins (tp_k params) tops) db_id of
        Inl e \<Rightarrow> Matches
      | Inr rows \<Rightarrow>
          (let g = si_group (items ! i)
           in extract_evidence (pg_levels (trees ! g)) (bin_content mmap header params g) (tops ! g)
                (items ! i) (item_rows items i rows)))"

lemma collect_options_SomeD:
  "collect_options xs = Some ys \<Longrightarrow> length ys = length xs \<and> (\<forall>i < length xs. xs ! i = Some (ys ! i))"
proof (induction xs arbitrary: ys)
  case (Cons x xs)
  then obtain y zs where "x = Some y" "collect_options xs = Some zs" "ys = y # zs"
    by (auto split: option.splits)
  with Cons.IH show ?case by (auto simp: less_Suc_eq_0_disj)
qed simp

lemma build_trees_nth:
  assumes "build_trees mmap p hdr = Some trees"
  shows "length trees = tp_k p"
    and "g < tp_k p \<Longrightarrow> build_group_tree mmap (ch_header_size hdr) g (ch_bins_per_table hdr) (tp_bin_size p) =
      Some (trees ! g)"
  using collect_options_SomeD [OF assms [unfolded build_trees_def]] by auto

lemma length_bin_content:
  assumes "build_group_tree mmap (ch_header_size hdr) g (ch_bins_per_table hdr) (tp_bin_size p) = Some t"
    and "i < ch_bins_per_table hdr"
  shows "length (bin_content mmap hdr p g i) = tp_bin_size p"
proof -
  let ?bs = "tp_bin_size p" and ?n = "ch_bins_per_table hdr"
  have "length (group_data mmap (ch_header_size hdr) g ?n ?bs) = ?n * ?bs"
    using assms(1) by (auto simp: build_group_tree_def group_data_def split: if_splits)
  moreover have "i * ?bs + ?bs \<le> ?n * ?bs"
    using mult_le_mono1 [of "Suc i" ?n ?bs] assms(2) by simp
  ultimately show ?thesis by (simp add: bin_content_def)
qed

lemma table_sound:
  assumes bt: "build_trees mmap p hdr = Some trees" and lt: "length tops = tp_k p"
    and rt: "\<And>g. g < tp_k p \<Longrightarrow> top_root (tops ! g) = Some (pg_root (trees ! g))"
    and wf: "\<forall>t \<in> set tops. wf_top t"
    and v: "verify_sibling_levels q items bins (tp_k p) tt tops db = Inr oks"
    and i: "i < length items" "oks ! i"
    and sz: "ch_bins_per_table hdr \<le> 2 ^ 32" "tp_bin_size p \<noteq> 252"
  shows "committed_bin mmap hdr p (items ! i) \<or>
    breaks_sha256 (sub_evidence mmap hdr p trees q items bins tt tops db i) \<or> poses_as_node trees (items ! i)"
proof -
  let ?it = "items ! i"
  let ?g = "si_group ?it"
  obtain rows where rows: "q tt (level_plans items bins (tp_k p) tops) db = Inr rows"
    and vi: "verify_item tops ?it (item_rows items i rows)"
    using verify_sibling_levels_items [OF v] i by auto
  have g: "?g < tp_k p" using vi lt by (auto simp: verify_item_def check_item_def split: if_splits)
  note bg = build_trees_nth(2) [OF bt g]
  note D = build_group_tree_SomeD [OF bg]
  have c: "\<forall>j < ch_bins_per_table hdr. length (bin_content mmap hdr p ?g j) \<noteq> 252"
    using length_bin_content [OF bg] sz(2) by simp
  have "unat (si_bin_index ?it) < ch_bins_per_table hdr \<and>
      si_bin_content ?it = bin_content mmap hdr p ?g (unat (si_bin_index ?it)) \<or>
    breaks_sha256 (extract_evidence (pg_levels (trees ! ?g)) (bin_content mmap hdr p ?g) (tops ! ?g) ?it
      (item_rows items i rows)) \<or> node_preimage (pg_levels (trees ! ?g)) ?it"
    using group_tree.accepted_item_sound [OF vi wf, of
        "group_data mmap (ch_header_size hdr) ?g (ch_bins_per_table hdr) (tp_bin_size p)"
        "ch_bins_per_table hdr" "tp_bin_size p"] g lt rt [OF g] D(1-3) sz(1) c
    by (simp add: bin_content_def [abs_def])
  then show ?thesis using g rows build_trees_nth(1) [OF bt] by (auto simp: committed_bin_def sub_evidence_def poses_as_node_def Let_def)
qed

end
