(* ===== verification/Bucket_Complete.thy ===== *)
theory Bucket_Complete
  imports Bucket_Soundness
begin

text \<open>
  What the client asks for and what an honest database answers: the rows that the plans select, and that
  the committed bins of a built database are accepted when every planned row is answered as the trees have
  it; and soundness of the batch verification for every querier.
\<close>

section \<open>The planned rounds\<close>

definition div8 :: "nat \<Rightarrow> u32 \<Rightarrow> u32" where
  "div8 l idx = ((\<lambda>x. x div 8) ^^ l) idx"

lemma unat_div8: "unat (div8 l idx) = unat idx div 8 ^ l"
  by (induction l arbitrary: idx) (auto simp: div8_def unat_div funpow_swap1 div_mult2_eq [symmetric] mult.commute)

lemma div8_Suc: "div8 (Suc l) idx = div8 l idx div 8" "div8 0 idx = idx"
  by (simp_all add: div8_def)

lemma length_level_groups_count [simp]: "length (level_groups_count n nodes) = n"
  by (induction n arbitrary: nodes) (auto simp: Let_def)

lemma length_level_plans_loop [simp]: "length (level_plans_loop items k l0 counts planned) = length counts"
  by (induction counts arbitrary: l0 planned) auto

lemma level_plans_loop_nth:
  "l < length counts \<Longrightarrow> level_plans_loop items k l0 counts planned ! l =
     \<lparr>slp_level = l0 + l, slp_bins_per_table = counts ! l,
      slp_passes = map (\<lambda>pass. pass_targets items k pass (map (div8 l) planned)) [0..<max_items_per_group items]\<rparr>"
proof (induction counts arbitrary: l l0 planned)
  case (Cons c counts)
  show ?case
  proof (cases l)
    case 0
    then show ?thesis by (simp add: div8_Suc(2) [abs_def])
  next
    case (Suc m)
    have "div8 m (x div 8) = div8 (Suc m) x" for x
      unfolding div8_def by (metis comp_apply funpow_Suc_right)
    then show ?thesis using Suc Cons by (simp add: o_def)
  qed
qed simp

lemma distinct_pass_groups: "distinct (map fst (pass_group_to_item items p))"
  by (simp add: pass_group_to_item_def o_def item_groups_def)

lemma map_of_pass:
  assumes "i < length items"
  shows "map_of (pass_group_to_item items (item_rank items i)) (si_group (items ! i)) = Some i"
  using assms by (intro map_of_is_SomeI distinct_pass_groups) (simp add: pass_group_to_item_iff)

section \<open>Honest answers\<close>

text \<open>Row \<open>r\<close> of group \<open>g\<close> in the sibling table of a level, for every slot that asks for one.\<close>

definition honest_rows :: "per_group_tree list \<Rightarrow> sibling_level_plan \<Rightarrow> level_rows" where
  "honest_rows trees plan =
     map (\<lambda>targets. map (\<lambda>(g, target). map_option (\<lambda>r. sibling_row (pg_levels (trees ! g) ! slp_level plan) (unat r)) target)
            (zip [0..<length targets] targets)) (slp_passes plan)"

definition honest_querier :: "(u8 \<Rightarrow> per_group_tree list) \<Rightarrow> querier" where
  "honest_querier trees table_type plans db_id = Inr (map (honest_rows (trees table_type)) plans)"

lemma honest_item_rows:
  assumes "i < length items" and "si_group (items ! i) < k"
  shows "item_rows items i (map (honest_rows trees) (level_plans items bins k tops)) =
    map (\<lambda>l. Some (sibling_row (pg_levels (trees ! si_group (items ! i)) ! l)
            (unat (si_bin_index (items ! i)) div 8 ^ Suc l))) [0..<max_sib_levels tops]"
    (is "?l = ?r")
proof (rule nth_equalityI)
  show "length ?l = length ?r" by (simp add: item_rows_def level_plans_def)
  fix l assume "l < length ?l"
  then have l: "l < max_sib_levels tops" by (simp add: item_rows_def level_plans_def)
  let ?g = "si_group (items ! i)" and ?p = "item_rank items i"
  note rk = rank_less_max [OF assms(1)]
  have u: "unat (map (div8 l) (map si_bin_index items) ! i div 8) = unat (si_bin_index (items ! i)) div 8 ^ Suc l"
    using assms(1) unat_div8 [of "Suc l" "si_bin_index (items ! i)"] by (simp add: div8_Suc(1))
  have "honest_rows trees (level_plans items bins k tops ! l) ! ?p ! ?g =
      Some (sibling_row (pg_levels (trees ! ?g) ! l) (unat (si_bin_index (items ! i)) div 8 ^ Suc l))"
    unfolding level_plans_def honest_rows_def
    using l rk assms(2) map_of_pass [OF assms(1)] u
    by (simp add: level_plans_loop_nth pass_targets_def del: map_of_eq_Some_iff)
  moreover have "?p < length (slp_passes (level_plans items bins k tops ! l))"
    using l rk by (simp add: level_plans_def level_plans_loop_nth)
  moreover have "length (honest_rows trees (level_plans items bins k tops ! l) ! ?p) = k"
    using l rk by (simp add: level_plans_def level_plans_loop_nth honest_rows_def pass_targets_def)
  ultimately show "?l ! l = ?r ! l"
    using l assms(2) by (simp add: item_rows_def get_row_def level_plans_def)
qed

context honest_tree
begin

lemma level_index:
  assumes "l < length levels" and "i < bins"
  shows "i div 8 ^ l < length (levels ! l)"
  using assms(1)
proof (induction l)
  case 0
  then show ?case using assms(2) num_bins by simp
next
  case (Suc l)
  then have "i div 8 ^ l div ARITY < div_ceil (length (levels ! l)) ARITY"
    by (intro div_less_div_ceil) (simp_all add: ARITY_def)
  then show ?case using Suc next_size by (simp add: ARITY_def div_mult2_eq [symmetric] mult.commute)
qed

lemma parent_value:
  assumes "Suc l < length levels" and "i < bins"
  shows "compute_parent_n (node_children ARITY (levels ! l) (i div 8 ^ Suc l)) = levels ! Suc l ! (i div 8 ^ Suc l)"
  using node [OF assms(1) level_index [OF assms]] by simp

lemma row_children_honest:
  assumes "l < length levels" and "j < length (levels ! l)"
  shows "row_children (sibling_row (levels ! l) (j div 8)) (j mod 8) (levels ! l ! j) =
    node_children ARITY (levels ! l) (j div 8)"
proof (rule nth_equalityI)
  let ?n = "node_children ARITY (levels ! l) (j div 8)"
  show "length (row_children (sibling_row (levels ! l) (j div 8)) (j mod 8) (levels ! l ! j)) = length ?n"
    by (simp add: ARITY_def)
  fix c assume "c < length (row_children (sibling_row (levels ! l) (j div 8)) (j mod 8) (levels ! l ! j))"
  then have c: "c < 8" by simp
  have "\<forall>x \<in> set ?n. length x = 32" by (intro node_children_32 levels_32 assms(1))
  then have "slice (sibling_row (levels ! l) (j div 8)) (c * 32) 32 = ?n ! c"
    using slice_concat_fixed [of ?n 32 c "[]"] c by (simp add: sibling_row_children ARITY_def)
  moreover have "?n ! (j mod 8) = levels ! l ! j"
    using assms(2) by (simp add: nth_node_children ARITY_def)
  ultimately show "row_children (sibling_row (levels ! l) (j div 8)) (j mod 8) (levels ! l ! j) ! c = ?n ! c"
    using c by (simp add: row_children_def BUCKET_MERKLE_ARITY_def)
qed

lemma honest_walk:
  assumes "i < bins" and "unat idx = i" and "s < length levels"
  shows "foldl (\<lambda>st row. walk_row row st) \<lparr>ws_hash = levels ! 0 ! i, ws_idx = idx, ws_malformed = False\<rparr>
      (map (\<lambda>l. Some (sibling_row (levels ! l) (i div 8 ^ Suc l))) [0..<s]) =
    \<lparr>ws_hash = levels ! s ! (i div 8 ^ s), ws_idx = div8 s idx, ws_malformed = False\<rparr>"
  using assms(3)
proof (induction s)
  case 0
  then show ?case by (simp add: div8_Suc)
next
  case (Suc s)
  let ?j = "i div 8 ^ s"
  have j: "?j < length (levels ! s)" using level_index [of s i] Suc.prems assms(1) by simp
  have "length (sibling_row (levels ! s) (?j div 8)) = 256"
    using length_concat_fixed [OF node_children_32 [OF levels_32], of s ARITY "?j div 8"] Suc.prems
    by (simp add: sibling_row_children ARITY_def)
  moreover have "unat (div8 s idx) = ?j" by (simp add: unat_div8 assms(2))
  moreover have "i div 8 ^ Suc s = ?j div 8" by (simp add: div_mult2_eq [symmetric] mult.commute)
  ultimately show ?case
    using Suc row_children_honest [OF _ j] parent_value [OF Suc.prems assms(1)]
    by (simp add: walk_row_def BUCKET_MERKLE_SIB_ROW_SIZE_def BUCKET_MERKLE_ARITY_def div8_Suc)
qed

lemma top_children_honest:
  assumes "l < length levels" and "unat idx < length (levels ! l)"
  shows "top_children (levels ! l) idx (levels ! l ! unat idx) = node_children ARITY (levels ! l) (unat idx div 8)"
proof (rule nth_equalityI)
  fix c assume "c < length (top_children (levels ! l) idx (levels ! l ! unat idx))"
  then have c: "c < 8" by simp
  have p: "unat (idx div 8 * 8) = unat idx div 8 * 8"
    using unsigned_less [of idx, where 'a = nat]
    by (simp add: unat_word_ariths unat_div)
  show "top_children (levels ! l) idx (levels ! l ! unat idx) ! c =
      node_children ARITY (levels ! l) (unat idx div 8) ! c"
    using c assms(2) by (auto simp: top_children_def Let_def BUCKET_MERKLE_ARITY_def nth_node_children ARITY_def p)
qed (simp add: ARITY_def)

lemma honest_top:
  assumes "i < bins" and "s < length levels" and "unat idx = i div 8 ^ s"
  shows "walk_top (butlast (drop s levels)) (levels ! s ! (i div 8 ^ s)) idx = last levels ! 0"
  using assms(2,3)
proof (induction "length levels - s" arbitrary: s idx)
  case (Suc n)
  let ?j = "i div 8 ^ s"
  have j: "?j < length (levels ! s)" using level_index [OF Suc.prems(1) assms(1)] .
  show ?case
  proof (cases "Suc s = length levels")
    case True
    then have "drop s levels = [levels ! s]" by (metis Cons_nth_drop_Suc Suc.prems(1) drop_all order_refl)
    moreover have "last levels = levels ! s" using True levels_not_Nil by (metis diff_Suc_1 last_conv_nth)
    moreover have "?j = 0" using j top assms(1) calculation(2) by simp
    ultimately show ?thesis by simp
  next
    case False
    then have s: "Suc s < length levels" using Suc.prems by simp
    then have b: "butlast (drop s levels) = levels ! s # butlast (drop (Suc s) levels)"
      by (metis Cons_nth_drop_Suc Suc_lessD butlast.simps(2) drop_eq_Nil leD)
    have e: "i div 8 ^ Suc s = ?j div 8" by (simp add: div_mult2_eq [symmetric] mult.commute)
    have u: "unat (idx div 8) = i div 8 ^ Suc s" unfolding e by (simp add: unat_div Suc.prems(2))
    have "walk_top (butlast (drop (Suc s) levels)) (levels ! Suc s ! (i div 8 ^ Suc s)) (idx div 8) = last levels ! 0"
      using Suc.hyps(2) s u by (intro Suc.hyps(1)) auto
    then show ?thesis
      using top_children_honest [OF Suc.prems(1), of idx] j Suc.prems(2) parent_value [OF s assms(1)] e b by simp
  qed
qed simp

end

section \<open>Tables and batches\<close>

definition honest_tops :: "per_group_tree list \<Rightarrow> nat \<Rightarrow> tree_top list" where
  "honest_tops trees bins = map (\<lambda>t. top_of (t, length (compute_sibling_levels bins))) trees"

lemma tree_sibling_levels:
  assumes "build_group_tree mmap off g bins bs = Some t"
  shows "length (compute_sibling_levels bins) < length (pg_levels t)"
  using sibling_levels_of_tree [of "leaf_hashes (group_data mmap off g bins bs) bins bs"]
    build_group_tree_SomeD(1) [OF assms] by (simp add: compute_sibling_levels_def)

lemma honest_item_accepted:
  assumes bt: "build_trees mmap p hdr = Some trees" and b: "ch_bins_per_table hdr \<le> 2 ^ 32"
    and c: "committed_bin mmap hdr p it"
  defines "s \<equiv> length (compute_sibling_levels (ch_bins_per_table hdr))"
  shows "verify_item (honest_tops trees (ch_bins_per_table hdr)) it
    (map (\<lambda>l. Some (sibling_row (pg_levels (trees ! si_group it) ! l)
            (unat (si_bin_index it) div 8 ^ Suc l))) [0..<s])"
proof -
  let ?g = "si_group it" and ?i = "unat (si_bin_index it)" and ?n = "ch_bins_per_table hdr"
  let ?t = "trees ! ?g"
  have g: "?g < tp_k p" and i: "?i < ?n" and ct: "si_bin_content it = bin_content mmap hdr p ?g ?i"
    using c by (auto simp: committed_bin_def)
  note bg = build_trees_nth(2) [OF bt g]
  note D = build_group_tree_SomeD [OF bg]
  have s: "s < length (pg_levels ?t)" using tree_sibling_levels [OF bg] by (simp add: s_def)
  let ?d = "group_data mmap (ch_header_size hdr) ?g ?n (tp_bin_size p)"
  note W = group_tree.honest_walk [of ?i ?n "si_bin_index it" s ?d "tp_bin_size p", folded D(1), OF i refl s]
  note T = group_tree.honest_top [of ?i ?n s ?d "tp_bin_size p" "div8 s (si_bin_index it)", folded D(1),
      OF i s unat_div8]
  have "compute_bin_leaf_hash (si_bin_index it) (si_bin_content it) = pg_levels ?t ! 0 ! ?i"
    using group_tree.leaf [OF i, of ?d "tp_bin_size p"] D(1) ct by (simp add: bin_content_def)
  then have st: "foldl (\<lambda>st row. walk_row row st) (init_walk it)
      (map (\<lambda>l. Some (sibling_row (pg_levels ?t ! l) (?i div 8 ^ Suc l))) [0..<s]) =
    \<lparr>ws_hash = pg_levels ?t ! s ! (?i div 8 ^ s), ws_idx = div8 s (si_bin_index it), ws_malformed = False\<rparr>"
    using W by (simp add: init_walk_def)
  have tops: "honest_tops trees ?n ! ?g = top_of (?t, s)" "?g < length (honest_tops trees ?n)"
    using g build_trees_nth(1) [OF bt] by (simp_all add: honest_tops_def s_def)
  have lt: "length (last (pg_levels ?t)) = 1"
    using group_tree.top [of ?n ?d "tp_bin_size p"] D(1,3) by simp
  have ld: "last (drop s (pg_levels ?t)) = last (pg_levels ?t)" using s by simp
  have rt: "top_root (top_of (?t, s)) = Some (last (pg_levels ?t) ! 0)"
    using s lt ld by (auto simp: top_root_def top_of_def split: list.splits)
  show ?thesis
    unfolding verify_item_def st check_item_def using tops rt T s by (simp add: Let_def) (simp add: top_of_def)
qed

lemma max_sib_levels_honest:
  "trees \<noteq> [] \<Longrightarrow> max_sib_levels (honest_tops trees n) = length (compute_sibling_levels n)"
  by (auto simp: max_sib_levels_def honest_tops_def top_of_def o_def)

lemma honest_table_accepted:
  assumes bt: "build_trees mmap p hdr = Some trees" and b: "ch_bins_per_table hdr \<le> 2 ^ 32"
    and c: "\<forall>it \<in> set items. committed_bin mmap hdr p it" and q: "trees_of tt = trees"
  shows "verify_sibling_levels (honest_querier trees_of) items bins (tp_k p) tt
    (honest_tops trees (ch_bins_per_table hdr)) db = Inr (replicate (length items) True)"
proof -
  let ?tops = "honest_tops trees (ch_bins_per_table hdr)"
  let ?rows = "map (honest_rows trees) (level_plans items bins (tp_k p) ?tops)"
  have "\<forall>rows \<in> set ?rows. length rows = max_items_per_group items"
    by (auto simp: honest_rows_def level_plans_def in_set_conv_nth level_plans_loop_nth)
  then obtain sts where sts: "walk_levels items ?rows (map init_walk items) = Inr sts"
    using walk_levels_returns by blast
  then have v: "verify_sibling_levels (honest_querier trees_of) items bins (tp_k p) tt ?tops db =
      Inr (map2 (check_item ?tops) items sts)"
    by (simp add: verify_sibling_levels_def honest_querier_def q Let_def)
  from verify_sibling_levels_items [OF v]
  have len: "length (map2 (check_item ?tops) items sts) = length items"
    and nth: "\<And>i. i < length items \<Longrightarrow> map2 (check_item ?tops) items sts ! i =
      verify_item ?tops (items ! i) (item_rows items i ?rows)"
    by (auto simp: honest_querier_def q)
  have "map2 (check_item ?tops) items sts = replicate (length items) True"
  proof (rule nth_equalityI)
    fix i assume "i < length (map2 (check_item ?tops) items sts)"
    then have i: "i < length items" using len by simp
    then have ci: "committed_bin mmap hdr p (items ! i)" using c by simp
    then have g: "si_group (items ! i) < tp_k p" by (simp add: committed_bin_def)
    then have "trees \<noteq> []" using build_trees_nth(1) [OF bt] by auto
    then show "map2 (check_item ?tops) items sts ! i = replicate (length items) True ! i"
      using nth [OF i] honest_item_rows [OF i g, of trees bins ?tops] honest_item_accepted [OF bt b ci]
        max_sib_levels_honest [of trees] i by simp
  qed (use len in simp)
  with v show ?thesis by simp
qed

lemma length_clear_failed [simp]: "length (clear_failed owners oks acc) = length acc"
proof -
  have "length (foldl (\<lambda>acc (i, ok). if ok then acc else acc[i := False]) acc xs) = length acc" for xs :: "(nat \<times> bool) list"
    by (induction xs arbitrary: acc) auto
  then show ?thesis by (simp add: clear_failed_def)
qed

lemma clear_failed_nth:
  assumes "i < length acc"
  shows "clear_failed owners oks acc ! i \<longleftrightarrow> acc ! i \<and> (\<forall>(j, ok) \<in> set (zip owners oks). j = i \<longrightarrow> ok)"
proof -
  have "foldl (\<lambda>acc (i, ok). if ok then acc else acc[i := False]) acc xs ! i \<longleftrightarrow>
      acc ! i \<and> (\<forall>(j, ok) \<in> set xs. j = i \<longrightarrow> ok)" for xs
    using assms
  proof (induction xs arbitrary: acc)
    case (Cons x xs)
    obtain a b where x: "x = (a, b)" by (cases x)
    then show ?case using Cons.IH [of acc] Cons.IH [of "acc[a := False]"] Cons.prems
      by (cases "a = i") auto
  qed simp
  then show ?thesis by (simp add: clear_failed_def)
qed

lemma clear_failed_all_True:
  "clear_failed owners (replicate n True) acc = acc"
  by (rule nth_equalityI) (auto simp: clear_failed_nth in_set_zip)

lemma flatten_chunks_mem:
  "flatten_chunks k items = Some fl \<Longrightarrow> i < length items \<Longrightarrow>
     \<exists>subs. chunk_subs (items ! i) = Some subs \<and> (\<forall>s \<in> set subs. (k + i, s) \<in> set fl)"
proof (induction k items arbitrary: i fl rule: flatten_chunks.induct)
  case (2 k it items)
  then obtain subs rest where r: "chunk_subs it = Some subs" "flatten_chunks (k + 1) items = Some rest"
    "fl = map (\<lambda>s. (k, s)) subs @ rest"
    by (auto split: option.splits)
  show ?case
  proof (cases i)
    case (Suc j)
    then show ?thesis using 2(1) [OF r(1,2), of j] 2(3) r(3) by auto
  qed (use r in auto)
qed simp

lemma flatten_chunks_all:
  assumes "\<forall>it \<in> set items. \<exists>subs. chunk_subs it = Some subs \<and> (\<forall>s \<in> set subs. P s)"
  shows "\<exists>fl. flatten_chunks k items = Some fl \<and> (\<forall>s \<in> set (map snd fl). P s)"
  using assms by (induction k items rule: flatten_chunks.induct) fastforce+

section \<open>A complete file builds\<close>

lemma collect_options_returns: "\<forall>x \<in> set xs. x \<noteq> None \<Longrightarrow> \<exists>ys. collect_options xs = Some ys"
  by (induction xs) auto

lemma build_group_tree_returns:
  assumes "0 < bins" and "off + g * (bins * bs) + bins * bs \<le> length mmap"
  shows "build_group_tree mmap off g bins bs \<noteq> None"
  using assms group_tree.top [OF assms(1), of "group_data mmap off g bins bs" bs]
  by (auto simp: build_group_tree_def Let_def split: list.splits)

lemma build_trees_returns:
  assumes "0 < ch_bins_per_table hdr"
    and "ch_header_size hdr + tp_k p * (ch_bins_per_table hdr * tp_bin_size p) \<le> length mmap"
  shows "\<exists>trees. build_trees mmap p hdr = Some trees"
proof -
  have "build_group_tree mmap (ch_header_size hdr) g (ch_bins_per_table hdr) (tp_bin_size p) \<noteq> None"
    if "g < tp_k p" for g
  proof (rule build_group_tree_returns [OF assms(1)])
    let ?n = "ch_bins_per_table hdr * tp_bin_size p"
    have "Suc g * ?n \<le> tp_k p * ?n" using that by (intro mult_le_mono1) simp
    then show "ch_header_size hdr + g * ?n + ?n \<le> length mmap" using assms(2) by simp
  qed
  then show ?thesis unfolding build_trees_def by (intro collect_options_returns) auto
qed

lemma build_levels_le: "2 \<le> a \<Longrightarrow> l \<in> set (build_levels a xs) \<Longrightarrow> length l \<le> length xs"
proof (induction a xs arbitrary: l rule: build_levels.induct)
  case (1 a xs)
  show ?case
  proof (cases "length xs \<le> 1 \<or> a < 2")
    case True
    then show ?thesis using 1(3) by (simp add: build_levels.simps)
  next
    case False
    then have eq: "build_levels a xs = xs # build_levels a (next_level a xs)" by (simp add: build_levels.simps)
    have "div_ceil (length xs) a \<le> length xs" using False div_ceil_smaller [of a "length xs"] by simp
    then show ?thesis using 1(1) [OF False] 1(2,3) eq by fastforce
  qed
qed

lemma wf_top_source_built:
  assumes "build_group_tree mmap off g bins bs = Some t" and "bins < 2 ^ 32"
  shows "wf_top_source (t, length (compute_sibling_levels bins))"
proof -
  let ?lv = "build_levels ARITY (leaf_hashes (group_data mmap off g bins bs) bins bs)"
  note D = build_group_tree_SomeD [OF assms(1)]
  have "bins \<le> ARITY ^ 11" using assms(2) by (simp add: ARITY_def)
  then have "length ?lv \<le> Suc 11" by (intro build_levels_depth) simp
  moreover have "wf_level l" if "l \<in> set ?lv" for l
  proof -
    have "length l \<le> bins" using build_levels_le [OF _ that] by (simp add: ARITY_def)
    moreover have "\<forall>x \<in> set l. length x = 32"
      using that build_levels_32 [of "leaf_hashes (group_data mmap off g bins bs) bins bs" _ ARITY]
      by (auto simp: in_set_conv_nth leaf_hashes_def)
    ultimately show ?thesis using assms(2) by (simp add: wf_level_def)
  qed
  ultimately show ?thesis
    using tree_sibling_levels [OF assms(1)] D(1) by (auto simp: wf_top_source_def)
qed

lemma write_sib_tables_returns:
  assumes "build_trees mmap p hdr = Some trees"
  shows "\<exists>fs. write_sib_tables trees (compute_sibling_levels (ch_bins_per_table hdr)) k tt = Some fs"
proof -
  have "length (compute_sibling_levels (ch_bins_per_table hdr)) < length (pg_levels t)" if t: "t \<in> set trees" for t
    using t build_trees_nth [OF assms] tree_sibling_levels by (metis in_set_conv_nth)
  then show ?thesis
    unfolding write_sib_tables_def
    by (intro collect_options_returns)
      (auto simp: write_flat_sibling_table_def set_zip dest!: in_set_takeD, meson leD less_trans)
qed

lemma honest_roots:
  assumes "build_trees mmap p hdr = Some trees"
  shows "collect_roots (honest_tops trees (ch_bins_per_table hdr)) = Inr (map pg_root trees)"
proof -
  have "top_root (top_of (t, length (compute_sibling_levels (ch_bins_per_table hdr)))) = Some (pg_root t)"
    if t: "t \<in> set trees" for t
  proof -
    obtain g where g: "build_group_tree mmap (ch_header_size hdr) g (ch_bins_per_table hdr) (tp_bin_size p) = Some t"
      using t build_trees_nth [OF assms] by (metis in_set_conv_nth)
    note D = build_group_tree_SomeD [OF g]
    have "length (last (pg_levels t)) = 1" using group_tree.top [OF D(3)] D(1) by simp
    then show ?thesis using tree_sibling_levels [OF g] D(2)
      by (auto simp: top_root_def top_of_def split: list.splits)
  qed
  then show ?thesis unfolding collect_roots_eq honest_tops_def by simp
qed

section \<open>What a forged batch gives away\<close>

definition roots_evidence :: "tree_top list \<Rightarrow> per_group_tree list \<Rightarrow> evidence" where
  "roots_evidence tops trees =
     (case collect_roots tops of Inl e \<Rightarrow> Matches | Inr rs \<Rightarrow> Collision (concat rs) (concat (map pg_root trees)))"

definition batch_evidence ::
  "bytes \<Rightarrow> cuckoo_header \<Rightarrow> per_group_tree list \<Rightarrow> bytes \<Rightarrow> cuckoo_header \<Rightarrow> per_group_tree list \<Rightarrow>
     querier \<Rightarrow> bucket_merkle_item list \<Rightarrow> u32 \<Rightarrow> u32 \<Rightarrow> u8 \<Rightarrow> tree_top list \<Rightarrow> nat \<Rightarrow> evidence list" where
  "batch_evidence im ih its cm ch cts q items ib cb db tops i =
     [roots_evidence tops (its @ cts),
      sub_evidence im ih INDEX_PARAMS its q (map index_sub items) ib 0 (take (tp_k INDEX_PARAMS) tops) db i] @
     (case flatten_chunks 0 items of
        None \<Rightarrow> []
      | Some fl \<Rightarrow>
          map (sub_evidence cm ch CHUNK_PARAMS cts q (map snd fl) cb 1
                 (slice tops (tp_k INDEX_PARAMS) (tp_k CHUNK_PARAMS)) db)
            (filter (\<lambda>j. fst (fl ! j) = i) [0..<length fl]))"

lemma build_trees_root_32:
  assumes "build_trees mmap p hdr = Some trees"
  shows "\<forall>t \<in> set trees. length (pg_root t) = 32"
  using build_trees_nth [OF assms] build_group_tree_SomeD(4) by (metis in_set_conv_nth)

lemma honest_roots_bound:
  assumes "build_trees im INDEX_PARAMS ih = Some its" and "build_trees cm CHUNK_PARAMS ch = Some cts"
    and "\<forall>t \<in> set tops. wf_top t"
    and "verify_tree_tops_super_root sha256 tops (tp_k INDEX_PARAMS) (tp_k CHUNK_PARAMS) (bucket_super_root its cts) = Inr ()"
  shows "breaks_sha256 (roots_evidence tops (its @ cts)) \<or>
    length tops = tp_k INDEX_PARAMS + tp_k CHUNK_PARAMS \<and>
    (\<forall>g < tp_k INDEX_PARAMS. top_root (take (tp_k INDEX_PARAMS) tops ! g) = Some (pg_root (its ! g))) \<and>
    (\<forall>g < tp_k CHUNK_PARAMS.
       top_root (slice tops (tp_k INDEX_PARAMS) (tp_k CHUNK_PARAMS) ! g) = Some (pg_root (cts ! g)))"
proof -
  note l = build_trees_nth(1) [OF assms(1)] build_trees_nth(1) [OF assms(2)]
  have r32: "\<forall>t \<in> set (its @ cts). length (pg_root t) = 32"
    using build_trees_root_32 [OF assms(1)] build_trees_root_32 [OF assms(2)] by auto
  from super_root_binds [of tops its cts] assms(3,4) r32 l
  consider "map top_root tops = map (\<lambda>t. Some (pg_root t)) (its @ cts)"
    | rs where "collect_roots tops = Inr rs" "collision sha256 (concat rs, concat (map pg_root (its @ cts)))"
    by auto
  then show ?thesis
  proof cases
    case 1
    then have len: "length tops = length (its @ cts)" by (metis length_map)
    have nth: "top_root (tops ! j) = Some (pg_root ((its @ cts) ! j))" if "j < length (its @ cts)" for j
      using 1 len that by (metis nth_map)
    have "top_root (take (tp_k INDEX_PARAMS) tops ! g) = Some (pg_root (its ! g))" if "g < tp_k INDEX_PARAMS" for g
      using nth [of g] that l by (simp add: nth_append)
    moreover have "top_root (slice tops (tp_k INDEX_PARAMS) (tp_k CHUNK_PARAMS) ! g) = Some (pg_root (cts ! g))"
      if "g < tp_k CHUNK_PARAMS" for g
      using nth [of "tp_k INDEX_PARAMS + g"] that l len by (simp add: nth_append slice_def)
    ultimately show ?thesis using len l by simp
  qed (simp add: roots_evidence_def)
qed

section \<open>A database of one bin per group\<close>

definition one_bin_header :: "nat \<Rightarrow> cuckoo_header" where
  "one_bin_header hs = \<lparr>ch_bins_per_table = 1, ch_master_seed = 0, ch_tag_seed = 0, ch_anchor = None,
     ch_header_size = hs\<rparr>"

lemmas params_eval = INDEX_PARAMS_def CHUNK_PARAMS_def INDEX_SLOT_SIZE_def CHUNK_SLOT_SIZE_def TAG_SIZE_def
  CHUNK_SIZE_def tp_bin_size_def

lemma one_bin_trees:
  "\<exists>its. build_trees (replicate 3940 0) INDEX_PARAMS (one_bin_header 40) = Some its"
  "\<exists>cts. build_trees (replicate 10592 0) CHUNK_PARAMS (one_bin_header 32) = Some cts"
  by (rule build_trees_returns; simp add: one_bin_header_def params_eval)+

definition one_bin_item :: bucket_merkle_item where
  "one_bin_item =
     \<lparr>index_pbc_group = 3, index_bin_index = 0, index_bin_content = replicate 52 0, chunk_pbc_groups = [5],
      chunk_bin_indices = [0], chunk_bin_contents = [replicate 132 0]\<rparr>"

lemma one_bin_committed:
  "committed_bin (replicate 3940 0) (one_bin_header 40) INDEX_PARAMS (index_sub one_bin_item)"
  "\<exists>subs. chunk_subs one_bin_item = Some subs \<and>
     (\<forall>s \<in> set subs. committed_bin (replicate 10592 0) (one_bin_header 32) CHUNK_PARAMS s)"
  by (simp_all add: committed_bin_def index_sub_def chunk_subs_def one_bin_item_def one_bin_header_def
      bin_content_def group_data_def slice_def params_eval)

lemma honest_tops_parse:
  assumes "build_trees im INDEX_PARAMS ih = Some its" and "build_trees cm CHUNK_PARAMS ch = Some cts"
    and "ch_bins_per_table ih < 2 ^ 32" and "ch_bins_per_table ch < 2 ^ 32"
  shows "\<exists>b. write_tree_tops its cts (compute_sibling_levels (ch_bins_per_table ih))
      (compute_sibling_levels (ch_bins_per_table ch)) = Some b \<and>
    parse_tree_tops b = Inr (honest_tops its (ch_bins_per_table ih) @ honest_tops cts (ch_bins_per_table ch))"
proof -
  have "\<forall>t \<in> set its. wf_top_source (t, length (compute_sibling_levels (ch_bins_per_table ih)))"
    "\<forall>t \<in> set cts. wf_top_source (t, length (compute_sibling_levels (ch_bins_per_table ch)))"
    using wf_top_source_built build_trees_nth [OF assms(1)] build_trees_nth [OF assms(2)] assms(3,4)
    by (metis in_set_conv_nth)+
  moreover have "length its + length cts < 2 ^ 32"
    using build_trees_nth(1) [OF assms(1)] build_trees_nth(1) [OF assms(2)] by (simp add: params_eval)
  ultimately show ?thesis unfolding honest_tops_def by (rule parse_write_tree_tops)
qed

lemma honest_super_root:
  assumes "build_trees im INDEX_PARAMS ih = Some its" and "build_trees cm CHUNK_PARAMS ch = Some cts"
  shows "verify_tree_tops_super_root sha256
      (honest_tops its (ch_bins_per_table ih) @ honest_tops cts (ch_bins_per_table ch))
      (tp_k INDEX_PARAMS) (tp_k CHUNK_PARAMS) (bucket_super_root its cts) = Inr ()"
proof -
  have "collect_roots (honest_tops its (ch_bins_per_table ih) @ honest_tops cts (ch_bins_per_table ch)) =
      Inr (map pg_root (its @ cts))"
    using honest_roots [OF assms(1)] honest_roots [OF assms(2)] by (simp add: collect_roots_eq)
  then show ?thesis
    using build_trees_nth(1) [OF assms(1)] build_trees_nth(1) [OF assms(2)]
    by (simp add: verify_tree_tops_super_root_def honest_tops_def bucket_super_root_def)
qed

lemma honest_batch:
  assumes "build_trees im INDEX_PARAMS ih = Some its" and "build_trees cm CHUNK_PARAMS ch = Some cts"
    and "ch_bins_per_table ih \<le> 2 ^ 32" and "ch_bins_per_table ch \<le> 2 ^ 32"
    and "\<forall>it \<in> set items. committed_bin im ih INDEX_PARAMS (index_sub it) \<and>
      (\<exists>subs. chunk_subs it = Some subs \<and> (\<forall>s \<in> set subs. committed_bin cm ch CHUNK_PARAMS s))"
  shows "verify_bucket_merkle_batch_generic (honest_querier (\<lambda>tt. if tt = 0 then its else cts)) items ib cb
      (tp_k INDEX_PARAMS) (tp_k CHUNK_PARAMS) db
      (honest_tops its (ch_bins_per_table ih) @ honest_tops cts (ch_bins_per_table ch)) =
    Some (Inr (replicate (length items) True))"
proof -
  let ?q = "honest_querier (\<lambda>tt. if tt = 0 then its else cts)"
  let ?it = "honest_tops its (ch_bins_per_table ih)" and ?ct = "honest_tops cts (ch_bins_per_table ch)"
  have l: "length ?it = tp_k INDEX_PARAMS" "length ?ct = tp_k CHUNK_PARAMS"
    using build_trees_nth(1) assms(1,2) by (simp_all add: honest_tops_def)
  have i: "verify_sibling_levels ?q (map index_sub items) ib (tp_k INDEX_PARAMS) 0 ?it db =
      Inr (replicate (length items) True)"
    using honest_table_accepted [OF assms(1,3), of "map index_sub items" "\<lambda>tt. if tt = 0 then its else cts" 0] assms(5)
    by simp
  obtain fl where fl: "flatten_chunks 0 items = Some fl" "\<forall>s \<in> set (map snd fl). committed_bin cm ch CHUNK_PARAMS s"
    using flatten_chunks_all [of items "committed_bin cm ch CHUNK_PARAMS" 0] assms(5) by auto
  have c: "verify_sibling_levels ?q (map snd fl) cb (tp_k CHUNK_PARAMS) 1 ?ct db = Inr (replicate (length fl) True)"
    using honest_table_accepted [OF assms(2,4) fl(2), of "\<lambda>tt. if tt = 0 then its else cts" 1] by simp
  have "take (tp_k INDEX_PARAMS) (?it @ ?ct) = ?it" "slice (?it @ ?ct) (tp_k INDEX_PARAMS) (tp_k CHUNK_PARAMS) = ?ct"
    using l by (simp_all add: slice_def)
  then show ?thesis
    unfolding verify_bucket_merkle_batch_generic_def using i c fl(1) l by (simp add: clear_failed_all_True)
qed

lemma accepted_parts:
  assumes "verify_bucket_merkle_batch_generic q items ib cb ik ck db tops = Some (Inr oks)" and "i < length items" and "oks ! i"
  shows "ik + ck \<le> length tops \<and> (\<exists>iv fl cv.
    verify_sibling_levels q (map index_sub items) ib ik 0 (take ik tops) db = Inr iv \<and> iv ! i \<and>
    flatten_chunks 0 items = Some fl \<and>
    verify_sibling_levels q (map snd fl) cb ck 1 (slice tops ik ck) db = Inr cv \<and>
    (\<forall>j < length fl. fst (fl ! j) = i \<longrightarrow> cv ! j))"
proof -
  note B = assms(1) [unfolded verify_bucket_merkle_batch_generic_def]
  have len: "ik + ck \<le> length tops" using B by (simp split: if_splits)
  let ?vi = "verify_sibling_levels q (map index_sub items) ib ik 0 (take ik tops) db"
  obtain iv where iv: "?vi = Inr iv" using B len by (cases ?vi) simp_all
  obtain fl where fl: "flatten_chunks 0 items = Some fl"
    using B len iv by (cases "flatten_chunks 0 items") simp_all
  let ?vc = "verify_sibling_levels q (map snd fl) cb ck 1 (slice tops ik ck) db"
  obtain cv where cv: "?vc = Inr cv" using B len iv fl by (cases ?vc) simp_all
  have oks: "oks = clear_failed (map fst fl) cv (clear_failed [0..<length items] iv (replicate (length items) True))"
    using B len iv fl cv by simp
  have liv: "length iv = length items" "length cv = length fl"
    using verify_sibling_levels_items [OF iv] verify_sibling_levels_items [OF cv] by auto
  have a: "clear_failed [0..<length items] iv (replicate (length items) True) ! i"
    and c: "\<forall>(j, ok) \<in> set (zip (map fst fl) cv). j = i \<longrightarrow> ok"
    using assms(2,3) unfolding oks by (simp_all add: clear_failed_nth)
  have "(i, iv ! i) \<in> set (zip [0..<length items] iv)"
    using assms(2) liv(1) by (auto simp: in_set_zip intro!: exI [of _ i])
  then have "iv ! i" using a assms(2) by (auto simp: clear_failed_nth)
  moreover have "cv ! j" if "j < length fl" "fst (fl ! j) = i" for j
  proof -
    have "(i, cv ! j) \<in> set (zip (map fst fl) cv)"
      using that liv(2) by (auto simp: in_set_zip intro!: exI [of _ j])
    with c show ?thesis by auto
  qed
  ultimately show ?thesis using len iv fl cv by blast
qed

lemma batch_sound:
  assumes "build_trees im INDEX_PARAMS ih = Some its" and "build_trees cm CHUNK_PARAMS ch = Some cts"
    and "ch_bins_per_table ih \<le> 2 ^ 32" and "ch_bins_per_table ch \<le> 2 ^ 32" and wf: "\<forall>t \<in> set tops. wf_top t"
    and "verify_tree_tops_super_root sha256 tops (tp_k INDEX_PARAMS) (tp_k CHUNK_PARAMS) (bucket_super_root its cts) = Inr ()"
    and "verify_bucket_merkle_batch_generic q items ib cb (tp_k INDEX_PARAMS) (tp_k CHUNK_PARAMS) db tops = Some (Inr oks)"
    and "i < length items" and "oks ! i"
  shows "committed_bin im ih INDEX_PARAMS (index_sub (items ! i)) \<and>
      (\<exists>subs. chunk_subs (items ! i) = Some subs \<and> (\<forall>s \<in> set subs. committed_bin cm ch CHUNK_PARAMS s)) \<or>
    (\<exists>e \<in> set (batch_evidence im ih its cm ch cts q items ib cb db tops i). breaks_sha256 e) \<or>
    poses_as_node its (index_sub (items ! i)) \<or>
    (\<exists>subs. chunk_subs (items ! i) = Some subs \<and> (\<exists>s \<in> set subs. poses_as_node cts s))"
proof (cases "breaks_sha256 (roots_evidence tops (its @ cts))")
  case False
  from honest_roots_bound [OF assms(1,2) wf assms(6)] False
  have len: "length tops = tp_k INDEX_PARAMS + tp_k CHUNK_PARAMS"
    and ri: "\<And>g. g < tp_k INDEX_PARAMS \<Longrightarrow> top_root (take (tp_k INDEX_PARAMS) tops ! g) = Some (pg_root (its ! g))"
    and rc: "\<And>g. g < tp_k CHUNK_PARAMS \<Longrightarrow>
       top_root (slice tops (tp_k INDEX_PARAMS) (tp_k CHUNK_PARAMS) ! g) = Some (pg_root (cts ! g))"
    by auto
  let ?itops = "take (tp_k INDEX_PARAMS) tops" and ?ctops = "slice tops (tp_k INDEX_PARAMS) (tp_k CHUNK_PARAMS)"
  have tops: "length ?itops = tp_k INDEX_PARAMS" "\<forall>t \<in> set ?itops. wf_top t"
    "length ?ctops = tp_k CHUNK_PARAMS" "\<forall>t \<in> set ?ctops. wf_top t"
    using len wf by (auto simp: slice_def dest: in_set_takeD in_set_dropD)
  from accepted_parts [OF assms(7-9)] obtain iv fl cv where
    iv: "verify_sibling_levels q (map index_sub items) ib (tp_k INDEX_PARAMS) 0 ?itops db = Inr iv" "iv ! i"
    and fl: "flatten_chunks 0 items = Some fl"
    and cv: "verify_sibling_levels q (map snd fl) cb (tp_k CHUNK_PARAMS) 1 ?ctops db = Inr cv"
      "\<forall>j < length fl. fst (fl ! j) = i \<longrightarrow> cv ! j" by blast
  have sz: "tp_bin_size INDEX_PARAMS \<noteq> 252" "tp_bin_size CHUNK_PARAMS \<noteq> 252" by (simp_all add: params_eval)
  have I: "committed_bin im ih INDEX_PARAMS (index_sub (items ! i)) \<or>
      breaks_sha256 (sub_evidence im ih INDEX_PARAMS its q (map index_sub items) ib 0 ?itops db i) \<or> poses_as_node its (index_sub (items ! i))"
    using table_sound [OF assms(1) tops(1) ri tops(2) iv(1), of i] assms(3,8) iv(2) sz(1) by simp
  obtain subs where subs: "chunk_subs (items ! i) = Some subs" "\<And>s. s \<in> set subs \<Longrightarrow> (i, s) \<in> set fl"
    using flatten_chunks_mem [OF fl assms(8)] by auto
  have C: "committed_bin cm ch CHUNK_PARAMS s \<or> (\<exists>j < length fl. fst (fl ! j) = i \<and>
      breaks_sha256 (sub_evidence cm ch CHUNK_PARAMS cts q (map snd fl) cb 1 ?ctops db j)) \<or> poses_as_node cts s" if s: "s \<in> set subs" for s
  proof -
    obtain j where j: "j < length fl" "fl ! j = (i, s)" using subs(2) [OF s] by (metis in_set_conv_nth)
    then show ?thesis
      using table_sound [OF assms(2) tops(3) rc tops(4) cv(1), of j] j assms(4) cv(2) sz(2) by auto
  qed
  show ?thesis using I C subs(1) fl by (auto simp: batch_evidence_def)
qed (simp add: batch_evidence_def)

lemma bucket_merkle_returns:
  assumes "read_cuckoo_header_with_anchor im INDEX_PARAMS = Inr ih"
    and "read_cuckoo_header_with_anchor cm CHUNK_PARAMS = Inr ch"
    and "0 < ch_bins_per_table ih" and "0 < ch_bins_per_table ch"
    and "ch_header_size ih + tp_k INDEX_PARAMS * (ch_bins_per_table ih * tp_bin_size INDEX_PARAMS) \<le> length im"
    and "ch_header_size ch + tp_k CHUNK_PARAMS * (ch_bins_per_table ch * tp_bin_size CHUNK_PARAMS) \<le> length cm"
  shows "\<exists>files its cts. build_bucket_merkle im cm = Some files \<and>
    build_trees im INDEX_PARAMS ih = Some its \<and> build_trees cm CHUNK_PARAMS ch = Some cts \<and>
    parse_tree_tops (bm_tree_tops files) =
      Inr (honest_tops its (ch_bins_per_table ih) @ honest_tops cts (ch_bins_per_table ch)) \<and>
    verify_tree_tops_super_root sha256
      (honest_tops its (ch_bins_per_table ih) @ honest_tops cts (ch_bins_per_table ch))
      (tp_k INDEX_PARAMS) (tp_k CHUNK_PARAMS) (bm_root files) = Inr ()"
proof -
  obtain its cts where t: "build_trees im INDEX_PARAMS ih = Some its" "build_trees cm CHUNK_PARAMS ch = Some cts"
    using build_trees_returns assms(3-6) by metis
  let ?il = "compute_sibling_levels (ch_bins_per_table ih)" and ?cl = "compute_sibling_levels (ch_bins_per_table ch)"
  have b32: "ch_bins_per_table hdr < 2 ^ 32" if "read_cuckoo_header_with_anchor f p = Inr hdr" for f p hdr
    using that unsigned_less [where 'a = nat and 'b = 32]
    by (auto simp: read_cuckoo_header_with_anchor_def Let_def split: if_splits option.splits)
  from honest_tops_parse [OF t b32 [OF assms(1)] b32 [OF assms(2)]] obtain tops where
    tops: "write_tree_tops its cts ?il ?cl = Some tops"
      "parse_tree_tops tops = Inr (honest_tops its (ch_bins_per_table ih) @ honest_tops cts (ch_bins_per_table ch))"
    by auto
  obtain isib csib where sib: "write_sib_tables its ?il (tp_k INDEX_PARAMS) 0 = Some isib"
    "write_sib_tables cts ?cl (tp_k CHUNK_PARAMS) 1 = Some csib"
    using write_sib_tables_returns [OF t(1)] write_sib_tables_returns [OF t(2)] by metis
  from honest_super_root [OF t] show ?thesis using assms(1,2) t tops sib by (simp add: build_bucket_merkle_def Let_def)
qed

section \<open>Properties\<close>

text \<open>
  C25: Completeness of the batch verification: over the tree tops of a built database, with every
  planned row answered as the trees in memory have it, a batch of items whose INDEX bin and CHUNK bins are
  the database's own is accepted in full. (The querier is a specification; theory \<open>Dpf_Verified\<close> shows that the
  client's querier and honest servers answer so.)
\<close>

theorem honest_batch_accepted:
  assumes "build_trees im INDEX_PARAMS ih = Some its" and "build_trees cm CHUNK_PARAMS ch = Some cts"
    and "ch_bins_per_table ih \<le> 2 ^ 32" and "ch_bins_per_table ch \<le> 2 ^ 32"
    and "\<forall>it \<in> set items. committed_bin im ih INDEX_PARAMS (index_sub it) \<and>
      (\<exists>subs. chunk_subs it = Some subs \<and> (\<forall>s \<in> set subs. committed_bin cm ch CHUNK_PARAMS s))"
  shows "verify_bucket_merkle_batch_generic (honest_querier (\<lambda>tt. if tt = 0 then its else cts)) items ib cb
      (tp_k INDEX_PARAMS) (tp_k CHUNK_PARAMS) db
      (honest_tops its (ch_bins_per_table ih) @ honest_tops cts (ch_bins_per_table ch)) =
    Some (Inr (replicate (length items) True))"
  by (rule honest_batch [OF assms])

theorem honest_batch_accepted_witness:
  "\<exists>its cts. verify_bucket_merkle_batch_generic (honest_querier (\<lambda>tt. if tt = 0 then its else cts))
      [one_bin_item] 1 1 (tp_k INDEX_PARAMS) (tp_k CHUNK_PARAMS) 0 (honest_tops its 1 @ honest_tops cts 1) =
    Some (Inr [True])"
proof -
  obtain its cts where t: "build_trees (replicate 3940 0) INDEX_PARAMS (one_bin_header 40) = Some its"
    "build_trees (replicate 10592 0) CHUNK_PARAMS (one_bin_header 32) = Some cts"
    using one_bin_trees by blast
  from honest_batch_accepted [OF t, of "[one_bin_item]" 1 1 0] one_bin_committed show ?thesis
    by (auto simp: one_bin_header_def)
qed

text \<open>
  C4: Soundness of the batch verification against an attested super-root. Whatever blob, sibling
  rows and level counts the servers send: if the tree tops pass the super-root check and item \<open>i\<close> is
  accepted, then one of three things holds. Its INDEX bin and all its CHUNK bins are the bins of the table files
  the database was built from; or one of the computed evidences is a SHA-256 collision or a preimage of the
  all-zero hash, which stands for missing nodes; or one of its bins has exactly 252 bytes, a length the
  verifier does not exclude, and is with its index the concatenation of the eight child hashes of an inner
  node of the committed tree of its group, since leaves and inner nodes are hashed alike. \<open>H\<close> is the SHA-256 of the
  \<open>sha2\<close> crate.
\<close>

theorem accepted_batch_is_committed:
  assumes "build_trees im INDEX_PARAMS ih = Some its" and "build_trees cm CHUNK_PARAMS ch = Some cts"
    and "ch_bins_per_table ih \<le> 2 ^ 32" and "ch_bins_per_table ch \<le> 2 ^ 32"
    and "parse_tree_tops blob = Inr tops" and "\<forall>p. H p = sha256 p"
    and "verify_tree_tops_super_root H tops (tp_k INDEX_PARAMS) (tp_k CHUNK_PARAMS) (bucket_super_root its cts) = Inr ()"
    and "verify_bucket_merkle_batch_generic q items ib cb (tp_k INDEX_PARAMS) (tp_k CHUNK_PARAMS) db tops = Some (Inr oks)"
    and "i < length items" and "oks ! i"
  shows "committed_bin im ih INDEX_PARAMS (index_sub (items ! i)) \<and>
      (\<exists>subs. chunk_subs (items ! i) = Some subs \<and> (\<forall>s \<in> set subs. committed_bin cm ch CHUNK_PARAMS s)) \<or>
    (\<exists>e \<in> set (batch_evidence im ih its cm ch cts q items ib cb db tops i). breaks_sha256 e) \<or>
    poses_as_node its (index_sub (items ! i)) \<or>
    (\<exists>subs. chunk_subs (items ! i) = Some subs \<and> (\<exists>s \<in> set subs. poses_as_node cts s))"
proof -
  have H: "H = sha256" using assms(6) by auto
  show ?thesis
    by (rule batch_sound [OF assms(1-4) parse_tree_tops_wf [OF assms(5)] assms(7) [unfolded H] assms(8-10)])
qed

theorem accepted_batch_is_committed_witness:
  "\<exists>its cts blob tops q.
     build_trees (replicate 3940 0) INDEX_PARAMS (one_bin_header 40) = Some its \<and>
     build_trees (replicate 10592 0) CHUNK_PARAMS (one_bin_header 32) = Some cts \<and>
     parse_tree_tops blob = Inr tops \<and>
     verify_bucket_merkle_batch_generic q [one_bin_item] 1 1 75 80 0 tops = Some (Inr [True]) \<and>
     (committed_bin (replicate 3940 0) (one_bin_header 40) INDEX_PARAMS (index_sub one_bin_item) \<or>
      (\<exists>e \<in> set (batch_evidence (replicate 3940 0) (one_bin_header 40) its (replicate 10592 0)
          (one_bin_header 32) cts q [one_bin_item] 1 1 0 tops 0). breaks_sha256 e))"
proof -
  obtain its cts where t: "build_trees (replicate 3940 0) INDEX_PARAMS (one_bin_header 40) = Some its"
    "build_trees (replicate 10592 0) CHUNK_PARAMS (one_bin_header 32) = Some cts"
    using one_bin_trees by blast
  have b: "ch_bins_per_table (one_bin_header n) = 1" for n by (simp add: one_bin_header_def)
  have k: "tp_k INDEX_PARAMS = 75" "tp_k CHUNK_PARAMS = 80" by (simp_all add: params_eval)
  let ?q = "honest_querier (\<lambda>tt. if tt = 0 then its else cts)" and ?tops = "honest_tops its 1 @ honest_tops cts 1"
  obtain blob where blob: "parse_tree_tops blob = Inr ?tops"
    using honest_tops_parse [OF t] unfolding b by auto
  have v: "verify_bucket_merkle_batch_generic ?q [one_bin_item] 1 1 (tp_k INDEX_PARAMS) (tp_k CHUNK_PARAMS) 0 ?tops =
      Some (Inr [True])"
    using honest_batch [OF t, of "[one_bin_item]" 1 1 0] one_bin_committed unfolding b by simp
  have "committed_bin (replicate 3940 0) (one_bin_header 40) INDEX_PARAMS (index_sub one_bin_item) \<or>
      (\<exists>e \<in> set (batch_evidence (replicate 3940 0) (one_bin_header 40) its (replicate 10592 0)
          (one_bin_header 32) cts ?q [one_bin_item] 1 1 0 ?tops 0). breaks_sha256 e)"
    using accepted_batch_is_committed [OF t _ _ blob _ honest_super_root [OF t, unfolded b] v, of 0]
    by (auto simp: b one_bin_item_def index_sub_def chunk_subs_def dest: poses_as_node_length)
  then show ?thesis using t blob v unfolding k by blast
qed

end
