(* ===== verification/Bpir_Multisets.thy ===== *)
theory Bpir_Multisets
  imports Bpir_Prelude "HOL-Library.Multiset"
begin

text \<open>
  The multiset lemmas shared by the placement components: a table is compared with the items put
  into it as multisets of slots.
\<close>

text \<open>Swapping an element into a list exchanges it for the one that was there.\<close>

lemma mset_replace: "i < length xs \<Longrightarrow> add_mset (xs ! i) (mset (xs[i := x])) = add_mset x (mset xs)"
  by (simp add: mset_update add_mset_commute [of "xs ! i"] insert_DiffM)

end
