(* ===== verification/Cuckoo.thy ===== *)
theory Cuckoo
  imports Hash_Fns Bpir_Multisets
begin

text \<open>
  Cuckoo insertion with eviction and the two table builders of \<open>crates/protocol/core/src/cuckoo.rs\<close>.
  A table is the flat list of slots; \<open>None\<close> is a panic (an index out of range, a remainder by zero,
  a failed insertion in a builder). The bin hash is an argument, as the closure is in the code.
\<close>

section \<open>Definitions\<close>

definition CUCKOO_MAX_KICKS :: nat where "CUCKOO_MAX_KICKS = 10000"

definition EMPTY :: u32 where "EMPTY = - 1"

text \<open>The scan for a free slot: \<open>Some (Some pos)\<close> is its position, \<open>Some None\<close> a full bin.\<close>

fun free_slot :: "u32 list \<Rightarrow> nat \<Rightarrow> nat list \<Rightarrow> nat option option" where
  "free_slot table base [] = Some None"
| "free_slot table base (s # ss) =
     (if length table \<le> base + s then None
      else if table ! (base + s) = EMPTY then Some (Some (base + s))
      else free_slot table base ss)"

fun try_bins ::
  "(u32 \<Rightarrow> nat \<Rightarrow> nat option) \<Rightarrow> u32 \<Rightarrow> u32 list \<Rightarrow> nat \<Rightarrow> nat list \<Rightarrow> nat option option" where
  "try_bins hash_fns entry table slots [] = Some None"
| "try_bins hash_fns entry table slots (hf # hfs) =
     (case hash_fns entry hf of
        None \<Rightarrow> None
      | Some bin \<Rightarrow>
          (case free_slot table (bin * slots) [0..<slots] of
             Some None \<Rightarrow> try_bins hash_fns entry table slots hfs
           | r \<Rightarrow> r))"

fun find_alt_bin :: "(u32 \<Rightarrow> nat \<Rightarrow> nat option) \<Rightarrow> u32 \<Rightarrow> nat \<Rightarrow> nat list \<Rightarrow> nat option" where
  "find_alt_bin hash_fns evicted current_bin [] = Some current_bin"
| "find_alt_bin hash_fns evicted current_bin (hf # hfs) =
     (case hash_fns evicted hf of
        None \<Rightarrow> None
      | Some bin \<Rightarrow> if bin \<noteq> current_bin then Some bin else find_alt_bin hash_fns evicted current_bin hfs)"

fun evict_loop ::
  "(u32 \<Rightarrow> nat \<Rightarrow> nat option) \<Rightarrow> nat \<Rightarrow> nat \<Rightarrow> u32 list \<Rightarrow> u32 \<Rightarrow> nat \<Rightarrow> nat list \<Rightarrow> (bool \<times> u32 list) option" where
  "evict_loop hash_fns slots nh table current current_bin [] = Some (False, table)"
| "evict_loop hash_fns slots nh table current current_bin (kick # kicks) =
     (if slots = 0 \<or> length table \<le> current_bin * slots + kick mod slots then None
      else (let pos = current_bin * slots + kick mod slots;
                evicted = table ! pos;
                table' = table[pos := current]
            in case find_alt_bin hash_fns evicted current_bin [0..<nh] of
                 None \<Rightarrow> None
               | Some alt_bin \<Rightarrow>
                   (case free_slot table' (alt_bin * slots) [0..<slots] of
                      None \<Rightarrow> None
                    | Some (Some p) \<Rightarrow> Some (True, table'[p := evicted])
                    | Some None \<Rightarrow> evict_loop hash_fns slots nh table' evicted alt_bin kicks)))"

definition cuckoo_insert ::
  "u32 list \<Rightarrow> nat \<Rightarrow> u32 \<Rightarrow> (u32 \<Rightarrow> nat \<Rightarrow> nat option) \<Rightarrow> nat \<Rightarrow> nat \<Rightarrow> (bool \<times> u32 list) option" where
  "cuckoo_insert table slots_per_bin entry_idx hash_fns num_hash_fns max_kicks =
     (case try_bins hash_fns entry_idx table slots_per_bin [0..<num_hash_fns] of
        None \<Rightarrow> None
      | Some (Some pos) \<Rightarrow> Some (True, table[pos := entry_idx])
      | Some None \<Rightarrow>
          (case hash_fns entry_idx 0 of
             None \<Rightarrow> None
           | Some current_bin \<Rightarrow>
               evict_loop hash_fns slots_per_bin num_hash_fns table entry_idx current_bin [0..<max_kicks]))"

text \<open>The insertion loop of the two builders.\<close>

fun insert_all ::
  "(u32 \<Rightarrow> nat \<Rightarrow> nat option) \<Rightarrow> nat \<Rightarrow> nat \<Rightarrow> nat list \<Rightarrow> u32 list \<Rightarrow> u32 list option" where
  "insert_all hash_fn slots nh [] table = Some table"
| "insert_all hash_fn slots nh (i # is) table =
     (case cuckoo_insert table slots (of_nat i) hash_fn nh CUCKOO_MAX_KICKS of
        Some (True, table') \<Rightarrow> insert_all hash_fn slots nh is table'
      | _ \<Rightarrow> None)"

definition cuckoo_keys :: "table_params \<Rightarrow> nat \<Rightarrow> u64 list" where
  "cuckoo_keys params group_id =
     map (\<lambda>hf. derive_cuckoo_key (tp_master_seed params) group_id hf) [0..<tp_cuckoo_num_hashes params]"

definition byte_hash_fn :: "bytes list \<Rightarrow> u64 list \<Rightarrow> nat \<Rightarrow> u32 \<Rightarrow> nat \<Rightarrow> nat option" where
  "byte_hash_fn entries keys num_bins entry_idx hf =
     (if length entries \<le> unat entry_idx \<or> length keys \<le> hf then None
      else cuckoo_hash (entries ! unat entry_idx) (keys ! hf) num_bins)"

definition int_hash_fn :: "u32 list \<Rightarrow> u64 list \<Rightarrow> nat \<Rightarrow> u32 \<Rightarrow> nat \<Rightarrow> nat option" where
  "int_hash_fn ids keys num_bins entry_idx hf =
     (if length ids \<le> unat entry_idx \<or> length keys \<le> hf then None
      else cuckoo_hash_int (ids ! unat entry_idx) (keys ! hf) num_bins)"

definition build_byte_keyed_table :: "bytes list \<Rightarrow> nat \<Rightarrow> table_params \<Rightarrow> nat \<Rightarrow> u32 list option" where
  "build_byte_keyed_table entries group_id params num_bins =
     insert_all (byte_hash_fn entries (cuckoo_keys params group_id) num_bins)
       (tp_slots_per_bin params) (tp_cuckoo_num_hashes params) [0..<length entries]
       (replicate (num_bins * tp_slots_per_bin params) EMPTY)"

definition build_int_keyed_table :: "u32 list \<Rightarrow> nat \<Rightarrow> table_params \<Rightarrow> nat \<Rightarrow> u32 list option" where
  "build_int_keyed_table ids group_id params num_bins =
     insert_all (int_hash_fn ids (cuckoo_keys params group_id) num_bins)
       (tp_slots_per_bin params) (tp_cuckoo_num_hashes params) [0..<length ids]
       (replicate (num_bins * tp_slots_per_bin params) EMPTY)"

section \<open>The hash family as an interface\<close>

text \<open>The table invariant: every item is valid and sits in one of its own bins.\<close>

definition own_bins :: "(u32 \<Rightarrow> nat \<Rightarrow> nat option) \<Rightarrow> nat \<Rightarrow> u32 \<Rightarrow> nat set" where
  "own_bins hash nh x = {b. \<exists>hf < nh. hash x hf = Some b}"

definition well_placed ::
  "(u32 \<Rightarrow> nat \<Rightarrow> nat option) \<Rightarrow> nat \<Rightarrow> nat \<Rightarrow> (u32 \<Rightarrow> bool) \<Rightarrow> nat \<Rightarrow> u32 list \<Rightarrow> bool" where
  "well_placed hash nh num_bins valid slots table \<longleftrightarrow> length table = num_bins * slots \<and>
     (\<forall>pos < length table. table ! pos \<noteq> EMPTY \<longrightarrow>
        valid (table ! pos) \<and> pos div slots \<in> own_bins hash nh (table ! pos))"

text \<open>The outcome of an insertion: nothing is lost on success, exactly one item on failure.\<close>

definition insert_outcome ::
  "(u32 \<Rightarrow> nat \<Rightarrow> nat option) \<Rightarrow> nat \<Rightarrow> nat \<Rightarrow> (u32 \<Rightarrow> bool) \<Rightarrow> nat \<Rightarrow> u32 list \<Rightarrow> u32 \<Rightarrow> bool \<times> u32 list \<Rightarrow> bool" where
  "insert_outcome hash nh num_bins valid slots table x r \<longleftrightarrow> well_placed hash nh num_bins valid slots (snd r) \<and>
     (if fst r then add_mset EMPTY (mset (snd r)) = add_mset x (mset table)
      else \<exists>lost. valid lost \<and> add_mset lost (mset (snd r)) = add_mset x (mset table))"

text \<open>What insertion relies on: a valid item has a bin in range for each of the hash functions.\<close>

locale cuckoo_family =
  fixes hash :: "u32 \<Rightarrow> nat \<Rightarrow> nat option" and nh :: nat and num_bins :: nat and valid :: "u32 \<Rightarrow> bool"
  assumes hash_range: "valid x \<Longrightarrow> hf < nh \<Longrightarrow> \<exists>b < num_bins. hash x hf = Some b"
    and valid_not_EMPTY: "valid x \<Longrightarrow> x \<noteq> EMPTY"
begin

abbreviation bins_of :: "u32 \<Rightarrow> nat set" where "bins_of \<equiv> own_bins hash nh"

abbreviation placed :: "nat \<Rightarrow> u32 list \<Rightarrow> bool" where "placed \<equiv> well_placed hash nh num_bins valid"

abbreviation inserted :: "nat \<Rightarrow> u32 list \<Rightarrow> u32 \<Rightarrow> bool \<times> u32 list \<Rightarrow> bool" where
  "inserted \<equiv> insert_outcome hash nh num_bins valid"

definition full_bin :: "nat \<Rightarrow> u32 list \<Rightarrow> nat \<Rightarrow> bool" where
  "full_bin slots table b \<longleftrightarrow> (\<forall>s < slots. table ! (b * slots + s) \<noteq> EMPTY)"

lemma bins_of_range: "valid x \<Longrightarrow> b \<in> bins_of x \<Longrightarrow> b < num_bins"
  using hash_range by (fastforce simp: own_bins_def)

lemma slot_in_range: "b < num_bins \<Longrightarrow> s < slots \<Longrightarrow> b * slots + s < num_bins * (slots :: nat)"
proof -
  assume "b < num_bins" "s < slots"
  then have "Suc b * slots \<le> num_bins * slots" by (intro mult_le_mono1) simp
  then show ?thesis using \<open>s < slots\<close> by simp
qed

lemma free_slot_cases:
  assumes "\<forall>s \<in> set ss. base + s < length table"
  shows "(\<exists>s \<in> set ss. free_slot table base ss = Some (Some (base + s)) \<and> table ! (base + s) = EMPTY) \<or>
    free_slot table base ss = Some None \<and> (\<forall>s \<in> set ss. table ! (base + s) \<noteq> EMPTY)"
  using assms by (induction ss) auto

lemma free_slot_bin:
  assumes "length table = num_bins * slots" and "b < num_bins"
  obtains (free) pos where "free_slot table (b * slots) [0..<slots] = Some (Some pos)" "table ! pos = EMPTY"
    "pos < length table" "pos div slots = b"
  | (full) "free_slot table (b * slots) [0..<slots] = Some None" "full_bin slots table b"
proof -
  have "\<forall>s \<in> set [0..<slots]. b * slots + s < length table"
    using assms slot_in_range by auto
  from free_slot_cases [OF this] show ?thesis
    using slot_in_range [OF assms(2)] assms(1) by (auto simp: full_bin_def intro: free full)
qed

lemma try_bins_cases:
  assumes "length table = num_bins * slots" and "valid x" and "\<forall>hf \<in> set hfs. hf < nh"
  shows "(\<exists>pos. try_bins hash x table slots hfs = Some (Some pos) \<and> table ! pos = EMPTY \<and>
      pos < length table \<and> pos div slots \<in> bins_of x) \<or>
    try_bins hash x table slots hfs = Some None \<and>
      (\<forall>hf \<in> set hfs. \<forall>b. hash x hf = Some b \<longrightarrow> full_bin slots table b)"
  using assms(3)
proof (induction hfs)
  case (Cons hf hfs)
  then obtain b where b: "hash x hf = Some b" "b < num_bins" using hash_range [OF assms(2), of hf] by auto
  then have "b \<in> bins_of x" using Cons.prems by (auto simp: own_bins_def)
  then have bx: "b \<in> bins_of x" .
  from assms(1) b(2) show ?case
  proof (cases rule: free_slot_bin)
    case (free pos)
    then show ?thesis using b(1) bx by simp
  next
    case full
    then have "try_bins hash x table slots (hf # hfs) = try_bins hash x table slots hfs" using b(1) by simp
    with Cons full b(1) show ?thesis by auto
  qed
qed simp

lemma find_alt_bin_returns:
  assumes "valid x" and "cur \<in> bins_of x" and "\<forall>hf \<in> set hfs. hf < nh"
  shows "\<exists>b. find_alt_bin hash x cur hfs = Some b \<and> b \<in> bins_of x"
  using assms(3)
proof (induction hfs)
  case (Cons hf hfs)
  then obtain b where b: "hash x hf = Some b" using hash_range [OF assms(1)] by auto
  then have "b \<in> bins_of x" using Cons.prems by (auto simp: own_bins_def)
  with b Cons show ?case by auto
qed (use assms in simp)

lemma placed_update:
  assumes "placed slots table" and "pos < length table" and "valid x" and "pos div slots \<in> bins_of x"
  shows "placed slots (table[pos := x])"
  using assms by (auto simp: well_placed_def nth_list_update)

lemma evict_loop_inserted:
  assumes "placed slots table" and "0 < slots" and "valid x" and "b \<in> bins_of x" and "full_bin slots table b"
  shows "\<exists>r. evict_loop hash slots nh table x b kicks = Some r \<and> inserted slots table x r"
  using assms
proof (induction kicks arbitrary: table x b)
  case Nil
  then show ?case by (auto simp: insert_outcome_def)
next
  case (Cons kick kicks)
  let ?pos = "b * slots + kick mod slots"
  let ?e = "table ! ?pos" and ?t = "table[b * slots + kick mod slots := x]"
  have len: "length table = num_bins * slots" using Cons.prems(1) by (simp add: well_placed_def)
  have m: "kick mod slots < slots" using Cons.prems(2) by simp
  have b: "b < num_bins" using bins_of_range Cons.prems(3,4) by blast
  have pos: "?pos < length table" using slot_in_range [OF b m] len by simp
  have dv: "?pos div slots = b" using m by simp
  have e: "?e \<noteq> EMPTY" using Cons.prems(5) m by (simp add: full_bin_def)
  then have ve: "valid ?e" "b \<in> bins_of ?e" using Cons.prems(1) pos dv by (auto simp: well_placed_def)
  have pt: "placed slots ?t" using placed_update [OF Cons.prems(1) pos Cons.prems(3)] Cons.prems(4) dv by simp
  have mt: "add_mset ?e (mset ?t) = add_mset x (mset table)" by (rule mset_replace [OF pos])
  obtain alt where alt: "find_alt_bin hash ?e b [0..<nh] = Some alt" "alt \<in> bins_of ?e"
    using find_alt_bin_returns [OF ve, of "[0..<nh]"] by auto
  have lt: "length ?t = num_bins * slots" using len by simp
  from lt bins_of_range [OF ve(1) alt(2)] show ?case
  proof (cases rule: free_slot_bin)
    case (free p)
    have "placed slots (?t[p := ?e])" using placed_update [OF pt free(3) ve(1)] free(4) alt(2) by simp
    moreover have "add_mset EMPTY (mset (?t[p := ?e])) = add_mset x (mset table)"
      using mset_replace [OF free(3), of ?e] free(2) mt by simp
    ultimately show ?thesis
      using pos Cons.prems(2) alt(1) free(1) by (simp add: Let_def insert_outcome_def)
  next
    case full
    from Cons.IH [OF pt Cons.prems(2) ve(1) alt(2) full(2)] obtain r where
      r: "evict_loop hash slots nh ?t ?e alt kicks = Some r" "inserted slots ?t ?e r" by blast
    have "inserted slots table x r" using r(2) unfolding insert_outcome_def mt .
    then show ?thesis using r(1) pos Cons.prems(2) alt(1) full(1) by (simp add: Let_def)
  qed
qed

lemma cuckoo_insert_inserted:
  assumes "placed slots table" and "0 < slots" and "0 < nh" and "valid x"
  shows "\<exists>r. cuckoo_insert table slots x hash nh max_kicks = Some r \<and> inserted slots table x r"
proof -
  have len: "length table = num_bins * slots" using assms(1) by (simp add: well_placed_def)
  from try_bins_cases [OF len assms(4), of "[0..<nh]"] consider
    (free) pos where "try_bins hash x table slots [0..<nh] = Some (Some pos)" "table ! pos = EMPTY"
      "pos < length table" "pos div slots \<in> bins_of x"
    | (full) "try_bins hash x table slots [0..<nh] = Some None"
      "\<forall>hf < nh. \<forall>b. hash x hf = Some b \<longrightarrow> full_bin slots table b"
    by auto
  then show ?thesis
  proof cases
    case free
    then show ?thesis
      using placed_update [OF assms(1) free(3) assms(4) free(4)] mset_replace [OF free(3), of x]
      by (simp add: cuckoo_insert_def insert_outcome_def)
  next
    case full
    obtain b where b: "hash x 0 = Some b" using hash_range [OF assms(4,3)] by auto
    then have "b \<in> bins_of x" "full_bin slots table b" using assms(3) full(2) by (auto simp: own_bins_def)
    from evict_loop_inserted [OF assms(1,2,4) this] show ?thesis
      using full(1) b by (simp add: cuckoo_insert_def)
  qed
qed

text \<open>A builder that returns has put every entry in, once, into one of its bins.\<close>

lemma insert_all_placed:
  assumes "insert_all hash slots nh is table = Some table'" and "placed slots table" and "0 < slots" and "0 < nh"
    and "\<forall>i \<in> set is. valid (of_nat i)"
  shows "placed slots table' \<and> mset table' + replicate_mset (length is) EMPTY = mset table + mset (map of_nat is)"
  using assms
proof (induction "is" arbitrary: table)
  case (Cons i "is")
  obtain b t where r: "cuckoo_insert table slots (of_nat i) hash nh CUCKOO_MAX_KICKS = Some (b, t)"
    "inserted slots table (of_nat i) (b, t)"
    using cuckoo_insert_inserted [OF Cons.prems(2-4), of "of_nat i" CUCKOO_MAX_KICKS] Cons.prems(5) by auto
  then have b: "b = True" and t: "insert_all hash slots nh is t = Some table'"
    using Cons.prems(1) by (cases b; simp)+
  from r(2) b have p: "placed slots t" "add_mset EMPTY (mset t) = add_mset (of_nat i) (mset table)"
    by (simp_all add: insert_outcome_def)
  have "mset table' + replicate_mset (length is) EMPTY = mset t + mset (map of_nat is)"
    "placed slots table'"
    using Cons.IH [OF t p(1) Cons.prems(3,4)] Cons.prems(5) by auto
  moreover have "mset table' + replicate_mset (length (i # is)) EMPTY =
      add_mset EMPTY (mset table' + replicate_mset (length is) EMPTY)" by simp
  moreover have "add_mset EMPTY (mset t + mset (map of_nat is)) = mset table + mset (map of_nat (i # is))"
    using p(2) by (simp flip: union_mset_add_mset_left)
  ultimately show ?case by simp
qed simp

end

section \<open>The two families of the builders\<close>

definition byte_valid :: "bytes list \<Rightarrow> nat \<Rightarrow> u32 \<Rightarrow> bool" where
  "byte_valid entries num_bins x \<longleftrightarrow>
     x \<noteq> EMPTY \<and> unat x < length entries \<and> 20 \<le> length (entries ! unat x) \<and> 0 < num_bins"

definition int_valid :: "u32 list \<Rightarrow> nat \<Rightarrow> u32 \<Rightarrow> bool" where
  "int_valid ids num_bins x \<longleftrightarrow> x \<noteq> EMPTY \<and> unat x < length ids \<and> 0 < num_bins"

interpretation byte_table: cuckoo_family "byte_hash_fn entries keys num_bins" "length keys" num_bins
  "byte_valid entries num_bins" for entries keys num_bins
  by unfold_locales (auto simp: byte_hash_fn_def byte_valid_def cuckoo_hash_def Let_def)

interpretation int_table: cuckoo_family "int_hash_fn ids keys num_bins" "length keys" num_bins
  "int_valid ids num_bins" for ids keys num_bins
  by unfold_locales (auto simp: int_hash_fn_def int_valid_def cuckoo_hash_int_def)

lemma length_cuckoo_keys [simp]: "length (cuckoo_keys p g) = tp_cuckoo_num_hashes p"
  by (simp add: cuckoo_keys_def)

lemma of_nat_not_EMPTY: "i < 2 ^ 32 - 1 \<Longrightarrow> (of_nat i :: u32) \<noteq> EMPTY"
proof
  assume i: "i < 2 ^ 32 - 1" and e: "(of_nat i :: u32) = EMPTY"
  have "unat (of_nat i :: u32) = i" using i by (intro unat_of_nat_small) simp
  moreover have "unat EMPTY = 2 ^ 32 - 1"
    by (simp add: EMPTY_def unsigned_minus_1_eq_mask mask_eq_exp_minus_1)
  ultimately show False using i e by simp
qed

lemma well_placed_empty: "well_placed hash nh n valid slots (replicate (n * slots) EMPTY)"
  by (simp add: well_placed_def)

text \<open>In a well placed table with every entry present, a probe of its bins finds it.\<close>

lemma probe_finds:
  assumes "well_placed hash nh n valid slots table" and "0 < slots" and "x \<in> set table" and "x \<noteq> EMPTY"
  shows "\<exists>hf < nh. \<exists>b. \<exists>s < slots. hash x hf = Some b \<and> table ! (b * slots + s) = x"
proof -
  obtain pos where pos: "pos < length table" "table ! pos = x" using assms(3) by (metis in_set_conv_nth)
  then obtain hf where hf: "hf < nh" "hash x hf = Some (pos div slots)"
    using assms(1,4) by (auto simp: well_placed_def own_bins_def)
  have "table ! (pos div slots * slots + pos mod slots) = x" using pos(2) by simp
  then show ?thesis using hf assms(2) by (metis mod_less_divisor)
qed

lemma built_contents:
  assumes "mset table + replicate_mset n EMPTY = replicate_mset m EMPTY + mset (map of_nat [0..<n])"
    and "n \<le> 2 ^ 32 - 1"
  shows "mset table = mset (map of_nat [0..<n]) + replicate_mset (m - n) EMPTY"
proof -
  have "EMPTY \<notin> set (map of_nat [0..<n])"
    using assms(2) of_nat_not_EMPTY by (auto simp: image_iff) (metis less_le_trans)
  then have "count (mset (map of_nat [0..<n])) EMPTY = 0"
    by (metis count_mset_0_iff)
  moreover have "count (mset table) EMPTY + n = m + count (mset (map of_nat [0..<n])) EMPTY"
    using arg_cong [OF assms(1), of "\<lambda>M. count M EMPTY"] by (simp del: mset_map mset_upt)
  ultimately have "n \<le> m" by linarith
  then have "replicate_mset m EMPTY = replicate_mset (m - n) EMPTY + replicate_mset n EMPTY"
    by (intro multiset_eqI) simp
  with assms(1) show ?thesis by (simp add: ac_simps)
qed

text \<open>A table of no bins has no valid entry, and a builder with an entry to place panics on it.\<close>

lemma insert_all_no_bins:
  assumes "insert_all hash slots nh [0..<n] table = Some table'" and "0 < n" and "0 < nh" and "\<And>x hf. hash x hf = None"
  shows False
proof -
  have "[0..<n] = 0 # [1..<n]" using assms(2) by (simp add: upt_rec)
  moreover have "[0..<nh] = 0 # [1..<nh]" using assms(3) by (simp add: upt_rec)
  ultimately show False using assms(1,4) by (simp add: cuckoo_insert_def)
qed

context cuckoo_family
begin

lemma built_table:
  assumes "insert_all hash slots nh [0..<n] (replicate (num_bins * slots) EMPTY) = Some table"
    and "0 < slots" and "0 < nh" and "n \<le> 2 ^ 32 - 1" and "\<forall>i < n. valid (of_nat i)"
  shows "mset table = mset (map of_nat [0..<n]) + replicate_mset (num_bins * slots - n) EMPTY"
    and "i < n \<Longrightarrow> \<exists>hf < nh. \<exists>b. \<exists>s < slots. hash (of_nat i) hf = Some b \<and> table ! (b * slots + s) = of_nat i"
proof -
  have "placed slots table \<and> mset table + replicate_mset (length [0..<n]) EMPTY =
      mset (replicate (num_bins * slots) EMPTY) + mset (map of_nat [0..<n])"
    using assms(5) by (intro insert_all_placed [OF assms(1) well_placed_empty assms(2,3)]) simp
  then have wp: "placed slots table"
    and m: "mset table = mset (map of_nat [0..<n]) + replicate_mset (num_bins * slots - n) EMPTY"
    using built_contents [of table n "num_bins * slots"] assms(4) by simp_all
  show "mset table = mset (map of_nat [0..<n]) + replicate_mset (num_bins * slots - n) EMPTY" by (rule m)
  assume i: "i < n"
  then have "(of_nat i :: u32) \<in># mset table" unfolding m by auto
  moreover have "(of_nat i :: u32) \<noteq> EMPTY" using i assms(5) valid_not_EMPTY by blast
  ultimately show "\<exists>hf < nh. \<exists>b. \<exists>s < slots. hash (of_nat i) hf = Some b \<and> table ! (b * slots + s) = of_nat i"
    using probe_finds [OF wp assms(2)] by simp
qed

end

lemma one_bin_params:
  "tp_slots_per_bin CHUNK_PARAMS = 3"
  "tp_cuckoo_num_hashes CHUNK_PARAMS = 2"
  "length (cuckoo_keys CHUNK_PARAMS g) = 2"
  "tp_master_seed CHUNK_PARAMS = 0"
  by (simp_all add: CHUNK_PARAMS_def)

section \<open>Properties\<close>

text \<open>
  C29: Inserting into a well placed table never panics. On success the table holds exactly the items it
  held and the new one, each in one of its own bins; when the kicks run out, exactly one valid item
  has been lost and the rest is still well placed.
\<close>

theorem cuckoo_insert_correct:
  assumes "well_placed (byte_hash_fn entries keys n) (length keys) n (byte_valid entries n) slots table"
    and "0 < slots" and "0 < length keys" and "byte_valid entries n x"
  shows "\<exists>r. cuckoo_insert table slots x (byte_hash_fn entries keys n) (length keys) max_kicks = Some r \<and>
    insert_outcome (byte_hash_fn entries keys n) (length keys) n (byte_valid entries n) slots table x r"
  by (rule byte_table.cuckoo_insert_inserted [OF assms])

theorem cuckoo_insert_correct_witness:
  "\<exists>r. cuckoo_insert (replicate 8 EMPTY) 4 0 (byte_hash_fn [replicate 20 7] [1, 2] 2) 2 10 = Some r \<and>
    insert_outcome (byte_hash_fn [replicate 20 7] [1, 2] 2) 2 2 (byte_valid [replicate 20 7] 2) 4
      (replicate 8 EMPTY) 0 r"
  using cuckoo_insert_correct [of "[replicate 20 7]" "[1, 2]" 2 4 "replicate 8 EMPTY" 0 10]
    well_placed_empty [of "byte_hash_fn [replicate 20 7] [1, 2] 2" 2 2 "byte_valid [replicate 20 7] 2" 4]
  by (simp add: byte_valid_def EMPTY_def numeral_2_eq_2)

text \<open>
  C12: A byte-keyed table that the builder returns holds every entry index exactly once and otherwise
  empty slots, and probing the entry's bins, one per cuckoo key of the group, finds it.
\<close>

theorem build_byte_keyed_table_correct:
  assumes "build_byte_keyed_table entries g p n = Some table"
    and "0 < tp_slots_per_bin p" and "0 < tp_cuckoo_num_hashes p" and "length entries \<le> 2 ^ 32 - 1"
    and "\<forall>e \<in> set entries. 20 \<le> length e"
  shows "mset table = mset (map of_nat [0..<length entries]) +
      replicate_mset (n * tp_slots_per_bin p - length entries) EMPTY \<and>
    (\<forall>i < length entries. \<exists>hf < tp_cuckoo_num_hashes p. \<exists>b. \<exists>s < tp_slots_per_bin p.
       cuckoo_hash (entries ! i) (derive_cuckoo_key (tp_master_seed p) g hf) n = Some b \<and>
       table ! (b * tp_slots_per_bin p + s) = of_nat i)"
proof -
  let ?h = "byte_hash_fn entries (cuckoo_keys p g) n"
  have ins: "insert_all ?h (tp_slots_per_bin p) (length (cuckoo_keys p g)) [0..<length entries]
      (replicate (n * tp_slots_per_bin p) EMPTY) = Some table"
    using assms(1) by (simp add: build_byte_keyed_table_def)
  have u: "unat (of_nat i :: u32) = i" if "i < length entries" for i
    using that assms(4) by (intro unat_of_nat_small) simp
  have "?h x hf = None" if "n = 0" for x hf
    using that by (simp add: byte_hash_fn_def cuckoo_hash_def)
  then have n: "0 < n" if "i < length entries" for i
    using insert_all_no_bins [OF ins] assms(3) that by (metis gr0I length_cuckoo_keys less_nat_zero_code)
  have valid: "\<forall>i < length entries. byte_valid entries n (of_nat i)"
    using u n assms(4-) of_nat_not_EMPTY by (auto simp: byte_valid_def)
  note t = byte_table.built_table [OF ins assms(2) _ assms(4) valid]
  show ?thesis using t assms(3) u by (fastforce simp: byte_hash_fn_def cuckoo_keys_def)
qed

theorem build_byte_keyed_table_correct_witness:
  "build_byte_keyed_table [replicate 20 7, replicate 20 9] 3 CHUNK_PARAMS 1 = Some [0, 1, EMPTY] \<and>
   (\<exists>hf < 2. \<exists>b. \<exists>s < 3. cuckoo_hash ([replicate 20 7, replicate 20 9] ! 1) (derive_cuckoo_key 0 3 hf) 1 = Some b \<and>
      [0, 1, EMPTY] ! (b * 3 + s) = 1)"
proof -
  have b: "build_byte_keyed_table [replicate 20 7, replicate 20 9] 3 CHUNK_PARAMS 1 = Some [0, 1, EMPTY]"
    by (simp add: build_byte_keyed_table_def one_bin_params cuckoo_insert_def byte_hash_fn_def cuckoo_hash_def EMPTY_def
        upt_rec numeral_3_eq_3 Let_def)
  show ?thesis using b build_byte_keyed_table_correct [OF b, THEN conjunct2, THEN spec [of _ 1]]
    by (simp add: one_bin_params)
qed

text \<open>
  C30: An integer-keyed table that the builder returns holds every position of the id list exactly once
  and otherwise empty slots, and probing the bins of the id finds its position.
\<close>

theorem build_int_keyed_table_correct:
  assumes "build_int_keyed_table ids g p n = Some table"
    and "0 < tp_slots_per_bin p" and "0 < tp_cuckoo_num_hashes p" and "length ids \<le> 2 ^ 32 - 1"
  shows "mset table = mset (map of_nat [0..<length ids]) +
      replicate_mset (n * tp_slots_per_bin p - length ids) EMPTY \<and>
    (\<forall>i < length ids. \<exists>hf < tp_cuckoo_num_hashes p. \<exists>b. \<exists>s < tp_slots_per_bin p.
       cuckoo_hash_int (ids ! i) (derive_cuckoo_key (tp_master_seed p) g hf) n = Some b \<and>
       table ! (b * tp_slots_per_bin p + s) = of_nat i)"
proof -
  let ?h = "int_hash_fn ids (cuckoo_keys p g) n"
  have ins: "insert_all ?h (tp_slots_per_bin p) (length (cuckoo_keys p g)) [0..<length ids]
      (replicate (n * tp_slots_per_bin p) EMPTY) = Some table"
    using assms(1) by (simp add: build_int_keyed_table_def)
  have u: "unat (of_nat i :: u32) = i" if "i < length ids" for i
    using that assms(4) by (intro unat_of_nat_small) simp
  have "?h x hf = None" if "n = 0" for x hf
    using that by (simp add: int_hash_fn_def cuckoo_hash_int_def)
  then have n: "0 < n" if "i < length ids" for i
    using insert_all_no_bins [OF ins] assms(3) that by (metis gr0I length_cuckoo_keys less_nat_zero_code)
  have valid: "\<forall>i < length ids. int_valid ids n (of_nat i)"
    using u n assms(4-) of_nat_not_EMPTY by (auto simp: int_valid_def)
  note t = int_table.built_table [OF ins assms(2) _ assms(4) valid]
  show ?thesis using t assms(3) u by (fastforce simp: int_hash_fn_def cuckoo_keys_def)
qed

theorem build_int_keyed_table_correct_witness:
  "build_int_keyed_table [40, 50] 3 CHUNK_PARAMS 1 = Some [0, 1, EMPTY] \<and>
   (\<exists>hf < 2. \<exists>b. \<exists>s < 3. cuckoo_hash_int ([40, 50] ! 1) (derive_cuckoo_key 0 3 hf) 1 = Some b \<and>
      [0, 1, EMPTY] ! (b * 3 + s) = 1)"
proof -
  have b: "build_int_keyed_table [40, 50] 3 CHUNK_PARAMS 1 = Some [0, 1, EMPTY]"
    by (simp add: build_int_keyed_table_def one_bin_params cuckoo_insert_def int_hash_fn_def cuckoo_hash_int_def EMPTY_def
        upt_rec numeral_3_eq_3 Let_def)
  show ?thesis using b build_int_keyed_table_correct [OF b, THEN conjunct2, THEN spec [of _ 1]]
    by (simp add: one_bin_params)
qed

end
