(* ===== verification/Pbc.thy ===== *)
theory Pbc
  imports Bpir_Multisets "HOL-Library.Sublist"
begin

text \<open>
  Probabilistic batch code placement and round planning, \<open>crates/protocol/core/src/pbc.rs\<close>. A group
  table maps each group to the item that owns it in the round; \<open>None\<close> as a result is a panic (an index
  out of range, an unwrapped empty group). Items are positions in the list of candidate lists.
\<close>

section \<open>Definitions\<close>

fun first_free :: "nat option list \<Rightarrow> nat list \<Rightarrow> nat option option" where
  "first_free groups [] = Some None"
| "first_free groups (c # cs) =
     (if length groups \<le> c then None
      else if groups ! c = None then Some (Some c)
      else first_free groups cs)"

text \<open>The two scans over the evicted item's candidates, rotated by the kick number.\<close>

fun free_alternative ::
  "nat option list \<Rightarrow> nat list \<Rightarrow> nat \<Rightarrow> nat \<Rightarrow> nat \<Rightarrow> nat list \<Rightarrow> nat option option" where
  "free_alternative groups ev_cands current_group kick num_hashes [] = Some None"
| "free_alternative groups ev_cands current_group kick num_hashes (offset # offsets) =
     (let i = (kick + offset) mod num_hashes in
      if length ev_cands \<le> i then None
      else if ev_cands ! i = current_group then
        free_alternative groups ev_cands current_group kick num_hashes offsets
      else if length groups \<le> ev_cands ! i then None
      else if groups ! (ev_cands ! i) = None then Some (Some (ev_cands ! i))
      else free_alternative groups ev_cands current_group kick num_hashes offsets)"

fun next_alternative :: "nat list \<Rightarrow> nat \<Rightarrow> nat \<Rightarrow> nat \<Rightarrow> nat list \<Rightarrow> nat \<Rightarrow> nat option" where
  "next_alternative ev_cands current_group kick num_hashes [] next_group = Some next_group"
| "next_alternative ev_cands current_group kick num_hashes (offset # offsets) next_group =
     (let i = (kick + offset) mod num_hashes in
      if length ev_cands \<le> i then None
      else if ev_cands ! i \<noteq> current_group then Some (ev_cands ! i)
      else next_alternative ev_cands current_group kick num_hashes offsets next_group)"

fun pbc_evict ::
  "nat list list \<Rightarrow> nat \<Rightarrow> nat option list \<Rightarrow> nat \<Rightarrow> nat \<Rightarrow> nat list \<Rightarrow> (bool \<times> nat option list) option" where
  "pbc_evict cand_groups num_hashes groups current_qi current_group [] = Some (False, groups)"
| "pbc_evict cand_groups num_hashes groups current_qi current_group (kick # kicks) =
     (if length groups \<le> current_group then None
      else (case groups ! current_group of
        None \<Rightarrow> None
      | Some evicted_qi \<Rightarrow>
          if length cand_groups \<le> evicted_qi then None
          else (let groups' = groups[current_group := Some current_qi];
                    ev_cands = cand_groups ! evicted_qi
                in case free_alternative groups' ev_cands current_group kick num_hashes [0..<num_hashes] of
                     None \<Rightarrow> None
                   | Some (Some c) \<Rightarrow> Some (True, groups'[c := Some evicted_qi])
                   | Some None \<Rightarrow>
                       if ev_cands = [] then None
                       else (case next_alternative ev_cands current_group kick num_hashes [0..<num_hashes]
                                    (ev_cands ! 0) of
                               None \<Rightarrow> None
                             | Some next_group \<Rightarrow>
                                 pbc_evict cand_groups num_hashes groups' evicted_qi next_group kicks))))"

definition pbc_cuckoo_place ::
  "nat list list \<Rightarrow> nat option list \<Rightarrow> nat \<Rightarrow> nat \<Rightarrow> nat \<Rightarrow> (bool \<times> nat option list) option" where
  "pbc_cuckoo_place cand_groups groups qi max_kicks num_hashes =
     (if length cand_groups \<le> qi then None
      else (let cands = cand_groups ! qi in
        case first_free groups cands of
          None \<Rightarrow> None
        | Some (Some c) \<Rightarrow> Some (True, groups[c := Some qi])
        | Some None \<Rightarrow>
            if cands = [] then None
            else pbc_evict cand_groups num_hashes groups qi (cands ! 0) [0..<max_kicks]))"

text \<open>One round: items are placed in order; a failed placement restores the saved table.\<close>

fun pbc_fill_round ::
  "nat list list \<Rightarrow> nat \<Rightarrow> nat \<Rightarrow> nat \<Rightarrow> nat list \<Rightarrow> nat option list \<Rightarrow> nat list \<Rightarrow> (nat option list \<times> nat list) option" where
  "pbc_fill_round round_cands num_groups max_kicks num_hashes [] group_owner placed_local =
     Some (group_owner, placed_local)"
| "pbc_fill_round round_cands num_groups max_kicks num_hashes (li # lis) group_owner placed_local =
     (if num_groups \<le> length placed_local then Some (group_owner, placed_local)
      else (case pbc_cuckoo_place round_cands group_owner li max_kicks num_hashes of
              None \<Rightarrow> None
            | Some (True, group_owner') \<Rightarrow>
                pbc_fill_round round_cands num_groups max_kicks num_hashes lis group_owner' (placed_local @ [li])
            | Some (False, _) \<Rightarrow>
                pbc_fill_round round_cands num_groups max_kicks num_hashes lis group_owner placed_local))"

fun round_entries :: "nat list \<Rightarrow> nat \<Rightarrow> nat option list \<Rightarrow> (nat \<times> nat) list option" where
  "round_entries remaining g [] = Some []"
| "round_entries remaining g (None # owners) = round_entries remaining (Suc g) owners"
| "round_entries remaining g (Some local_idx # owners) =
     (if length remaining \<le> local_idx then None
      else map_option (\<lambda>es. (remaining ! local_idx, g) # es) (round_entries remaining (Suc g) owners))"

lemma fill_round_no_progress:
  assumes "pbc_fill_round cs ng mk nh lis owner placed = Some (owner', placed')"
    and "set lis \<subseteq> A" and "set placed \<subseteq> A" and "placed = [] \<Longrightarrow> set owner \<subseteq> {None}"
  shows "set placed' \<subseteq> A \<and> (placed' = [] \<longrightarrow> set owner' \<subseteq> {None})"
  using assms
proof (induction cs ng mk nh lis owner placed arbitrary: owner' placed' rule: pbc_fill_round.induct)
  case (2 cs ng mk nh li lis owner placed)
  then show ?case
    by (auto split: if_splits option.splits bool.splits prod.splits)
qed auto

lemma round_entries_all_free: "set owners \<subseteq> {None} \<Longrightarrow> round_entries remaining g owners = Some []"
  by (induction owners arbitrary: g) auto

function pbc_plan_loop ::
  "nat list list \<Rightarrow> nat \<Rightarrow> nat \<Rightarrow> nat \<Rightarrow> nat list \<Rightarrow> (nat \<times> nat) list list \<Rightarrow> (nat \<times> nat) list list option" where
  "pbc_plan_loop item_groups num_groups num_hashes max_kicks remaining rounds =
     (if remaining = [] then Some rounds
      else if \<exists>i \<in> set remaining. length item_groups \<le> i then None
      else (case pbc_fill_round (map (\<lambda>i. item_groups ! i) remaining) num_groups max_kicks num_hashes
                   [0..<length remaining] (replicate num_groups None) [] of
              None \<Rightarrow> None
            | Some (group_owner, placed_local) \<Rightarrow>
                (case round_entries remaining 0 group_owner of
                   None \<Rightarrow> None
                 | Some entries \<Rightarrow>
                     if entries = [] then Some rounds
                     else (let placed_orig = map (\<lambda>li. remaining ! li) placed_local in
                       pbc_plan_loop item_groups num_groups num_hashes max_kicks
                         (filter (\<lambda>idx. idx \<notin> set placed_orig) remaining) (rounds @ [entries])))))"
  by pat_completeness auto

termination
proof (relation "measure (\<lambda>(_, _, _, _, remaining, _). length remaining)", simp, clarsimp)
  fix item_groups :: "nat list list" and ng nh mk remaining owner placed entries
  assume "pbc_fill_round (map ((!) item_groups) remaining) ng mk nh [0..<length remaining]
      (replicate ng None) [] = Some (owner, placed)"
    and e: "round_entries remaining 0 owner = Some entries" "entries \<noteq> []"
  from fill_round_no_progress [OF this(1), of "{0..<length remaining}"]
  have p: "set placed \<subseteq> {0..<length remaining}" "placed = [] \<longrightarrow> set owner \<subseteq> {None}"
    by (auto simp: set_replicate_conv_if split: if_splits)
  then have "placed \<noteq> []" using e round_entries_all_free [of owner remaining 0] by auto
  then obtain li where "li \<in> set placed" by (cases placed) auto
  with p(1) have "remaining ! li \<in> set remaining" "remaining ! li \<in> (!) remaining ` set placed" by auto
  then show "length (filter (\<lambda>idx. idx \<notin> (!) remaining ` set placed) remaining) < length remaining"
    using length_filter_less [of "remaining ! li" remaining "\<lambda>idx. idx \<notin> (!) remaining ` set placed"] by simp
qed

definition pbc_plan_rounds ::
  "nat list list \<Rightarrow> nat \<Rightarrow> nat \<Rightarrow> nat \<Rightarrow> (nat \<times> nat) list list option" where
  "pbc_plan_rounds item_groups num_groups num_hashes max_kicks =
     pbc_plan_loop item_groups num_groups num_hashes max_kicks [0..<length item_groups] []"

section \<open>The placement invariant\<close>

text \<open>
  What the callers supply: every item has exactly \<open>num_hashes\<close> candidates, all of them groups. The
  group derivations of the hash component return such lists.
\<close>

definition candidates_ok :: "nat list list \<Rightarrow> nat \<Rightarrow> nat \<Rightarrow> bool" where
  "candidates_ok cands num_groups num_hashes \<longleftrightarrow> 0 < num_hashes \<and>
     (\<forall>cs \<in> set cands. length cs = num_hashes \<and> (\<forall>c \<in> set cs. c < num_groups))"

definition owners_ok :: "nat list list \<Rightarrow> nat \<Rightarrow> nat option list \<Rightarrow> bool" where
  "owners_ok cands num_groups groups \<longleftrightarrow> length groups = num_groups \<and>
     (\<forall>g < num_groups. \<forall>q. groups ! g = Some q \<longrightarrow> q < length cands \<and> g \<in> set (cands ! q))"

text \<open>The outcome of a placement: on success item \<open>x\<close> takes the place of one empty group.\<close>

definition place_outcome ::
  "nat list list \<Rightarrow> nat \<Rightarrow> nat option list \<Rightarrow> nat \<Rightarrow> bool \<times> nat option list \<Rightarrow> bool" where
  "place_outcome cands num_groups groups x r \<longleftrightarrow> owners_ok cands num_groups (snd r) \<and>
     (fst r \<longrightarrow> add_mset None (mset (snd r)) = add_mset (Some x) (mset groups))"

lemma owners_ok_length: "owners_ok cands ng groups \<Longrightarrow> length groups = ng"
  by (simp add: owners_ok_def)

lemma owners_ok_update:
  "owners_ok cands ng groups \<Longrightarrow> g < ng \<Longrightarrow> q < length cands \<Longrightarrow> g \<in> set (cands ! q) \<Longrightarrow>
   owners_ok cands ng (groups[g := Some q])"
  by (auto simp: owners_ok_def nth_list_update)

lemma first_free_cases:
  assumes "\<forall>c \<in> set cs. c < length groups"
  shows "(\<exists>c \<in> set cs. first_free groups cs = Some (Some c) \<and> groups ! c = None) \<or>
    first_free groups cs = Some None \<and> (\<forall>c \<in> set cs. groups ! c \<noteq> None)"
  using assms by (induction cs) auto

lemma free_alternative_cases:
  assumes "length ev = nh" and "0 < nh" and "\<forall>c \<in> set ev. c < length groups"
  shows "(\<exists>c \<in> set ev. free_alternative groups ev cur kick nh os = Some (Some c) \<and> groups ! c = None) \<or>
    free_alternative groups ev cur kick nh os = Some None \<and>
      (\<forall>off \<in> set os. ev ! ((kick + off) mod nh) = cur \<or> groups ! (ev ! ((kick + off) mod nh)) \<noteq> None)"
proof (induction os)
  case (Cons off os)
  have "(kick + off) mod nh < length ev" using assms(1,2) by simp
  moreover from this have "ev ! ((kick + off) mod nh) \<in> set ev" by simp
  moreover from this have "ev ! ((kick + off) mod nh) < length groups" using assms(3) by blast
  ultimately show ?case using Cons by (auto simp: Let_def not_le)
qed simp

lemma next_alternative_cases:
  assumes "length ev = nh" and "0 < nh"
  shows "(\<exists>off \<in> set os. ev ! ((kick + off) mod nh) \<noteq> cur \<and>
      next_alternative ev cur kick nh os d = Some (ev ! ((kick + off) mod nh))) \<or>
    next_alternative ev cur kick nh os d = Some d \<and> (\<forall>off \<in> set os. ev ! ((kick + off) mod nh) = cur)"
  using assms by (induction os) (auto simp: Let_def not_le)

text \<open>The rotated offsets run through every position.\<close>

lemma rotation_covers:
  assumes "i < nh"
  shows "\<exists>off < nh. (kick + off) mod nh = (i :: nat)"
proof -
  let ?off = "(i + (nh - kick mod nh)) mod nh"
  have "kick mod nh < nh" using assms by simp
  then have "kick mod nh + (i + (nh - kick mod nh)) = i + nh" by linarith
  then have "(kick mod nh + (i + (nh - kick mod nh))) mod nh = i" using assms by simp
  then have "(kick + ?off) mod nh = i" by (simp add: mod_simps)
  then show ?thesis using assms by (intro exI [of _ ?off]) simp
qed

lemma next_alternative_occupied:
  assumes ev: "length ev = nh" "0 < nh" and free: "\<forall>off < nh. ev ! ((kick + off) mod nh) = cur \<or>
      groups ! (ev ! ((kick + off) mod nh)) \<noteq> None" and cur: "groups ! cur \<noteq> None"
  shows "\<exists>g \<in> set ev. next_alternative ev cur kick nh [0..<nh] (ev ! 0) = Some g \<and> groups ! g \<noteq> None"
  using next_alternative_cases [OF ev, of "[0..<nh]" kick cur "ev ! 0"]
proof (elim disjE bexE conjE)
  fix off assume "off \<in> set [0..<nh]" "ev ! ((kick + off) mod nh) \<noteq> cur"
    "next_alternative ev cur kick nh [0..<nh] (ev ! 0) = Some (ev ! ((kick + off) mod nh))"
  then show ?thesis using free ev by (intro bexI [of _ "ev ! ((kick + off) mod nh)"]) auto
next
  assume d: "next_alternative ev cur kick nh [0..<nh] (ev ! 0) = Some (ev ! 0)"
    and all: "\<forall>off \<in> set [0..<nh]. ev ! ((kick + off) mod nh) = cur"
  obtain off where "off < nh" "(kick + off) mod nh = 0" using rotation_covers [OF ev(2), of kick] by auto
  then have "ev ! 0 = cur" using all [rule_format, of off] by simp
  then show ?thesis using d cur ev by (intro bexI [of _ "ev ! 0"]) auto
qed

lemma pbc_evict_outcome:
  assumes cands: "candidates_ok cands ng nh"
  shows "owners_ok cands ng groups \<Longrightarrow> x < length cands \<Longrightarrow> g \<in> set (cands ! x) \<Longrightarrow> groups ! g \<noteq> None \<Longrightarrow>
    \<exists>r. pbc_evict cands nh groups x g kicks = Some r \<and> place_outcome cands ng groups x r"
proof (induction kicks arbitrary: groups x g)
  case Nil
  then show ?case by (simp add: place_outcome_def)
next
  case (Cons kick kicks)
  have g: "g < length groups" using cands Cons.prems by (auto simp: candidates_ok_def owners_ok_def)
  obtain e where e: "groups ! g = Some e" using Cons.prems(4) by auto
  then have e_ok: "e < length cands" using Cons.prems(1) g by (simp add: owners_ok_def)
  let ?gs = "groups[g := Some x]"
  have ok: "owners_ok cands ng ?gs" using Cons.prems g by (simp add: owners_ok_update owners_ok_length)
  have swap: "add_mset (Some e) (mset ?gs) = add_mset (Some x) (mset groups)"
    using mset_replace [OF g, of "Some x"] e by simp
  have ev: "length (cands ! e) = nh" "0 < nh" "\<forall>c \<in> set (cands ! e). c < length ?gs"
    using cands e_ok owners_ok_length [OF ok] by (auto simp: candidates_ok_def)
  show ?case using free_alternative_cases [OF ev, of g kick "[0..<nh]"]
  proof (elim disjE bexE conjE)
    fix c assume c: "c \<in> set (cands ! e)" "?gs ! c = None"
      and fa: "free_alternative ?gs (cands ! e) g kick nh [0..<nh] = Some (Some c)"
    have len: "c < length ?gs" using c(1) ev(3) by blast
    from mset_replace [OF this, of "Some e"] c(2) swap
    have "add_mset None (mset (?gs[c := Some e])) = add_mset (Some x) (mset groups)" by simp
    moreover have "owners_ok cands ng (?gs[c := Some e])"
      using len owners_ok_length [OF ok] by (intro owners_ok_update [OF ok _ e_ok c(1)]) simp
    ultimately show ?thesis using g e e_ok fa by (simp add: place_outcome_def)
  next
    assume fa: "free_alternative ?gs (cands ! e) g kick nh [0..<nh] = Some None"
      and full: "\<forall>off \<in> set [0..<nh]. cands ! e ! ((kick + off) mod nh) = g \<or>
        ?gs ! (cands ! e ! ((kick + off) mod nh)) \<noteq> None"
    then obtain g' where g': "g' \<in> set (cands ! e)" "?gs ! g' \<noteq> None"
      "next_alternative (cands ! e) g kick nh [0..<nh] (cands ! e ! 0) = Some g'"
      using next_alternative_occupied [OF ev(1,2), of kick g ?gs] g by auto
    have "cands ! e \<noteq> []" using ev(1,2) by auto
    with Cons.IH [OF ok e_ok g'(1,2)] show ?thesis
      using g e e_ok fa g'(3) swap by (auto simp: place_outcome_def)
  qed
qed

lemma pbc_cuckoo_place_outcome:
  assumes cands: "candidates_ok cands ng nh" and ok: "owners_ok cands ng groups" and x: "x < length cands"
  shows "\<exists>r. pbc_cuckoo_place cands groups x mk nh = Some r \<and> place_outcome cands ng groups x r"
proof -
  have cs: "\<forall>c \<in> set (cands ! x). c < length groups" and ne: "cands ! x \<noteq> []"
    using cands x owners_ok_length [OF ok] by (auto simp: candidates_ok_def dest!: nth_mem)
  show ?thesis using first_free_cases [OF cs]
  proof (elim disjE bexE conjE)
    fix c assume c: "c \<in> set (cands ! x)" "groups ! c = None" "first_free groups (cands ! x) = Some (Some c)"
    moreover have "owners_ok cands ng (groups[c := Some x])"
      using ok c(1) cs x owners_ok_length [OF ok] by (intro owners_ok_update) auto
    ultimately show ?thesis
      using x cs mset_replace [of c groups "Some x"] by (simp add: pbc_cuckoo_place_def place_outcome_def)
  next
    assume "first_free groups (cands ! x) = Some None" "\<forall>c \<in> set (cands ! x). groups ! c \<noteq> None"
    then show ?thesis
      using pbc_evict_outcome [OF cands ok x, of "cands ! x ! 0" "[0..<mk]"] x ne
      by (simp add: pbc_cuckoo_place_def)
  qed
qed

section \<open>One round\<close>

definition round_holds :: "nat \<Rightarrow> nat option list \<Rightarrow> nat list \<Rightarrow> bool" where
  "round_holds num_groups owner placed \<longleftrightarrow> length placed \<le> num_groups \<and>
     mset owner = mset (map Some placed) + replicate_mset (num_groups - length placed) None"

lemma round_holds_push:
  assumes "round_holds ng owner placed" and "length placed < ng"
    and "add_mset None (mset owner') = add_mset (Some x) (mset owner)"
  shows "round_holds ng owner' (placed @ [x])"
proof -
  have "ng - length placed = Suc (ng - length (placed @ [x]))" using assms(2) by simp
  then have "add_mset None (mset owner') =
      add_mset None (mset (map Some (placed @ [x])) + replicate_mset (ng - length (placed @ [x])) None)"
    using assms(1,3) by (simp add: round_holds_def)
  then show ?thesis using assms(2) by (simp add: round_holds_def)
qed

lemma pbc_fill_round_outcome:
  assumes cands: "candidates_ok cands ng nh"
  shows "owners_ok cands ng owner \<Longrightarrow> round_holds ng owner placed \<Longrightarrow> \<forall>li \<in> set lis. li < length cands \<Longrightarrow>
    \<exists>owner' more. pbc_fill_round cands ng mk nh lis owner placed = Some (owner', placed @ more) \<and>
      owners_ok cands ng owner' \<and> round_holds ng owner' (placed @ more) \<and> subseq more lis"
proof (induction lis arbitrary: owner placed)
  case (Cons li lis)
  show ?case
  proof (cases "ng \<le> length placed")
    case False
    obtain b owner' where r: "pbc_cuckoo_place cands owner li mk nh = Some (b, owner')"
      and out: "place_outcome cands ng owner li (b, owner')"
      using pbc_cuckoo_place_outcome [OF cands Cons.prems(1), of li mk] Cons.prems(3) by fastforce
    show ?thesis
    proof (cases b)
      case True
      then have "owners_ok cands ng owner'" "round_holds ng owner' (placed @ [li])"
        using out Cons.prems(2) False by (auto simp: place_outcome_def intro: round_holds_push)
      from Cons.IH [OF this] Cons.prems(3) obtain owner'' more where
        "pbc_fill_round cands ng mk nh lis owner' (placed @ [li]) = Some (owner'', placed @ [li] @ more)"
        "owners_ok cands ng owner''" "round_holds ng owner'' (placed @ [li] @ more)" "subseq more lis"
        by auto
      then show ?thesis using r True False by (intro exI [of _ owner''] exI [of _ "li # more"]) simp
    next
      case b: False
      from Cons.IH [OF Cons.prems(1,2)] Cons.prems(3) obtain owner'' more where
        "pbc_fill_round cands ng mk nh lis owner placed = Some (owner'', placed @ more)"
        "owners_ok cands ng owner''" "round_holds ng owner'' (placed @ more)" "subseq more lis"
        by auto
      then show ?thesis using r b False by (intro exI [of _ owner''] exI [of _ more]) (simp add: list_emb_Cons)
    qed
  qed (use Cons.prems in simp)
qed simp

lemma empty_round: "owners_ok cands ng (replicate ng None)" "round_holds ng (replicate ng None) []"
  by (simp_all add: owners_ok_def round_holds_def)

lemma subseq_keeps: "subseq xs ys \<Longrightarrow> distinct ys \<Longrightarrow> distinct xs \<and> set xs \<subseteq> set ys"
  by (metis distinct_nthsI set_nths_subset subseq_conv_nths)

text \<open>The first item of a round always finds its first candidate free.\<close>

lemma first_item_placed:
  assumes cands: "candidates_ok (cs # cands) ng nh"
  shows "\<exists>owner more. pbc_fill_round (cs # cands) ng mk nh [0..<Suc (length cands)] (replicate ng None) [] =
      Some (owner, 0 # more) \<and> owners_ok (cs # cands) ng owner \<and> round_holds ng owner (0 # more) \<and>
      distinct (0 # more) \<and> set (0 # more) \<subseteq> {0..<Suc (length cands)}"
proof -
  obtain c cs' where cs: "cs = c # cs'" "c < ng" using cands by (cases cs) (auto simp: candidates_ok_def)
  let ?owner = "(replicate ng None)[c := Some 0]"
  have place: "pbc_cuckoo_place (cs # cands) (replicate ng None) 0 mk nh = Some (True, ?owner)"
    using cs by (simp add: pbc_cuckoo_place_def)
  have "owners_ok (cs # cands) ng ?owner" using cs by (intro owners_ok_update empty_round) auto
  moreover have "round_holds ng ?owner ([] @ [0])"
    using cs mset_replace [of c "replicate ng None" "Some 0"] by (intro round_holds_push [OF empty_round(2)]) auto
  moreover define lis where "lis = [1..<Suc (length cands)]"
  then have upt: "[0..<Suc (length cands)] = 0 # lis"
    by (simp only: upt_conv_Cons [of 0 "Suc (length cands)"] zero_less_Suc One_nat_def)
  moreover have lis: "distinct lis" "0 \<notin> set lis" "set lis \<subseteq> {0..<Suc (length cands)}"
    by (auto simp: lis_def)
  ultimately obtain owner more where r:
    "pbc_fill_round (cs # cands) ng mk nh lis ?owner [0] = Some (owner, 0 # more)"
    "owners_ok (cs # cands) ng owner" "round_holds ng owner (0 # more)" "subseq more lis"
    using pbc_fill_round_outcome [OF cands, of ?owner "[0]" lis mk] by fastforce
  then have "distinct more" "set more \<subseteq> set lis"
    using lis subseq_keeps by auto
  with r place cs(2) upt lis show ?thesis by (intro exI [of _ owner] exI [of _ more]) auto
qed

section \<open>Round planning\<close>

lemma retained_rest:
  assumes "distinct placed" and "set placed \<subseteq> set remaining" and "distinct remaining"
  shows "mset placed + mset (filter (\<lambda>idx. idx \<notin> set placed) remaining) = mset remaining"
proof -
  have "mset (filter (\<lambda>idx. idx \<in> set placed) remaining) = mset placed"
    using assms by (intro set_eq_iff_mset_eq_distinct [THEN iffD1]) auto
  then show ?thesis by (metis mset_filter multiset_partition)
qed

lemma round_entries_eq:
  assumes "\<forall>q. Some q \<in> set owners \<longrightarrow> q < length remaining"
  shows "round_entries remaining g owners =
    Some (map (\<lambda>(h, q). (remaining ! the q, h)) (filter (\<lambda>(h, q). q \<noteq> None) (enumerate g owners)))"
  using assms
proof (induction owners arbitrary: g)
  case (Cons q owners)
  then show ?case by (cases q) auto
qed simp

lemma round_entries_items:
  assumes "round_entries remaining g owners = Some es"
  shows "mset (map fst es) = image_mset (\<lambda>q. remaining ! the q) (filter_mset (\<lambda>q. q \<noteq> None) (mset owners))"
  using assms
  by (induction remaining g owners arbitrary: es rule: round_entries.induct) (auto split: if_splits)

lemma round_entries_sorted:
  assumes "round_entries remaining g owners = Some es"
  shows "sorted_wrt (<) (map snd es) \<and> (\<forall>e \<in> set es. g \<le> snd e \<and> snd e < g + length owners \<and>
    (\<exists>q. owners ! (snd e - g) = Some q \<and> fst e = remaining ! q))"
  using assms
proof (induction remaining g owners arbitrary: es rule: round_entries.induct)
  case (2 remaining g owners)
  have n: "(None # owners) ! (h - g) = owners ! (h - Suc g)" if "Suc g \<le> h" for h
    using that by (simp add: nth_Cons')
  from 2 have "sorted_wrt (<) (map snd es) \<and> (\<forall>e \<in> set es. Suc g \<le> snd e \<and> snd e < Suc g + length owners \<and>
    (\<exists>q. owners ! (snd e - Suc g) = Some q \<and> fst e = remaining ! q))" by simp
  then show ?case using n by auto
next
  case (3 remaining g x owners)
  then obtain es' where e: "es = (remaining ! x, g) # es'" "x < length remaining"
    "round_entries remaining (Suc g) owners = Some es'" by (auto split: if_splits)
  have n: "(Some x # owners) ! (h - g) = owners ! (h - Suc g)" if "Suc g \<le> h" for h
    using that by (simp add: nth_Cons')
  from 3(1) e have "sorted_wrt (<) (map snd es') \<and> (\<forall>e \<in> set es'. Suc g \<le> snd e \<and> snd e < Suc g + length owners \<and>
    (\<exists>q. owners ! (snd e - Suc g) = Some q \<and> fst e = remaining ! q))" by simp
  then show ?case using n e(1) by (auto simp: Suc_le_eq)
qed simp

text \<open>What a round is to the caller: distinct groups, each serving one of its items.\<close>

definition round_ok :: "nat list list \<Rightarrow> nat \<Rightarrow> (nat \<times> nat) list \<Rightarrow> bool" where
  "round_ok item_groups num_groups es \<longleftrightarrow> es \<noteq> [] \<and> sorted_wrt (<) (map snd es) \<and>
     (\<forall>(i, g) \<in> set es. i < length item_groups \<and> g < num_groups \<and> g \<in> set (item_groups ! i))"

lemma round_holds_items:
  "round_holds ng owner placed \<Longrightarrow>
   image_mset (\<lambda>q. remaining ! the q) (filter_mset (\<lambda>q. q \<noteq> None) (mset owner)) = mset (map ((!) remaining) placed)"
  by (auto simp: round_holds_def filter_mset_image_mset image_mset.compositionality comp_def
      filter_mset_eq_conv)

lemma one_round:
  assumes items: "candidates_ok item_groups ng nh" and rem: "distinct remaining" "remaining \<noteq> []"
    "\<forall>i \<in> set remaining. i < length item_groups"
  obtains owner placed es where
    "pbc_fill_round (map (\<lambda>i. item_groups ! i) remaining) ng mk nh [0..<length remaining] (replicate ng None) [] =
       Some (owner, placed)"
    "round_entries remaining 0 owner = Some es" "round_ok item_groups ng es"
    "mset (map fst es) + mset (filter (\<lambda>idx. idx \<notin> set (map (\<lambda>li. remaining ! li) placed)) remaining) = mset remaining"
proof -
  obtain i rem' where r: "remaining = i # rem'" using rem(2) by (cases remaining) auto
  let ?cands = "map (\<lambda>i. item_groups ! i) remaining"
  have cands: "candidates_ok ?cands ng nh" using items rem(3) by (auto simp: candidates_ok_def)
  then obtain owner more where fill:
    "pbc_fill_round ?cands ng mk nh [0..<length remaining] (replicate ng None) [] = Some (owner, 0 # more)"
    "owners_ok ?cands ng owner" "round_holds ng owner (0 # more)" "distinct (0 # more)"
    "set (0 # more) \<subseteq> {0..<length remaining}"
    using first_item_placed [of "item_groups ! i" "map (\<lambda>i. item_groups ! i) rem'" ng nh mk] r by auto
  from fill(2) have ow: "q < length remaining \<and> g \<in> set (item_groups ! (remaining ! q))"
    if "g < ng" "owner ! g = Some q" for g q using that by (fastforce simp: owners_ok_def)
  have "\<forall>q. Some q \<in> set owner \<longrightarrow> q < length remaining"
    using ow owners_ok_length [OF fill(2)] by (metis in_set_conv_nth)
  then obtain es where es: "round_entries remaining 0 owner = Some es" by (simp add: round_entries_eq)
  have items_es: "mset (map fst es) = mset (map ((!) remaining) (0 # more))"
    using round_entries_items [OF es] round_holds_items [OF fill(3)] by simp
  then have "length es = length (0 # more)" by (metis length_map size_mset)
  then have ok: "round_ok item_groups ng es"
    using round_entries_sorted [OF es] ow rem(3) owners_ok_length [OF fill(2)]
    by (fastforce simp: round_ok_def)
  have "distinct (map ((!) remaining) (0 # more))"
    using fill(4,5) rem(1) by (intro distinct_map [THEN iffD2] conjI inj_on_nth) auto
  moreover have "set (map ((!) remaining) (0 # more)) \<subseteq> set remaining" using fill(5) by auto
  ultimately have "mset (map ((!) remaining) (0 # more)) +
      mset (filter (\<lambda>idx. idx \<notin> set (map ((!) remaining) (0 # more))) remaining) = mset remaining"
    using rem(1) by (intro retained_rest)
  with items_es show thesis using that [OF fill(1) es ok] by simp
qed

lemma pbc_plan_loop_correct:
  assumes items: "candidates_ok item_groups ng nh"
  shows "distinct remaining \<Longrightarrow> \<forall>i \<in> set remaining. i < length item_groups \<Longrightarrow>
    \<exists>new. pbc_plan_loop item_groups ng nh mk remaining rounds = Some (rounds @ new) \<and>
      mset (map fst (concat new)) = mset remaining \<and> (\<forall>es \<in> set new. round_ok item_groups ng es)"
proof (induction "length remaining" arbitrary: remaining rounds rule: less_induct)
  case less
  show ?case
  proof (cases "remaining = []")
    case False
    obtain owner placed es where r:
      "pbc_fill_round (map (\<lambda>i. item_groups ! i) remaining) ng mk nh [0..<length remaining] (replicate ng None) [] =
         Some (owner, placed)"
      "round_entries remaining 0 owner = Some es" "round_ok item_groups ng es"
      "mset (map fst es) + mset (filter (\<lambda>idx. idx \<notin> set (map (\<lambda>li. remaining ! li) placed)) remaining) = mset remaining"
      by (rule one_round [OF items less.prems(1) False less.prems(2)])
    let ?rest = "filter (\<lambda>idx. idx \<notin> set (map (\<lambda>li. remaining ! li) placed)) remaining"
    have es: "es \<noteq> []" using r(3) by (simp add: round_ok_def)
    have "length es + length ?rest = length remaining"
      using arg_cong [OF r(4), of size] by (simp only: size_union size_mset length_map)
    then have "length ?rest < length remaining" using es by (metis add_cancel_left_left le_add2 length_0_conv nat_less_le)
    from less.hyps [OF this, of "rounds @ [es]"] less.prems obtain new where
      new: "pbc_plan_loop item_groups ng nh mk ?rest (rounds @ [es]) = Some ((rounds @ [es]) @ new)"
      "mset (map fst (concat new)) = mset ?rest" "\<forall>es \<in> set new. round_ok item_groups ng es"
      by auto
    have "pbc_plan_loop item_groups ng nh mk remaining rounds =
        pbc_plan_loop item_groups ng nh mk ?rest (rounds @ [es])"
      using r(1,2) less.prems(2) False es
      by (subst pbc_plan_loop.simps) (auto simp: Let_def simp del: pbc_plan_loop.simps dest: leD)
    moreover have "mset (map fst (concat (es # new))) = mset remaining"
      using r(4) new(2) by (simp only: concat.simps map_append mset_append)
    ultimately show ?thesis using new(1,3) r(3) by (intro exI [of _ "es # new"]) simp
  qed simp
qed

section \<open>Properties\<close>

text \<open>
  C7: Round planning never panics and always ends: for items with \<open>num_hashes\<close> candidates each, every
  item is served exactly once over all rounds, by one of its own candidate groups, and within a round
  no group serves two items.
\<close>

theorem pbc_plan_rounds_correct:
  assumes "candidates_ok item_groups num_groups num_hashes"
  shows "\<exists>rounds. pbc_plan_rounds item_groups num_groups num_hashes max_kicks = Some rounds \<and>
    mset (map fst (concat rounds)) = mset [0..<length item_groups] \<and>
    (\<forall>es \<in> set rounds. round_ok item_groups num_groups es)"
  using pbc_plan_loop_correct [OF assms, of "[0..<length item_groups]" max_kicks "[]"]
  by (simp add: pbc_plan_rounds_def)

text \<open>Three items that all compete for two groups need two rounds.\<close>

theorem pbc_plan_rounds_correct_witness:
  "pbc_plan_rounds [[0, 1], [0, 1], [1, 0]] 2 2 5 = Some [[(0, 0), (1, 1)], [(2, 1)]] \<and>
   round_ok [[0, 1], [0, 1], [1, 0]] 2 [(0, 0), (1, 1)] \<and> round_ok [[0, 1], [0, 1], [1, 0]] 2 [(2, 1)]"
proof -
  have "pbc_plan_rounds [[0, 1], [0, 1], [1, 0]] 2 2 5 = Some [[(0, 0), (1, 1)], [(2, 1)]]" by code_simp
  then show ?thesis using pbc_plan_rounds_correct [of "[[0, 1], [0, 1], [1, 0]]" 2 2 5]
    by (auto simp: candidates_ok_def)
qed

text \<open>
  C31: A placement that succeeds exchanges one empty group for the new item and moves the others only
  among their own candidate groups; the placement never panics.
\<close>

theorem pbc_cuckoo_place_correct:
  assumes "candidates_ok cand_groups num_groups num_hashes" and "owners_ok cand_groups num_groups groups"
    and "qi < length cand_groups"
  shows "\<exists>placed groups'. pbc_cuckoo_place cand_groups groups qi max_kicks num_hashes = Some (placed, groups') \<and>
    owners_ok cand_groups num_groups groups' \<and>
    (placed \<longrightarrow> add_mset None (mset groups') = add_mset (Some qi) (mset groups))"
  using pbc_cuckoo_place_outcome [OF assms, of max_kicks] by (auto simp: place_outcome_def)

text \<open>The new item evicts item 0, which moves to its other candidate.\<close>

theorem pbc_cuckoo_place_correct_witness:
  "pbc_cuckoo_place [[0, 1], [0, 0]] [Some 0, None] 1 5 2 = Some (True, [Some 1, Some 0]) \<and>
   owners_ok [[0, 1], [0, 0]] 2 [Some 1, Some 0]"
proof -
  have "pbc_cuckoo_place [[0, 1], [0, 0]] [Some 0, None] 1 5 2 = Some (True, [Some 1, Some 0])" by code_simp
  moreover have "owners_ok [[0, 1], [0, 0]] 2 [Some 0, None]"
    by (simp add: owners_ok_def less_2_cases_iff)
  ultimately show ?thesis
    using pbc_cuckoo_place_correct [of "[[0, 1], [0, 0]]" 2 2 "[Some 0, None]" 1 5] by (simp add: candidates_ok_def)
qed

end
