(* ===== verification/Sdk_Types.thy ===== *)
theory Sdk_Types
  imports Cuckoo_Header
begin

text \<open>
  The shared types of the SDK, \<open>crates/sdk/core/src/types.rs\<close>: UTXO entries, the database catalog with
  its chain anchors and table parameters, and query results. Record fields carry a prefix; the fields
  and their order are those of the structs. The SHA-256 of the \<open>sha2\<close> crate is the argument \<open>H\<close>.
\<close>

section \<open>Definitions\<close>

record sdk_utxo_entry =
  ux_txid :: bytes
  ux_vout :: u32
  ux_amount_sats :: u64

record bucket_ref =
  br_pbc_group :: u32
  br_bin_index :: u32
  br_bin_content :: bytes

definition outpoint :: "sdk_utxo_entry \<Rightarrow> bytes" where
  "outpoint e = ux_txid e @ u32_to_le (ux_vout e)"

datatype database_kind = Full | Delta u32

fun kind_is_full :: "database_kind \<Rightarrow> bool" where
  "kind_is_full Full = True"
| "kind_is_full (Delta base_height) = False"

fun kind_is_delta :: "database_kind \<Rightarrow> bool" where
  "kind_is_delta Full = False"
| "kind_is_delta (Delta base_height) = True"

fun kind_base_height :: "database_kind \<Rightarrow> u32" where
  "kind_base_height Full = 0"
| "kind_base_height (Delta base_height) = base_height"

record database_info =
  di_db_id :: u8
  di_kind :: database_kind
  di_name :: string
  di_height :: u32
  di_index_bins :: u32
  di_chunk_bins :: u32
  di_index_k :: u8
  di_chunk_k :: u8
  di_tag_seed :: u64
  di_dpf_n_index :: u8
  di_dpf_n_chunk :: u8
  di_has_bucket_merkle :: bool
  di_index_master_seed :: u64
  di_chunk_master_seed :: u64
  di_anchor_kind :: u8
  di_anchor_bytes :: bytes

definition db_base_height :: "database_info \<Rightarrow> u32" where
  "db_base_height db = kind_base_height (di_kind db)"

text \<open>\<open>Result::ok\<close>.\<close>

definition ok :: "('e, 'a) result \<Rightarrow> 'a option" where
  "ok r = (case r of Inl e \<Rightarrow> None | Inr x \<Rightarrow> Some x)"

definition db_chain_anchor :: "database_info \<Rightarrow> header_anchor option" where
  "db_chain_anchor db =
     (if di_anchor_kind db = 1 then map_option Header_Snapshot (ok (chain_anchor_from_bytes (di_anchor_bytes db)))
      else if di_anchor_kind db = 2 then map_option Header_Delta (ok (delta_anchor_from_bytes (di_anchor_bytes db)))
      else None)"

definition db_verify_anchor_seeds :: "(bytes \<Rightarrow> bytes) \<Rightarrow> database_info \<Rightarrow> (seed_check_error, unit) result" where
  "db_verify_anchor_seeds H db =
     (case db_chain_anchor db of
        None \<Rightarrow> Inr ()
      | Some anchor \<Rightarrow>
          (let index_hdr = \<lparr>ch_bins_per_table = unat (di_index_bins db), ch_master_seed = di_index_master_seed db,
                 ch_tag_seed = di_tag_seed db, ch_anchor = Some anchor, ch_header_size = 0\<rparr>;
               chunk_hdr = \<lparr>ch_bins_per_table = unat (di_chunk_bins db), ch_master_seed = di_chunk_master_seed db,
                 ch_tag_seed = 0, ch_anchor = Some anchor, ch_header_size = 0\<rparr>
           in rbind (verify_anchor_seeds H index_hdr INDEX_CUCKOO_MASTER (Some INDEX_TAG_FINGERPRINT)) (\<lambda>_.
              rbind (verify_anchor_seeds H chunk_hdr CHUNK_CUCKOO_MASTER None) (\<lambda>_. Inr ()))))"

definition hex_digit :: "nat \<Rightarrow> char" where
  "hex_digit n = (if n < 10 then char_of (48 + n) else char_of (87 + n))"

definition hex_byte :: "u8 \<Rightarrow> string" where
  "hex_byte b = [hex_digit (unat b div 16), hex_digit (unat b mod 16)]"

definition anchor_display :: "database_info \<Rightarrow> (string \<times> u32) option" where
  "anchor_display db =
     map_option (\<lambda>a. let tip = (case a of Header_Snapshot s \<Rightarrow> s | Header_Delta d \<Rightarrow> anchor_to d)
                     in (concat (map hex_byte (block_hash tip)), block_height tip))
       (db_chain_anchor db)"

definition index_params :: "database_info \<Rightarrow> table_params" where
  "index_params db =
     \<lparr>tp_k = unat (di_index_k db), tp_num_hashes = 3, tp_master_seed = di_index_master_seed db,
      tp_slots_per_bin = 4, tp_cuckoo_num_hashes = 2, tp_slot_size = INDEX_SLOT_SIZE,
      tp_dpf_n = di_dpf_n_index db, tp_magic = tp_magic INDEX_PARAMS,
      tp_header_size = tp_header_size INDEX_PARAMS, tp_has_tag_seed = True\<rparr>"

definition chunk_params :: "database_info \<Rightarrow> table_params" where
  "chunk_params db =
     \<lparr>tp_k = unat (di_chunk_k db), tp_num_hashes = 3, tp_master_seed = di_chunk_master_seed db,
      tp_slots_per_bin = 3, tp_cuckoo_num_hashes = 2, tp_slot_size = CHUNK_SLOT_SIZE,
      tp_dpf_n = di_dpf_n_chunk db, tp_magic = tp_magic CHUNK_PARAMS,
      tp_header_size = tp_header_size CHUNK_PARAMS, tp_has_tag_seed = False\<rparr>"

text \<open>A catalog is its list of databases.\<close>

type_synonym database_catalog = "database_info list"

definition catalog_get :: "database_catalog \<Rightarrow> u8 \<Rightarrow> database_info option" where
  "catalog_get cat db_id = find (\<lambda>db. di_db_id db = db_id) cat"

definition full_snapshots :: "database_catalog \<Rightarrow> database_info list" where
  "full_snapshots cat = filter (\<lambda>db. kind_is_full (di_kind db)) cat"

definition catalog_deltas :: "database_catalog \<Rightarrow> database_info list" where
  "catalog_deltas cat = filter (\<lambda>db. kind_is_delta (di_kind db)) cat"

text \<open>\<open>max_by_key\<close> keeps the last of several maximal elements.\<close>

fun max_by_height :: "database_info list \<Rightarrow> database_info option" where
  "max_by_height [] = None"
| "max_by_height (db # dbs) =
     (case max_by_height dbs of
        None \<Rightarrow> Some db
      | Some m \<Rightarrow> if di_height db \<le> di_height m then Some m else Some db)"

definition best_full_snapshot :: "database_catalog \<Rightarrow> database_info option" where
  "best_full_snapshot cat = max_by_height (full_snapshots cat)"

definition latest_tip :: "database_catalog \<Rightarrow> u32 option" where
  "latest_tip cat = map_option di_height (max_by_height cat)"

definition deltas_from :: "database_catalog \<Rightarrow> u32 \<Rightarrow> database_info list" where
  "deltas_from cat base_height = filter (\<lambda>db. db_base_height db = base_height) cat"

record query_result =
  qr_entries :: "sdk_utxo_entry list"
  qr_is_whale :: bool
  qr_merkle_verified :: bool
  qr_raw_chunk_data :: "bytes option"
  qr_index_bins :: "bucket_ref list"
  qr_chunk_bins :: "bucket_ref list"
  qr_matched_index_idx :: "nat option"

definition empty_result :: query_result where
  "empty_result =
     \<lparr>qr_entries = [], qr_is_whale = False, qr_merkle_verified = False, qr_raw_chunk_data = None,
      qr_index_bins = [], qr_chunk_bins = [], qr_matched_index_idx = None\<rparr>"

definition with_entries :: "sdk_utxo_entry list \<Rightarrow> query_result" where
  "with_entries entries = empty_result\<lparr>qr_entries := entries\<rparr>"

definition merkle_failed :: query_result where
  "merkle_failed = empty_result"

text \<open>The sum of \<open>u64\<close> amounts wraps in a release build.\<close>

section \<open>Catalog queries\<close>

lemma max_by_height_None [simp]: "max_by_height dbs = None \<longleftrightarrow> dbs = []"
  by (cases dbs) (auto split: option.splits)

lemma max_by_height_max:
  "max_by_height dbs = Some m \<Longrightarrow> m \<in> set dbs \<and> (\<forall>db \<in> set dbs. di_height db \<le> di_height m)"
proof (induction dbs arbitrary: m)
  case (Cons db dbs)
  show ?case
  proof (cases "max_by_height dbs")
    case (Some m')
    with Cons.IH [OF Some] Cons.prems show ?thesis
      by (auto split: if_splits dest: order.trans [OF _ less_imp_le])
  qed (use Cons.prems in auto)
qed simp

lemma kind_cases: "kind_is_full kd \<longleftrightarrow> \<not> kind_is_delta kd"
  by (cases kd) auto

end
