(* ===== verification/Sync.thy ===== *)
theory Sync
  imports Sdk_Types Pir_Error Codec
begin

text \<open>
  Sync planning and delta merging, \<open>crates/sdk/core/src/sync.rs\<close>: the breadth-first search for a
  shortest chain of deltas, the plan built from it, the decoder of delta records and the merge of a
  delta batch into snapshot results. Error messages keep their constructor; their text is shortened
  to the constant part.
\<close>

section \<open>Definitions\<close>

definition MAX_DELTA_CHAIN_LENGTH :: nat where "MAX_DELTA_CHAIN_LENGTH = 5"

record sync_step =
  ss_db_id :: u8
  ss_kind :: database_kind
  ss_name :: string
  ss_base_height :: u32
  ss_tip_height :: u32

definition from_db_info :: "database_info \<Rightarrow> sync_step" where
  "from_db_info db =
     \<lparr>ss_db_id = di_db_id db, ss_kind = di_kind db, ss_name = di_name db,
      ss_base_height = db_base_height db, ss_tip_height = di_height db\<rparr>"

record sync_plan =
  sp_steps :: "sync_step list"
  sp_is_fresh_sync :: bool
  sp_target_height :: u32

definition empty_plan :: "u32 \<Rightarrow> sync_plan" where
  "empty_plan current_height = \<lparr>sp_steps = [], sp_is_fresh_sync = False, sp_target_height = current_height\<rparr>"

definition require_fresh_sync :: "u32 option \<Rightarrow> unit pir_result" where
  "require_fresh_sync last_height =
     (case last_height of
        Some height \<Rightarrow> if height > 0 then Inl (InvalidState ''sync() keeps no previous results'') else Inr ()
      | None \<Rightarrow> Inr ())"

definition require_sync_base :: "sync_plan \<Rightarrow> nat \<Rightarrow> query_result option list option \<Rightarrow> unit pir_result" where
  "require_sync_base plan num_script_hashes base =
     (case base of
        Some b \<Rightarrow> if length b \<noteq> num_script_hashes then Inl (InvalidState ''sync base has wrong length'') else Inr ()
      | None \<Rightarrow> if \<not> sp_is_fresh_sync plan then Inl (InvalidState ''this sync plan only applies changes'') else Inr ())"

text \<open>\<open>by_base\<close>: the deltas of the catalog that start at a height, in catalog order.\<close>

definition by_base :: "database_info list \<Rightarrow> u32 \<Rightarrow> database_info list" where
  "by_base deltas height = filter (\<lambda>db. db_base_height db = height) deltas"

text \<open>
  The loop over the deltas of one queue entry: \<open>Inl\<close> is the early return of a complete chain, \<open>Inr\<close>
  the extended set of visited heights and queue.
\<close>

type_synonym bfs_queue = "(u32 \<times> database_info list) list"

fun expand_deltas ::
  "u32 \<Rightarrow> database_info list \<Rightarrow> database_info list \<Rightarrow> u32 list \<Rightarrow> bfs_queue \<Rightarrow>
     database_info list + u32 list \<times> bfs_queue" where
  "expand_deltas end path [] visited queue = Inr (visited, queue)"
| "expand_deltas end path (delta # deltas) visited queue =
     (if di_height delta \<in> set visited then expand_deltas end path deltas visited queue
      else if end \<le> di_height delta then Inl (path @ [delta])
      else expand_deltas end path deltas (di_height delta # visited) (queue @ [(di_height delta, path @ [delta])]))"

lemma expand_deltas_measure:
  assumes "expand_deltas end path ds visited queue = Inr (visited', queue')" and "set (map di_height ds) \<subseteq> D"
    and "finite D"
  shows "length queue' + card (D - set visited') = length queue + card (D - set visited)"
  using assms
proof (induction "end" path ds visited queue rule: expand_deltas.induct)
  case (2 "end" path delta deltas visited queue)
  show ?case
  proof (cases "di_height delta \<in> set visited")
    case False
    have "D - set (di_height delta # visited) = (D - set visited) - {di_height delta}" by auto
    moreover have "di_height delta \<in> D - set visited" using False 2(4) by auto
    ultimately have "Suc (card (D - set (di_height delta # visited))) = card (D - set visited)"
      using 2(5) by (metis card.remove finite_Diff)
    then show ?thesis using 2(2,3,4,5) False by (auto split: if_splits)
  qed (use 2 in auto)
qed simp

function bfs_loop ::
  "database_info list \<Rightarrow> u32 \<Rightarrow> bfs_queue \<Rightarrow> u32 list \<Rightarrow> database_info list option" where
  "bfs_loop deltas end [] visited = None"
| "bfs_loop deltas end ((height, path) # queue) visited =
     (if MAX_DELTA_CHAIN_LENGTH \<le> length path then bfs_loop deltas end queue visited
      else (case expand_deltas end path (by_base deltas height) visited queue of
              Inl chain \<Rightarrow> Some chain
            | Inr (visited', queue') \<Rightarrow> bfs_loop deltas end queue' visited'))"
  by pat_completeness auto

termination
proof (relation "measure (\<lambda>(deltas, end, queue, visited).
    length queue + card (set (map di_height deltas) - set visited))", goal_cases)
  case (3 deltas "end" height path queue visited p v' q')
  from expand_deltas_measure [of "end" path "by_base deltas height" visited queue v' q' "set (map di_height deltas)"] 3
  show ?case by (fastforce simp: by_base_def)
qed simp_all

definition find_delta_chain :: "database_info list \<Rightarrow> u32 \<Rightarrow> u32 \<Rightarrow> database_info list option" where
  "find_delta_chain deltas start end =
     (if end \<le> start then Some [] else bfs_loop deltas end [(start, [])] [start])"

text \<open>The tail of \<open>compute_sync_plan\<close>: the best full snapshot plus a chain from it to the tip.\<close>

definition fresh_plan :: "database_catalog \<Rightarrow> u32 \<Rightarrow> sync_plan pir_result" where
  "fresh_plan cat tip =
     rbind (ok_or (NoSyncPath ''no full snapshot available'') (best_full_snapshot cat)) (\<lambda>best_full.
       let steps = from_db_info best_full #
             (case find_delta_chain (catalog_deltas cat) (di_height best_full) tip of
                Some chain \<Rightarrow> map from_db_info chain
              | None \<Rightarrow> [])
       in Inr \<lparr>sp_steps = steps, sp_is_fresh_sync = True,
               sp_target_height = ss_tip_height (steps ! (length steps - 1))\<rparr>)"

definition compute_sync_plan :: "database_catalog \<Rightarrow> u32 option \<Rightarrow> sync_plan pir_result" where
  "compute_sync_plan cat last_height =
     rbind (ok_or (InvalidCatalog ''empty catalog'') (latest_tip cat)) (\<lambda>tip.
     let last = (case last_height of Some h \<Rightarrow> h | None \<Rightarrow> 0)
     in if last > 0 \<and> tip \<le> last then Inr (empty_plan last)
        else if last > 0 then
          (case find_delta_chain (catalog_deltas cat) last tip of
             Some chain \<Rightarrow> Inr \<lparr>sp_steps = map from_db_info chain, sp_is_fresh_sync = False, sp_target_height = tip\<rparr>
           | None \<Rightarrow> fresh_plan cat tip)
        else fresh_plan cat tip)"

text \<open>Delta records: the spent outpoints and the new entries of one script hash.\<close>

record delta_data =
  dd_spent :: "bytes list"
  dd_new_utxos :: "sdk_utxo_entry list"

definition sync_read_varint :: "bytes \<Rightarrow> (u64 \<times> nat) pir_result" where
  "sync_read_varint buf = map_err (\<lambda>e. Decode ''varint'') (try_read_varint buf)"

fun decode_spent :: "bytes \<Rightarrow> nat \<Rightarrow> nat \<Rightarrow> (bytes list \<times> nat) pir_result" where
  "decode_spent raw 0 pos = Inr ([], pos)"
| "decode_spent raw (Suc n) pos =
     (if length raw < pos + 32 then Inl (Decode ''truncated spent txid'')
      else rbind (sync_read_varint (drop (pos + 32) raw)) (\<lambda>(v, consumed).
        if 0xFFFFFFFF < v then Inl (Decode ''spent vout exceeds u32'')
        else rbind (decode_spent raw n (pos + 32 + consumed)) (\<lambda>(spent, pos').
          Inr ((slice raw pos 32 @ u32_to_le (ucast v)) # spent, pos'))))"

fun decode_new :: "bytes \<Rightarrow> nat \<Rightarrow> nat \<Rightarrow> (sdk_utxo_entry list \<times> nat) pir_result" where
  "decode_new raw 0 pos = Inr ([], pos)"
| "decode_new raw (Suc n) pos =
     (if length raw < pos + 32 then Inl (Decode ''truncated new UTXO txid'')
      else rbind (sync_read_varint (drop (pos + 32) raw)) (\<lambda>(v, consumed).
        if 0xFFFFFFFF < v then Inl (Decode ''new UTXO vout exceeds u32'')
        else rbind (sync_read_varint (drop (pos + 32 + consumed) raw)) (\<lambda>(amt, consumed').
          rbind (decode_new raw n (pos + 32 + consumed + consumed')) (\<lambda>(new, pos').
            Inr (\<lparr>ux_txid = slice raw pos 32, ux_vout = ucast v, ux_amount_sats = amt\<rparr> # new, pos')))))"

definition decode_delta_data :: "bytes \<Rightarrow> delta_data pir_result" where
  "decode_delta_data raw =
     rbind (sync_read_varint raw) (\<lambda>(num_spent, pos).
     rbind (decode_spent raw (unat num_spent) pos) (\<lambda>(spent, pos).
     rbind (sync_read_varint (drop pos raw)) (\<lambda>(num_new, consumed).
     rbind (decode_new raw (unat num_new) (pos + consumed)) (\<lambda>(new, pos).
       Inr \<lparr>dd_spent = spent, dd_new_utxos = new\<rparr>))))"

definition apply_delta_data :: "sdk_utxo_entry list \<Rightarrow> delta_data \<Rightarrow> sdk_utxo_entry list" where
  "apply_delta_data entries delta =
     filter (\<lambda>e. outpoint e \<notin> set (dd_spent delta)) entries @ dd_new_utxos delta"

definition merge_delta :: "query_result \<Rightarrow> bytes \<Rightarrow> query_result pir_result" where
  "merge_delta snapshot delta_raw =
     (if qr_is_whale snapshot \<or> delta_raw = [] then Inr snapshot
      else rbind (decode_delta_data delta_raw) (\<lambda>delta.
        Inr \<lparr>qr_entries = apply_delta_data (qr_entries snapshot) delta, qr_is_whale = qr_is_whale snapshot,
             qr_merkle_verified = qr_merkle_verified snapshot, qr_raw_chunk_data = None,
             qr_index_bins = [], qr_chunk_bins = [], qr_matched_index_idx = None\<rparr>))"

definition delta_whale :: "bool \<Rightarrow> query_result" where
  "delta_whale verified = empty_result\<lparr>qr_is_whale := True, qr_merkle_verified := verified\<rparr>"

text \<open>One script hash of \<open>merge_delta_batch\<close>, the arms of the match in their order.\<close>

definition merge_one :: "query_result option \<Rightarrow> query_result option \<Rightarrow> query_result option pir_result" where
  "merge_one snapshot delta =
     (case (snapshot, delta) of
        (Some snap, Some del) \<Rightarrow>
          if qr_is_whale del \<and> \<not> qr_is_whale snap
          then Inr (Some (delta_whale (qr_merkle_verified snap \<and> qr_merkle_verified del)))
          else (let verified = qr_merkle_verified snap \<and> qr_merkle_verified del
                in case qr_raw_chunk_data del of
                     Some raw \<Rightarrow> rbind (merge_delta snap raw) (\<lambda>m. Inr (Some (m\<lparr>qr_merkle_verified := verified\<rparr>)))
                   | None \<Rightarrow> Inr (Some (snap\<lparr>qr_merkle_verified := verified\<rparr>)))
      | (None, Some del) \<Rightarrow>
          if qr_is_whale del then Inr (Some (delta_whale (qr_merkle_verified del)))
          else (case qr_raw_chunk_data del of
                  Some raw \<Rightarrow> rbind (decode_delta_data raw) (\<lambda>delta_data.
                    Inr (Some (empty_result\<lparr>qr_entries := dd_new_utxos delta_data,
                                            qr_merkle_verified := qr_merkle_verified del\<rparr>)))
                | None \<Rightarrow> Inr None)
      | (Some snap, None) \<Rightarrow> Inr (Some snap)
      | (None, None) \<Rightarrow> Inr None)"

fun merge_pairs :: "(query_result option \<times> query_result option) list \<Rightarrow> query_result option list pir_result" where
  "merge_pairs [] = Inr []"
| "merge_pairs ((snapshot, delta) # rest) =
     rbind (merge_one snapshot delta) (\<lambda>r. rbind (merge_pairs rest) (\<lambda>rs. Inr (r # rs)))"

definition merge_delta_batch ::
  "query_result option list \<Rightarrow> query_result option list \<Rightarrow> query_result option list pir_result" where
  "merge_delta_batch snapshots delta_results =
     (if length snapshots \<noteq> length delta_results then Inl (MergeError ''batch size mismatch'')
      else merge_pairs (zip snapshots delta_results))"

section \<open>The delta search finds a shortest chain\<close>

text \<open>The specification: a chain of catalog deltas from a height, and the height it leads to.\<close>

fun delta_path :: "database_info list \<Rightarrow> u32 \<Rightarrow> database_info list \<Rightarrow> bool" where
  "delta_path deltas height [] = True"
| "delta_path deltas height (d # ds) =
     (d \<in> set deltas \<and> db_base_height d = height \<and> delta_path deltas (di_height d) ds)"

fun path_end :: "u32 \<Rightarrow> database_info list \<Rightarrow> u32" where
  "path_end height [] = height"
| "path_end height (d # ds) = path_end (di_height d) ds"

lemma path_end_snoc [simp]: "path_end h (ds @ [d]) = di_height d"
  by (induction ds arbitrary: h) auto

lemma delta_path_snoc [simp]:
  "delta_path deltas h (ds @ [d]) \<longleftrightarrow> delta_path deltas h ds \<and> d \<in> set deltas \<and> db_base_height d = path_end h ds"
  by (induction ds arbitrary: h) auto

definition reaches :: "database_info list \<Rightarrow> u32 \<Rightarrow> nat \<Rightarrow> u32 \<Rightarrow> bool" where
  "reaches deltas start n h \<longleftrightarrow> (\<exists>p. delta_path deltas start p \<and> length p = n \<and> path_end start p = h)"

lemma reaches_0 [simp]: "reaches deltas start 0 h \<longleftrightarrow> h = start"
  by (auto simp: reaches_def)

lemma reaches_Suc:
  "reaches deltas start (Suc n) h' \<longleftrightarrow>
     (\<exists>d \<in> set deltas. reaches deltas start n (db_base_height d) \<and> h' = di_height d)"
proof
  assume "reaches deltas start (Suc n) h'"
  then obtain p where p: "delta_path deltas start p" "length p = Suc n" "path_end start p = h'"
    by (auto simp: reaches_def)
  then obtain q d where "p = q @ [d]" by (metis length_Suc_conv_rev)
  with p show "\<exists>d \<in> set deltas. reaches deltas start n (db_base_height d) \<and> h' = di_height d"
    by (intro bexI [of _ d]) (auto simp: reaches_def)
next
  assume "\<exists>d \<in> set deltas. reaches deltas start n (db_base_height d) \<and> h' = di_height d"
  then obtain d p where "d \<in> set deltas" "h' = di_height d" "delta_path deltas start p" "length p = n"
    "path_end start p = db_base_height d" by (auto simp: reaches_def)
  then show "reaches deltas start (Suc n) h'" unfolding reaches_def by (intro exI [of _ "p @ [d]"]) simp
qed

text \<open>
  The search invariant at depth \<open>n\<close>: the queue holds chains of length \<open>n\<close> followed by chains of length
  \<open>n + 1\<close>, every height within \<open>n\<close> steps is visited, and a height one step further is visited or its
  predecessor is still queued.
\<close>

definition bfs_inv ::
  "database_info list \<Rightarrow> u32 \<Rightarrow> u32 \<Rightarrow> nat \<Rightarrow> bfs_queue \<Rightarrow> bfs_queue \<Rightarrow> u32 list \<Rightarrow> bool" where
  "bfs_inv deltas start end n Q1 Q2 visited \<longleftrightarrow>
     (\<forall>(h, p) \<in> set Q1. delta_path deltas start p \<and> path_end start p = h \<and> length p = n) \<and>
     (\<forall>(h, p) \<in> set Q2. delta_path deltas start p \<and> path_end start p = h \<and> length p = Suc n) \<and>
     (\<forall>m \<le> n. \<forall>h. reaches deltas start m h \<longrightarrow> h \<in> set visited) \<and>
     (\<forall>d \<in> set deltas. reaches deltas start n (db_base_height d) \<longrightarrow>
        di_height d \<in> set visited \<or> db_base_height d \<in> fst ` set Q1) \<and>
     (\<forall>v \<in> set visited. v < end) \<and>
     (\<forall>v \<in> set visited. (\<exists>m \<le> n. reaches deltas start m v) \<or> v \<in> fst ` set Q2)"

lemma bfs_inv_shift:
  assumes "bfs_inv deltas start end n [] Q2 visited"
  shows "bfs_inv deltas start end (Suc n) Q2 [] visited"
proof -
  have seen: "h \<in> set visited" if "m \<le> Suc n" "reaches deltas start m h" for m h
    using that assms by (cases "m \<le> n") (auto simp: bfs_inv_def reaches_Suc le_Suc_eq)
  have "di_height d \<in> set visited \<or> db_base_height d \<in> fst ` set Q2"
    if d: "d \<in> set deltas" "reaches deltas start (Suc n) (db_base_height d)" for d
  proof -
    have "db_base_height d \<in> set visited" using seen d(2) by blast
    then consider m where "m \<le> n" "reaches deltas start m (db_base_height d)" | "db_base_height d \<in> fst ` set Q2"
      using assms unfolding bfs_inv_def by blast
    then show ?thesis
    proof cases
      case 1
      then have "reaches deltas start (Suc m) (di_height d)" using d(1) by (auto simp: reaches_Suc)
      then show ?thesis using seen 1(1) by (meson Suc_le_mono)
    qed simp
  qed
  moreover have "\<exists>m \<le> Suc n. reaches deltas start m v" if "v \<in> set visited" for v
  proof -
    from that assms consider m where "m \<le> n" "reaches deltas start m v" | p where "(v, p) \<in> set Q2"
      by (fastforce simp: bfs_inv_def)
    then show ?thesis
    proof cases
      case 2
      then have "reaches deltas start (Suc n) v" using assms by (fastforce simp: bfs_inv_def reaches_def)
      then show ?thesis by blast
    qed (meson le_Suc_eq)
  qed
  ultimately show ?thesis using assms seen unfolding bfs_inv_def by auto
qed

lemma expand_deltas_found:
  "expand_deltas end path ds visited queue = Inl chain \<Longrightarrow>
   \<exists>d \<in> set ds. chain = path @ [d] \<and> end \<le> di_height d"
  by (induction "end" path ds visited queue rule: expand_deltas.induct) (auto split: if_splits)

lemma expand_deltas_queued:
  assumes "expand_deltas end path ds visited queue = Inr (visited', queue')" and "\<forall>v \<in> set visited. v < end"
  shows "\<exists>new. queue' = queue @ new \<and> set visited' = set visited \<union> di_height ` set ds \<and>
    (\<forall>(h, q) \<in> set new. \<exists>d \<in> set ds. h = di_height d \<and> q = path @ [d]) \<and>
    (\<forall>v \<in> set visited'. v < end \<and> (v \<in> set visited \<or> v \<in> fst ` set new))"
  using assms
proof (induction "end" path ds visited queue rule: expand_deltas.induct)
  case (2 "end" path delta deltas visited queue)
  consider (old) "di_height delta \<in> set visited" | (new) "di_height delta \<notin> set visited" "\<not> end \<le> di_height delta"
    using 2(3) by (auto split: if_splits)
  then show ?case
  proof cases
    case old
    then have "set visited \<union> di_height ` set (delta # deltas) = set visited \<union> di_height ` set deltas" by auto
    with 2(1) [OF old] 2(3,4) old show ?thesis by (fastforce simp: insert_absorb)
  next
    case new
    then have "expand_deltas end path deltas (di_height delta # visited)
        (queue @ [(di_height delta, path @ [delta])]) = Inr (visited', queue')" and "\<forall>v \<in> set (di_height delta # visited). v < end"
      using 2(3,4) by (simp, simp add: not_le)
    from 2(2) [OF new this] obtain new' where
      "queue' = (queue @ [(di_height delta, path @ [delta])]) @ new'"
      "set visited' = set (di_height delta # visited) \<union> di_height ` set deltas"
      "\<forall>(h, q) \<in> set new'. \<exists>d \<in> set deltas. h = di_height d \<and> q = path @ [d]"
      "\<forall>v \<in> set visited'. v < end \<and> (v \<in> set (di_height delta # visited) \<or> v \<in> fst ` set new')"
      by blast
    then show ?thesis
      by (intro exI [of _ "(di_height delta, path @ [delta]) # new'"]) (auto simp: not_le)
  qed
qed simp

lemma bfs_inv_step:
  assumes inv: "bfs_inv deltas start end n ((height, path) # Q1) Q2 visited"
    and ex: "expand_deltas end path (by_base deltas height) visited (Q1 @ Q2) = Inr (visited', queue')"
  shows "\<exists>new. queue' = Q1 @ Q2 @ new \<and> bfs_inv deltas start end n Q1 (Q2 @ new) visited'"
proof -
  have "\<forall>v \<in> set visited. v < end" using inv by (simp add: bfs_inv_def)
  from expand_deltas_queued [OF ex this] obtain new where new: "queue' = (Q1 @ Q2) @ new"
    "set visited' = set visited \<union> di_height ` set (by_base deltas height)"
    "\<forall>(h, q) \<in> set new. \<exists>d \<in> set (by_base deltas height). h = di_height d \<and> q = path @ [d]"
    "\<forall>v \<in> set visited'. v < end \<and> (v \<in> set visited \<or> v \<in> fst ` set new)" by blast
  have "\<forall>(h, q) \<in> set new. delta_path deltas start q \<and> path_end start q = h \<and> length q = Suc n"
    using new(3) inv by (fastforce simp: bfs_inv_def by_base_def)
  moreover have "di_height d \<in> set visited' \<or> db_base_height d \<in> fst ` set Q1"
    if "d \<in> set deltas" "reaches deltas start n (db_base_height d)" for d
    using that inv new(2) by (auto simp: bfs_inv_def by_base_def)
  moreover have "(\<exists>m \<le> n. reaches deltas start m v) \<or> v \<in> fst ` set (Q2 @ new)" if "v \<in> set visited'" for v
    using that new(4) inv unfolding bfs_inv_def by (simp add: image_Un) blast
  ultimately show ?thesis using inv new unfolding bfs_inv_def by (intro exI [of _ new]) auto
qed

lemma bfs_inv_exhausted:
  assumes "bfs_inv deltas start end n [] [] visited" and "reaches deltas start m h"
  shows "h < end"
proof -
  have "bfs_inv deltas start end (n + j) [] [] visited" for j
    by (induction j) (use assms(1) bfs_inv_shift in auto)
  from this [of m] assms(2) have "h \<in> set visited" unfolding bfs_inv_def by (metis le_add2)
  then show ?thesis using assms(1) by (simp add: bfs_inv_def)
qed

lemma bfs_loop_long: "\<forall>(h, p) \<in> set queue. MAX_DELTA_CHAIN_LENGTH \<le> length p \<Longrightarrow> bfs_loop deltas end queue visited = None"
  by (induction queue) auto

text \<open>What the search promises: a shortest chain, or that no chain within the limit exists.\<close>

definition chain_outcome :: "database_info list \<Rightarrow> u32 \<Rightarrow> u32 \<Rightarrow> database_info list option \<Rightarrow> bool" where
  "chain_outcome deltas start end r \<longleftrightarrow>
     (case r of
        Some chain \<Rightarrow> delta_path deltas start chain \<and> end \<le> path_end start chain \<and>
          length chain \<le> MAX_DELTA_CHAIN_LENGTH \<and>
          (\<forall>p. delta_path deltas start p \<longrightarrow> end \<le> path_end start p \<longrightarrow> length chain \<le> length p)
      | None \<Rightarrow> (\<forall>p. delta_path deltas start p \<longrightarrow> length p \<le> MAX_DELTA_CHAIN_LENGTH \<longrightarrow> path_end start p < end))"

lemma bfs_front_outcome:
  assumes inv: "bfs_inv deltas start end n ((height, path) # Q1) Q2 visited"
    and IH: "\<And>v' q' Q2'. expand_deltas end path (by_base deltas height) visited (Q1 @ Q2) = Inr (v', q') \<Longrightarrow>
      length path < MAX_DELTA_CHAIN_LENGTH \<Longrightarrow> q' = Q1 @ Q2' \<Longrightarrow> bfs_inv deltas start end n Q1 Q2' v' \<Longrightarrow>
      chain_outcome deltas start end (bfs_loop deltas end q' v')"
  shows "chain_outcome deltas start end (bfs_loop deltas end ((height, path) # Q1 @ Q2) visited)"
proof -
  have len: "length path = n" and path: "delta_path deltas start path" "path_end start path = height"
    using inv by (auto simp: bfs_inv_def)
  have seen: "path_end start p < end" if "delta_path deltas start p" "length p \<le> n" for p
    using inv that unfolding bfs_inv_def reaches_def by blast
  show ?thesis
  proof (cases "MAX_DELTA_CHAIN_LENGTH \<le> n")
    case True
    then have "bfs_loop deltas end ((height, path) # Q1 @ Q2) visited = None"
      using inv by (intro bfs_loop_long) (auto simp: bfs_inv_def)
    then show ?thesis using seen True by (auto simp: chain_outcome_def)
  next
    case False
    show ?thesis
    proof (cases "expand_deltas end path (by_base deltas height) visited (Q1 @ Q2)")
      case (Inl chain)
      then obtain d where d: "d \<in> set deltas" "db_base_height d = height" "chain = path @ [d]" "end \<le> di_height d"
        using expand_deltas_found by (fastforce simp: by_base_def)
      have "length chain \<le> length p" if "delta_path deltas start p" "end \<le> path_end start p" for p
        using seen [OF that(1)] that(2) d(3) len by (cases "length p \<le> n") auto
      then show ?thesis using Inl d path len False by (simp add: chain_outcome_def)
    next
      case (Inr r)
      obtain v' q' where r: "r = (v', q')" by (cases r)
      from bfs_inv_step [OF inv] Inr r obtain new where
        "q' = Q1 @ Q2 @ new" "bfs_inv deltas start end n Q1 (Q2 @ new) v'" by blast
      with IH Inr r len False show ?thesis by simp
    qed
  qed
qed

lemma bfs_loop_outcome:
  "bfs_inv deltas start end n Q1 Q2 visited \<Longrightarrow> queue = Q1 @ Q2 \<Longrightarrow>
   chain_outcome deltas start end (bfs_loop deltas end queue visited)"
proof (induction deltas "end" queue visited arbitrary: n Q1 Q2 rule: bfs_loop.induct)
  case (1 deltas "end" visited)
  then have "path_end start p < end" if "delta_path deltas start p" for p
    using that bfs_inv_exhausted [of deltas start "end" n visited "length p"] by (auto simp: reaches_def)
  then show ?case by (simp add: chain_outcome_def)
next
  case (2 deltas "end" height path queue visited)
  obtain n' Q1' Q2' where inv: "bfs_inv deltas start end n' ((height, path) # Q1') Q2' visited" and q: "queue = Q1' @ Q2'"
  proof (cases Q1)
    case Nil
    then show ?thesis using that [of "Suc n" queue "[]"] bfs_inv_shift 2(3,4) by auto
  next
    case (Cons x Q1'')
    then show ?thesis using that [of n Q1'' Q2] 2(3,4) by auto
  qed
  show ?case unfolding q
    by (rule bfs_front_outcome [OF inv]) (use 2(2) q in \<open>force simp: not_le\<close>)
qed

lemma find_delta_chain_outcome: "chain_outcome deltas start end (find_delta_chain deltas start end)"
proof (cases "end \<le> start")
  case False
  then have "bfs_inv deltas start end 0 [(start, [])] [] [start]" by (auto simp: bfs_inv_def)
  from bfs_loop_outcome [OF this] False show ?thesis by (simp add: find_delta_chain_def)
qed (simp add: find_delta_chain_def chain_outcome_def)

section \<open>Sync plans\<close>

text \<open>
  What a plan promises. A chain to the tip is a contiguous path of at most five catalog deltas from a height to
  one that no database of the catalog exceeds. When the last synced height is positive and has such a chain,
  the plan is a shortest one (no step at all when the client is at the tip); only otherwise is it a fresh sync,
  which starts at the highest full snapshot and goes on over a shortest chain from there, or stops at the
  snapshot when none exists.
\<close>

definition tip_chain :: "database_catalog \<Rightarrow> u32 \<Rightarrow> database_info list \<Rightarrow> bool" where
  "tip_chain cat since p \<longleftrightarrow> delta_path (catalog_deltas cat) since p \<and> length p \<le> MAX_DELTA_CHAIN_LENGTH \<and>
     (\<forall>db \<in> set cat. di_height db \<le> path_end since p)"

definition shortest_tip_chain :: "database_catalog \<Rightarrow> u32 \<Rightarrow> database_info list \<Rightarrow> bool" where
  "shortest_tip_chain cat since p \<longleftrightarrow> tip_chain cat since p \<and> (\<forall>q. tip_chain cat since q \<longrightarrow> length p \<le> length q)"

definition plan_ok :: "database_catalog \<Rightarrow> u32 \<Rightarrow> sync_plan \<Rightarrow> bool" where
  "plan_ok cat since plan \<longleftrightarrow>
     (if 0 < since \<and> (\<exists>p. tip_chain cat since p)
      then \<not> sp_is_fresh_sync plan \<and>
           (\<exists>chain. shortest_tip_chain cat since chain \<and> sp_steps plan = map from_db_info chain \<and>
              sp_target_height plan = path_end since chain)
      else sp_is_fresh_sync plan \<and>
           (\<exists>full chain. best_full_snapshot cat = Some full \<and> full \<in> set (full_snapshots cat) \<and>
              (\<forall>db \<in> set (full_snapshots cat). di_height db \<le> di_height full) \<and>
              (if \<exists>p. tip_chain cat (di_height full) p then shortest_tip_chain cat (di_height full) chain else chain = []) \<and>
              sp_steps plan = map from_db_info (full # chain) \<and>
              sp_target_height plan = path_end (di_height full) chain))"

lemma delta_path_subset: "delta_path deltas h ds \<Longrightarrow> set ds \<subseteq> set deltas"
  by (induction ds arbitrary: h) auto

lemma path_end_height: "ds \<noteq> [] \<Longrightarrow> path_end h ds = di_height (last ds)"
  by (induction ds arbitrary: h) (simp, metis last.simps path_end.simps)

lemma latest_tip_max:
  "latest_tip cat = Some tip \<Longrightarrow> (\<forall>db \<in> set cat. di_height db \<le> tip) \<and> (\<exists>db \<in> set cat. di_height db = tip)"
  using max_by_height_max by (fastforce simp: latest_tip_def)

lemma catalog_chain_end:
  assumes "latest_tip cat = Some tip" and "delta_path (catalog_deltas cat) h ds" and "ds \<noteq> []"
  shows "path_end h ds \<le> tip"
proof -
  have "last ds \<in> set cat" using assms(2,3) delta_path_subset [of "catalog_deltas cat" h ds]
    by (metis catalog_deltas_def filter_is_subset last_in_set subsetD)
  then show ?thesis using latest_tip_max [OF assms(1)] assms(3) by (simp add: path_end_height)
qed

lemma find_delta_chain_tip:
  assumes tip: "latest_tip cat = Some tip"
  shows "case find_delta_chain (catalog_deltas cat) since tip of
      Some chain \<Rightarrow> shortest_tip_chain cat since chain
    | None \<Rightarrow> (\<forall>p. \<not> tip_chain cat since p)"
proof -
  have "(\<forall>db \<in> set cat. di_height db \<le> h) \<longleftrightarrow> tip \<le> h" for h using latest_tip_max [OF tip] by (auto intro: order.trans)
  then show ?thesis using find_delta_chain_outcome [of "catalog_deltas cat" since tip]
    by (auto simp: shortest_tip_chain_def tip_chain_def chain_outcome_def not_le split: option.splits)
qed

lemma fresh_plan_ok:
  assumes tip: "latest_tip cat = Some tip" and full: "best_full_snapshot cat = Some full"
    and stale: "\<not> (0 < since \<and> (\<exists>p. tip_chain cat since p))"
    and plan: "fresh_plan cat tip = Inr plan"
  shows "plan_ok cat since plan"
proof -
  define chain where "chain = (case find_delta_chain (catalog_deltas cat) (di_height full) tip of Some c \<Rightarrow> c | None \<Rightarrow> [])"
  have "full \<in> set (full_snapshots cat) \<and> (\<forall>db \<in> set (full_snapshots cat). di_height db \<le> di_height full)"
    using full max_by_height_max unfolding best_full_snapshot_def by blast
  moreover have "if \<exists>p. tip_chain cat (di_height full) p then shortest_tip_chain cat (di_height full) chain else chain = []"
    using find_delta_chain_tip [OF tip, of "di_height full"] by (auto simp: chain_def shortest_tip_chain_def split: option.splits)
  moreover have steps: "sp_steps plan = map from_db_info (full # chain)" "sp_is_fresh_sync plan"
    and target: "sp_target_height plan = ss_tip_height (map from_db_info (full # chain) ! length chain)"
    using plan full by (auto simp: fresh_plan_def chain_def Let_def split: option.splits)
  have "(full # chain) ! length chain = last (full # chain)" by (simp add: last_conv_nth)
  then have "sp_target_height plan = path_end (di_height full) chain" unfolding target
    by (cases "chain = []") (simp_all add: from_db_info_def path_end_height del: nth_Cons_0 list.map flip: list.map)
  ultimately show ?thesis unfolding plan_ok_def if_not_P [OF stale] using full steps by blast
qed

lemma tip_chain_end:
  assumes "latest_tip cat = Some tip" and "tip_chain cat since p" and "since < tip"
  shows "path_end since p = tip"
proof -
  have "tip \<le> path_end since p" using assms(2) latest_tip_max [OF assms(1)] by (auto simp: tip_chain_def)
  moreover from this have "p \<noteq> []" using assms(3) by auto
  ultimately show ?thesis using catalog_chain_end [OF assms(1), of since p] assms(2) by (simp add: tip_chain_def)
qed

lemma incremental_plan_ok:
  assumes tip: "latest_tip cat = Some tip" and since: "0 < since" "since < tip"
    and chain: "find_delta_chain (catalog_deltas cat) since tip = Some chain"
  shows "plan_ok cat since \<lparr>sp_steps = map from_db_info chain, sp_is_fresh_sync = False, sp_target_height = tip\<rparr>"
proof -
  have short: "shortest_tip_chain cat since chain" using find_delta_chain_tip [OF tip, of since] chain by simp
  then have "tip_chain cat since chain" by (simp add: shortest_tip_chain_def)
  then show ?thesis using short since(1) tip_chain_end [OF tip _ since(2)] by (auto simp: plan_ok_def)
qed

lemma empty_plan_ok:
  assumes "latest_tip cat = Some tip" and "0 < since" and "tip \<le> since"
  shows "plan_ok cat since (empty_plan since)"
proof -
  have "shortest_tip_chain cat since []"
    using latest_tip_max [OF assms(1)] assms(3) by (auto simp: shortest_tip_chain_def tip_chain_def intro: order.trans)
  then show ?thesis using assms(2) unfolding plan_ok_def shortest_tip_chain_def
    by (auto simp: empty_plan_def intro!: exI [of _ "[]"])
qed

text \<open>
  C9: Sync planning takes the right kind of plan. With a positive last height from which at most five contiguous
  deltas lead to the tip, it returns a shortest such chain, which is empty at the tip; only without one does it
  return a fresh sync, from the highest full snapshot over a shortest chain to the tip if there is one. It
  fails only for an empty catalog, or when there is neither such a chain nor a full snapshot.
\<close>

theorem compute_sync_plan_correct:
  "case compute_sync_plan cat last_height of
     Inl e \<Rightarrow> cat = [] \<and> e = InvalidCatalog ''empty catalog'' \<or>
       cat \<noteq> [] \<and> full_snapshots cat = [] \<and> e = NoSyncPath ''no full snapshot available'' \<and>
       (case last_height of Some h \<Rightarrow> \<not> (0 < h \<and> (\<exists>p. tip_chain cat h p)) | None \<Rightarrow> True)
   | Inr plan \<Rightarrow> cat \<noteq> [] \<and> plan_ok cat (case last_height of Some h \<Rightarrow> h | None \<Rightarrow> 0) plan"
proof (cases "latest_tip cat")
  case None
  then show ?thesis by (simp add: compute_sync_plan_def latest_tip_def)
next
  case (Some tip)
  define since where "since = (case last_height of Some h \<Rightarrow> h | None \<Rightarrow> 0)"
  have ne: "cat \<noteq> []" using Some by (auto simp: latest_tip_def)
  let ?ok = "\<lambda>r. case r of
      Inl e \<Rightarrow> full_snapshots cat = [] \<and> e = NoSyncPath ''no full snapshot available'' \<and> \<not> (0 < since \<and> (\<exists>p. tip_chain cat since p))
    | Inr plan \<Rightarrow> plan_ok cat since plan"
  have fresh: "?ok (fresh_plan cat tip)" if stale: "\<not> (0 < since \<and> (\<exists>p. tip_chain cat since p))"
  proof (cases "best_full_snapshot cat")
    case None
    then show ?thesis using stale by (simp add: best_full_snapshot_def fresh_plan_def)
  next
    case full: (Some full)
    then obtain plan where "fresh_plan cat tip = Inr plan" by (simp add: fresh_plan_def Let_def)
    then show ?thesis using fresh_plan_ok [OF Some full stale] by simp
  qed
  have "?ok (compute_sync_plan cat last_height)"
  proof (cases "0 < since")
    case True
    then show ?thesis
      using fresh empty_plan_ok [OF Some True] incremental_plan_ok [OF Some True] find_delta_chain_tip [OF Some, of since]
      by (simp add: compute_sync_plan_def Some since_def Let_def not_le split: option.splits)
  next
    case False
    then show ?thesis using fresh by (simp add: compute_sync_plan_def Some since_def Let_def)
  qed
  then show ?thesis using ne by (auto simp: since_def split: sum.splits option.splits)
qed

section \<open>Merging\<close>

definition merge_safe :: "query_result option \<Rightarrow> query_result option \<Rightarrow> query_result option \<Rightarrow> bool" where
  "merge_safe snapshot delta merged \<longleftrightarrow>
     (case merged of
        None \<Rightarrow> snapshot = None
      | Some m \<Rightarrow>
          (qr_merkle_verified m \<longrightarrow> (\<forall>s. snapshot = Some s \<longrightarrow> qr_merkle_verified s) \<and>
             (\<forall>d. delta = Some d \<longrightarrow> qr_merkle_verified d)) \<and>
          (\<forall>s. snapshot = Some s \<longrightarrow> qr_is_whale s \<longrightarrow> qr_is_whale m) \<and>
          (\<forall>d. delta = Some d \<longrightarrow> qr_is_whale d \<longrightarrow> qr_is_whale m))"

lemma merge_delta_whale: "merge_delta snap raw = Inr m \<Longrightarrow> qr_is_whale m = qr_is_whale snap"
  by (auto simp: merge_delta_def split: if_splits)

lemma merge_one_safe: "merge_one snapshot delta = Inr merged \<Longrightarrow> merge_safe snapshot delta merged"
  by (cases snapshot; cases delta)
    (auto simp: merge_one_def merge_safe_def delta_whale_def empty_result_def Let_def dest: merge_delta_whale
      split: if_splits option.splits)

lemma merge_pairs_nth:
  "merge_pairs prs = Inr out \<Longrightarrow> length out = length prs \<and>
     (\<forall>i < length prs. merge_one (fst (prs ! i)) (snd (prs ! i)) = Inr (out ! i))"
proof (induction prs arbitrary: out rule: merge_pairs.induct)
  case (2 snapshot delta rest)
  then obtain r rs where r: "merge_one snapshot delta = Inr r" "merge_pairs rest = Inr rs" "out = r # rs" by auto
  from 2(1) [OF r(2)] r show ?case by (auto simp: nth_Cons split: nat.split)
qed simp

text \<open>
  C32: Merging a batch of deltas never upgrades trust: a merged result counts as verified only when the
  snapshot and the delta it came from both were, a whale stays a whale, a script hash found in the
  snapshot is never reported as absent, and the batches must have the same size.
\<close>

theorem merge_delta_batch_safe:
  assumes "merge_delta_batch snapshots deltas = Inr out"
  shows "length out = length snapshots \<and> length deltas = length snapshots \<and>
    (\<forall>i < length snapshots. merge_safe (snapshots ! i) (deltas ! i) (out ! i))"
  using assms merge_pairs_nth [of "zip snapshots deltas" out] merge_one_safe
  by (auto simp: merge_delta_batch_def split: if_splits)

text \<open>A verified snapshot with an unverified delta.\<close>

theorem merge_delta_batch_safe_witness:
  "\<exists>out. merge_delta_batch [Some (empty_result\<lparr>qr_merkle_verified := True\<rparr>)] [Some empty_result] = Inr out \<and>
     merge_safe (Some (empty_result\<lparr>qr_merkle_verified := True\<rparr>)) (Some empty_result) (out ! 0)"
proof -
  have m: "merge_delta_batch [Some (empty_result\<lparr>qr_merkle_verified := True\<rparr>)] [Some empty_result] =
      Inr [Some empty_result]"
    by (simp add: merge_delta_batch_def merge_one_def empty_result_def)
  show ?thesis using merge_delta_batch_safe [OF m] m by simp
qed

end
