(* ===== verification/Delta_Build.thy ===== *)
theory Delta_Build
  imports Sync "HOL-Library.AList"
begin

text \<open>
  Building a delta database: the grouped delta between two heights of
  \<open>tools/db-builder/src/delta_gen_0_compute_delta.rs\<close> and its packing into chunks and index records of
  \<open>tools/db-builder/src/delta_gen_1_build_chunks.rs\<close>. Blocks come from a third-party reader, a
  transaction is its inputs, its id and its outputs; \<open>HASH160\<close> is the argument \<open>hash160\<close>. Hash maps are
  association lists in insertion order, one of the orders the code may iterate in. Files are byte
  strings; \<open>None\<close> is a panic.
\<close>

section \<open>Computing the grouped delta\<close>

type_synonym out_key = "bytes \<times> u32"

record transaction =
  tx_is_coinbase :: bool
  tx_inputs :: "out_key list"
  tx_txid :: bytes
  tx_outputs :: "(bytes \<times> u64) list"

definition DUST_THRESHOLD :: u64 where "DUST_THRESHOLD = 576"

record new_utxo =
  nu_txid :: bytes
  nu_vout :: u32
  nu_amount :: u64

record script_delta =
  sd_spent :: "out_key list"
  sd_new_utxos :: "new_utxo list"

type_synonym created_map = "(out_key \<times> bytes \<times> u64) list"
type_synonym delta_map = "(bytes \<times> script_delta) list"

text \<open>\<open>deltas.entry(script_hash).or_default()\<close> followed by an update in place.\<close>

fun update_delta :: "bytes \<Rightarrow> (script_delta \<Rightarrow> script_delta) \<Rightarrow> delta_map \<Rightarrow> delta_map" where
  "update_delta sh f [] = [(sh, f \<lparr>sd_spent = [], sd_new_utxos = []\<rparr>)]"
| "update_delta sh f ((sh', d) # ds) = (if sh' = sh then (sh', f d) # ds else (sh', d) # update_delta sh f ds)"

definition push_spent :: "out_key \<Rightarrow> script_delta \<Rightarrow> script_delta" where
  "push_spent key d = d\<lparr>sd_spent := sd_spent d @ [key]\<rparr>"

definition push_new :: "new_utxo \<Rightarrow> script_delta \<Rightarrow> script_delta" where
  "push_new n d = d\<lparr>sd_new_utxos := sd_new_utxos d @ [n]\<rparr>"

definition replay_input ::
  "(out_key \<rightharpoonup> bytes) \<Rightarrow> created_map \<times> delta_map \<Rightarrow> out_key \<Rightarrow> created_map \<times> delta_map" where
  "replay_input utxo_map st key =
     (case map_of (fst st) key of
        Some _ \<Rightarrow> (AList.delete key (fst st), snd st)
      | None \<Rightarrow>
          (case utxo_map key of
             Some script_hash \<Rightarrow> (fst st, update_delta script_hash (push_spent key) (snd st))
           | None \<Rightarrow> st))"

definition created_outputs :: "(bytes \<Rightarrow> bytes) \<Rightarrow> transaction \<Rightarrow> created_map" where
  "created_outputs hash160 tx =
     map (\<lambda>(v, script, amt). ((tx_txid tx, of_nat v), hash160 script, amt)) (enumerate 0 (tx_outputs tx))"

definition replay_tx ::
  "(bytes \<Rightarrow> bytes) \<Rightarrow> (out_key \<rightharpoonup> bytes) \<Rightarrow> created_map \<times> delta_map \<Rightarrow> transaction \<Rightarrow> created_map \<times> delta_map" where
  "replay_tx hash160 utxo_map st tx =
     (let st' = (if tx_is_coinbase tx then st else foldl (replay_input utxo_map) st (tx_inputs tx))
      in (foldl (\<lambda>created (key, entry). AList.update key entry created) (fst st') (created_outputs hash160 tx), snd st'))"

definition replay_blocks ::
  "(bytes \<Rightarrow> bytes) \<Rightarrow> (out_key \<rightharpoonup> bytes) \<Rightarrow> transaction list list \<Rightarrow> created_map \<times> delta_map" where
  "replay_blocks hash160 utxo_map blocks = foldl (replay_tx hash160 utxo_map) ([], []) (concat blocks)"

definition collect_new :: "created_map \<Rightarrow> delta_map \<Rightarrow> delta_map" where
  "collect_new created deltas =
     foldl (\<lambda>deltas ((t, v), script_hash, amt).
       if amt \<le> DUST_THRESHOLD then deltas
       else update_delta script_hash (push_new \<lparr>nu_txid = t, nu_vout = v, nu_amount = amt\<rparr>) deltas) deltas created"

definition compute_deltas ::
  "(bytes \<Rightarrow> bytes) \<Rightarrow> (out_key \<rightharpoonup> bytes) \<Rightarrow> transaction list list \<Rightarrow> delta_map" where
  "compute_deltas hash160 utxo_map blocks =
     (let st = replay_blocks hash160 utxo_map blocks in collect_new (fst st) (snd st))"

definition write_spent :: "out_key \<Rightarrow> bytes" where
  "write_spent k = fst k @ write_varint_loop (ucast (snd k))"

definition write_new :: "new_utxo \<Rightarrow> bytes" where
  "write_new n = nu_txid n @ write_varint_loop (ucast (nu_vout n)) @ write_varint_loop (nu_amount n)"

definition write_script_delta :: "script_delta \<Rightarrow> bytes" where
  "write_script_delta d =
     write_varint_loop (of_nat (length (sd_spent d))) @ concat (map write_spent (sd_spent d)) @
     write_varint_loop (of_nat (length (sd_new_utxos d))) @ concat (map write_new (sd_new_utxos d))"

definition write_grouped :: "delta_map \<Rightarrow> bytes" where
  "write_grouped deltas =
     u32_to_le (of_nat (length deltas)) @ concat (map (\<lambda>(sh, d). sh @ write_script_delta d) deltas)"

section \<open>Packing into chunks\<close>

definition BLOCK_SIZE :: nat where "BLOCK_SIZE = 40"
definition MAX_CHUNKS_PER_SPK :: nat where "MAX_CHUNKS_PER_SPK = 255"

text \<open>\<open>read_varint(&data[pos..])\<close>: the slice panics past the end, the reader on malformed bytes.\<close>

definition read_varint_at :: "bytes \<Rightarrow> nat \<Rightarrow> (u64 \<times> nat) option" where
  "read_varint_at data pos =
     (if length data < pos then None
      else map_option (\<lambda>(v, consumed). (v, pos + consumed)) (read_varint (drop pos data)))"

fun skip_entries :: "bytes \<Rightarrow> nat \<Rightarrow> nat \<Rightarrow> nat \<Rightarrow> nat option" where
  "skip_entries data varints 0 pos = Some pos"
| "skip_entries data varints (Suc n) pos =
     Option.bind (read_varint_at data (pos + 32)) (\<lambda>(_, pos').
       if varints = 1 then skip_entries data varints n pos'
       else Option.bind (read_varint_at data pos') (\<lambda>(_, pos''). skip_entries data varints n pos''))"

definition delta_record_end :: "bytes \<Rightarrow> nat \<Rightarrow> nat option" where
  "delta_record_end data pos =
     Option.bind (read_varint_at data pos) (\<lambda>(num_spent, pos).
     Option.bind (skip_entries data 1 (unat num_spent) pos) (\<lambda>pos.
     Option.bind (read_varint_at data pos) (\<lambda>(num_new, pos).
       skip_entries data 2 (unat num_new) pos)))"

record pack_state =
  ps_pos :: nat
  ps_chunk_id :: u32
  ps_chunks :: bytes
  ps_index :: bytes

definition pack_script :: "bytes \<Rightarrow> pack_state \<Rightarrow> pack_state option" where
  "pack_script data st =
     (if length data < ps_pos st + SCRIPT_HASH_SIZE then None
      else (let script_hash = slice data (ps_pos st) SCRIPT_HASH_SIZE;
                data_start = ps_pos st + SCRIPT_HASH_SIZE
            in Option.bind (delta_record_end data data_start) (\<lambda>data_end.
               if length data < data_end then None
               else (let delta_bytes = slice data data_start (data_end - data_start);
                         num_blocks = div_ceil (length delta_bytes) BLOCK_SIZE
                     in if MAX_CHUNKS_PER_SPK < num_blocks
                        then Some (st\<lparr>ps_pos := data_end, ps_index := ps_index st @ script_hash @ u32_to_le 0 @ [0]\<rparr>)
                        else Some \<lparr>ps_pos = data_end, ps_chunk_id = ps_chunk_id st + of_nat num_blocks,
                                   ps_chunks = ps_chunks st @ delta_bytes @
                                     replicate (num_blocks * BLOCK_SIZE - length delta_bytes) 0,
                                   ps_index = ps_index st @ script_hash @ u32_to_le (ps_chunk_id st) @
                                     [of_nat num_blocks]\<rparr>))))"

fun pack_scripts :: "bytes \<Rightarrow> nat \<Rightarrow> pack_state \<Rightarrow> pack_state option" where
  "pack_scripts data 0 st = Some st"
| "pack_scripts data (Suc n) st = Option.bind (pack_script data st) (pack_scripts data n)"

definition build_delta_chunks :: "bytes \<Rightarrow> (bytes \<times> bytes) option" where
  "build_delta_chunks data =
     (if length data < 4 then None
      else map_option (\<lambda>st. (ps_chunks st, ps_index st))
             (pack_scripts data (unat (u32_from_le (slice data 0 4)))
                \<lparr>ps_pos = 4, ps_chunk_id = 0, ps_chunks = [], ps_index = []\<rparr>))"

end
