(* ===== verification/Delta_Replay.thy ===== *)
theory Delta_Replay
  imports Delta_Build
begin

text \<open>
  The delta computation against the ledger: replaying valid blocks over a UTXO set and over the delta
  accumulators leads to corresponding states, so the delta of a script hash turns its old entries into
  its new ones.
\<close>

section \<open>The ledger\<close>

type_synonym utxo_set = "out_key \<rightharpoonup> (bytes \<times> u64)"

fun spend_inputs :: "utxo_set \<Rightarrow> out_key list \<Rightarrow> utxo_set option" where
  "spend_inputs S [] = Some S"
| "spend_inputs S (k # ks) = (case S k of None \<Rightarrow> None | Some _ \<Rightarrow> spend_inputs (S(k := None)) ks)"

fun add_outputs :: "utxo_set \<Rightarrow> (out_key \<times> bytes \<times> u64) list \<Rightarrow> utxo_set option" where
  "add_outputs S [] = Some S"
| "add_outputs S ((k, e) # kes) = (case S k of Some _ \<Rightarrow> None | None \<Rightarrow> add_outputs (S(k \<mapsto> e)) kes)"

definition ledger_tx :: "(bytes \<Rightarrow> bytes) \<Rightarrow> utxo_set \<Rightarrow> transaction \<Rightarrow> utxo_set option" where
  "ledger_tx hash160 S tx =
     Option.bind (if tx_is_coinbase tx then Some S else spend_inputs S (tx_inputs tx)) (\<lambda>S'.
       add_outputs S' (created_outputs hash160 tx))"

fun ledger_txs :: "(bytes \<Rightarrow> bytes) \<Rightarrow> utxo_set \<Rightarrow> transaction list \<Rightarrow> utxo_set option" where
  "ledger_txs hash160 S [] = Some S"
| "ledger_txs hash160 S (tx # txs) = Option.bind (ledger_tx hash160 S tx) (\<lambda>S'. ledger_txs hash160 S' txs)"

text \<open>The entries of a script hash above the dust threshold.\<close>

definition utxos_of :: "utxo_set \<Rightarrow> bytes \<Rightarrow> sdk_utxo_entry set" where
  "utxos_of S sh = {e. S (ux_txid e, ux_vout e) = Some (sh, ux_amount_sats e) \<and> DUST_THRESHOLD < ux_amount_sats e}"

section \<open>Accumulators\<close>

definition delta_of :: "delta_map \<Rightarrow> bytes \<Rightarrow> script_delta" where
  "delta_of ds sh = (case map_of ds sh of Some d \<Rightarrow> d | None \<Rightarrow> \<lparr>sd_spent = [], sd_new_utxos = []\<rparr>)"

lemma delta_of_Cons: "delta_of ((k, d) # ds) sh = (if k = sh then d else delta_of ds sh)"
  by (simp add: delta_of_def)

lemma delta_of_update [simp]:
  "delta_of (update_delta sh f ds) sh' = (if sh' = sh then f (delta_of ds sh) else delta_of ds sh')"
proof (induction ds)
  case (Cons p ds)
  then show ?case by (cases p) (auto simp: delta_of_Cons)
qed (simp add: delta_of_def)

lemma keys_update_delta: "fst ` set (update_delta sh f ds) = insert sh (fst ` set ds)"
proof (induction ds)
  case (Cons p ds)
  then show ?case by (cases p) (simp add: insert_commute)
qed simp

lemma distinct_update_delta: "distinct (map fst ds) \<Longrightarrow> distinct (map fst (update_delta sh f ds))"
proof (induction ds)
  case (Cons p ds)
  obtain sh' d where p: "p = (sh', d)" by (cases p)
  have "sh' \<notin> fst ` set (update_delta sh f ds)" if "sh' \<noteq> sh"
    using Cons.prems that by (simp add: keys_update_delta p)
  then show ?case using Cons by (auto simp: p)
qed simp

lemma push_sels [simp]:
  "sd_spent (push_spent k d) = sd_spent d @ [k]" "sd_new_utxos (push_spent k d) = sd_new_utxos d"
  "sd_spent (push_new n d) = sd_spent d" "sd_new_utxos (push_new n d) = sd_new_utxos d @ [n]"
  by (simp_all add: push_spent_def push_new_def)

abbreviation spent_of :: "delta_map \<Rightarrow> bytes \<Rightarrow> out_key set" where
  "spent_of ds sh \<equiv> set (sd_spent (delta_of ds sh))"

text \<open>
  A set \<open>S\<close> seen from a base set \<open>S0\<close>: the entries created since, and those of the base not yet spent.
\<close>

definition overlay :: "('k \<rightharpoonup> 'e) \<Rightarrow> ('k \<rightharpoonup> 'e) \<Rightarrow> ('k \<Rightarrow> bool) \<Rightarrow> ('k \<rightharpoonup> 'e) \<Rightarrow> bool" where
  "overlay S0 created spent S \<longleftrightarrow>
     (\<forall>k. S k = (case created k of Some e \<Rightarrow> Some e | None \<Rightarrow> if spent k then None else S0 k)) \<and>
     (\<forall>k. created k \<noteq> None \<longrightarrow> spent k \<or> S0 k = None)"

lemma overlayD:
  "overlay S0 created spent S \<Longrightarrow> S k = (case created k of Some e \<Rightarrow> Some e | None \<Rightarrow> if spent k then None else S0 k) \<and>
     (created k \<noteq> None \<longrightarrow> spent k \<or> S0 k = None)"
  by (simp add: overlay_def)

lemma overlay_remove:
  "overlay S0 created spent S \<Longrightarrow> created k \<noteq> None \<Longrightarrow> overlay S0 (created(k := None)) spent (S(k := None))"
  by (auto simp: overlay_def)

lemma overlay_unspent: "overlay S0 created spent S \<Longrightarrow> created k = None \<Longrightarrow> S k \<noteq> None \<Longrightarrow> \<not> spent k \<and> S0 k = S k"
  by (auto simp: overlay_def split: if_splits)

lemma overlay_spend:
  "overlay S0 created spent S \<Longrightarrow> created k = None \<Longrightarrow> overlay S0 created (\<lambda>x. x = k \<or> spent x) (S(k := None))"
  by (auto simp: overlay_def)

lemma overlay_add:
  "overlay S0 created spent S \<Longrightarrow> S k = None \<Longrightarrow> overlay S0 (created(k \<mapsto> e)) spent (S(k \<mapsto> e))"
  by (auto simp: overlay_def split: option.splits if_splits)

text \<open>The accumulators stand for the current UTXO set, relative to the snapshot.\<close>

definition replay_inv :: "utxo_set \<Rightarrow> utxo_set \<Rightarrow> created_map \<times> delta_map \<Rightarrow> bool" where
  "replay_inv S0 S st \<longleftrightarrow>
     overlay S0 (map_of (fst st)) (\<lambda>k. \<exists>sh. k \<in> spent_of (snd st) sh) S \<and>
     (\<forall>sh. \<forall>k \<in> spent_of (snd st) sh. map_option fst (S0 k) = Some sh) \<and>
     (\<forall>sh. sd_new_utxos (delta_of (snd st) sh) = []) \<and>
     distinct (map fst (fst st)) \<and> distinct (map fst (snd st))"

abbreviation scripts :: "utxo_set \<Rightarrow> out_key \<rightharpoonup> bytes" where
  "scripts S \<equiv> (\<lambda>k. map_option fst (S k))"

lemma replay_input_inv:
  assumes inv: "replay_inv S0 S st" and k: "S k \<noteq> None"
  shows "replay_inv S0 (S(k := None)) (replay_input (scripts S0) st k)"
proof (cases "map_of (fst st) k")
  case (Some e)
  have "distinct (map fst (AList.delete k (fst st)))"
    using inv by (intro AList.distinct_delete) (simp add: replay_inv_def)
  then show ?thesis using inv Some overlay_remove [of S0 "map_of (fst st)" _ S k]
    by (simp add: replay_inv_def replay_input_def AList.delete_conv')
next
  case None
  have ov: "overlay S0 (map_of (fst st)) (\<lambda>k. \<exists>sh. k \<in> spent_of (snd st) sh) S" using inv by (simp add: replay_inv_def)
  then obtain sh a where sh: "S0 k = Some (sh, a)" using overlay_unspent [OF ov None k] k by (cases "S0 k") auto
  let ?ds = "update_delta sh (push_spent k) (snd st)"
  have "(\<lambda>x. \<exists>s. x \<in> spent_of ?ds s) = (\<lambda>x. x = k \<or> (\<exists>s. x \<in> spent_of (snd st) s))" by (auto simp: fun_eq_iff)
  then have "overlay S0 (map_of (fst st)) (\<lambda>x. \<exists>s. x \<in> spent_of ?ds s) (S(k := None))"
    using overlay_spend [OF ov None] by simp
  moreover have "\<forall>s. \<forall>x \<in> spent_of ?ds s. map_option fst (S0 x) = Some s"
    using inv sh by (simp add: replay_inv_def)
  ultimately show ?thesis using inv None sh
    by (simp add: replay_inv_def replay_input_def distinct_update_delta)
qed

lemma replay_inputs_inv:
  "replay_inv S0 S st \<Longrightarrow> spend_inputs S ks = Some S' \<Longrightarrow>
   replay_inv S0 S' (foldl (replay_input (scripts S0)) st ks)"
proof (induction ks arbitrary: S st)
  case (Cons k ks)
  then have "S k \<noteq> None" "spend_inputs (S(k := None)) ks = Some S'" by (auto split: option.splits)
  from Cons.IH [OF replay_input_inv [OF Cons.prems(1) this(1)] this(2)] show ?case by simp
qed simp

lemma add_outputs_inv:
  "replay_inv S0 S (created, ds) \<Longrightarrow> add_outputs S kes = Some S' \<Longrightarrow>
   replay_inv S0 S' (foldl (\<lambda>created (key, entry). AList.update key entry created) created kes, ds)"
proof (induction kes arbitrary: S created)
  case (Cons ke kes)
  obtain k e where ke: "ke = (k, e)" by (cases ke)
  have k: "S k = None" and rest: "add_outputs (S(k \<mapsto> e)) kes = Some S'"
    using Cons.prems(2) ke by (auto split: option.splits)
  have "replay_inv S0 (S(k \<mapsto> e)) (AList.update k e created, ds)"
    using Cons.prems(1) overlay_add [of S0 "map_of created" _ S k e] k
    by (simp add: replay_inv_def AList.update_conv' AList.distinct_update)
  from Cons.IH [OF this rest] show ?case by (simp add: ke)
qed simp

lemma replay_txs_inv:
  "replay_inv S0 S st \<Longrightarrow> ledger_txs hash160 S txs = Some S' \<Longrightarrow>
   replay_inv S0 S' (foldl (replay_tx hash160 (scripts S0)) st txs)"
proof (induction txs arbitrary: S st)
  case (Cons tx txs)
  then obtain S1 S2 where S1: "(if tx_is_coinbase tx then Some S else spend_inputs S (tx_inputs tx)) = Some S1"
    and S2: "add_outputs S1 (created_outputs hash160 tx) = Some S2" and rest: "ledger_txs hash160 S2 txs = Some S'"
    by (auto simp: ledger_tx_def bind_eq_Some_conv)
  let ?st = "if tx_is_coinbase tx then st else foldl (replay_input (scripts S0)) st (tx_inputs tx)"
  have "replay_inv S0 S1 ?st" using S1 Cons.prems(1) by (auto split: if_splits intro: replay_inputs_inv)
  then have "replay_inv S0 S2 (replay_tx hash160 (scripts S0) st tx)"
    using add_outputs_inv [of S0 S1 "fst ?st" "snd ?st" _ S2] S2 by (simp add: replay_tx_def Let_def)
  from Cons.IH [OF this rest] show ?case by simp
qed simp

lemma replay_blocks_inv:
  "ledger_txs hash160 S0 (concat blocks) = Some S \<Longrightarrow> replay_inv S0 S (replay_blocks hash160 (scripts S0) blocks)"
  unfolding replay_blocks_def
  by (rule replay_txs_inv) (simp_all add: replay_inv_def delta_of_def overlay_def)

section \<open>The delta of a script hash\<close>

text \<open>The new entries: those created and unspent, above the dust threshold, each once.\<close>

definition new_ok :: "created_map \<Rightarrow> (bytes \<Rightarrow> new_utxo list) \<Rightarrow> bool" where
  "new_ok created new \<longleftrightarrow> (\<forall>sh. distinct (map (\<lambda>n. (nu_txid n, nu_vout n)) (new sh)) \<and>
     (\<forall>n. n \<in> set (new sh) \<longleftrightarrow> ((nu_txid n, nu_vout n), sh, nu_amount n) \<in> set created \<and> DUST_THRESHOLD < nu_amount n))"

lemma collect_new_snoc:
  "collect_new (created @ [((t, v), sh, amt)]) ds =
     (if amt \<le> DUST_THRESHOLD then collect_new created ds
      else update_delta sh (push_new \<lparr>nu_txid = t, nu_vout = v, nu_amount = amt\<rparr>) (collect_new created ds))"
  by (simp add: collect_new_def)

lemma collect_new_correct:
  assumes "distinct (map fst created)" and "\<forall>sh. sd_new_utxos (delta_of ds sh) = []" and "distinct (map fst ds)"
  shows "new_ok created (\<lambda>sh. sd_new_utxos (delta_of (collect_new created ds) sh)) \<and>
    (\<forall>sh. sd_spent (delta_of (collect_new created ds) sh) = sd_spent (delta_of ds sh)) \<and>
    distinct (map fst (collect_new created ds))"
  using assms(1)
proof (induction created rule: rev_induct)
  case Nil
  then show ?case using assms(2,3) by (simp add: new_ok_def collect_new_def)
next
  case (snoc p created)
  obtain t v sh amt where p: "p = ((t, v), sh, amt)" by (metis surj_pair)
  let ?new = "\<lambda>s. sd_new_utxos (delta_of (collect_new created ds) s)" and ?n = "\<lparr>nu_txid = t, nu_vout = v, nu_amount = amt\<rparr>"
  have IH: "new_ok created ?new"
    "\<forall>s. sd_spent (delta_of (collect_new created ds) s) = sd_spent (delta_of ds s)"
    "distinct (map fst (collect_new created ds))" using snoc by auto
  have fresh: "(t, v) \<notin> fst ` set created" using snoc.prems p by simp
  then have nodup: "(t, v) \<notin> (\<lambda>n. (nu_txid n, nu_vout n)) ` set (?new s)" for s
    using IH(1) by (force simp: new_ok_def)
  have n: "((nu_txid n, nu_vout n), s, nu_amount n) = p \<longleftrightarrow> n = ?n \<and> s = sh" for n s by (auto simp: p)
  show ?case
  proof (cases "amt \<le> DUST_THRESHOLD")
    case True
    then have "new_ok (created @ [p]) ?new" using IH(1) n by (auto simp: new_ok_def)
    then show ?thesis using IH(2,3) True by (simp add: collect_new_snoc p)
  next
    case False
    then have "new_ok (created @ [p]) (\<lambda>s. ?new s @ (if s = sh then [?n] else []))"
      using IH(1) n nodup unfolding new_ok_def by (auto simp: not_le)
    then show ?thesis using IH(2,3) False by (simp add: collect_new_snoc p distinct_update_delta if_distrib cong: if_cong)
  qed
qed

text \<open>The delta of a script hash takes its entries before the range to those after it.\<close>

definition as_entry :: "new_utxo \<Rightarrow> sdk_utxo_entry" where
  "as_entry n = \<lparr>ux_txid = nu_txid n, ux_vout = nu_vout n, ux_amount_sats = nu_amount n\<rparr>"

lemma compute_deltas_correct:
  assumes "ledger_txs hash160 S0 (concat blocks) = Some S"
  defines "ds \<equiv> compute_deltas hash160 (scripts S0) blocks"
  shows "distinct (map fst ds)"
    and "utxos_of S sh = {e \<in> utxos_of S0 sh. (ux_txid e, ux_vout e) \<notin> spent_of ds sh} \<union>
           as_entry ` set (sd_new_utxos (delta_of ds sh))"
    and "distinct (map (\<lambda>n. (nu_txid n, nu_vout n)) (sd_new_utxos (delta_of ds sh)))"
    and "e \<in> utxos_of S0 sh \<Longrightarrow> n \<in> set (sd_new_utxos (delta_of ds sh)) \<Longrightarrow>
         (ux_txid e, ux_vout e) = (nu_txid n, nu_vout n) \<Longrightarrow> (ux_txid e, ux_vout e) \<in> spent_of ds sh"
proof -
  obtain created ds0 where st: "replay_blocks hash160 (scripts S0) blocks = (created, ds0)" by fastforce
  have inv: "replay_inv S0 S (created, ds0)" using replay_blocks_inv [OF assms(1)] st by simp
  have ds: "ds = collect_new created ds0" by (simp add: ds_def compute_deltas_def st)
  have new: "new_ok created (\<lambda>sh. sd_new_utxos (delta_of ds sh))" and spent: "spent_of ds sh = spent_of ds0 sh" for sh
    using collect_new_correct [of created ds0] inv by (simp_all add: ds replay_inv_def)
  show "distinct (map fst ds)" using collect_new_correct [of created ds0] inv by (simp add: ds replay_inv_def)
  show "distinct (map (\<lambda>n. (nu_txid n, nu_vout n)) (sd_new_utxos (delta_of ds sh)))" using new by (simp add: new_ok_def)
  have ov: "overlay S0 (map_of created) (\<lambda>k. \<exists>s. k \<in> spent_of ds s) S"
    and own: "\<forall>s. \<forall>k \<in> spent_of ds s. map_option fst (S0 k) = Some s" and dist: "distinct (map fst created)"
    using inv by (simp_all add: replay_inv_def spent)
  have base: "S0 k = Some (sh, a) \<Longrightarrow> (\<exists>s. k \<in> spent_of ds s) \<longleftrightarrow> k \<in> spent_of ds sh" for k a
    using own by force
  have mem: "n \<in> set (sd_new_utxos (delta_of ds sh)) \<longleftrightarrow>
      map_of created (nu_txid n, nu_vout n) = Some (sh, nu_amount n) \<and> DUST_THRESHOLD < nu_amount n" for n
    using new dist by (simp add: new_ok_def)
  show "(ux_txid e, ux_vout e) \<in> spent_of ds sh"
    if "e \<in> utxos_of S0 sh" "n \<in> set (sd_new_utxos (delta_of ds sh))" "(ux_txid e, ux_vout e) = (nu_txid n, nu_vout n)"
  proof -
    have "k \<in> spent_of ds sh" if "map_of created k \<noteq> None" "S0 k = Some (sh, a)" for k a
      using ov base [OF that(2)] that unfolding overlay_def by (metis option.distinct(1))
    from this [of "(ux_txid e, ux_vout e)"] that mem show ?thesis by (simp add: utxos_of_def)
  qed
  have key: "S k = Some (sh, a) \<longleftrightarrow> map_of created k = Some (sh, a) \<or> S0 k = Some (sh, a) \<and> k \<notin> spent_of ds sh" for k a
    using overlayD [OF ov, of k] base [of k a] by (cases "map_of created k") (auto split: if_splits)
  have "as_entry ` set (sd_new_utxos (delta_of ds sh)) =
      {e :: sdk_utxo_entry. map_of created (ux_txid e, ux_vout e) = Some (sh, ux_amount_sats e) \<and>
         DUST_THRESHOLD < ux_amount_sats e}"
  proof (intro set_eqI iffI)
    fix e :: sdk_utxo_entry assume "e \<in> {e. map_of created (ux_txid e, ux_vout e) = Some (sh, ux_amount_sats e) \<and> DUST_THRESHOLD < ux_amount_sats e}"
    then show "e \<in> as_entry ` set (sd_new_utxos (delta_of ds sh))"
      using mem by (intro image_eqI [of _ _ "\<lparr>nu_txid = ux_txid e, nu_vout = ux_vout e, nu_amount = ux_amount_sats e\<rparr>"])
        (simp_all add: as_entry_def)
  qed (use mem in \<open>auto simp: as_entry_def\<close>)
  then show "utxos_of S sh = {e \<in> utxos_of S0 sh. (ux_txid e, ux_vout e) \<notin> spent_of ds sh} \<union>
           as_entry ` set (sd_new_utxos (delta_of ds sh))"
    using key by (auto simp: utxos_of_def)
qed

end
