(* ===== verification/Delta_Pack.thy ===== *)
theory Delta_Pack
  imports Delta_Replay
begin

text \<open>
  From the grouped delta to the client: the records that the builder writes decode to the delta they
  came from, the packer finds their boundaries, stores them in whole chunks and points the index
  records at them, and merging a fetched record into the old entries gives the new ones.
\<close>

section \<open>Delta records\<close>

lemma try_read_written [simp]:
  "try_read_varint (write_varint_loop v @ rest) = Inr (v, length (write_varint_loop v))"
  using try_read_write_varint [of "length (write_varint_loop v @ rest)" v rest] by simp

lemma sync_read_written [simp]:
  "sync_read_varint (write_varint_loop v @ rest) = Inr (v, length (write_varint_loop v))"
  by (simp add: sync_read_varint_def)

lemma ucast_u32_bound: "\<not> (0xFFFFFFFF :: u64) < ucast (v :: u32)"
proof -
  have "unat v < 2 ^ 32" using unsigned_less [of v, where 'a = nat] by simp
  moreover from this have "unat (ucast v :: u64) = unat v"
    by (simp add: unsigned_ucast_eq take_bit_nat_eq_self)
  ultimately show ?thesis by (simp add: word_less_nat_alt)
qed

definition spent_bytes :: "out_key \<Rightarrow> bytes" where
  "spent_bytes k = fst k @ u32_to_le (snd k)"

lemma decode_spent_written:
  assumes "\<forall>k \<in> set ks. length (fst k) = 32"
  shows "decode_spent (pre @ concat (map write_spent ks) @ rest) (length ks) (length pre) =
    Inr (map spent_bytes ks, length pre + length (concat (map write_spent ks)))"
  using assms
proof (induction ks arbitrary: pre)
  case (Cons k ks)
  let ?rest = "concat (map write_spent ks) @ rest"
  have raw: "pre @ concat (map write_spent (k # ks)) @ rest =
      pre @ fst k @ write_varint_loop (ucast (snd k)) @ ?rest" by (simp add: write_spent_def)
  have "drop (length pre + 32) (pre @ fst k @ write_varint_loop (ucast (snd k)) @ ?rest) =
      write_varint_loop (ucast (snd k)) @ ?rest" using Cons.prems by simp
  moreover have "slice (pre @ fst k @ write_varint_loop (ucast (snd k)) @ ?rest) (length pre) 32 = fst k"
    using Cons.prems by (simp add: slice_def)
  moreover have "decode_spent (pre @ fst k @ write_varint_loop (ucast (snd k)) @ ?rest) (length ks)
      (length pre + 32 + length (write_varint_loop (ucast (snd k)))) =
    Inr (map spent_bytes ks, length pre + 32 + length (write_varint_loop (ucast (snd k))) + length (concat (map write_spent ks)))"
    using Cons.IH [of "pre @ fst k @ write_varint_loop (ucast (snd k))"] Cons.prems by (simp add: add.assoc)
  ultimately show ?case using Cons.prems unfolding raw
    by (simp add: ucast_u32_bound spent_bytes_def write_spent_def [of k])
qed simp

lemma decode_new_written:
  assumes "\<forall>n \<in> set ns. length (nu_txid n) = 32"
  shows "decode_new (pre @ concat (map write_new ns) @ rest) (length ns) (length pre) =
    Inr (map as_entry ns, length pre + length (concat (map write_new ns)))"
  using assms
proof (induction ns arbitrary: pre)
  case (Cons n ns)
  let ?rest = "concat (map write_new ns) @ rest"
  let ?v = "write_varint_loop (ucast (nu_vout n))" and ?a = "write_varint_loop (nu_amount n)"
  have raw: "pre @ concat (map write_new (n # ns)) @ rest = pre @ nu_txid n @ ?v @ ?a @ ?rest"
    by (simp add: write_new_def)
  have "drop (length pre + 32) (pre @ nu_txid n @ ?v @ ?a @ ?rest) = ?v @ ?a @ ?rest"
    "drop (length pre + 32 + length ?v) (pre @ nu_txid n @ ?v @ ?a @ ?rest) = ?a @ ?rest"
    using Cons.prems by simp_all
  moreover have "slice (pre @ nu_txid n @ ?v @ ?a @ ?rest) (length pre) 32 = nu_txid n"
    using Cons.prems by (simp add: slice_def)
  moreover have "decode_new (pre @ nu_txid n @ ?v @ ?a @ ?rest) (length ns) (length pre + 32 + length ?v + length ?a) =
    Inr (map as_entry ns, length pre + 32 + length ?v + length ?a + length (concat (map write_new ns)))"
    using Cons.IH [of "pre @ nu_txid n @ ?v @ ?a"] Cons.prems by (simp add: add.assoc)
  ultimately show ?case using Cons.prems unfolding raw
    by (simp add: ucast_u32_bound as_entry_def write_new_def [of n])
qed simp

definition wf_delta :: "script_delta \<Rightarrow> bool" where
  "wf_delta d \<longleftrightarrow> (\<forall>k \<in> set (sd_spent d). length (fst k) = 32) \<and> (\<forall>n \<in> set (sd_new_utxos d). length (nu_txid n) = 32) \<and>
     length (sd_spent d) < 2 ^ 64 \<and> length (sd_new_utxos d) < 2 ^ 64"

lemma decode_written_delta:
  assumes "wf_delta d"
  shows "decode_delta_data (write_script_delta d @ rest) =
    Inr \<lparr>dd_spent = map spent_bytes (sd_spent d), dd_new_utxos = map as_entry (sd_new_utxos d)\<rparr>"
proof -
  let ?c = "write_varint_loop (of_nat (length (sd_spent d)))" and ?s = "concat (map write_spent (sd_spent d))"
  let ?c' = "write_varint_loop (of_nat (length (sd_new_utxos d)))" and ?n = "concat (map write_new (sd_new_utxos d))"
  have u: "unat (of_nat (length (sd_spent d)) :: u64) = length (sd_spent d)"
    "unat (of_nat (length (sd_new_utxos d)) :: u64) = length (sd_new_utxos d)"
    using assms by (simp_all add: wf_delta_def unat_of_nat_small)
  have raw: "write_script_delta d @ rest = ?c @ ?s @ ?c' @ ?n @ rest" by (simp add: write_script_delta_def)
  have "decode_spent (?c @ ?s @ ?c' @ ?n @ rest) (length (sd_spent d)) (length ?c) =
      Inr (map spent_bytes (sd_spent d), length ?c + length ?s)"
    using decode_spent_written [of "sd_spent d" ?c "?c' @ ?n @ rest"] assms by (simp add: wf_delta_def)
  moreover have "drop (length ?c + length ?s) (?c @ ?s @ ?c' @ ?n @ rest) = ?c' @ ?n @ rest" by simp
  moreover have "decode_new (?c @ ?s @ ?c' @ ?n @ rest) (length (sd_new_utxos d)) (length ?c + length ?s + length ?c') =
      Inr (map as_entry (sd_new_utxos d), length ?c + length ?s + length ?c' + length ?n)"
    using decode_new_written [of "sd_new_utxos d" "?c @ ?s @ ?c'" rest] assms by (simp add: wf_delta_def add.assoc)
  ultimately show ?thesis unfolding raw decode_delta_data_def by (simp add: u del: drop_append)
qed

section \<open>The packer\<close>

lemma read_varint_at_written:
  "read_varint_at (pre @ write_varint_loop v @ rest) (length pre) = Some (v, length pre + length (write_varint_loop v))"
  by (simp add: read_varint_at_def read_varint_def)

lemma skip_spent_written:
  assumes "\<forall>k \<in> set ks. length (fst k) = 32"
  shows "skip_entries (pre @ concat (map write_spent ks) @ rest) 1 (length ks) (length pre) =
    Some (length pre + length (concat (map write_spent ks)))"
  using assms
proof (induction ks arbitrary: pre)
  case (Cons k ks)
  let ?v = "write_varint_loop (ucast (snd k))"
  have "read_varint_at ((pre @ fst k) @ ?v @ concat (map write_spent ks) @ rest) (length pre + 32) =
      Some (ucast (snd k), length pre + 32 + length ?v)"
    using read_varint_at_written [of "pre @ fst k" "ucast (snd k)"] Cons.prems by simp
  moreover have "skip_entries ((pre @ fst k @ ?v) @ concat (map write_spent ks) @ rest) 1 (length ks)
      (length pre + 32 + length ?v) = Some (length pre + 32 + length ?v + length (concat (map write_spent ks)))"
    using Cons.IH [of "pre @ fst k @ ?v"] Cons.prems by (simp add: add.assoc)
  ultimately show ?case using Cons.prems by (simp add: write_spent_def [of k])
qed simp

lemma skip_new_written:
  assumes "\<forall>n \<in> set ns. length (nu_txid n) = 32"
  shows "skip_entries (pre @ concat (map write_new ns) @ rest) 2 (length ns) (length pre) =
    Some (length pre + length (concat (map write_new ns)))"
  using assms
proof (induction ns arbitrary: pre)
  case (Cons n ns)
  let ?v = "write_varint_loop (ucast (nu_vout n))" and ?a = "write_varint_loop (nu_amount n)"
  have "read_varint_at ((pre @ nu_txid n) @ ?v @ ?a @ concat (map write_new ns) @ rest) (length pre + 32) =
      Some (ucast (nu_vout n), length pre + 32 + length ?v)"
    using read_varint_at_written [of "pre @ nu_txid n" "ucast (nu_vout n)"] Cons.prems by simp
  moreover have "read_varint_at ((pre @ nu_txid n @ ?v) @ ?a @ concat (map write_new ns) @ rest)
      (length pre + 32 + length ?v) = Some (nu_amount n, length pre + 32 + length ?v + length ?a)"
    using read_varint_at_written [of "pre @ nu_txid n @ ?v" "nu_amount n"] Cons.prems by (simp add: add.assoc)
  moreover have "skip_entries ((pre @ nu_txid n @ ?v @ ?a) @ concat (map write_new ns) @ rest) 2 (length ns)
      (length pre + 32 + length ?v + length ?a) =
        Some (length pre + 32 + length ?v + length ?a + length (concat (map write_new ns)))"
    using Cons.IH [of "pre @ nu_txid n @ ?v @ ?a"] Cons.prems by (simp add: add.assoc)
  ultimately show ?case using Cons.prems by (simp add: write_new_def [of n])
qed simp

lemma delta_record_end_written:
  assumes "wf_delta d"
  shows "delta_record_end (pre @ write_script_delta d @ rest) (length pre) =
    Some (length pre + length (write_script_delta d))"
proof -
  let ?c = "write_varint_loop (of_nat (length (sd_spent d)))" and ?s = "concat (map write_spent (sd_spent d))"
  let ?c' = "write_varint_loop (of_nat (length (sd_new_utxos d)))" and ?n = "concat (map write_new (sd_new_utxos d))"
  have u: "unat (of_nat (length (sd_spent d)) :: u64) = length (sd_spent d)"
    "unat (of_nat (length (sd_new_utxos d)) :: u64) = length (sd_new_utxos d)"
    using assms by (simp_all add: wf_delta_def unat_of_nat_small)
  have raw: "pre @ write_script_delta d @ rest = pre @ ?c @ ?s @ ?c' @ ?n @ rest" by (simp add: write_script_delta_def)
  have "skip_entries (pre @ ?c @ ?s @ ?c' @ ?n @ rest) 1 (length (sd_spent d)) (length pre + length ?c) =
      Some (length pre + length ?c + length ?s)"
    using skip_spent_written [of "sd_spent d" "pre @ ?c"] assms by (simp add: wf_delta_def)
  moreover have "read_varint_at (pre @ ?c @ ?s @ ?c' @ ?n @ rest) (length pre + length ?c + length ?s) =
      Some (of_nat (length (sd_new_utxos d)), length pre + length ?c + length ?s + length ?c')"
    using read_varint_at_written [of "pre @ ?c @ ?s" "of_nat (length (sd_new_utxos d))"] by (simp add: add.assoc)
  moreover have "skip_entries (pre @ ?c @ ?s @ ?c' @ ?n @ rest) 2 (length (sd_new_utxos d))
      (length pre + length ?c + length ?s + length ?c') = Some (length pre + length ?c + length ?s + length ?c' + length ?n)"
    using skip_new_written [of "sd_new_utxos d" "pre @ ?c @ ?s @ ?c'" rest] assms by (simp add: wf_delta_def add.assoc)
  moreover have "length (write_script_delta d) = length ?c + length ?s + length ?c' + length ?n"
    by (simp add: write_script_delta_def)
  ultimately show ?thesis unfolding raw delta_record_end_def by (simp add: read_varint_at_written u)
qed

text \<open>What is stored of a delta: its record in whole chunks, unless it needs too many of them.\<close>

definition record_blocks :: "script_delta \<Rightarrow> nat" where
  "record_blocks d = div_ceil (length (write_script_delta d)) BLOCK_SIZE"

definition stored_blocks :: "script_delta \<Rightarrow> nat" where
  "stored_blocks d = (if record_blocks d \<le> MAX_CHUNKS_PER_SPK then record_blocks d else 0)"

definition stored_chunks :: "script_delta \<Rightarrow> bytes" where
  "stored_chunks d =
     (if record_blocks d \<le> MAX_CHUNKS_PER_SPK
      then write_script_delta d @ replicate (record_blocks d * BLOCK_SIZE - length (write_script_delta d)) 0 else [])"

definition index_record :: "u32 \<Rightarrow> bytes \<Rightarrow> script_delta \<Rightarrow> bytes" where
  "index_record chunk_id sh d =
     sh @ u32_to_le (if stored_blocks d = 0 then 0 else chunk_id) @ [of_nat (stored_blocks d)]"

lemma record_blocks_pos: "0 < record_blocks d"
proof -
  have "0 < length (write_script_delta d)" by (simp add: write_script_delta_def)
  then show ?thesis by (simp add: record_blocks_def BLOCK_SIZE_def less_div_ceil_iff)
qed

lemma length_stored_chunks: "length (stored_chunks d) = stored_blocks d * BLOCK_SIZE"
proof -
  have "length (write_script_delta d) \<le> record_blocks d * BLOCK_SIZE"
    unfolding record_blocks_def by (subst div_ceil_le_iff [symmetric]) (simp_all add: BLOCK_SIZE_def)
  then show ?thesis by (simp add: stored_chunks_def stored_blocks_def)
qed

lemma pack_script_written:
  assumes "wf_delta d" and "length sh = 20" and "ps_pos st = length pre"
  shows "pack_script (pre @ (sh @ write_script_delta d) @ rest) st = Some
    \<lparr>ps_pos = length pre + length (sh @ write_script_delta d), ps_chunk_id = ps_chunk_id st + of_nat (stored_blocks d),
     ps_chunks = ps_chunks st @ stored_chunks d, ps_index = ps_index st @ index_record (ps_chunk_id st) sh d\<rparr>"
proof -
  have "delta_record_end (pre @ (sh @ write_script_delta d) @ rest) (length pre + 20) =
      Some (length pre + 20 + length (write_script_delta d))"
    using delta_record_end_written [OF assms(1), of "pre @ sh" rest] assms(2) by simp
  moreover have "slice (pre @ (sh @ write_script_delta d) @ rest) (length pre + 20) (length (write_script_delta d)) =
      write_script_delta d"
    using slice_append_mid [of "length pre + 20" "pre @ sh" _ "write_script_delta d" rest] assms(2) by simp
  moreover have "slice (pre @ (sh @ write_script_delta d) @ rest) (length pre) 20 = sh"
    using slice_append_mid [of "length pre" pre 20 sh "write_script_delta d @ rest"] assms(2) by simp
  ultimately show ?thesis using assms(2,3) record_blocks_pos [of d]
    by (cases st) (auto simp: pack_script_def SCRIPT_HASH_SIZE_def Let_def record_blocks_def stored_blocks_def
        stored_chunks_def index_record_def not_le)
qed

text \<open>The chunk id of the first chunk of each record.\<close>

definition first_chunk :: "delta_map \<Rightarrow> nat \<Rightarrow> nat" where
  "first_chunk ds i = sum_list (map (\<lambda>(sh, d). stored_blocks d) (take i ds))"

fun index_records :: "u32 \<Rightarrow> delta_map \<Rightarrow> bytes list" where
  "index_records c [] = []"
| "index_records c ((sh, d) # ds) = index_record c sh d # index_records (c + of_nat (stored_blocks d)) ds"

lemma pack_scripts_written:
  assumes "\<forall>(sh, d) \<in> set ds. length sh = 20 \<and> wf_delta d" and "ps_pos st = length pre"
  shows "pack_scripts (pre @ concat (map (\<lambda>(sh, d). sh @ write_script_delta d) ds) @ rest) (length ds) st =
    Some \<lparr>ps_pos = length pre + length (concat (map (\<lambda>(sh, d). sh @ write_script_delta d) ds)),
      ps_chunk_id = ps_chunk_id st + of_nat (first_chunk ds (length ds)),
      ps_chunks = ps_chunks st @ concat (map (\<lambda>(sh, d). stored_chunks d) ds),
      ps_index = ps_index st @ concat (index_records (ps_chunk_id st) ds)\<rparr>"
  using assms
proof (induction ds arbitrary: pre st)
  case Nil
  then show ?case by (cases st) (simp add: first_chunk_def)
next
  case (Cons p ds)
  obtain sh d where p: "p = (sh, d)" by (cases p)
  let ?tail = "concat (map (\<lambda>(sh, d). sh @ write_script_delta d) ds) @ rest"
  let ?st = "\<lparr>ps_pos = length pre + length (sh @ write_script_delta d),
     ps_chunk_id = ps_chunk_id st + of_nat (stored_blocks d),
     ps_chunks = ps_chunks st @ stored_chunks d, ps_index = ps_index st @ index_record (ps_chunk_id st) sh d\<rparr>"
  have "pack_script (pre @ (sh @ write_script_delta d) @ ?tail) st = Some ?st"
    using Cons.prems p by (intro pack_script_written) auto
  moreover have "ps_pos ?st = length (pre @ sh @ write_script_delta d)" by simp
  ultimately show ?case using Cons.IH [of ?st "pre @ sh @ write_script_delta d"] Cons.prems(1) p
    by (simp add: first_chunk_def add.assoc)
qed

lemma build_delta_chunks_written:
  assumes "\<forall>(sh, d) \<in> set ds. length sh = 20 \<and> wf_delta d" and "length ds < 2 ^ 32"
  shows "build_delta_chunks (write_grouped ds) =
    Some (concat (map (\<lambda>(sh, d). stored_chunks d) ds), concat (index_records 0 ds))"
proof -
  let ?h = "u32_to_le (of_nat (length ds))"
  have "u32_from_le (slice (write_grouped ds) 0 4) = of_nat (length ds)"
    by (simp add: write_grouped_def slice_def)
  then show ?thesis
    using pack_scripts_written [OF assms(1), of "\<lparr>ps_pos = 4, ps_chunk_id = 0, ps_chunks = [], ps_index = []\<rparr>" ?h "[]"] assms(2)
    by (simp add: build_delta_chunks_def write_grouped_def unat_of_nat_small)
qed

lemma index_records_nth:
  "i < length ds \<Longrightarrow> index_records c ds ! i =
     index_record (c + of_nat (first_chunk ds i)) (fst (ds ! i)) (snd (ds ! i))"
proof (induction ds arbitrary: c i)
  case (Cons p ds)
  then show ?case by (cases p; cases i) (simp_all add: first_chunk_def add.assoc)
qed simp

lemma length_index_records [simp]: "length (index_records c ds) = length ds"
  by (induction c ds rule: index_records.induct) auto

lemma index_slice:
  assumes "\<forall>(sh, d) \<in> set ds. length sh = 20" and "i < length ds"
  shows "slice (concat (index_records 0 ds)) (25 * i) 25 =
    index_record (of_nat (first_chunk ds i)) (fst (ds ! i)) (snd (ds ! i))"
proof -
  have "\<forall>r \<in> set (index_records c ds). length r = 25" for c
    using assms(1) by (induction c ds rule: index_records.induct) (auto simp: index_record_def)
  then show ?thesis
    using slice_concat_fixed [of "index_records 0 ds" 25 i "[]"] index_records_nth [OF assms(2), of 0] assms(2)
    by (simp add: mult.commute)
qed

lemma chunks_slice:
  assumes "i < length ds"
  shows "slice (concat (map (\<lambda>(sh, d). stored_chunks d) ds)) (BLOCK_SIZE * first_chunk ds i)
    (BLOCK_SIZE * stored_blocks (snd (ds ! i))) = stored_chunks (snd (ds ! i))"
proof -
  let ?pre = "concat (map (\<lambda>(sh, d). stored_chunks d) (take i ds))"
  have split: "ds = take i ds @ ds ! i # drop (Suc i) ds" using assms by (simp add: id_take_nth_drop)
  have "length (concat (map (\<lambda>(sh, d). stored_chunks d) xs)) =
      BLOCK_SIZE * sum_list (map (\<lambda>(sh, d). stored_blocks d) xs)" for xs :: delta_map
    by (induction xs) (auto simp: length_stored_chunks algebra_simps)
  then have "length ?pre = BLOCK_SIZE * first_chunk ds i" by (simp add: first_chunk_def)
  moreover have "length (stored_chunks (snd (ds ! i))) = BLOCK_SIZE * stored_blocks (snd (ds ! i))"
    by (simp add: length_stored_chunks)
  moreover have "concat (map (\<lambda>(sh, d). stored_chunks d) ds) =
      ?pre @ stored_chunks (snd (ds ! i)) @ concat (map (\<lambda>(sh, d). stored_chunks d) (drop (Suc i) ds))"
    by (subst split) (simp add: case_prod_beta)
  ultimately show ?thesis by (simp add: slice_append_mid)
qed

section \<open>Sizes of what is replayed\<close>

lemma foldl_keeps: "P st \<Longrightarrow> (\<And>st x. P st \<Longrightarrow> x \<in> set xs \<Longrightarrow> P (f st x)) \<Longrightarrow> P (foldl f st xs)"
  by (induction xs arbitrary: st) auto

lemma set_update_subset: "set (AList.update k v al) \<subseteq> insert (k, v) (set al)"
  by (induction al) auto

definition sized :: "bytes set \<Rightarrow> bytes set \<Rightarrow> bytes set \<Rightarrow> created_map \<times> delta_map \<Rightarrow> bool" where
  "sized txids hashes scripts0 st \<longleftrightarrow> (\<forall>(k, e) \<in> set (fst st). fst k \<in> txids \<and> fst e \<in> hashes) \<and>
     fst ` set (snd st) \<subseteq> scripts0"

lemma replay_input_sized:
  assumes "sized T G (ran (scripts S0)) st" shows "sized T G (ran (scripts S0)) (replay_input (scripts S0) st k)"
proof (cases "map_of (fst st) k")
  case (Some e)
  have "set (AList.delete k (fst st)) \<subseteq> set (fst st)" by (auto simp: AList.delete_eq)
  then show ?thesis using assms Some by (auto simp: replay_input_def sized_def)
next
  case None
  then show ?thesis using assms
    by (cases "S0 k") (auto simp: replay_input_def sized_def keys_update_delta intro!: ranI [of _ k])
qed

lemma replay_tx_sized:
  assumes "sized T (range hash160) (ran (scripts S0)) st" and "tx_txid tx \<in> T"
  shows "sized T (range hash160) (ran (scripts S0)) (replay_tx hash160 (scripts S0) st tx)"
proof -
  let ?st = "if tx_is_coinbase tx then st else foldl (replay_input (scripts S0)) st (tx_inputs tx)"
  have st: "sized T (range hash160) (ran (scripts S0)) ?st"
    using assms(1) by (auto intro!: foldl_keeps replay_input_sized)
  have "sized T (range hash160) (ran (scripts S0))
      (foldl (\<lambda>created (key, entry). AList.update key entry created) (fst ?st) (created_outputs hash160 tx), snd ?st)"
  proof (rule foldl_keeps [where P = "\<lambda>c. sized T (range hash160) (ran (scripts S0)) (c, snd ?st)"])
    fix c ke assume c: "sized T (range hash160) (ran (scripts S0)) (c, snd ?st)" and "ke \<in> set (created_outputs hash160 tx)"
    then obtain v script amt where ke: "ke = ((tx_txid tx, v), hash160 script, amt)" by (auto simp: created_outputs_def)
    show "sized T (range hash160) (ran (scripts S0)) ((\<lambda>(key, entry). AList.update key entry c) ke, snd ?st)"
      using c assms(2) set_update_subset [of "(tx_txid tx, v)" "(hash160 script, amt)" c] by (auto simp: ke sized_def)
  qed (use st in simp)
  then show ?thesis by (simp add: replay_tx_def Let_def)
qed

lemma compute_deltas_sized:
  fixes U :: utxo_set and hash160 :: "bytes \<Rightarrow> bytes"
  assumes "\<forall>tx \<in> set (concat blocks). tx_txid tx \<in> T"
  defines "ds \<equiv> compute_deltas hash160 (scripts U) blocks"
  shows "fst ` set ds \<subseteq> ran (scripts U) \<union> range hash160"
    and "(sh, d) \<in> set ds \<Longrightarrow> distinct (map fst ds) \<Longrightarrow> n \<in> set (sd_new_utxos d) \<Longrightarrow>
      ledger_txs hash160 U (concat blocks) = Some S \<Longrightarrow> nu_txid n \<in> T"
proof -
  obtain created ds0 where st: "replay_blocks hash160 (scripts U) blocks = (created, ds0)" by fastforce
  have "sized T (range hash160) (ran (scripts U)) (replay_blocks hash160 (scripts U) blocks)"
    unfolding replay_blocks_def
    by (rule foldl_keeps [where P = "sized T (range hash160) (ran (scripts U))"])
      (simp add: sized_def, use assms(1) replay_tx_sized in blast)
  then have sz: "\<forall>(k, e) \<in> set created. fst k \<in> T \<and> fst e \<in> range hash160" "fst ` set ds0 \<subseteq> ran (scripts U)"
    by (simp_all add: st sized_def)
  have ds: "ds = collect_new created ds0" by (simp add: ds_def compute_deltas_def st)
  show "fst ` set ds \<subseteq> ran (scripts U) \<union> range hash160" unfolding ds collect_new_def
  proof (rule foldl_keeps [where P = "\<lambda>ds. fst ` set ds \<subseteq> ran (scripts U) \<union> range hash160"])
    fix ds' :: delta_map and x assume ds': "fst ` set ds' \<subseteq> ran (scripts U) \<union> range hash160" and x: "x \<in> set created"
    obtain t v s amt where xe: "x = ((t, v), s, amt)" by (metis surj_pair)
    then have "s \<in> range hash160" using sz(1) x by fastforce
    then show "fst ` set ((\<lambda>((t, v), script_hash, amt). if amt \<le> DUST_THRESHOLD then ds'
        else update_delta script_hash (push_new \<lparr>nu_txid = t, nu_vout = v, nu_amount = amt\<rparr>) ds') x)
        \<subseteq> ran (scripts U) \<union> range hash160"
      using ds' by (simp add: xe keys_update_delta)
  qed (use sz(2) in blast)
  assume sh: "(sh, d) \<in> set ds" "distinct (map fst ds)" and n: "n \<in> set (sd_new_utxos d)"
    and ledger: "ledger_txs hash160 U (concat blocks) = Some S"
  have "replay_inv U S (created, ds0)" using replay_blocks_inv [OF ledger] st by simp
  then have "new_ok created (\<lambda>sh. sd_new_utxos (delta_of ds sh))"
    using collect_new_correct [of created ds0] by (simp add: ds replay_inv_def)
  moreover have "delta_of ds sh = d" using sh by (simp add: delta_of_def)
  ultimately have "((nu_txid n, nu_vout n), sh, nu_amount n) \<in> set created" using n by (auto simp: new_ok_def)
  then show "nu_txid n \<in> T" using sz(1) by fastforce
qed

section \<open>Properties\<close>

lemma outpoint_spent:
  assumes "length (ux_txid e) = 32" and "\<forall>k \<in> set ks. length (fst k) = 32"
  shows "outpoint e \<in> set (map spent_bytes ks) \<longleftrightarrow> (ux_txid e, ux_vout e) \<in> set ks"
proof -
  have "outpoint e = spent_bytes k \<longleftrightarrow> k = (ux_txid e, ux_vout e)" if "k \<in> set ks" for k
    using assms that by (cases k) (auto simp: outpoint_def spent_bytes_def)
  then show ?thesis by (force simp: image_iff)
qed

lemma merge_written_delta:
  assumes "wf_delta d" and "\<forall>e \<in> set entries. length (ux_txid e) = 32"
  shows "\<exists>r. merge_delta (with_entries entries) (write_script_delta d @ rest) = Inr r \<and>
    qr_entries r = filter (\<lambda>e. (ux_txid e, ux_vout e) \<notin> set (sd_spent d)) entries @ map as_entry (sd_new_utxos d)"
proof -
  have "write_script_delta d @ rest \<noteq> []" by (simp add: write_script_delta_def)
  moreover have "filter (\<lambda>e. outpoint e \<notin> set (map spent_bytes (sd_spent d))) entries =
      filter (\<lambda>e. (ux_txid e, ux_vout e) \<notin> set (sd_spent d)) entries"
    using assms outpoint_spent [of _ "sd_spent d"] by (intro filter_cong) (auto simp: wf_delta_def)
  ultimately show ?thesis using decode_written_delta [OF assms(1), of rest]
    by (simp add: merge_delta_def with_entries_def empty_result_def apply_delta_data_def del: set_map append_is_Nil_conv)
qed

lemma distinct_merged:
  assumes "distinct (map outpoint entries)" and "distinct (map (\<lambda>n. (nu_txid n, nu_vout n)) ns)"
    and "\<forall>e \<in> set entries. \<forall>n \<in> set ns. (ux_txid e, ux_vout e) = (nu_txid n, nu_vout n) \<longrightarrow> (ux_txid e, ux_vout e) \<in> K"
    and "\<forall>e \<in> set entries. length (ux_txid e) = 32" and "\<forall>n \<in> set ns. length (nu_txid n) = 32"
  shows "distinct (map outpoint (filter (\<lambda>e. (ux_txid e, ux_vout e) \<notin> K) entries @ map as_entry ns))"
proof -
  have "distinct (map (outpoint \<circ> as_entry) ns)"
    using assms(2,5) by (auto simp: distinct_map inj_on_def outpoint_def as_entry_def)
  moreover have "outpoint e \<noteq> outpoint (as_entry n)"
    if "e \<in> set entries" "n \<in> set ns" "(ux_txid e, ux_vout e) \<notin> K" for e n
    using assms(3,4,5) that by (auto simp: outpoint_def as_entry_def)
  ultimately show ?thesis using assms(1) by (auto simp: distinct_map_filter)
qed

text \<open>
  A range of blocks that is valid over the snapshot, with 32-byte transaction ids and 20-byte script
  hashes, and whose delta fits the integers of the file formats.
\<close>

definition valid_range ::
  "(bytes \<Rightarrow> bytes) \<Rightarrow> utxo_set \<Rightarrow> transaction list list \<Rightarrow> utxo_set \<Rightarrow> bool" where
  "valid_range hash160 S0 blocks S \<longleftrightarrow> ledger_txs hash160 S0 (concat blocks) = Some S \<and>
     (\<forall>s. length (hash160 s) = 20) \<and>
     (\<forall>k sh a. S0 k = Some (sh, a) \<longrightarrow> length (fst k) = 32 \<and> length sh = 20) \<and>
     (\<forall>tx \<in> set (concat blocks). length (tx_txid tx) = 32)"

definition fits_formats :: "delta_map \<Rightarrow> bool" where
  "fits_formats ds \<longleftrightarrow> length ds < 2 ^ 32 \<and> first_chunk ds (length ds) < 2 ^ 32 \<and>
     (\<forall>(sh, d) \<in> set ds. length (sd_spent d) < 2 ^ 64 \<and> length (sd_new_utxos d) < 2 ^ 64)"

lemma compute_deltas_wf:
  assumes "valid_range hash160 S0 blocks S" and ds: "ds = compute_deltas hash160 (scripts S0) blocks"
    and "fits_formats ds" and d: "(s, d) \<in> set ds"
  shows "length s = 20 \<and> wf_delta d \<and> delta_of ds s = d"
proof -
  have ledger: "ledger_txs hash160 S0 (concat blocks) = Some S"
    and base: "\<forall>k sh a. S0 k = Some (sh, a) \<longrightarrow> length (fst k) = 32 \<and> length sh = 20"
    and T: "\<forall>tx \<in> set (concat blocks). tx_txid tx \<in> {t. length t = 32}"
    using assms(1) by (simp_all add: valid_range_def)
  have dist: "distinct (map fst ds)" using compute_deltas_correct(1) [OF ledger] ds by simp
  then have delta: "delta_of ds s = d" using d by (simp add: delta_of_def)
  have "s \<in> ran (scripts S0) \<union> range hash160"
    using compute_deltas_sized(1) [OF T, of hash160 S0] d ds by force
  then have "(\<exists>k a. S0 k = Some (s, a)) \<or> s \<in> range hash160" by (auto simp: ran_def)
  then have "length s = 20" using assms(1) base by (metis (no_types, lifting) imageE valid_range_def)
  moreover have "\<forall>n \<in> set (sd_new_utxos d). length (nu_txid n) = 32"
    using compute_deltas_sized(2) [OF T d [unfolded ds] dist [unfolded ds] _ ledger] by blast
  moreover have "\<forall>k \<in> set (sd_spent d). length (fst k) = 32"
  proof
    obtain c ds0 where st: "replay_blocks hash160 (scripts S0) blocks = (c, ds0)" by fastforce
    have inv: "replay_inv S0 S (c, ds0)" using replay_blocks_inv [OF ledger] st by simp
    then have "spent_of ds s = spent_of ds0 s"
      using collect_new_correct [of c ds0] by (simp add: ds compute_deltas_def st replay_inv_def)
    moreover fix k assume "k \<in> set (sd_spent d)"
    ultimately have "map_option fst (S0 k) = Some s" using inv delta by (simp add: replay_inv_def)
    then obtain a where "S0 k = Some (s, a)" by auto
    then show "length (fst k) = 32" using base by blast
  qed
  ultimately show ?thesis using assms(3) d delta by (auto simp: wf_delta_def fits_formats_def)
qed

lemma stored_delta_merges:
  assumes range: "valid_range hash160 S0 blocks S" and ds: "ds = compute_deltas hash160 (scripts S0) blocks"
    and fits: "fits_formats ds" and d: "(sh, d) \<in> set ds" and n: "stored_blocks d \<noteq> 0"
    and snapshot: "set entries = utxos_of S0 sh" "distinct (map outpoint entries)"
  shows "\<exists>r. merge_delta (with_entries entries) (stored_chunks d) = Inr r \<and>
    set (qr_entries r) = utxos_of S sh \<and> distinct (map outpoint (qr_entries r))"
proof -
  have ledger: "ledger_txs hash160 S0 (concat blocks) = Some S" using range by (simp add: valid_range_def)
  note correct = compute_deltas_correct [OF ledger, folded ds]
  have wf: "wf_delta d" and delta: "delta_of ds sh = d" using compute_deltas_wf [OF range ds fits d] by auto
  have len: "\<forall>e \<in> set entries. length (ux_txid e) = 32"
    using range snapshot(1) unfolding utxos_of_def valid_range_def by fastforce
  let ?pad = "replicate (record_blocks d * BLOCK_SIZE - length (write_script_delta d)) 0"
  have "stored_chunks d = write_script_delta d @ ?pad"
    using n by (simp add: stored_chunks_def stored_blocks_def split: if_splits)
  then obtain r where r: "merge_delta (with_entries entries) (stored_chunks d) = Inr r"
    "qr_entries r = filter (\<lambda>e. (ux_txid e, ux_vout e) \<notin> set (sd_spent d)) entries @ map as_entry (sd_new_utxos d)"
    using merge_written_delta [OF wf len, of ?pad] by auto
  moreover have "distinct (map outpoint (qr_entries r))" unfolding r(2)
  proof (rule distinct_merged [OF snapshot(2) _ _ len])
    show "distinct (map (\<lambda>n. (nu_txid n, nu_vout n)) (sd_new_utxos d))" using correct(3) [of sh] delta by simp
    show "\<forall>e \<in> set entries. \<forall>n \<in> set (sd_new_utxos d). (ux_txid e, ux_vout e) = (nu_txid n, nu_vout n) \<longrightarrow>
        (ux_txid e, ux_vout e) \<in> set (sd_spent d)"
    proof (intro ballI impI)
      fix e n assume "e \<in> set entries" "n \<in> set (sd_new_utxos d)" "(ux_txid e, ux_vout e) = (nu_txid n, nu_vout n)"
      with correct(4) [of e sh n] delta snapshot(1) show "(ux_txid e, ux_vout e) \<in> set (sd_spent d)" by simp
    qed
    show "\<forall>n \<in> set (sd_new_utxos d). length (nu_txid n) = 32" using wf by (simp add: wf_delta_def)
  qed
  moreover have "set (qr_entries r) = utxos_of S sh" unfolding correct(2) r(2) delta using snapshot(1) by auto
  ultimately show ?thesis by blast
qed

text \<open>
  C8: A delta database turns the old balance of every script hash into the new one. For valid blocks,
  the record that the builder indexes for a script hash decodes and merges into the entries of the
  snapshot to exactly its unspent non-dust entries after the blocks, without duplicates; a script hash
  without a record is unchanged; only records of more than 255 chunks are left to the sentinel.
\<close>

theorem delta_database_correct:
  assumes range: "valid_range hash160 S0 blocks S"
    and ds: "ds = compute_deltas hash160 (\<lambda>k. map_option fst (S0 k)) blocks" and fits: "fits_formats ds"
    and snapshot: "set entries = utxos_of S0 sh" "distinct (map outpoint entries)"
  shows "\<exists>chunks index. build_delta_chunks (write_grouped ds) = Some (chunks, index) \<and>
    (\<forall>i < length ds. fst (ds ! i) = sh \<longrightarrow> (\<exists>start n.
       slice index (25 * i) 25 = sh @ u32_to_le start @ [of_nat n] \<and> n = stored_blocks (snd (ds ! i)) \<and>
       (n \<noteq> 0 \<longrightarrow> (\<exists>r. merge_delta (with_entries entries) (slice chunks (40 * unat start) (40 * n)) = Inr r \<and>
          set (qr_entries r) = utxos_of S sh \<and> distinct (map outpoint (qr_entries r)))))) \<and>
    (sh \<notin> fst ` set ds \<longrightarrow> utxos_of S sh = utxos_of S0 sh)"
proof -
  let ?chunks = "concat (map (\<lambda>(sh, d). stored_chunks d) ds)" and ?index = "concat (index_records 0 ds)"
  note wf = compute_deltas_wf [OF range ds fits]
  have scripts: "\<forall>(sh, d) \<in> set ds. length sh = 20" using wf by blast
  have build: "build_delta_chunks (write_grouped ds) = Some (?chunks, ?index)"
    using wf fits by (intro build_delta_chunks_written) (auto simp: fits_formats_def)
  have "\<exists>start n. slice ?index (25 * i) 25 = sh @ u32_to_le start @ [of_nat n] \<and> n = stored_blocks (snd (ds ! i)) \<and>
      (n \<noteq> 0 \<longrightarrow> (\<exists>r. merge_delta (with_entries entries) (slice ?chunks (40 * unat start) (40 * n)) = Inr r \<and>
         set (qr_entries r) = utxos_of S sh \<and> distinct (map outpoint (qr_entries r))))"
    if i: "i < length ds" "fst (ds ! i) = sh" for i
  proof -
    define d where "d = snd (ds ! i)"
    have d: "(sh, d) \<in> set ds" using i by (metis d_def nth_mem prod.collapse)
    let ?n = "stored_blocks d" and ?start = "if stored_blocks d = 0 then 0 else of_nat (first_chunk ds i) :: u32"
    have "slice ?index (25 * i) 25 = sh @ u32_to_le ?start @ [of_nat ?n]"
      using index_slice [OF scripts i(1)] i(2) by (simp add: index_record_def d_def)
    moreover have "slice ?chunks (40 * unat ?start) (40 * ?n) = stored_chunks d" if n: "?n \<noteq> 0"
    proof -
      have "first_chunk ds i \<le> first_chunk ds (length ds)"
        unfolding first_chunk_def by (metis append_take_drop_id le_add1 map_append sum_list_append take_all order_refl)
      then have "unat ?start = first_chunk ds i" using fits n by (simp add: fits_formats_def unat_of_nat_small)
      then show ?thesis using chunks_slice [OF i(1)] by (simp add: d_def BLOCK_SIZE_def)
    qed
    ultimately show ?thesis using stored_delta_merges [OF range ds fits d _ snapshot] d_def by metis
  qed
  moreover have "utxos_of S sh = utxos_of S0 sh" if "sh \<notin> fst ` set ds"
  proof -
    have "map_of ds sh = None" using that by (simp add: map_of_eq_None_iff)
    then show ?thesis
      using compute_deltas_correct(2) [of hash160 S0 blocks S sh] range by (simp add: delta_of_def valid_range_def flip: ds)
  qed
  ultimately show ?thesis using build by blast
qed

text \<open>A transaction that spends the only entry of a script hash and pays two outputs to it, one of them dust.\<close>

definition sample_hash :: "bytes \<Rightarrow> bytes" where
  "sample_hash script = replicate 20 (case script of [] \<Rightarrow> 0 | b # _ \<Rightarrow> b)"

definition sample_tx :: transaction where
  "sample_tx = \<lparr>tx_is_coinbase = False, tx_inputs = [(replicate 32 1, 0)], tx_txid = replicate 32 2,
     tx_outputs = [([5], 700), ([5], 100)]\<rparr>"

definition sample_delta :: script_delta where
  "sample_delta = \<lparr>sd_spent = [(replicate 32 1, 0)],
     sd_new_utxos = [\<lparr>nu_txid = replicate 32 2, nu_vout = 0, nu_amount = 700\<rparr>]\<rparr>"

definition sample_set :: utxo_set where
  "sample_set = [(replicate 32 1, 0) \<mapsto> (replicate 20 5, 1000)]"

lemma sample_outputs:
  "created_outputs sample_hash sample_tx =
     [((replicate 32 2, 0), replicate 20 5, 700), ((replicate 32 2, 1), replicate 20 5, 100)]"
  by (simp add: created_outputs_def sample_tx_def sample_hash_def)

lemma replicate_bytes_neq: "replicate 32 1 \<noteq> replicate 32 (2 :: u8)"
  by (simp add: numeral_eq_Suc)

lemma sample_range:
  "valid_range sample_hash sample_set [[sample_tx]]
     [(replicate 32 2, 0) \<mapsto> (replicate 20 5, 700), (replicate 32 2, 1) \<mapsto> (replicate 20 5, 100)]"
proof -
  have "ledger_tx sample_hash sample_set sample_tx =
      Some [(replicate 32 2, 0) \<mapsto> (replicate 20 5, 700), (replicate 32 2, 1) \<mapsto> (replicate 20 5, 100)]"
    using replicate_bytes_neq unfolding ledger_tx_def sample_outputs
    by (simp add: sample_tx_def sample_set_def)
  moreover have "\<forall>k sh a. sample_set k = Some (sh, a) \<longrightarrow> length (fst k) = 32 \<and> length sh = 20"
    by (auto simp: sample_set_def split: if_splits)
  moreover have "length (tx_txid sample_tx) = 32" by (simp add: sample_tx_def)
  ultimately show ?thesis by (simp add: valid_range_def sample_hash_def)
qed

lemma sample_deltas:
  "compute_deltas sample_hash (\<lambda>k. map_option fst (sample_set k)) [[sample_tx]] = [(replicate 20 5, sample_delta)]"
proof -
  have "replay_blocks sample_hash (scripts sample_set) [[sample_tx]] =
      ([((replicate 32 2, 0), replicate 20 5, 700), ((replicate 32 2, 1), replicate 20 5, 100)],
       [(replicate 20 5, \<lparr>sd_spent = [(replicate 32 1, 0)], sd_new_utxos = []\<rparr>)])"
    unfolding replay_blocks_def replay_tx_def concat.simps append_Nil2 foldl.simps sample_outputs
    by (simp add: replay_input_def sample_tx_def sample_set_def push_spent_def Let_def)
  then show ?thesis by (simp add: compute_deltas_def collect_new_def push_new_def DUST_THRESHOLD_def sample_delta_def)
qed

lemma sample_stored: "stored_blocks sample_delta \<noteq> 0" "stored_blocks sample_delta \<le> 255"
proof -
  have "length (write_script_delta sample_delta) \<le> 200"
    using length_write_varint_loop_le [of 1 10] length_write_varint_loop_le [of 0 10] length_write_varint_loop_le [of 700 10]
    by (simp add: write_script_delta_def sample_delta_def write_spent_def write_new_def)
  then have "record_blocks sample_delta \<le> 255"
    unfolding record_blocks_def by (subst div_ceil_le_iff) (simp_all add: BLOCK_SIZE_def)
  then show "stored_blocks sample_delta \<noteq> 0" "stored_blocks sample_delta \<le> 255"
    using record_blocks_pos [of sample_delta] by (simp_all add: stored_blocks_def MAX_CHUNKS_PER_SPK_def)
qed

theorem delta_database_correct_witness:
  "\<exists>chunks index start n r. build_delta_chunks (write_grouped [(replicate 20 5, sample_delta)]) = Some (chunks, index) \<and>
     slice index 0 25 = replicate 20 5 @ u32_to_le start @ [of_nat n] \<and>
     merge_delta (with_entries [\<lparr>ux_txid = replicate 32 1, ux_vout = 0, ux_amount_sats = 1000\<rparr>])
       (slice chunks (40 * unat start) (40 * n)) = Inr r \<and>
     set (qr_entries r) = {\<lparr>ux_txid = replicate 32 2, ux_vout = 0, ux_amount_sats = 700\<rparr>}"
proof -
  let ?ds = "[(replicate 20 5, sample_delta)]"
  let ?S = "[(replicate 32 2, 0) \<mapsto> (replicate 20 5, 700), (replicate 32 2, 1) \<mapsto> (replicate 20 5, 100)] :: utxo_set"
  have fits: "fits_formats ?ds"
    using sample_stored by (simp add: fits_formats_def first_chunk_def sample_delta_def)
  have old: "set [\<lparr>ux_txid = replicate 32 1, ux_vout = 0, ux_amount_sats = 1000\<rparr>] = utxos_of sample_set (replicate 20 5)"
    by (auto simp: utxos_of_def sample_set_def DUST_THRESHOLD_def split: if_splits)
  have new: "utxos_of ?S (replicate 20 5) = {\<lparr>ux_txid = replicate 32 2, ux_vout = 0, ux_amount_sats = 700\<rparr>}"
    by (auto simp: utxos_of_def DUST_THRESHOLD_def split: if_splits)
  have "distinct (map outpoint [\<lparr>ux_txid = replicate 32 1, ux_vout = 0, ux_amount_sats = 1000\<rparr>])" by simp
  from delta_database_correct [OF sample_range sample_deltas [symmetric] fits old this]
  show ?thesis using sample_stored(1) unfolding new by fastforce
qed

end
