(* ===== verification/Wire.thy ===== *)
theory Wire
  imports Seeds
begin

text \<open>
  Vocabulary of the wire decoders in \<open>crates/protocol/runtime/src/protocol.rs\<close>. A decoder of the code
  holds a buffer and a position; the model passes the unread rest \<open>data[pos..]\<close>, so that
  \<open>pos + n > data.len()\<close> is \<open>length d < n\<close>. Indexing or slicing beyond the end is a panic, kept apart
  from the error values: \<open>usize\<close> has 64 bits, no position overflows.
\<close>

section \<open>Results and readers\<close>

datatype wire_error = Wire_Io io_error | Wire_Panic

type_synonym 'a wire = "(wire_error, 'a) result"
type_synonym 'a reader = "bytes \<Rightarrow> ('a \<times> bytes) wire"

named_theorems wire_simps \<open>readers on what the writers produce\<close>

text \<open>\<open>io::Error::new(io::ErrorKind::InvalidData, msg)\<close>\<close>

definition invalid :: "string \<Rightarrow> 'a wire" where
  "invalid msg = Inl (Wire_Io (InvalidData msg))"

text \<open>\<open>&data[pos..pos + n]\<close> and \<open>pos += n\<close>\<close>

definition get_bytes :: "nat \<Rightarrow> bytes reader" where
  "get_bytes n d = (if length d < n then Inl Wire_Panic else Inr (take n d, drop n d))"

definition get_u8 :: "u8 reader" where
  "get_u8 d = (if d = [] then Inl Wire_Panic else Inr (d ! 0, drop 1 d))"

definition get_u16 :: "u16 reader" where
  "get_u16 d = rbind (get_bytes 2 d) (\<lambda>(b, r). Inr (u16_from_le b, r))"

definition get_u32 :: "u32 reader" where
  "get_u32 d = rbind (get_bytes 4 d) (\<lambda>(b, r). Inr (u32_from_le b, r))"

definition get_u64 :: "u64 reader" where
  "get_u64 d = rbind (get_bytes 8 d) (\<lambda>(b, r). Inr (u64_from_le b, r))"

text \<open>\<open>for _ in 0..n { xs.push(..) }\<close>, leaving at the first error\<close>

fun read_list :: "nat \<Rightarrow> 'a reader \<Rightarrow> 'a list reader" where
  "read_list 0 rd d = Inr ([], d)"
| "read_list (Suc n) rd d =
     rbind (rd d) (\<lambda>(x, d). rbind (read_list n rd d) (\<lambda>(xs, d). Inr (x # xs, d)))"

lemma get_u8_Cons [simp, wire_simps]: "get_u8 (b # r) = Inr (b, r)"
  by (simp add: get_u8_def)

lemma get_bytes_enough [simp, wire_simps]: "n \<le> length d \<Longrightarrow> get_bytes n d = Inr (take n d, drop n d)"
  by (simp add: get_bytes_def)

lemma get_enough [simp, wire_simps]:
  "1 \<le> length d \<Longrightarrow> get_u8 d = Inr (d ! 0, drop 1 d)"
  "2 \<le> length d \<Longrightarrow> get_u16 d = Inr (u16_from_le (take 2 d), drop 2 d)"
  "4 \<le> length d \<Longrightarrow> get_u32 d = Inr (u32_from_le (take 4 d), drop 4 d)"
  "8 \<le> length d \<Longrightarrow> get_u64 d = Inr (u64_from_le (take 8 d), drop 8 d)"
  by (auto simp: get_u8_def get_u16_def get_u32_def get_u64_def)

lemma invalid_not_panic [simp]: "invalid msg \<noteq> Inl Wire_Panic"
  by (simp add: invalid_def)

lemma invalid_not_ok [simp]: "invalid msg \<noteq> Inr x"
  by (simp add: invalid_def)

lemma rbind_invalid [simp]: "rbind (invalid msg) f = invalid msg"
  by (simp add: invalid_def)

lemma rbind_panic_iff:
  "rbind m f = Inl Wire_Panic \<longleftrightarrow> m = Inl Wire_Panic \<or> (\<exists>x. m = Inr x \<and> f x = Inl Wire_Panic)"
  by (cases m) auto

text \<open>No panic, and only accepted values with a property: closed under the shapes of a decoder.\<close>

definition wire_safe :: "('a \<Rightarrow> bool) \<Rightarrow> 'a wire \<Rightarrow> bool" where
  "wire_safe P m \<longleftrightarrow> m \<noteq> Inl Wire_Panic \<and> (\<forall>x. m = Inr x \<longrightarrow> P x)"

lemma wire_safe_simps [simp]:
  "wire_safe P (invalid msg)"
  "wire_safe P (Inr x) \<longleftrightarrow> P x"
  by (simp_all add: wire_safe_def)

lemma wire_safe_if:
  "(b \<Longrightarrow> wire_safe P m) \<Longrightarrow> (\<not> b \<Longrightarrow> wire_safe P m') \<Longrightarrow> wire_safe P (if b then m else m')"
  by simp

lemma wire_safe_rbind: "wire_safe Q m \<Longrightarrow> (\<And>x. Q x \<Longrightarrow> wire_safe P (f x)) \<Longrightarrow> wire_safe P (rbind m f)"
  by (cases m) (auto simp: wire_safe_def)

section \<open>Fields\<close>

text \<open>
  What a message needs of the fields it is made of: reading back what was written, no panic on any
  bytes, and for a checked field only well-formed values read.
\<close>

locale wire_field =
  fixes enc :: "'a \<Rightarrow> bytes" and dec :: "'a reader" and wf :: "'a \<Rightarrow> bool"
  assumes dec_enc: "wf x \<Longrightarrow> dec (enc x @ r) = Inr (x, r)"
    and dec_no_panic: "dec d \<noteq> Inl Wire_Panic"
begin

lemma read_list_enc:
  "\<forall>x \<in> set xs. wf x \<Longrightarrow> read_list (length xs) dec (concat (map enc xs) @ r) = Inr (xs, r)"
  by (induction xs) (simp_all add: dec_enc)

lemma read_list_no_panic: "read_list n dec d \<noteq> Inl Wire_Panic"
proof (induction n arbitrary: d)
  case (Suc n)
  then show ?case using dec_no_panic [of d] by (auto simp: rbind_panic_iff)
qed simp

text \<open>A list of a known number of fields is a field.\<close>

lemma list_field:
  "wire_field (\<lambda>xs. concat (map enc xs)) (read_list n dec) (\<lambda>xs. length xs = n \<and> (\<forall>x \<in> set xs. wf x))"
  using read_list_enc read_list_no_panic by unfold_locales auto

end

locale checked_field = wire_field +
  assumes dec_wf: "dec d = Inr (x, r) \<Longrightarrow> wf x"
begin

lemma read_list_wf:
  "read_list n dec d = Inr (xs, r) \<Longrightarrow> length xs = n \<and> (\<forall>x \<in> set xs. wf x)"
proof (induction n arbitrary: d xs)
  case (Suc n)
  then obtain x d' ys where "dec d = Inr (x, d')" "read_list n dec d' = Inr (ys, r)" "xs = x # ys"
    by (auto simp: case_prod_beta)
  with Suc.IH dec_wf show ?case by auto
qed simp

lemma list_checked_field:
  "checked_field (\<lambda>xs. concat (map enc xs)) (read_list n dec) (\<lambda>xs. length xs = n \<and> (\<forall>x \<in> set xs. wf x))"
  using read_list_wf by (intro checked_field.intro list_field checked_field_axioms.intro) blast

end

section \<open>Strings\<close>

text \<open>
  \<open>String::from_utf8_lossy\<close>: a maximal prefix of a character that is cut short or malformed becomes
  one replacement character. \<open>utf8_width\<close> gives the length of the character at the head, \<open>utf8_bad\<close>
  the number of bytes that one replacement covers.
\<close>

definition utf8_cont :: "u8 \<Rightarrow> bool" where
  "utf8_cont b \<longleftrightarrow> 0x80 \<le> b \<and> b \<le> 0xBF"

definition utf8_width :: "u8 \<Rightarrow> nat" where
  "utf8_width b =
     (if b < 0x80 then 1 else if 0xC2 \<le> b \<and> b \<le> 0xDF then 2 else if 0xE0 \<le> b \<and> b \<le> 0xEF then 3
      else if 0xF0 \<le> b \<and> b \<le> 0xF4 then 4 else 0)"

definition utf8_second :: "u8 \<Rightarrow> u8 \<Rightarrow> bool" where
  "utf8_second b c \<longleftrightarrow>
     (if b = 0xE0 then 0xA0 \<le> c \<and> c \<le> 0xBF else if b = 0xED then 0x80 \<le> c \<and> c \<le> 0x9F
      else if b = 0xF0 then 0x90 \<le> c \<and> c \<le> 0xBF else if b = 0xF4 then 0x80 \<le> c \<and> c \<le> 0x8F
      else utf8_cont c)"

text \<open>The number of leading bytes that form a prefix of a character, at most \<open>utf8_width\<close>.\<close>

definition utf8_prefix :: "bytes \<Rightarrow> nat" where
  "utf8_prefix bs =
     (case bs of
        [] \<Rightarrow> 0
      | b # r \<Rightarrow>
          if utf8_width b \<le> 1 then utf8_width b
          else (case r of
                  [] \<Rightarrow> 1
                | c # r \<Rightarrow>
                    if \<not> utf8_second b c then 1
                    else 2 + length (takeWhile utf8_cont (take (utf8_width b - 2) r))))"

definition REPLACEMENT :: bytes where "REPLACEMENT = [0xEF, 0xBF, 0xBD]"

function utf8_lossy :: "bytes \<Rightarrow> bytes" where
  "utf8_lossy bs =
     (if bs = [] then []
      else if 0 < utf8_width (hd bs) \<and> utf8_prefix bs = utf8_width (hd bs)
      then take (utf8_prefix bs) bs @ utf8_lossy (drop (utf8_prefix bs) bs)
      else REPLACEMENT @ utf8_lossy (drop (max 1 (utf8_prefix bs)) bs))"
  by pat_completeness auto
termination by (relation "measure length") auto

declare utf8_lossy.simps [simp del]

text \<open>The bytes of a \<open>String\<close> are a sequence of whole characters.\<close>

function utf8_valid :: "bytes \<Rightarrow> bool" where
  "utf8_valid bs =
     (if bs = [] then True
      else if 0 < utf8_width (hd bs) \<and> utf8_prefix bs = utf8_width (hd bs)
      then utf8_valid (drop (utf8_width (hd bs)) bs)
      else False)"
  by pat_completeness auto
termination by (relation "measure length") auto

declare utf8_valid.simps [simp del]

lemma utf8_lossy_valid_id: "utf8_valid bs \<Longrightarrow> utf8_lossy bs = bs"
proof (induction bs rule: utf8_valid.induct)
  case (1 bs)
  then show ?case
    by (cases "bs = []") (subst utf8_lossy.simps, auto simp: utf8_valid.simps [of bs])+
qed

lemma utf8_prefix_simps:
  "utf8_prefix [b] = min 1 (utf8_width b)"
  "utf8_prefix (b # c # r) =
     (if utf8_width b \<le> 1 then utf8_width b else if \<not> utf8_second b c then 1
      else 2 + length (takeWhile utf8_cont (take (utf8_width b - 2) r)))"
  by (auto simp: utf8_prefix_def)

lemma utf8_prefix_le: "utf8_prefix bs \<le> length bs"
proof (cases bs)
  case (Cons b t)
  have "length (takeWhile utf8_cont (take n u)) \<le> length u" for n u
    using length_takeWhile_le [of utf8_cont "take n u"] by simp
  then show ?thesis by (cases t) (auto simp: Cons utf8_prefix_simps)
qed (simp add: utf8_prefix_def)

text \<open>A whole character at the head stays one, whatever follows it.\<close>

lemma utf8_prefix_append:
  assumes "0 < utf8_width b" and "utf8_prefix (b # t) = utf8_width b"
  shows "utf8_prefix (take (utf8_width b) (b # t) @ r) = utf8_width b"
proof -
  consider "utf8_width b = 1" | c u n where "t = c # u" and "utf8_width b = Suc (Suc n)"
    using assms by (cases t; cases "utf8_width b"; cases "utf8_width b - 1") (auto simp: utf8_prefix_simps)
  then show ?thesis
  proof cases
    case 1
    then show ?thesis by (cases r) (auto simp: utf8_prefix_simps)
  next
    case 2
    have s: "utf8_second b c" and l: "length (takeWhile utf8_cont (take n u)) = n"
      using assms 2 by (auto simp: utf8_prefix_simps split: if_splits)
    moreover have "min (length u) n = n"
      using l length_takeWhile_le [of utf8_cont "take n u"] by simp
    ultimately show ?thesis using 2 by (simp add: utf8_prefix_simps)
  qed
qed

lemma utf8_valid_replacement: "utf8_valid (REPLACEMENT @ r) = utf8_valid r"
  by (subst utf8_valid.simps)
    (simp add: REPLACEMENT_def utf8_width_def utf8_prefix_def utf8_second_def utf8_cont_def numeral_3_eq_3)

text \<open>Whatever the bytes, the result is a \<open>String\<close>.\<close>

lemma utf8_valid_lossy: "utf8_valid (utf8_lossy bs)"
proof (induction bs rule: utf8_lossy.induct)
  case (1 bs)
  consider "bs = []" | "bs \<noteq> []" "0 < utf8_width (hd bs)" "utf8_prefix bs = utf8_width (hd bs)"
    | "bs \<noteq> []" "\<not> (0 < utf8_width (hd bs) \<and> utf8_prefix bs = utf8_width (hd bs))" by metis
  then show ?case
  proof cases
    case 1
    then show ?thesis by (simp add: utf8_lossy.simps utf8_valid.simps)
  next
    case 2
    then obtain b t where bs: "bs = b # t" by (cases bs) auto
    let ?r = "utf8_lossy (drop (utf8_width b) bs)"
    have "utf8_width b \<le> length bs" using utf8_prefix_le [of bs] 2 by (simp add: bs)
    moreover have "hd (take (utf8_width b) bs @ ?r) = b" "take (utf8_width b) bs \<noteq> []"
      using 2 by (auto simp: bs take_Cons' hd_append)
    ultimately have "utf8_valid (take (utf8_width b) bs @ ?r) \<longleftrightarrow> utf8_valid ?r"
      using 2 utf8_prefix_append [of b t ?r] by (subst utf8_valid.simps) (simp add: bs)
    moreover have "utf8_valid ?r" using 1(1) 2 by (simp add: bs)
    ultimately show ?thesis using 2 by (subst utf8_lossy.simps) (simp add: bs)
  next
    case 3
    then have "utf8_valid (utf8_lossy (drop (max 1 (utf8_prefix bs)) bs))" using 1(2) by blast
    with 3 show ?thesis by (subst utf8_lossy.simps) (simp only: if_False utf8_valid_replacement)
  qed
qed

end
