(* ===== verification/Wire_Request.thy ===== *)
theory Wire_Request
  imports Wire Params
begin

text \<open>
  The requests of \<open>crates/protocol/runtime/src/protocol.rs\<close>: their types, \<open>Request::encode\<close>,
  \<open>Request::decode\<close> and the helpers for batches, Harmony hints and queries, and ORAM lookups. An array
  \<open>[u8; n]\<close> is a byte list of that length.
\<close>

section \<open>Requests\<close>

record batch_query =
  bq_level :: u8
  bq_round_id :: u16
  bq_db_id :: u8
  bq_keys :: "bytes list list"

record harmony_hint_request =
  hh_prp_key :: bytes
  hh_prp_backend :: u8
  hh_level :: u8
  hh_group_ids :: bytes
  hh_db_id :: u8

record harmony_hint_request_v2 =
  h2_db_id :: u8

record harmony_hint_request_v2_half =
  hf_session_token :: bytes
  hf_side :: u8
  hf_db_id :: u8

record harmony_batch_item =
  hi_group_id :: u8
  hi_sub_queries :: "u32 list list"

record harmony_batch_query =
  hq_level :: u8
  hq_round_id :: u16
  hq_sub_queries_per_group :: u8
  hq_items :: "harmony_batch_item list"
  hq_db_id :: u8

record oram_lookup_request =
  ol_db_id :: u8
  ol_script_hashes :: "bytes list"
  ol_slot_present :: "bool list"

datatype request =
    Ping
  | GetInfo
  | GetDbCatalog
  | GetDbProof u8
  | GetDbProofV2 u8
  | Attest bytes
  | Handshake bytes bytes
  | IndexBatch batch_query
  | ChunkBatch batch_query
  | BucketMerkleSibBatch batch_query
  | HarmonyGetInfo
  | HarmonyHints harmony_hint_request
  | HarmonyHintsV2 harmony_hint_request_v2
  | HarmonyHintsV2Half harmony_hint_request_v2_half
  | HarmonyBatchQuery harmony_batch_query
  | OramLookup oram_lookup_request
  | Announce
  | CreditPresent u8 bytes
  | ApiKey bytes

definition REQ_PING :: u8 where "REQ_PING = 0x00"
definition REQ_GET_INFO :: u8 where "REQ_GET_INFO = 0x01"
definition REQ_GET_DB_CATALOG :: u8 where "REQ_GET_DB_CATALOG = 0x02"
definition REQ_ATTEST :: u8 where "REQ_ATTEST = 0x05"
definition REQ_HANDSHAKE :: u8 where "REQ_HANDSHAKE = 0x06"
definition REQ_ANNOUNCE :: u8 where "REQ_ANNOUNCE = 0x07"
definition REQ_GET_DB_PROOF :: u8 where "REQ_GET_DB_PROOF = 0x0a"
definition REQ_GET_DB_PROOF_V2 :: u8 where "REQ_GET_DB_PROOF_V2 = 0x0c"
definition REQ_INDEX_BATCH :: u8 where "REQ_INDEX_BATCH = 0x11"
definition REQ_CREDIT_PRESENT :: u8 where "REQ_CREDIT_PRESENT = 0x12"
definition REQ_API_KEY :: u8 where "REQ_API_KEY = 0x13"
definition REQ_CHUNK_BATCH :: u8 where "REQ_CHUNK_BATCH = 0x21"
definition REQ_BUCKET_MERKLE_SIB_BATCH :: u8 where "REQ_BUCKET_MERKLE_SIB_BATCH = 0x33"
definition REQ_HARMONY_GET_INFO :: u8 where "REQ_HARMONY_GET_INFO = 0x40"
definition REQ_HARMONY_HINTS :: u8 where "REQ_HARMONY_HINTS = 0x41"
definition REQ_HARMONY_BATCH_QUERY :: u8 where "REQ_HARMONY_BATCH_QUERY = 0x43"
definition REQ_HARMONY_HINTS_V2 :: u8 where "REQ_HARMONY_HINTS_V2 = 0x44"
definition REQ_HARMONY_HINTS_V2_HALF :: u8 where "REQ_HARMONY_HINTS_V2_HALF = 0x46"
definition REQ_ORAM_LOOKUP :: u8 where "REQ_ORAM_LOOKUP = 0x60"

lemmas request_opcodes = REQ_PING_def REQ_GET_INFO_def REQ_GET_DB_CATALOG_def REQ_ATTEST_def REQ_HANDSHAKE_def
  REQ_ANNOUNCE_def REQ_GET_DB_PROOF_def REQ_GET_DB_PROOF_V2_def REQ_INDEX_BATCH_def REQ_CREDIT_PRESENT_def
  REQ_API_KEY_def REQ_CHUNK_BATCH_def REQ_BUCKET_MERKLE_SIB_BATCH_def REQ_HARMONY_GET_INFO_def
  REQ_HARMONY_HINTS_def REQ_HARMONY_BATCH_QUERY_def REQ_HARMONY_HINTS_V2_def REQ_HARMONY_HINTS_V2_HALF_def
  REQ_ORAM_LOOKUP_def

definition MAX_CREDIT_PRESENT_PAYLOAD_LEN :: nat where "MAX_CREDIT_PRESENT_PAYLOAD_LEN = 256 * 1024"
definition MAX_API_KEY_LEN :: nat where "MAX_API_KEY_LEN = 128"
definition MAX_ORAM_LOOKUP_SCRIPTHASHES :: nat where "MAX_ORAM_LOOKUP_SCRIPTHASHES = 256"
definition ORAM_LOOKUP_PADDED_MARKER :: u16 where "ORAM_LOOKUP_PADDED_MARKER = 0xFFFF"
definition MAX_KEYS_PER_GROUP :: nat where "MAX_KEYS_PER_GROUP = 8"
definition MIN_DPF_DOMAIN_N :: u8 where "MIN_DPF_DOMAIN_N = 7"
definition MAX_DPF_DOMAIN_N :: u8 where "MAX_DPF_DOMAIN_N = 32"

section \<open>Batches of DPF keys\<close>

definition validate_dpf_key_bytes :: "bytes \<Rightarrow> (string, unit) result" where
  "validate_dpf_key_bytes bs =
     (if length bs < 18 then Inl ''key too short''
      else (let n = bs ! 0
            in if \<not> (MIN_DPF_DOMAIN_N \<le> n \<and> n \<le> MAX_DPF_DOMAIN_N) then Inl ''domain n outside bounds''
               else (let max_layer = unat (n - 7); expected_size = 1 + 16 + 1 + 18 * max_layer + 16
                     in if length bs < expected_size then Inl ''key length below expected'' else Inr ())))"

text \<open>A blob behind a two-byte length, the entry of key and result batches.\<close>

definition encode_blob16 :: "bytes \<Rightarrow> bytes" where
  "encode_blob16 b = u16_to_le (of_nat (length b)) @ b"

definition db_id_suffix :: "u8 \<Rightarrow> bytes" where
  "db_id_suffix db_id = (if db_id \<noteq> 0 then [db_id] else [])"

definition trailing_db_id :: "bytes \<Rightarrow> u8" where
  "trailing_db_id d = (if d \<noteq> [] then d ! 0 else 0)"

definition encode_batch_query :: "batch_query \<Rightarrow> bytes" where
  "encode_batch_query q =
     u16_to_le (bq_round_id q) @ [of_nat (length (bq_keys q))] @
     [of_nat (case bq_keys q of [] \<Rightarrow> 0 | k # _ \<Rightarrow> length k)] @
     concat (map (\<lambda>group_keys. concat (map encode_blob16 group_keys)) (bq_keys q)) @
     db_id_suffix (bq_db_id q)"

definition decode_key :: "bytes reader" where
  "decode_key d =
     (if length d < 2 then invalid ''truncated key''
      else rbind (get_u16 d) (\<lambda>(len, d).
        if length d < unat len then invalid ''truncated key data''
        else rbind (get_bytes (unat len) d) (\<lambda>(key, d).
          rbind (map_err (\<lambda>e. Wire_Io (InvalidData ''bad DPF key'')) (validate_dpf_key_bytes key)) (\<lambda>_.
            Inr (key, d)))))"

definition decode_batch_query :: "bytes \<Rightarrow> nat \<Rightarrow> batch_query wire" where
  "decode_batch_query data min_keys_per_group =
     (if length data < 4 then invalid ''batch query too short''
      else rbind (get_u16 data) (\<lambda>(round_id, d).
        rbind (get_u8 d) (\<lambda>(num_groups, d).
        rbind (get_u8 d) (\<lambda>(keys_per_group, d).
          if MAX_KEYS_PER_GROUP < unat keys_per_group then invalid ''keys_per_group exceeds maximum''
          else if 0 < num_groups \<and> unat keys_per_group < min_keys_per_group
          then invalid ''keys_per_group below required''
          else rbind (read_list (unat num_groups) (read_list (unat keys_per_group) decode_key) d) (\<lambda>(keys, d).
            Inr \<lparr>bq_level = 0, bq_round_id = round_id, bq_db_id = trailing_db_id d, bq_keys = keys\<rparr>)))))"

section \<open>Harmony requests\<close>

definition encode_harmony_hint_request :: "harmony_hint_request \<Rightarrow> bytes" where
  "encode_harmony_hint_request h =
     hh_prp_key h @ [hh_prp_backend h, hh_level h, of_nat (length (hh_group_ids h))] @ hh_group_ids h @
     db_id_suffix (hh_db_id h)"

definition decode_harmony_hint_request :: "bytes \<Rightarrow> harmony_hint_request wire" where
  "decode_harmony_hint_request data =
     (if length data < 19 then invalid ''harmony hint request too short''
      else rbind (get_bytes 16 data) (\<lambda>(prp_key, d).
        rbind (get_u8 d) (\<lambda>(prp_backend, d).
        rbind (get_u8 d) (\<lambda>(level, d).
        rbind (get_u8 d) (\<lambda>(num_groups, d).
          if length d < unat num_groups then invalid ''truncated group list''
          else rbind (get_bytes (unat num_groups) d) (\<lambda>(group_ids, d).
            Inr \<lparr>hh_prp_key = prp_key, hh_prp_backend = prp_backend, hh_level = level,
                 hh_group_ids = group_ids, hh_db_id = trailing_db_id d\<rparr>))))))"

definition decode_harmony_hint_request_v2 :: "bytes \<Rightarrow> harmony_hint_request_v2 wire" where
  "decode_harmony_hint_request_v2 data =
     (if length data \<noteq> 2 \<and> length data \<noteq> 3 then invalid ''V2 hint request must be exactly 2 or 3 bytes''
      else rbind (get_u8 data) (\<lambda>(level_sentinel, d).
        if level_sentinel \<noteq> 0xFF then invalid ''V2 hint request expected level_sentinel 0xFF''
        else rbind (get_u8 d) (\<lambda>(reserved, d).
          if reserved \<noteq> 0 then invalid ''V2 hint request reserved byte must be zero''
          else rbind (if length data = 3 then get_u8 d else Inr (0, d)) (\<lambda>(db_id, d).
            if length data = 3 \<and> db_id = 0 then invalid ''V2 hint request must omit a zero db_id''
            else Inr \<lparr>h2_db_id = db_id\<rparr>))))"

definition decode_harmony_hint_request_v2_half :: "bytes \<Rightarrow> harmony_hint_request_v2_half wire" where
  "decode_harmony_hint_request_v2_half data =
     (if length data \<noteq> 17 \<and> length data \<noteq> 18
      then invalid ''V2 half hint request must be exactly 17 or 18 bytes''
      else rbind (get_bytes 16 data) (\<lambda>(session_token, d).
        if \<forall>b \<in> set session_token. b = 0
        then invalid ''V2 half hint request session token must be non-zero''
        else rbind (get_u8 d) (\<lambda>(side, d).
          if side \<noteq> 0 \<and> side \<noteq> 1 then invalid ''V2 half hint request side must be 0 or 1''
          else rbind (if length data = 18 then get_u8 d else Inr (0, d)) (\<lambda>(db_id, d).
            if length data = 18 \<and> db_id = 0 then invalid ''V2 half hint request must omit a zero db_id''
            else Inr \<lparr>hf_session_token = session_token, hf_side = side, hf_db_id = db_id\<rparr>))))"

definition encode_sub_query :: "u32 list \<Rightarrow> bytes" where
  "encode_sub_query sq = u32_to_le (of_nat (length sq)) @ concat (map u32_to_le sq)"

definition encode_harmony_batch_item :: "harmony_batch_item \<Rightarrow> bytes" where
  "encode_harmony_batch_item i = [hi_group_id i] @ concat (map encode_sub_query (hi_sub_queries i))"

definition encode_harmony_batch_query :: "harmony_batch_query \<Rightarrow> bytes" where
  "encode_harmony_batch_query q =
     [hq_level q] @ u16_to_le (hq_round_id q) @ u16_to_le (of_nat (length (hq_items q))) @
     [hq_sub_queries_per_group q] @ concat (map encode_harmony_batch_item (hq_items q)) @
     db_id_suffix (hq_db_id q)"

definition decode_sub_query :: "u32 list reader" where
  "decode_sub_query d =
     (if length d < 4 then invalid ''truncated batch sub-query count''
      else rbind (get_u32 d) (\<lambda>(count, d).
        if length d < unat count * 4 then invalid ''truncated batch indices''
        else rbind (get_bytes (unat count * 4) d) (\<lambda>(body, d).
          Inr (map (\<lambda>i. u32_from_le (slice body (i * 4) 4)) [0..<unat count], d))))"

definition decode_harmony_batch_item :: "u8 \<Rightarrow> harmony_batch_item reader" where
  "decode_harmony_batch_item sub_queries_per_group d =
     (if d = [] then invalid ''truncated batch group''
      else rbind (get_u8 d) (\<lambda>(group_id, d).
        rbind (read_list (unat sub_queries_per_group) decode_sub_query d) (\<lambda>(sub_queries, d).
          Inr (\<lparr>hi_group_id = group_id, hi_sub_queries = sub_queries\<rparr>, d))))"

definition decode_harmony_batch_query :: "bytes \<Rightarrow> harmony_batch_query wire" where
  "decode_harmony_batch_query data =
     (if length data < 6 then invalid ''harmony batch query too short''
      else rbind (get_u8 data) (\<lambda>(level, d).
        rbind (get_u16 d) (\<lambda>(round_id, d).
        rbind (get_u16 d) (\<lambda>(num_groups, d).
        rbind (get_u8 d) (\<lambda>(sub_queries_per_group, d).
        rbind (read_list (unat num_groups) (decode_harmony_batch_item sub_queries_per_group) d) (\<lambda>(items, d).
          Inr \<lparr>hq_level = level, hq_round_id = round_id, hq_sub_queries_per_group = sub_queries_per_group,
               hq_items = items, hq_db_id = trailing_db_id d\<rparr>))))))"

section \<open>ORAM lookups\<close>

definition oram_compact :: "u8 \<Rightarrow> bytes list \<Rightarrow> oram_lookup_request" where
  "oram_compact db_id script_hashes =
     \<lparr>ol_db_id = db_id, ol_script_hashes = script_hashes,
      ol_slot_present = replicate (length script_hashes) True\<rparr>"

definition slot_present :: "oram_lookup_request \<Rightarrow> nat \<Rightarrow> bool" where
  "slot_present q idx = (if idx < length (ol_slot_present q) then ol_slot_present q ! idx else True)"

definition all_slots_present :: "oram_lookup_request \<Rightarrow> bool" where
  "all_slots_present q \<longleftrightarrow>
     length (ol_slot_present q) = length (ol_script_hashes q) \<and> (\<forall>p \<in> set (ol_slot_present q). p)"

definition present_count :: "oram_lookup_request \<Rightarrow> nat" where
  "present_count q = length (filter (slot_present q) [0..<length (ol_script_hashes q)])"

text \<open>
  Debug builds assert that a padded request has a presence bit for every script hash and that the count fits in
  16 bits; the definition is the release build, and \<open>oram_request_ok\<close> below demands both.
\<close>

definition encode_oram_lookup_request :: "oram_lookup_request \<Rightarrow> bytes" where
  "encode_oram_lookup_request q =
     [ol_db_id q] @
     (if all_slots_present q then u16_to_le (of_nat (length (ol_script_hashes q)))
      else u16_to_le ORAM_LOOKUP_PADDED_MARKER @ u16_to_le (of_nat (length (ol_script_hashes q))) @
        map (\<lambda>idx. of_bool (slot_present q idx)) [0..<length (ol_script_hashes q)]) @
     concat (ol_script_hashes q)"

fun decode_slot_flags :: "bytes \<Rightarrow> bool list wire" where
  "decode_slot_flags [] = Inr []"
| "decode_slot_flags (f # fs) =
     (if f = 0 then rbind (decode_slot_flags fs) (\<lambda>flags. Inr (False # flags))
      else if f = 1 then rbind (decode_slot_flags fs) (\<lambda>flags. Inr (True # flags))
      else invalid ''invalid ORAM padded slot flag'')"

definition decode_oram_slots :: "u16 \<Rightarrow> bytes \<Rightarrow> (nat \<times> bool list \<times> bytes) wire" where
  "decode_oram_slots raw_count d =
     (if raw_count = ORAM_LOOKUP_PADDED_MARKER then
        (if length d < 2 then invalid ''padded ORAM lookup request too short''
         else rbind (get_u16 d) (\<lambda>(n, d).
           if length d < unat n then invalid ''truncated ORAM padded slot flags''
           else rbind (get_bytes (unat n) d) (\<lambda>(bs, d).
             rbind (decode_slot_flags bs) (\<lambda>flags. Inr (unat n, flags, d)))))
      else Inr (unat raw_count, replicate (unat raw_count) True, d))"

definition decode_oram_lookup_request :: "bytes \<Rightarrow> oram_lookup_request wire" where
  "decode_oram_lookup_request data =
     (if length data < 3 then invalid ''ORAM lookup request too short''
      else rbind (get_u8 data) (\<lambda>(db_id, d).
        rbind (get_u16 d) (\<lambda>(raw_count, d).
        rbind (decode_oram_slots raw_count d) (\<lambda>(n, flags, d).
          if MAX_ORAM_LOOKUP_SCRIPTHASHES < n then invalid ''ORAM lookup request count exceeds maximum''
          else if length d < n * SCRIPT_HASH_SIZE then invalid ''truncated ORAM scripthash list''
          else rbind (read_list n (get_bytes SCRIPT_HASH_SIZE) d) (\<lambda>(script_hashes, d).
            Inr \<lparr>ol_db_id = db_id, ol_script_hashes = script_hashes, ol_slot_present = flags\<rparr>)))))"

section \<open>Messages\<close>

fun request_payload :: "request \<Rightarrow> bytes" where
  "request_payload Ping = [REQ_PING]"
| "request_payload GetInfo = [REQ_GET_INFO]"
| "request_payload GetDbCatalog = [REQ_GET_DB_CATALOG]"
| "request_payload (GetDbProof db_id) = [REQ_GET_DB_PROOF, db_id]"
| "request_payload (GetDbProofV2 db_id) = [REQ_GET_DB_PROOF_V2, db_id]"
| "request_payload (Attest nonce) = REQ_ATTEST # nonce"
| "request_payload (Handshake client_eph_pub nonce) = REQ_HANDSHAKE # client_eph_pub @ nonce"
| "request_payload (IndexBatch q) = REQ_INDEX_BATCH # encode_batch_query q"
| "request_payload (ChunkBatch q) = REQ_CHUNK_BATCH # encode_batch_query q"
| "request_payload (BucketMerkleSibBatch q) = REQ_BUCKET_MERKLE_SIB_BATCH # encode_batch_query q"
| "request_payload HarmonyGetInfo = [REQ_HARMONY_GET_INFO]"
| "request_payload (HarmonyHints h) = REQ_HARMONY_HINTS # encode_harmony_hint_request h"
| "request_payload (HarmonyHintsV2 h) = [REQ_HARMONY_HINTS_V2, 0xFF, 0x00] @ db_id_suffix (h2_db_id h)"
| "request_payload (HarmonyHintsV2Half h) =
     REQ_HARMONY_HINTS_V2_HALF # hf_session_token h @ [hf_side h] @ db_id_suffix (hf_db_id h)"
| "request_payload (HarmonyBatchQuery q) = REQ_HARMONY_BATCH_QUERY # encode_harmony_batch_query q"
| "request_payload (OramLookup q) = REQ_ORAM_LOOKUP # encode_oram_lookup_request q"
| "request_payload Announce = [REQ_ANNOUNCE]"
| "request_payload (CreditPresent kind body) =
     [REQ_CREDIT_PRESENT, kind] @ u32_to_le (of_nat (length body)) @ body"
| "request_payload (ApiKey key) = REQ_API_KEY # key"

definition request_encode :: "request \<Rightarrow> bytes" where
  "request_encode r = u32_to_le (of_nat (length (request_payload r))) @ request_payload r"

definition decode_db_id :: "string \<Rightarrow> bytes \<Rightarrow> u8 wire" where
  "decode_db_id msg d = (if length d \<noteq> 1 then invalid msg else Inr (d ! 0))"

definition decode_handshake :: "bytes \<Rightarrow> request wire" where
  "decode_handshake d =
     (if length d < 32 + 32 then invalid ''handshake request must carry 32-byte client_eph_pub + 32-byte nonce''
      else Inr (Handshake (take 32 d) (slice d 32 32)))"

definition decode_credit_present :: "bytes \<Rightarrow> request wire" where
  "decode_credit_present d =
     (if length d < 1 + 4 then invalid ''credit present request header too short''
      else rbind (get_u8 d) (\<lambda>(kind, d).
        rbind (get_u32 d) (\<lambda>(len, d).
          if MAX_CREDIT_PRESENT_PAYLOAD_LEN < unat len
          then invalid ''credit present request: payload length above limit''
          else if length d \<noteq> unat len
          then invalid ''credit present request: payload length disagrees with buffer''
          else Inr (CreditPresent kind d))))"

definition decode_api_key :: "bytes \<Rightarrow> request wire" where
  "decode_api_key key =
     (if key = [] \<or> MAX_API_KEY_LEN < length key then invalid ''API key request: key must be 1 to 128 bytes''
      else Inr (ApiKey key))"

definition request_decode :: "bytes \<Rightarrow> request wire" where
  "request_decode data =
     (case data of
        [] \<Rightarrow> invalid ''empty request''
      | op # d \<Rightarrow>
          if op = REQ_PING then Inr Ping
          else if op = REQ_GET_INFO then Inr GetInfo
          else if op = REQ_GET_DB_CATALOG then Inr GetDbCatalog
          else if op = REQ_GET_DB_PROOF
          then rbind (decode_db_id ''db proof request must carry exactly one db_id byte'' d) (\<lambda>b. Inr (GetDbProof b))
          else if op = REQ_GET_DB_PROOF_V2
          then rbind (decode_db_id ''db proof v2 request must carry exactly one db_id byte'' d) (\<lambda>b. Inr (GetDbProofV2 b))
          else if op = REQ_ATTEST
          then (if length d < 32 then invalid ''attest request must carry a 32-byte nonce''
                else Inr (Attest (take 32 d)))
          else if op = REQ_HANDSHAKE then decode_handshake d
          else if op = REQ_INDEX_BATCH
          then rbind (decode_batch_query d INDEX_CUCKOO_NUM_HASHES) (\<lambda>q. Inr (IndexBatch q))
          else if op = REQ_CHUNK_BATCH then rbind (decode_batch_query d 0) (\<lambda>q. Inr (ChunkBatch q))
          else if op = REQ_BUCKET_MERKLE_SIB_BATCH
          then rbind (decode_batch_query d 0) (\<lambda>q. Inr (BucketMerkleSibBatch q))
          else if op = REQ_HARMONY_GET_INFO then Inr HarmonyGetInfo
          else if op = REQ_HARMONY_HINTS then rbind (decode_harmony_hint_request d) (\<lambda>h. Inr (HarmonyHints h))
          else if op = REQ_HARMONY_HINTS_V2
          then rbind (decode_harmony_hint_request_v2 d) (\<lambda>h. Inr (HarmonyHintsV2 h))
          else if op = REQ_HARMONY_HINTS_V2_HALF
          then rbind (decode_harmony_hint_request_v2_half d) (\<lambda>h. Inr (HarmonyHintsV2Half h))
          else if op = REQ_HARMONY_BATCH_QUERY
          then rbind (decode_harmony_batch_query d) (\<lambda>q. Inr (HarmonyBatchQuery q))
          else if op = REQ_ORAM_LOOKUP then rbind (decode_oram_lookup_request d) (\<lambda>q. Inr (OramLookup q))
          else if op = REQ_ANNOUNCE then Inr Announce
          else if op = REQ_CREDIT_PRESENT then decode_credit_present d
          else if op = REQ_API_KEY then decode_api_key d
          else invalid ''unknown request variant'')"

section \<open>Well-formed requests\<close>

definition key_ok :: "bytes \<Rightarrow> bool" where
  "key_ok k \<longleftrightarrow> length k < 65536 \<and> validate_dpf_key_bytes k = Inr ()"

definition batch_query_ok :: "nat \<Rightarrow> batch_query \<Rightarrow> bool" where
  "batch_query_ok min_keys q \<longleftrightarrow>
     (let n = (case bq_keys q of [] \<Rightarrow> 0 | k # _ \<Rightarrow> length k)
      in length (bq_keys q) < 256 \<and> n \<le> MAX_KEYS_PER_GROUP \<and> (bq_keys q \<noteq> [] \<longrightarrow> min_keys \<le> n) \<and>
         (\<forall>g \<in> set (bq_keys q). length g = n \<and> (\<forall>k \<in> set g. key_ok k)))"

definition harmony_item_ok :: "u8 \<Rightarrow> harmony_batch_item \<Rightarrow> bool" where
  "harmony_item_ok n i \<longleftrightarrow>
     length (hi_sub_queries i) = unat n \<and> (\<forall>sq \<in> set (hi_sub_queries i). length sq < 2 ^ 32)"

definition oram_request_ok :: "oram_lookup_request \<Rightarrow> bool" where
  "oram_request_ok q \<longleftrightarrow>
     length (ol_script_hashes q) \<le> MAX_ORAM_LOOKUP_SCRIPTHASHES \<and>
     length (ol_slot_present q) = length (ol_script_hashes q) \<and>
     (\<forall>sh \<in> set (ol_script_hashes q). length sh = SCRIPT_HASH_SIZE)"

text \<open>The requests that the decoder accepts, with the lengths of their arrays.\<close>

fun request_ok :: "request \<Rightarrow> bool" where
  "request_ok (Attest nonce) = (length nonce = 32)"
| "request_ok (Handshake client_eph_pub nonce) = (length client_eph_pub = 32 \<and> length nonce = 32)"
| "request_ok (IndexBatch q) = batch_query_ok INDEX_CUCKOO_NUM_HASHES q"
| "request_ok (ChunkBatch q) = batch_query_ok 0 q"
| "request_ok (BucketMerkleSibBatch q) = batch_query_ok 0 q"
| "request_ok (HarmonyHints h) = (length (hh_prp_key h) = 16 \<and> length (hh_group_ids h) < 256)"
| "request_ok (HarmonyHintsV2Half h) =
     (length (hf_session_token h) = 16 \<and> (\<exists>b \<in> set (hf_session_token h). b \<noteq> 0) \<and> (hf_side h = 0 \<or> hf_side h = 1))"
| "request_ok (HarmonyBatchQuery q) =
     (length (hq_items q) < 65536 \<and> (\<forall>i \<in> set (hq_items q). harmony_item_ok (hq_sub_queries_per_group q) i))"
| "request_ok (OramLookup q) = oram_request_ok q"
| "request_ok (CreditPresent kind body) = (length body \<le> MAX_CREDIT_PRESENT_PAYLOAD_LEN)"
| "request_ok (ApiKey key) = (key \<noteq> [] \<and> length key \<le> MAX_API_KEY_LEN)"
| "request_ok _ = True"

text \<open>What of a request is not on the wire: the level of a batch, which a decoder sets to 0.\<close>

fun request_norm :: "request \<Rightarrow> request" where
  "request_norm (IndexBatch q) = IndexBatch (q\<lparr>bq_level := 0\<rparr>)"
| "request_norm (ChunkBatch q) = ChunkBatch (q\<lparr>bq_level := 0\<rparr>)"
| "request_norm (BucketMerkleSibBatch q) = BucketMerkleSibBatch (q\<lparr>bq_level := 0\<rparr>)"
| "request_norm r = r"

section \<open>Fields of the requests\<close>

lemma trailing_db_id_suffix [simp]: "trailing_db_id (db_id_suffix b) = b"
  by (simp add: trailing_db_id_def db_id_suffix_def)

interpretation key: checked_field encode_blob16 decode_key key_ok
proof
  show "decode_key (encode_blob16 x @ r) = Inr (x, r)" if "key_ok x" for x r
    using that by (simp add: key_ok_def decode_key_def encode_blob16_def unat_of_nat_small)
  show "key_ok x" if "decode_key d = Inr (x, r)" for d x r
    using that unsigned_less [of "u16_from_le (take 2 d)"]
    by (auto simp: decode_key_def key_ok_def split: if_splits)
  show "decode_key d \<noteq> Inl Wire_Panic" for d
    by (auto simp: decode_key_def rbind_panic_iff map_err_def split: sum.splits)
qed

lemma concat_map_slice:
  "map (\<lambda>i. u32_from_le (slice (concat (map u32_to_le sq)) (i * 4) 4)) [0..<length sq] = sq"
  by (rule nth_equalityI) (use slice_concat_fixed [of "map u32_to_le sq" 4 _ "[]"] in auto)

interpretation sub_query: checked_field encode_sub_query decode_sub_query "\<lambda>sq. length sq < 2 ^ 32"
proof
  show "decode_sub_query (encode_sub_query x @ r) = Inr (x, r)" if "length x < 2 ^ 32" for x r
  proof -
    have "length (concat (map u32_to_le x)) = length x * 4"
      using length_concat_fixed [of "map u32_to_le x" 4] by simp
    with that show ?thesis
      by (simp add: decode_sub_query_def encode_sub_query_def unat_of_nat_small concat_map_slice)
  qed
  show "length x < 2 ^ 32" if "decode_sub_query d = Inr (x, r)" for d x r
    using that unsigned_less [of "u32_from_le (take 4 d)"]
    by (auto simp: decode_sub_query_def split: if_splits)
  show "decode_sub_query d \<noteq> Inl Wire_Panic" for d
    by (auto simp: decode_sub_query_def rbind_panic_iff)
qed

interpretation harmony_item: checked_field encode_harmony_batch_item "decode_harmony_batch_item n" "harmony_item_ok n" for n
proof
  show "decode_harmony_batch_item n (encode_harmony_batch_item x @ r) = Inr (x, r)" if "harmony_item_ok n x" for x r
    using that sub_query.read_list_enc [of "hi_sub_queries x" r]
    by (simp add: decode_harmony_batch_item_def encode_harmony_batch_item_def harmony_item_ok_def)
  show "harmony_item_ok n x" if "decode_harmony_batch_item n d = Inr (x, r)" for d x r
    using that sub_query.read_list_wf [of "unat n"]
    by (auto simp: decode_harmony_batch_item_def harmony_item_ok_def split: if_splits)
  show "decode_harmony_batch_item n d \<noteq> Inl Wire_Panic" for d
    using sub_query.read_list_no_panic [of "unat n"]
    by (cases d) (auto simp: decode_harmony_batch_item_def rbind_panic_iff)
qed

interpretation key_group: checked_field "\<lambda>g. concat (map encode_blob16 g)" "read_list n decode_key"
  "\<lambda>g. length g = n \<and> (\<forall>k \<in> set g. key_ok k)" for n
  by (rule key.list_checked_field)

section \<open>Message bodies\<close>

lemma batch_query_roundtrip:
  assumes "batch_query_ok m q"
  shows "decode_batch_query (encode_batch_query q) m = Inr (q\<lparr>bq_level := 0\<rparr>)"
proof -
  define n where "n = (case bq_keys q of [] \<Rightarrow> 0 | k # _ \<Rightarrow> length k)"
  have n: "length (bq_keys q) < 256" "n \<le> 8" "bq_keys q \<noteq> [] \<longrightarrow> m \<le> n"
    "\<forall>g \<in> set (bq_keys q). length g = n \<and> (\<forall>k \<in> set g. key_ok k)"
    using assms by (auto simp: batch_query_ok_def Let_def n_def MAX_KEYS_PER_GROUP_def)
  have u: "unat (of_nat (length (bq_keys q)) :: u8) = length (bq_keys q)" "unat (of_nat n :: u8) = n"
    using n by (auto intro!: unat_of_nat_small)
  have z: "(of_nat (length (bq_keys q)) :: u8) = 0 \<longleftrightarrow> bq_keys q = []"
    using u(1) by (simp add: word_unat_eq_iff)
  show ?thesis
    using n u z key_group.read_list_enc [OF n(4), of "db_id_suffix (bq_db_id q)"]
    by (auto simp: decode_batch_query_def encode_batch_query_def MAX_KEYS_PER_GROUP_def not_less word_gt_0
        simp flip: n_def)
qed

lemma decoded_batch_query_ok:
  assumes "decode_batch_query d m = Inr q"
  shows "batch_query_ok m q \<and> bq_level q = 0"
proof -
  have "\<exists>r. read_list (unat (d ! 2)) (read_list (unat (d ! 3)) decode_key) (drop 4 d) = Inr (bq_keys q, r)"
    and q: "bq_level q = 0" and b: "unat (d ! 3) \<le> MAX_KEYS_PER_GROUP" "0 < d ! 2 \<longrightarrow> m \<le> unat (d ! 3)"
    using assms by (auto simp: decode_batch_query_def not_less eval_nat_numeral split: if_splits)
  then have "length (bq_keys q) = unat (d ! 2)"
    "\<forall>g \<in> set (bq_keys q). length g = unat (d ! 3) \<and> (\<forall>x \<in> set g. key_ok x)"
    using key_group.read_list_wf by blast+
  moreover have "0 < d ! 2" if "bq_keys q \<noteq> []" using that calculation(1) by (auto simp: word_gt_0)
  moreover have "length (bq_keys q) < 256" using calculation(1) unsigned_less [of "d ! 2"] by simp
  ultimately show ?thesis using b q by (cases "bq_keys q") (auto simp: batch_query_ok_def)
qed

lemma decode_batch_query_no_panic: "decode_batch_query d m \<noteq> Inl Wire_Panic"
  using key_group.read_list_no_panic by (auto simp: decode_batch_query_def rbind_panic_iff)

lemma harmony_batch_query_roundtrip:
  assumes "length (hq_items q) < 65536" and "\<forall>i \<in> set (hq_items q). harmony_item_ok (hq_sub_queries_per_group q) i"
  shows "decode_harmony_batch_query (encode_harmony_batch_query q) = Inr q"
  using assms harmony_item.read_list_enc [OF assms(2), of "db_id_suffix (hq_db_id q)"]
  by (simp add: decode_harmony_batch_query_def encode_harmony_batch_query_def unat_of_nat_small)

lemma decoded_harmony_batch_query_ok:
  assumes "decode_harmony_batch_query d = Inr q"
  shows "request_ok (HarmonyBatchQuery q)"
proof -
  obtain ng :: u16 and d' r where
    "read_list (unat ng) (decode_harmony_batch_item (hq_sub_queries_per_group q)) d' = Inr (hq_items q, r)"
    using assms by (auto simp: decode_harmony_batch_query_def split: if_splits)
  from harmony_item.read_list_wf [OF this] show ?thesis using unsigned_less [of ng] by simp
qed

lemma decode_harmony_batch_query_no_panic: "decode_harmony_batch_query d \<noteq> Inl Wire_Panic"
  using harmony_item.read_list_no_panic by (auto simp: decode_harmony_batch_query_def rbind_panic_iff)

lemma decode_slot_flags_roundtrip: "decode_slot_flags (map of_bool ps) = Inr ps"
  by (induction ps) auto

lemma decode_slot_flags_props:
  "decode_slot_flags fs \<noteq> Inl Wire_Panic"
  "decode_slot_flags fs = Inr ps \<Longrightarrow> length ps = length fs"
  by (induction fs arbitrary: ps) (auto simp: rbind_panic_iff split: if_splits)

lemma read_hashes:
  "n * k \<le> length d \<Longrightarrow> \<exists>xs. read_list n (get_bytes k) d = Inr (xs, drop (n * k) d) \<and> length xs = n \<and> (\<forall>x \<in> set xs. length x = k)"
proof (induction n arbitrary: d)
  case (Suc n)
  then obtain xs where "read_list n (get_bytes k) (drop k d) = Inr (xs, drop (n * k) (drop k d))" "length xs = n"
    "\<forall>x \<in> set xs. length x = k" by (metis add_le_imp_le_diff add.commute length_drop mult_Suc)
  with Suc.prems show ?case by (auto simp: add.commute)
qed simp

lemma read_hashes_concat:
  "\<forall>x \<in> set xs. length x = k \<Longrightarrow> read_list (length xs) (get_bytes k) (concat xs) = Inr (xs, [])"
  by (induction xs) auto

lemma oram_request_roundtrip:
  assumes "oram_request_ok q"
  shows "decode_oram_lookup_request (encode_oram_lookup_request q) = Inr q"
proof -
  let ?hs = "ol_script_hashes q" and ?ps = "map (slot_present q) [0..<length (ol_script_hashes q)]"
  have n: "length ?hs \<le> 256" and k: "\<forall>x \<in> set ?hs. length x = SCRIPT_HASH_SIZE"
    using assms by (auto simp: oram_request_ok_def MAX_ORAM_LOOKUP_SCRIPTHASHES_def)
  have u: "unat (of_nat (length ?hs) :: u16) = length ?hs" using n by (intro unat_of_nat_small) auto
  have c: "length (concat ?hs) = length ?hs * SCRIPT_HASH_SIZE" by (rule length_concat_fixed [OF k])
  have m: "(of_nat (length ?hs) :: u16) \<noteq> ORAM_LOOKUP_PADDED_MARKER"
    using u n by (auto simp: ORAM_LOOKUP_PADDED_MARKER_def)
  have f: "decode_slot_flags (map (\<lambda>idx. of_bool (slot_present q idx)) [0..<length ?hs]) = Inr ?ps"
    using decode_slot_flags_roundtrip [of ?ps] by (simp add: comp_def)
  have slots: "\<exists>rest. encode_oram_lookup_request q = ol_db_id q # u16_to_le raw @ rest \<and>
      decode_oram_slots raw rest = Inr (length ?hs, ?ps, concat ?hs)"
    if "raw = (if all_slots_present q then of_nat (length ?hs) else ORAM_LOOKUP_PADDED_MARKER)" for raw
  proof (cases "all_slots_present q")
    case True
    then have "?ps = replicate (length ?hs) True"
      by (auto simp: all_slots_present_def slot_present_def intro!: nth_equalityI)
    with True m u that show ?thesis
      by (simp add: encode_oram_lookup_request_def decode_oram_slots_def)
  next
    case False
    with f u that show ?thesis by (simp add: encode_oram_lookup_request_def decode_oram_slots_def)
  qed
  have "?ps = ol_slot_present q" using assms by (auto simp: oram_request_ok_def slot_present_def intro!: nth_equalityI)
  then show ?thesis using slots [OF refl] n c read_hashes_concat [OF k]
    by (auto simp: decode_oram_lookup_request_def MAX_ORAM_LOOKUP_SCRIPTHASHES_def)
qed

lemma decode_oram_slots_props:
  "decode_oram_slots raw d \<noteq> Inl Wire_Panic"
  "decode_oram_slots raw d = Inr (n, flags, r) \<Longrightarrow> length flags = n"
  using decode_slot_flags_props
  by (auto simp: decode_oram_slots_def rbind_panic_iff split: if_splits)

lemma decode_oram_lookup_request_no_panic: "decode_oram_lookup_request d \<noteq> Inl Wire_Panic"
  using decode_oram_slots_props(1)
  by (auto simp: decode_oram_lookup_request_def rbind_panic_iff not_less dest!: read_hashes)

lemma decoded_oram_request_ok:
  assumes "decode_oram_lookup_request d = Inr q"
  shows "oram_request_ok q"
  using assms decode_oram_slots_props(2)
  by (auto simp: decode_oram_lookup_request_def oram_request_ok_def not_less split: if_splits dest!: read_hashes)

lemma hint_request_roundtrip:
  assumes "length (hh_prp_key h) = 16" and "length (hh_group_ids h) < 256"
  shows "decode_harmony_hint_request (encode_harmony_hint_request h) = Inr h"
  using assms by (simp add: decode_harmony_hint_request_def encode_harmony_hint_request_def unat_of_nat_small)

lemma hint_v2_roundtrip:
  "decode_harmony_hint_request_v2 ([0xFF, 0x00] @ db_id_suffix (h2_db_id h)) = Inr h"
  by (simp add: decode_harmony_hint_request_v2_def db_id_suffix_def)

lemma hint_v2_half_roundtrip:
  assumes "request_ok (HarmonyHintsV2Half h)"
  shows "decode_harmony_hint_request_v2_half (hf_session_token h @ [hf_side h] @ db_id_suffix (hf_db_id h)) = Inr h"
  using assms by (auto simp: decode_harmony_hint_request_v2_half_def db_id_suffix_def)

lemma decode_hints_no_panic:
  "decode_harmony_hint_request d \<noteq> Inl Wire_Panic"
  "decode_harmony_hint_request_v2 d \<noteq> Inl Wire_Panic"
  "decode_harmony_hint_request_v2_half d \<noteq> Inl Wire_Panic"
  by (auto simp: decode_harmony_hint_request_def decode_harmony_hint_request_v2_def
      decode_harmony_hint_request_v2_half_def rbind_panic_iff)

lemma decoded_hint_request_ok:
  assumes "decode_harmony_hint_request d = Inr h"
  shows "request_ok (HarmonyHints h)"
proof -
  have "length (hh_group_ids h) = unat (d ! 18)" "length (hh_prp_key h) = 16"
    using assms by (auto simp: decode_harmony_hint_request_def split: if_splits)
  then show ?thesis using unsigned_less [of "d ! 18"] by simp
qed

text \<open>The exact-length formats have one encoding of each request.\<close>

lemma decoded_hint_v2:
  assumes "decode_harmony_hint_request_v2 d = Inr h"
  shows "d = [0xFF, 0x00] @ db_id_suffix (h2_db_id h)"
proof -
  have "\<exists>a b. d = [a, b] \<or> (\<exists>c. d = [a, b, c])"
    using assms
    by (cases d; cases "tl d"; cases "tl (tl d)"; cases "tl (tl (tl d))")
      (auto simp: decode_harmony_hint_request_v2_def split: if_splits)
  with assms show ?thesis
    by (auto simp: decode_harmony_hint_request_v2_def db_id_suffix_def split: if_splits)
qed

lemma decoded_hint_v2_half:
  assumes "decode_harmony_hint_request_v2_half d = Inr h"
  shows "d = hf_session_token h @ [hf_side h] @ db_id_suffix (hf_db_id h) \<and> request_ok (HarmonyHintsV2Half h)"
proof -
  have len: "length d = 17 \<or> length d = 18"
    using assms by (auto simp: decode_harmony_hint_request_v2_half_def split: if_splits)
  have "drop 16 d = d ! 16 # drop 17 d" using len Cons_nth_drop_Suc [of 16 d] by auto
  moreover have "drop 17 d = (if length d = 18 then [d ! 17] else [])"
    using len Cons_nth_drop_Suc [of 17 d] by auto
  moreover have "hf_session_token h = take 16 d" "hf_side h = d ! 16"
    "db_id_suffix (hf_db_id h) = (if length d = 18 then [d ! 17] else [])"
    using assms by (auto simp: decode_harmony_hint_request_v2_half_def db_id_suffix_def split: if_splits)
  ultimately have "hf_session_token h @ [hf_side h] @ db_id_suffix (hf_db_id h) = take 16 d @ drop 16 d" by simp
  moreover have "request_ok (HarmonyHintsV2Half h)"
    using assms by (auto simp: decode_harmony_hint_request_v2_half_def split: if_splits) blast+
  ultimately show ?thesis by simp
qed

lemma decoded_credit_present:
  assumes "decode_credit_present d = Inr r"
  shows "request_payload r = REQ_CREDIT_PRESENT # d \<and> request_ok r"
proof -
  let ?len = "u32_from_le (take 4 (drop 1 d))"
  have r: "r = CreditPresent (d ! 0) (drop 5 d)" and l: "5 \<le> length d" "length d - 5 = unat ?len"
    "unat ?len \<le> MAX_CREDIT_PRESENT_PAYLOAD_LEN"
    using assms by (auto simp: decode_credit_present_def split: if_splits)
  have "u32_to_le ?len = take 4 (drop 1 d)" using l by (intro le_roundtrips_bytes) auto
  moreover have "d = d ! 0 # take 4 (drop 1 d) @ drop 5 d"
    using l append_take_drop_id [of 4 "drop 1 d"] by (cases d) auto
  ultimately show ?thesis using r l by (simp add: of_nat_unat)
qed

section \<open>Properties\<close>

text \<open>C16: What \<open>Request::encode\<close> writes, \<open>Request::decode\<close> reads back, for every request within the
  limits of the protocol: the frame carries the length of the payload, and the payload decodes to the
  request, up to the level of a batch, which is not on the wire. A request within the limits has one
  presence bit per script hash, which debug builds of the encoder assert for padded ORAM lookups.\<close>

theorem request_roundtrip:
  assumes "request_ok r"
  shows "\<exists>payload. request_encode r = u32_to_le (of_nat (length payload)) @ payload \<and>
    request_decode payload = Inr (request_norm r)"
proof -
  have "request_decode (request_payload r) = Inr (request_norm r)"
    using assms
    by (cases r)
      (auto simp: request_decode_def request_opcodes decode_db_id_def decode_handshake_def decode_credit_present_def
        decode_api_key_def MAX_CREDIT_PRESENT_PAYLOAD_LEN_def slice_def unat_of_nat_small batch_query_roundtrip
        hint_request_roundtrip hint_v2_roundtrip [simplified] hint_v2_half_roundtrip [simplified]
        harmony_batch_query_roundtrip oram_request_roundtrip)
  then show ?thesis by (auto simp: request_encode_def)
qed

text \<open>A sibling batch of one key with domain exponent 7, and a padded ORAM lookup.\<close>

theorem request_roundtrip_witness:
  "(\<exists>payload. request_encode (BucketMerkleSibBatch \<lparr>bq_level = 1, bq_round_id = 3, bq_db_id = 2, bq_keys = [[7 # replicate 33 0]]\<rparr>) =
      u32_to_le (of_nat (length payload)) @ payload \<and>
      request_decode payload = Inr (BucketMerkleSibBatch \<lparr>bq_level = 0, bq_round_id = 3, bq_db_id = 2, bq_keys = [[7 # replicate 33 0]]\<rparr>)) \<and>
   (\<exists>payload. request_encode (OramLookup \<lparr>ol_db_id = 0, ol_script_hashes = [replicate 20 1, replicate 20 2], ol_slot_present = [False, True]\<rparr>) =
      u32_to_le (of_nat (length payload)) @ payload \<and>
      request_decode payload = Inr (OramLookup \<lparr>ol_db_id = 0, ol_script_hashes = [replicate 20 1, replicate 20 2], ol_slot_present = [False, True]\<rparr>))"
  using request_roundtrip [of "BucketMerkleSibBatch \<lparr>bq_level = 1, bq_round_id = 3, bq_db_id = 2, bq_keys = [[7 # replicate 33 0]]\<rparr>"]
    request_roundtrip [of "OramLookup \<lparr>ol_db_id = 0, ol_script_hashes = [replicate 20 1, replicate 20 2], ol_slot_present = [False, True]\<rparr>"]
  by (simp add: batch_query_ok_def MAX_KEYS_PER_GROUP_def key_ok_def validate_dpf_key_bytes_def MIN_DPF_DOMAIN_N_def
      MAX_DPF_DOMAIN_N_def oram_request_ok_def MAX_ORAM_LOOKUP_SCRIPTHASHES_def SCRIPT_HASH_SIZE_def
      slot_present_def)

text \<open>C14: No byte string makes \<open>Request::decode\<close> panic, and what it accepts is within the limits the
  server relies on: batches of at most 8 well-framed keys per group with both keys of an index group,
  at most 256 script hashes, hint requests for a known side and a non-zero token, bounded payloads.\<close>

theorem request_decode_safe:
  "request_decode data \<noteq> Inl Wire_Panic \<and>
   (\<forall>r. request_decode data = Inr r \<longrightarrow> request_ok r \<and> request_norm r = r)"
proof (cases data)
  case Nil
  then show ?thesis by (simp add: request_decode_def)
next
  case (Cons op d)
  have batch: "wire_safe (\<lambda>q. batch_query_ok m q \<and> bq_level q = 0) (decode_batch_query d m)" for m
    by (simp add: wire_safe_def decode_batch_query_no_panic decoded_batch_query_ok)
  have hints: "wire_safe (\<lambda>h. request_ok (HarmonyHints h)) (decode_harmony_hint_request d)"
    "wire_safe (\<lambda>h. True) (decode_harmony_hint_request_v2 d)"
    "wire_safe (\<lambda>h. request_ok (HarmonyHintsV2Half h)) (decode_harmony_hint_request_v2_half d)"
    using decoded_hint_request_ok [of d] decoded_hint_v2_half [of d]
    by (simp_all add: wire_safe_def decode_hints_no_panic)
  have harmony: "wire_safe (\<lambda>q. request_ok (HarmonyBatchQuery q)) (decode_harmony_batch_query d)"
    using decoded_harmony_batch_query_ok [of d] by (simp add: wire_safe_def decode_harmony_batch_query_no_panic)
  have oram: "wire_safe oram_request_ok (decode_oram_lookup_request d)"
    using decoded_oram_request_ok [of d] by (simp add: wire_safe_def decode_oram_lookup_request_no_panic)
  have credit: "wire_safe (\<lambda>r. request_ok r \<and> request_norm r = r) (decode_credit_present d)"
    by (auto simp: wire_safe_def decode_credit_present_def split: if_splits)
  have "wire_safe (\<lambda>r. request_ok r \<and> request_norm r = r) (request_decode data)"
    unfolding Cons request_decode_def list.case
    by (intro wire_safe_if credit wire_safe_rbind [OF batch] wire_safe_rbind [OF hints(1)] wire_safe_rbind [OF hints(2)]
        wire_safe_rbind [OF hints(3)] wire_safe_rbind [OF harmony] wire_safe_rbind [OF oram])
      (auto simp: decode_db_id_def decode_handshake_def decode_api_key_def)
  then show ?thesis by (simp add: wire_safe_def)
qed

text \<open>An index batch without groups.\<close>

theorem request_decode_safe_witness:
  "request_decode [0x11, 5, 0, 0, 2, 9] \<noteq> Inl Wire_Panic \<and>
   request_ok (IndexBatch \<lparr>bq_level = 0, bq_round_id = 5, bq_db_id = 9, bq_keys = []\<rparr>)"
proof -
  have "request_decode [0x11, 5, 0, 0, 2, 9] =
      Inr (IndexBatch \<lparr>bq_level = 0, bq_round_id = 5, bq_db_id = 9, bq_keys = []\<rparr>)"
    by code_simp
  with request_decode_safe [of "[0x11, 5, 0, 0, 2, 9]"] show ?thesis by simp
qed

text \<open>The requests whose decoder insists on an exact length.\<close>

fun exact_format :: "request \<Rightarrow> bool" where
  "exact_format (GetDbProof _) = True"
| "exact_format (GetDbProofV2 _) = True"
| "exact_format (HarmonyHintsV2 _) = True"
| "exact_format (HarmonyHintsV2Half _) = True"
| "exact_format (CreditPresent _ _) = True"
| "exact_format (ApiKey _) = True"
| "exact_format _ = False"

text \<open>C18: A database proof request, a V2 hint request, a presentation of credits and an API key have
  a single wire form each: the bytes that decode to the request are the ones \<open>Request::encode\<close> writes
  for it, so no trailing or redundant byte makes a second form of the same operation.\<close>

theorem request_exact_formats:
  assumes "request_decode data = Inr r" and "exact_format r"
  shows "request_encode r = u32_to_le (of_nat (length data)) @ data"
proof -
  obtain op d where data: "data = op # d" using assms by (cases data) (auto simp: request_decode_def)
  have v2: "wire_safe (\<lambda>h. d = [0xFF, 0x00] @ db_id_suffix (h2_db_id h)) (decode_harmony_hint_request_v2 d)"
    "wire_safe (\<lambda>h. d = hf_session_token h @ [hf_side h] @ db_id_suffix (hf_db_id h)) (decode_harmony_hint_request_v2_half d)"
    using decoded_hint_v2 [of d] decoded_hint_v2_half [of d] by (simp_all add: wire_safe_def decode_hints_no_panic)
  have id: "wire_safe (\<lambda>b. d = [b]) (decode_db_id msg d)" for msg
    by (cases d) (auto simp: wire_safe_def decode_db_id_def)
  have credit: "wire_safe (\<lambda>r. request_payload r = REQ_CREDIT_PRESENT # d) (decode_credit_present d)"
    using decoded_credit_present [of d] by (auto simp: wire_safe_def decode_credit_present_def)
  have other: "wire_safe (\<lambda>q. True) (decode_batch_query d m)" "wire_safe (\<lambda>q. True) (decode_harmony_hint_request d)"
    "wire_safe (\<lambda>q. True) (decode_harmony_batch_query d)" "wire_safe (\<lambda>q. True) (decode_oram_lookup_request d)" for m
    by (simp_all add: wire_safe_def decode_batch_query_no_panic decode_hints_no_panic
        decode_harmony_batch_query_no_panic decode_oram_lookup_request_no_panic)
  have "wire_safe (\<lambda>r. exact_format r \<longrightarrow> request_payload r = data) (request_decode data)"
    unfolding data request_decode_def list.case
    using credit
    by (intro wire_safe_if wire_safe_rbind [OF id] wire_safe_rbind [OF v2(1)] wire_safe_rbind [OF v2(2)]
        wire_safe_rbind [OF other(1)] wire_safe_rbind [OF other(2)] wire_safe_rbind [OF other(3)] wire_safe_rbind [OF other(4)])
      (auto simp: decode_handshake_def decode_api_key_def wire_safe_def)
  then show ?thesis using assms by (simp add: wire_safe_def request_encode_def)
qed

text \<open>The half-stream request for the chunk side of database 3.\<close>

theorem request_exact_formats_witness:
  "request_encode (HarmonyHintsV2Half \<lparr>hf_session_token = 9 # replicate 15 0, hf_side = 1, hf_db_id = 3\<rparr>) =
     [19, 0, 0, 0, 0x46, 9] @ replicate 15 0 @ [1, 3]"
proof -
  have "request_decode (0x46 # 9 # replicate 15 0 @ [1, 3]) =
      Inr (HarmonyHintsV2Half \<lparr>hf_session_token = 9 # replicate 15 0, hf_side = 1, hf_db_id = 3\<rparr>)"
    by (simp add: request_decode_def request_opcodes decode_harmony_hint_request_v2_half_def)
  moreover have "u32_to_le 19 = [19, 0, 0, 0]" by code_simp
  ultimately show ?thesis using request_exact_formats by fastforce
qed

end
