(* ===== verification/Wire_Response.thy ===== *)
theory Wire_Response
  imports Wire_Request Cuckoo_Header
begin

text \<open>
  The responses of \<open>crates/protocol/runtime/src/protocol.rs\<close>: their types, \<open>Response::encode\<close>,
  \<open>Response::decode\<close> and the helpers for batch results, the database catalog with its anchor
  extension, proof bundles and attestation results. A \<open>String\<close> is its UTF-8 bytes.
\<close>

section \<open>Responses\<close>

record batch_result =
  br_level :: u8
  br_round_id :: u16
  br_results :: "bytes list list"

record harmony_batch_result_item =
  hr_group_id :: u8
  hr_sub_results :: "bytes list"

record harmony_batch_result =
  hb_level :: u8
  hb_round_id :: u16
  hb_sub_results_per_group :: u8
  hb_items :: "harmony_batch_result_item list"

record oram_lookup_item =
  oi_found :: bool
  oi_whale :: bool
  oi_start_chunk_id :: u32
  oi_num_chunks :: u8
  oi_raw_chunk_data :: bytes

record oram_lookup_result =
  or_db_id :: u8
  or_items :: "oram_lookup_item list"
  or_trailing_padding_bytes :: nat

record database_proof_bundle =
  dp_db_id :: u8
  dp_build_evidence :: bytes
  dp_root_bundle_payload :: bytes
  dp_sev_snp_report :: bytes
  dp_database_manifest_sha256 :: bytes
  dp_all_artifacts_manifest_sha256 :: bytes
  dp_server_db_manifest_toml :: bytes

record server_info =
  si_index_bins_per_table :: u32
  si_chunk_bins_per_table :: u32
  si_index_k :: u8
  si_chunk_k :: u8
  si_tag_seed :: u64
  si_index_master_seed :: u64
  si_chunk_master_seed :: u64
  si_anchor :: "header_anchor option"

record database_catalog_entry =
  ce_db_id :: u8
  ce_db_type :: u8
  ce_name :: bytes
  ce_base_height :: u32
  ce_height :: u32
  ce_index_bins_per_table :: u32
  ce_chunk_bins_per_table :: u32
  ce_index_k :: u8
  ce_chunk_k :: u8
  ce_tag_seed :: u64
  ce_dpf_n_index :: u8
  ce_dpf_n_chunk :: u8
  ce_has_bucket_merkle :: bool
  ce_index_master_seed :: u64
  ce_chunk_master_seed :: u64
  ce_anchor :: "header_anchor option"

record attest_result =
  ar_sev_snp_report :: bytes
  ar_manifest_roots :: "bytes list"
  ar_binary_sha256 :: bytes
  ar_server_static_pub :: bytes
  ar_git_rev :: bytes
  ar_ark_pem :: bytes
  ar_ask_pem :: bytes
  ar_vcek_pem :: bytes

datatype response =
    Pong
  | Info server_info
  | DbCatalog "database_catalog_entry list"
  | DbProof database_proof_bundle
  | DbProofV2 database_proof_bundle
  | AttestR attest_result
  | HandshakeR bytes
  | AnnounceR bytes
  | IndexBatchR batch_result
  | ChunkBatchR batch_result
  | BucketMerkleSibBatchR batch_result
  | ErrorR bytes
  | HarmonyInfo server_info
  | HarmonyBatchResult harmony_batch_result
  | OramLookupResult oram_lookup_result
  | CreditOk u64 "64 word"
  | ApiKeyOk

definition RESP_PONG :: u8 where "RESP_PONG = 0x00"
definition RESP_INFO :: u8 where "RESP_INFO = 0x01"
definition RESP_DB_CATALOG :: u8 where "RESP_DB_CATALOG = 0x02"
definition RESP_ATTEST :: u8 where "RESP_ATTEST = 0x05"
definition RESP_HANDSHAKE :: u8 where "RESP_HANDSHAKE = 0x06"
definition RESP_ANNOUNCE :: u8 where "RESP_ANNOUNCE = 0x07"
definition RESP_DB_PROOF :: u8 where "RESP_DB_PROOF = 0x0a"
definition RESP_DB_PROOF_V2 :: u8 where "RESP_DB_PROOF_V2 = 0x0c"
definition RESP_INDEX_BATCH :: u8 where "RESP_INDEX_BATCH = 0x11"
definition RESP_CREDIT_OK :: u8 where "RESP_CREDIT_OK = 0x12"
definition RESP_API_KEY_OK :: u8 where "RESP_API_KEY_OK = 0x13"
definition RESP_CHUNK_BATCH :: u8 where "RESP_CHUNK_BATCH = 0x21"
definition RESP_BUCKET_MERKLE_SIB_BATCH :: u8 where "RESP_BUCKET_MERKLE_SIB_BATCH = 0x33"
definition RESP_HARMONY_INFO :: u8 where "RESP_HARMONY_INFO = 0x40"
definition RESP_HARMONY_BATCH_QUERY :: u8 where "RESP_HARMONY_BATCH_QUERY = 0x43"
definition RESP_ORAM_LOOKUP :: u8 where "RESP_ORAM_LOOKUP = 0x60"
definition RESP_ERROR :: u8 where "RESP_ERROR = 0xFF"

lemmas response_opcodes = RESP_PONG_def RESP_INFO_def RESP_DB_CATALOG_def RESP_ATTEST_def RESP_HANDSHAKE_def
  RESP_ANNOUNCE_def RESP_DB_PROOF_def RESP_DB_PROOF_V2_def RESP_INDEX_BATCH_def RESP_CREDIT_OK_def
  RESP_API_KEY_OK_def RESP_CHUNK_BATCH_def RESP_BUCKET_MERKLE_SIB_BATCH_def RESP_HARMONY_INFO_def
  RESP_HARMONY_BATCH_QUERY_def RESP_ORAM_LOOKUP_def RESP_ERROR_def

definition DATABASE_PROOF_BUNDLE_VERSION :: u16 where "DATABASE_PROOF_BUNDLE_VERSION = 1"
definition DATABASE_PROOF_BUNDLE_VERSION_V2 :: u16 where "DATABASE_PROOF_BUNDLE_VERSION_V2 = 2"
definition CATALOG_EXT_V1 :: u8 where "CATALOG_EXT_V1 = 0x01"
definition ANCHOR_KIND_NONE :: u8 where "ANCHOR_KIND_NONE = 0"
definition ANCHOR_KIND_SNAPSHOT :: u8 where "ANCHOR_KIND_SNAPSHOT = 1"
definition ANCHOR_KIND_DELTA :: u8 where "ANCHOR_KIND_DELTA = 2"

lemmas anchor_kinds = ANCHOR_KIND_NONE_def ANCHOR_KIND_SNAPSHOT_def ANCHOR_KIND_DELTA_def

section \<open>Batch results\<close>

definition encode_batch_result :: "batch_result \<Rightarrow> bytes" where
  "encode_batch_result r =
     u16_to_le (br_round_id r) @ [of_nat (length (br_results r))] @
     [of_nat (case br_results r of [] \<Rightarrow> 0 | k # _ \<Rightarrow> length k)] @
     concat (map (\<lambda>group_results. concat (map encode_blob16 group_results)) (br_results r))"

definition decode_result_blob :: "bytes reader" where
  "decode_result_blob d =
     (if length d < 2 then invalid ''truncated result''
      else rbind (get_u16 d) (\<lambda>(len, d).
        if length d < unat len then invalid ''truncated result data''
        else get_bytes (unat len) d))"

definition decode_batch_result :: "bytes \<Rightarrow> batch_result wire" where
  "decode_batch_result data =
     (if length data < 4 then invalid ''batch result too short''
      else rbind (get_u16 data) (\<lambda>(round_id, d).
        rbind (get_u8 d) (\<lambda>(num_groups, d).
        rbind (get_u8 d) (\<lambda>(results_per_group, d).
        rbind (read_list (unat num_groups) (read_list (unat results_per_group) decode_result_blob) d) (\<lambda>(results, d).
          Inr \<lparr>br_level = 0, br_round_id = round_id, br_results = results\<rparr>)))))"

definition encode_lp_bytes_u32 :: "bytes \<Rightarrow> bytes" where
  "encode_lp_bytes_u32 body = u32_to_le (of_nat (length body)) @ body"

definition encode_harmony_result_item :: "harmony_batch_result_item \<Rightarrow> bytes" where
  "encode_harmony_result_item i = [hr_group_id i] @ concat (map encode_lp_bytes_u32 (hr_sub_results i))"

definition encode_harmony_batch_result :: "harmony_batch_result \<Rightarrow> bytes" where
  "encode_harmony_batch_result r =
     [hb_level r] @ u16_to_le (hb_round_id r) @ u16_to_le (of_nat (length (hb_items r))) @
     [hb_sub_results_per_group r] @ concat (map encode_harmony_result_item (hb_items r))"

text \<open>A blob behind a four-byte length, the two checks of the callers with their messages.\<close>

definition decode_lp_bytes_u32_required :: "string \<Rightarrow> string \<Rightarrow> bytes reader" where
  "decode_lp_bytes_u32_required no_prefix no_body d =
     (if length d < 4 then invalid no_prefix
      else rbind (get_u32 d) (\<lambda>(len, d).
        if length d < unat len then invalid no_body else get_bytes (unat len) d))"

definition decode_harmony_result_item :: "u8 \<Rightarrow> harmony_batch_result_item reader" where
  "decode_harmony_result_item sub_results_per_group d =
     (if d = [] then invalid ''truncated batch result group''
      else rbind (get_u8 d) (\<lambda>(group_id, d).
        rbind (read_list (unat sub_results_per_group)
            (decode_lp_bytes_u32_required ''truncated batch result len'' ''truncated batch result data'') d)
          (\<lambda>(sub_results, d). Inr (\<lparr>hr_group_id = group_id, hr_sub_results = sub_results\<rparr>, d))))"

definition decode_harmony_batch_result :: "bytes \<Rightarrow> harmony_batch_result wire" where
  "decode_harmony_batch_result data =
     (if length data < 6 then invalid ''harmony batch result too short''
      else rbind (get_u8 data) (\<lambda>(level, d).
        rbind (get_u16 d) (\<lambda>(round_id, d).
        rbind (get_u16 d) (\<lambda>(num_groups, d).
        rbind (get_u8 d) (\<lambda>(sub_results_per_group, d).
        rbind (read_list (unat num_groups) (decode_harmony_result_item sub_results_per_group) d) (\<lambda>(items, d).
          Inr \<lparr>hb_level = level, hb_round_id = round_id, hb_sub_results_per_group = sub_results_per_group,
               hb_items = items\<rparr>))))))"

section \<open>ORAM results\<close>

definition oram_flags :: "oram_lookup_item \<Rightarrow> u8" where
  "oram_flags i = (if oi_found i then 0x01 else 0) OR (if oi_whale i then 0x02 else 0)"

definition encode_oram_item :: "oram_lookup_item \<Rightarrow> bytes" where
  "encode_oram_item i =
     [oram_flags i] @ u32_to_le (oi_start_chunk_id i) @ [oi_num_chunks i] @
     u32_to_le (of_nat (length (oi_raw_chunk_data i))) @ oi_raw_chunk_data i"

definition encode_oram_lookup_result :: "oram_lookup_result \<Rightarrow> bytes" where
  "encode_oram_lookup_result r =
     [or_db_id r] @ u16_to_le (of_nat (length (or_items r))) @ concat (map encode_oram_item (or_items r)) @
     replicate (or_trailing_padding_bytes r) 0"

definition decode_oram_item :: "oram_lookup_item reader" where
  "decode_oram_item d =
     (if length d < 10 then invalid ''truncated ORAM lookup item''
      else rbind (get_u8 d) (\<lambda>(flags, d).
        rbind (get_u32 d) (\<lambda>(start_chunk_id, d).
        rbind (get_u8 d) (\<lambda>(num_chunks, d).
        rbind (get_u32 d) (\<lambda>(data_len, d).
          if length d < unat data_len then invalid ''truncated ORAM lookup chunk data''
          else rbind (get_bytes (unat data_len) d) (\<lambda>(raw, d).
            Inr (\<lparr>oi_found = (flags AND 0x01 \<noteq> 0), oi_whale = (flags AND 0x02 \<noteq> 0),
                  oi_start_chunk_id = start_chunk_id, oi_num_chunks = num_chunks, oi_raw_chunk_data = raw\<rparr>, d)))))))"

definition decode_oram_lookup_result :: "bytes \<Rightarrow> oram_lookup_result wire" where
  "decode_oram_lookup_result data =
     (if length data < 3 then invalid ''ORAM lookup result too short''
      else rbind (get_u8 data) (\<lambda>(db_id, d).
        rbind (get_u16 d) (\<lambda>(n, d).
        rbind (read_list (unat n) decode_oram_item d) (\<lambda>(items, d).
          Inr \<lparr>or_db_id = db_id, or_items = items, or_trailing_padding_bytes = 0\<rparr>))))"

section \<open>Database catalog\<close>

definition encode_anchor_ext :: "header_anchor option \<Rightarrow> bytes" where
  "encode_anchor_ext anchor =
     (case anchor of
        None \<Rightarrow> [ANCHOR_KIND_NONE]
      | Some (Header_Snapshot c) \<Rightarrow> ANCHOR_KIND_SNAPSHOT # chain_anchor_to_bytes c
      | Some (Header_Delta a) \<Rightarrow> ANCHOR_KIND_DELTA # delta_anchor_to_bytes a)"

definition decode_anchor_ext :: "u8 \<Rightarrow> header_anchor option reader" where
  "decode_anchor_ext kind d =
     (if kind = ANCHOR_KIND_NONE then Inr (None, d)
      else if kind = ANCHOR_KIND_SNAPSHOT then
        (if length d < CHAIN_ANCHOR_BYTES then invalid ''truncated snapshot anchor''
         else rbind (get_bytes CHAIN_ANCHOR_BYTES d) (\<lambda>(bs, d).
           rbind (map_err Wire_Io (chain_anchor_from_bytes bs)) (\<lambda>a. Inr (Some (Header_Snapshot a), d))))
      else if kind = ANCHOR_KIND_DELTA then
        (if length d < DELTA_ANCHOR_BYTES then invalid ''truncated delta anchor''
         else rbind (get_bytes DELTA_ANCHOR_BYTES d) (\<lambda>(bs, d).
           rbind (map_err Wire_Io (delta_anchor_from_bytes bs)) (\<lambda>a. Inr (Some (Header_Delta a), d))))
      else invalid ''unknown catalog anchor kind'')"

definition encode_catalog_entry :: "database_catalog_entry \<Rightarrow> bytes" where
  "encode_catalog_entry e =
     [ce_db_id e, ce_db_type e, of_nat (length (ce_name e))] @ ce_name e @ u32_to_le (ce_base_height e) @
     u32_to_le (ce_height e) @ u32_to_le (ce_index_bins_per_table e) @ u32_to_le (ce_chunk_bins_per_table e) @
     [ce_index_k e, ce_chunk_k e] @ u64_to_le (ce_tag_seed e) @
     [ce_dpf_n_index e, ce_dpf_n_chunk e, if ce_has_bucket_merkle e then 1 else 0]"

definition encode_catalog_ext :: "database_catalog_entry \<Rightarrow> bytes" where
  "encode_catalog_ext e =
     u64_to_le (ce_index_master_seed e) @ u64_to_le (ce_chunk_master_seed e) @ encode_anchor_ext (ce_anchor e)"

definition encode_db_catalog :: "database_catalog_entry list \<Rightarrow> bytes" where
  "encode_db_catalog databases =
     [of_nat (length databases)] @ concat (map encode_catalog_entry databases) @ [CATALOG_EXT_V1] @
     concat (map encode_catalog_ext databases)"

definition decode_catalog_entry :: "database_catalog_entry reader" where
  "decode_catalog_entry d =
     (if length d < 3 then invalid ''truncated catalog entry''
      else rbind (get_u8 d) (\<lambda>(db_id, d). rbind (get_u8 d) (\<lambda>(db_type, d). rbind (get_u8 d) (\<lambda>(name_len, d).
        if length d < unat name_len then invalid ''truncated catalog name''
        else rbind (get_bytes (unat name_len) d) (\<lambda>(name, d).
          if length d < 28 then invalid ''truncated catalog fields''
          else rbind (get_u32 d) (\<lambda>(base_height, d). rbind (get_u32 d) (\<lambda>(height, d).
            rbind (get_u32 d) (\<lambda>(index_bins, d). rbind (get_u32 d) (\<lambda>(chunk_bins, d).
            rbind (get_u8 d) (\<lambda>(index_k, d). rbind (get_u8 d) (\<lambda>(chunk_k, d).
            rbind (get_u64 d) (\<lambda>(tag_seed, d). rbind (get_u8 d) (\<lambda>(dpf_n_index, d).
            rbind (get_u8 d) (\<lambda>(dpf_n_chunk, d).
              let (merkle, d) = (if d \<noteq> [] then (d ! 0 \<noteq> 0, drop 1 d) else (False, d))
              in Inr (\<lparr>ce_db_id = db_id, ce_db_type = db_type, ce_name = utf8_lossy name,
                      ce_base_height = base_height, ce_height = height, ce_index_bins_per_table = index_bins,
                      ce_chunk_bins_per_table = chunk_bins, ce_index_k = index_k, ce_chunk_k = chunk_k,
                      ce_tag_seed = tag_seed, ce_dpf_n_index = dpf_n_index, ce_dpf_n_chunk = dpf_n_chunk,
                      ce_has_bucket_merkle = merkle, ce_index_master_seed = 0, ce_chunk_master_seed = 0,
                      ce_anchor = None\<rparr>, d)))))))))))))))"

fun decode_catalog_ext :: "database_catalog_entry list \<Rightarrow> database_catalog_entry list reader" where
  "decode_catalog_ext [] d = Inr ([], d)"
| "decode_catalog_ext (e # es) d =
     (if length d < 17 then invalid ''truncated catalog ext entry''
      else rbind (get_u64 d) (\<lambda>(index_seed, d). rbind (get_u64 d) (\<lambda>(chunk_seed, d). rbind (get_u8 d) (\<lambda>(kind, d).
        rbind (decode_anchor_ext kind d) (\<lambda>(anchor, d). rbind (decode_catalog_ext es d) (\<lambda>(es, d).
          Inr (e\<lparr>ce_index_master_seed := index_seed, ce_chunk_master_seed := chunk_seed, ce_anchor := anchor\<rparr> # es, d)))))))"

definition decode_db_catalog :: "bytes \<Rightarrow> database_catalog_entry list wire" where
  "decode_db_catalog data =
     (if data = [] then invalid ''catalog too short''
      else rbind (get_u8 data) (\<lambda>(num_dbs, d).
        rbind (read_list (unat num_dbs) decode_catalog_entry d) (\<lambda>(databases, d).
          if d \<noteq> [] \<and> d ! 0 = CATALOG_EXT_V1
          then rbind (decode_catalog_ext databases (drop 1 d)) (\<lambda>(databases, d). Inr databases)
          else Inr databases)))"

section \<open>Server information, proofs and attestation\<close>

definition encode_server_info :: "server_info \<Rightarrow> bytes" where
  "encode_server_info info =
     u32_to_le (si_index_bins_per_table info) @ u32_to_le (si_chunk_bins_per_table info) @
     [si_index_k info, si_chunk_k info] @ u64_to_le (si_tag_seed info) @
     u64_to_le (si_index_master_seed info) @ u64_to_le (si_chunk_master_seed info) @
     encode_anchor_ext (si_anchor info)"

definition decode_info_ext :: "bytes \<Rightarrow> (u64 \<times> u64 \<times> header_anchor option) wire" where
  "decode_info_ext d =
     (if 16 \<le> length d then
        rbind (get_u64 d) (\<lambda>(ims, d). rbind (get_u64 d) (\<lambda>(cms, d).
          rbind (if d \<noteq> [] then rbind (get_u8 d) (\<lambda>(kind, d). decode_anchor_ext kind d) else Inr (None, d)) (\<lambda>(anchor, d).
            Inr (ims, cms, anchor))))
      else Inr (0, 0, None))"

definition decode_server_info :: "string \<Rightarrow> bytes \<Rightarrow> server_info wire" where
  "decode_server_info msg data =
     (if length data < 18 then invalid msg
      else rbind (decode_info_ext (drop 18 data)) (\<lambda>(ims, cms, anchor).
        rbind (get_u32 data) (\<lambda>(index_bins, d). rbind (get_u32 d) (\<lambda>(chunk_bins, d).
        rbind (get_u8 d) (\<lambda>(index_k, d). rbind (get_u8 d) (\<lambda>(chunk_k, d). rbind (get_u64 d) (\<lambda>(tag_seed, d).
          Inr \<lparr>si_index_bins_per_table = index_bins, si_chunk_bins_per_table = chunk_bins, si_index_k = index_k,
               si_chunk_k = chunk_k, si_tag_seed = tag_seed, si_index_master_seed = ims,
               si_chunk_master_seed = cms, si_anchor = anchor\<rparr>)))))))"

definition encode_db_proof_bundle :: "u16 \<Rightarrow> database_proof_bundle \<Rightarrow> bytes" where
  "encode_db_proof_bundle version b =
     u16_to_le version @ [dp_db_id b] @ encode_lp_bytes_u32 (dp_build_evidence b) @
     encode_lp_bytes_u32 (dp_root_bundle_payload b) @ encode_lp_bytes_u32 (dp_sev_snp_report b) @
     encode_lp_bytes_u32 (dp_database_manifest_sha256 b) @ encode_lp_bytes_u32 (dp_all_artifacts_manifest_sha256 b) @
     encode_lp_bytes_u32 (dp_server_db_manifest_toml b)"

definition decode_db_proof_bundle :: "u16 \<Rightarrow> bytes \<Rightarrow> database_proof_bundle wire" where
  "decode_db_proof_bundle expected_version data =
     (let field = decode_lp_bytes_u32_required ''missing u32 length prefix'' ''truncated body''
      in if length data < 3 then invalid ''db proof bundle too short''
      else rbind (get_u16 data) (\<lambda>(version, d).
        if version \<noteq> expected_version then invalid ''unsupported db proof bundle version''
        else rbind (get_u8 d) (\<lambda>(db_id, d). rbind (field d) (\<lambda>(evidence, d). rbind (field d) (\<lambda>(root_bundle, d).
          rbind (field d) (\<lambda>(report, d). rbind (field d) (\<lambda>(db_manifest, d). rbind (field d) (\<lambda>(all_manifest, d).
          rbind (field d) (\<lambda>(toml, d).
            if d \<noteq> [] then invalid ''db proof bundle has trailing bytes''
            else Inr \<lparr>dp_db_id = db_id, dp_build_evidence = evidence, dp_root_bundle_payload = root_bundle,
                      dp_sev_snp_report = report, dp_database_manifest_sha256 = db_manifest,
                      dp_all_artifacts_manifest_sha256 = all_manifest, dp_server_db_manifest_toml = toml\<rparr>)))))))))"

definition encode_attest_result :: "attest_result \<Rightarrow> bytes" where
  "encode_attest_result r =
     u32_to_le (of_nat (length (ar_sev_snp_report r))) @ ar_sev_snp_report r @
     [of_nat (length (ar_manifest_roots r))] @ concat (ar_manifest_roots r) @ ar_binary_sha256 r @
     ar_server_static_pub r @ u16_to_le (of_nat (length (ar_git_rev r))) @ ar_git_rev r @
     encode_lp_bytes_u32 (ar_ark_pem r) @ encode_lp_bytes_u32 (ar_ask_pem r) @ encode_lp_bytes_u32 (ar_vcek_pem r)"

definition decode_lp_bytes_u32_or_empty :: "string \<Rightarrow> bytes reader" where
  "decode_lp_bytes_u32_or_empty msg d =
     (if d = [] then Inr ([], d)
      else if length d < 4 then invalid msg
      else rbind (get_u32 d) (\<lambda>(n, d).
        if length d < unat n then invalid msg else get_bytes (unat n) d))"

definition decode_attest_result :: "bytes \<Rightarrow> attest_result wire" where
  "decode_attest_result data =
     (if length data < 4 then invalid ''attest result missing sev_report length''
      else rbind (get_u32 data) (\<lambda>(sev_len, d).
        if length d < unat sev_len then invalid ''truncated sev_snp_report''
        else rbind (get_bytes (unat sev_len) d) (\<lambda>(sev_snp_report, d).
        if d = [] then invalid ''attest result missing manifest count''
        else rbind (get_u8 d) (\<lambda>(n_roots, d).
        if length d < unat n_roots * 32 then invalid ''truncated manifest roots''
        else rbind (read_list (unat n_roots) (get_bytes 32) d) (\<lambda>(manifest_roots, d).
        if length d < 32 then invalid ''truncated binary_sha256''
        else rbind (get_bytes 32 d) (\<lambda>(binary_sha256, d).
        if length d < 32 then invalid ''truncated server_static_pub (V2 wire layout)''
        else rbind (get_bytes 32 d) (\<lambda>(server_static_pub, d).
        if length d < 2 then invalid ''truncated git_rev length''
        else rbind (get_u16 d) (\<lambda>(git_len, d).
        if length d < unat git_len then invalid ''truncated git_rev bytes''
        else rbind (get_bytes (unat git_len) d) (\<lambda>(git_rev, d).
        rbind (decode_lp_bytes_u32_or_empty ''ark_pem'' d) (\<lambda>(ark_pem, d).
        rbind (decode_lp_bytes_u32_or_empty ''ask_pem'' d) (\<lambda>(ask_pem, d).
        rbind (decode_lp_bytes_u32_or_empty ''vcek_pem'' d) (\<lambda>(vcek_pem, d).
          Inr \<lparr>ar_sev_snp_report = sev_snp_report, ar_manifest_roots = manifest_roots,
               ar_binary_sha256 = binary_sha256, ar_server_static_pub = server_static_pub,
               ar_git_rev = utf8_lossy git_rev, ar_ark_pem = ark_pem, ar_ask_pem = ask_pem,
               ar_vcek_pem = vcek_pem\<rparr>))))))))))))"

end
