(* ===== verification/Wire_Message.thy ===== *)
theory Wire_Message
  imports Wire_Response
begin

text \<open>
  \<open>Response::encode\<close> and \<open>Response::decode\<close> of \<open>crates/protocol/runtime/src/protocol.rs\<close> over the
  message bodies of the previous theory, with the laws of the bodies.
\<close>

section \<open>Messages\<close>

fun response_payload :: "response \<Rightarrow> bytes" where
  "response_payload Pong = [RESP_PONG]"
| "response_payload (Info info) = RESP_INFO # encode_server_info info"
| "response_payload (DbCatalog cat) = RESP_DB_CATALOG # encode_db_catalog cat"
| "response_payload (DbProof b) = RESP_DB_PROOF # encode_db_proof_bundle DATABASE_PROOF_BUNDLE_VERSION b"
| "response_payload (DbProofV2 b) = RESP_DB_PROOF_V2 # encode_db_proof_bundle DATABASE_PROOF_BUNDLE_VERSION_V2 b"
| "response_payload (AttestR r) = RESP_ATTEST # encode_attest_result r"
| "response_payload (HandshakeR server_eph_pub) = RESP_HANDSHAKE # server_eph_pub"
| "response_payload (AnnounceR b) = RESP_ANNOUNCE # u32_to_le (of_nat (length b)) @ b"
| "response_payload (IndexBatchR r) = RESP_INDEX_BATCH # encode_batch_result r"
| "response_payload (ChunkBatchR r) = RESP_CHUNK_BATCH # encode_batch_result r"
| "response_payload (BucketMerkleSibBatchR r) = RESP_BUCKET_MERKLE_SIB_BATCH # encode_batch_result r"
| "response_payload (ErrorR msg) = RESP_ERROR # u32_to_le (of_nat (length msg)) @ msg"
| "response_payload (HarmonyInfo info) = RESP_HARMONY_INFO # encode_server_info info"
| "response_payload (HarmonyBatchResult r) = RESP_HARMONY_BATCH_QUERY # encode_harmony_batch_result r"
| "response_payload (OramLookupResult r) = RESP_ORAM_LOOKUP # encode_oram_lookup_result r"
| "response_payload (CreditOk gas_added gas_balance) = RESP_CREDIT_OK # u64_to_le gas_added @ u64_to_le gas_balance"
| "response_payload ApiKeyOk = [RESP_API_KEY_OK]"

definition response_encode :: "response \<Rightarrow> bytes" where
  "response_encode r = u32_to_le (of_nat (length (response_payload r))) @ response_payload r"

definition decode_handshake_result :: "bytes \<Rightarrow> response wire" where
  "decode_handshake_result d =
     (if length d < 32 then invalid ''handshake response missing 32-byte server_eph_pub''
      else Inr (HandshakeR (take 32 d)))"

definition decode_announce :: "bytes \<Rightarrow> response wire" where
  "decode_announce d =
     (if length d < 4 then invalid ''announce response missing 4-byte bundle length''
      else rbind (get_u32 d) (\<lambda>(blen, d).
        if length d < unat blen then invalid ''announce response: bundle length exceeds buffer''
        else rbind (get_bytes (unat blen) d) (\<lambda>(b, d). Inr (AnnounceR b))))"

definition decode_credit_ok :: "bytes \<Rightarrow> response wire" where
  "decode_credit_ok d =
     (if length d \<noteq> 8 + 8 then invalid ''credit ok response must be exactly 17 bytes''
      else rbind (get_u64 d) (\<lambda>(gas_added, d). rbind (get_u64 d) (\<lambda>(gas_balance, d).
        Inr (CreditOk gas_added gas_balance))))"

text \<open>The error branch slices without a check of the length.\<close>

definition decode_error :: "bytes \<Rightarrow> response wire" where
  "decode_error d =
     rbind (get_u32 d) (\<lambda>(len, d). rbind (get_bytes (unat len) d) (\<lambda>(msg, d). Inr (ErrorR (utf8_lossy msg))))"

definition response_decode :: "bytes \<Rightarrow> response wire" where
  "response_decode data =
     (case data of
        [] \<Rightarrow> invalid ''empty response''
      | op # d \<Rightarrow>
          if op = RESP_PONG then Inr Pong
          else if op = RESP_INFO then rbind (decode_server_info ''info too short'' d) (\<lambda>i. Inr (Info i))
          else if op = RESP_DB_CATALOG then rbind (decode_db_catalog d) (\<lambda>c. Inr (DbCatalog c))
          else if op = RESP_DB_PROOF
          then rbind (decode_db_proof_bundle DATABASE_PROOF_BUNDLE_VERSION d) (\<lambda>b. Inr (DbProof b))
          else if op = RESP_DB_PROOF_V2
          then rbind (decode_db_proof_bundle DATABASE_PROOF_BUNDLE_VERSION_V2 d) (\<lambda>b. Inr (DbProofV2 b))
          else if op = RESP_ATTEST then rbind (decode_attest_result d) (\<lambda>r. Inr (AttestR r))
          else if op = RESP_HANDSHAKE then decode_handshake_result d
          else if op = RESP_ANNOUNCE then decode_announce d
          else if op = RESP_INDEX_BATCH then rbind (decode_batch_result d) (\<lambda>r. Inr (IndexBatchR r))
          else if op = RESP_CHUNK_BATCH then rbind (decode_batch_result d) (\<lambda>r. Inr (ChunkBatchR r))
          else if op = RESP_BUCKET_MERKLE_SIB_BATCH
          then rbind (decode_batch_result d) (\<lambda>r. Inr (BucketMerkleSibBatchR r))
          else if op = RESP_CREDIT_OK then decode_credit_ok d
          else if op = RESP_API_KEY_OK
          then (if d \<noteq> [] then invalid ''API key ok response must be exactly 1 byte'' else Inr ApiKeyOk)
          else if op = RESP_ERROR then decode_error d
          else if op = RESP_HARMONY_INFO
          then rbind (decode_server_info ''harmony info too short'' d) (\<lambda>i. Inr (HarmonyInfo i))
          else if op = RESP_HARMONY_BATCH_QUERY
          then rbind (decode_harmony_batch_result d) (\<lambda>r. Inr (HarmonyBatchResult r))
          else if op = RESP_ORAM_LOOKUP then rbind (decode_oram_lookup_result d) (\<lambda>r. Inr (OramLookupResult r))
          else invalid ''unknown response variant'')"

section \<open>Well-formed responses\<close>

definition anchor_opt_ok :: "header_anchor option \<Rightarrow> bool" where
  "anchor_opt_ok a = (case a of None \<Rightarrow> True | Some h \<Rightarrow> wf_header_anchor h)"

definition catalog_entry_ok :: "database_catalog_entry \<Rightarrow> bool" where
  "catalog_entry_ok e \<longleftrightarrow> length (ce_name e) < 256 \<and> utf8_valid (ce_name e) \<and> anchor_opt_ok (ce_anchor e)"

definition batch_result_ok :: "batch_result \<Rightarrow> bool" where
  "batch_result_ok r \<longleftrightarrow>
     (let n = (case br_results r of [] \<Rightarrow> 0 | k # _ \<Rightarrow> length k)
      in length (br_results r) < 256 \<and> n < 256 \<and>
         (\<forall>g \<in> set (br_results r). length g = n \<and> (\<forall>b \<in> set g. length b < 65536)))"

definition harmony_result_item_ok :: "u8 \<Rightarrow> harmony_batch_result_item \<Rightarrow> bool" where
  "harmony_result_item_ok n i \<longleftrightarrow>
     length (hr_sub_results i) = unat n \<and> (\<forall>b \<in> set (hr_sub_results i). length b < 2 ^ 32)"

definition proof_bundle_ok :: "database_proof_bundle \<Rightarrow> bool" where
  "proof_bundle_ok b \<longleftrightarrow>
     length (dp_build_evidence b) < 2 ^ 32 \<and> length (dp_root_bundle_payload b) < 2 ^ 32 \<and>
     length (dp_sev_snp_report b) < 2 ^ 32 \<and> length (dp_database_manifest_sha256 b) < 2 ^ 32 \<and>
     length (dp_all_artifacts_manifest_sha256 b) < 2 ^ 32 \<and> length (dp_server_db_manifest_toml b) < 2 ^ 32"

definition attest_result_ok :: "attest_result \<Rightarrow> bool" where
  "attest_result_ok r \<longleftrightarrow>
     length (ar_sev_snp_report r) < 2 ^ 32 \<and> length (ar_manifest_roots r) < 256 \<and>
     (\<forall>x \<in> set (ar_manifest_roots r). length x = 32) \<and> length (ar_binary_sha256 r) = 32 \<and>
     length (ar_server_static_pub r) = 32 \<and> length (ar_git_rev r) < 65536 \<and> utf8_valid (ar_git_rev r) \<and>
     length (ar_ark_pem r) < 2 ^ 32 \<and> length (ar_ask_pem r) < 2 ^ 32 \<and> length (ar_vcek_pem r) < 2 ^ 32"

fun response_ok :: "response \<Rightarrow> bool" where
  "response_ok (Info info) = anchor_opt_ok (si_anchor info)"
| "response_ok (DbCatalog cat) = (length cat < 256 \<and> (\<forall>e \<in> set cat. catalog_entry_ok e))"
| "response_ok (DbProof b) = proof_bundle_ok b"
| "response_ok (DbProofV2 b) = proof_bundle_ok b"
| "response_ok (AttestR r) = attest_result_ok r"
| "response_ok (HandshakeR k) = (length k = 32)"
| "response_ok (AnnounceR b) = (length b < 2 ^ 32)"
| "response_ok (IndexBatchR r) = batch_result_ok r"
| "response_ok (ChunkBatchR r) = batch_result_ok r"
| "response_ok (BucketMerkleSibBatchR r) = batch_result_ok r"
| "response_ok (ErrorR msg) = (length msg < 2 ^ 32 \<and> utf8_valid msg)"
| "response_ok (HarmonyInfo info) = anchor_opt_ok (si_anchor info)"
| "response_ok (HarmonyBatchResult r) =
     (length (hb_items r) < 65536 \<and> (\<forall>i \<in> set (hb_items r). harmony_result_item_ok (hb_sub_results_per_group r) i))"
| "response_ok (OramLookupResult r) =
     (length (or_items r) < 65536 \<and> (\<forall>i \<in> set (or_items r). length (oi_raw_chunk_data i) < 2 ^ 32))"
| "response_ok _ = True"

text \<open>The level of a batch and the number of padding bytes are not read back.\<close>

fun response_norm :: "response \<Rightarrow> response" where
  "response_norm (IndexBatchR r) = IndexBatchR (r\<lparr>br_level := 0\<rparr>)"
| "response_norm (ChunkBatchR r) = ChunkBatchR (r\<lparr>br_level := 0\<rparr>)"
| "response_norm (BucketMerkleSibBatchR r) = BucketMerkleSibBatchR (r\<lparr>br_level := 0\<rparr>)"
| "response_norm (OramLookupResult r) = OramLookupResult (r\<lparr>or_trailing_padding_bytes := 0\<rparr>)"
| "response_norm r = r"

section \<open>Fields of the responses\<close>

lemma u32_to_le_nonempty [simp]: "u32_to_le w \<noteq> []"
  by (metis length_le_words(2) list.size(3) zero_neq_numeral)

interpretation result_blob: checked_field encode_blob16 decode_result_blob "\<lambda>b. length b < 65536"
proof
  show "decode_result_blob (encode_blob16 x @ r) = Inr (x, r)" if "length x < 65536" for x r
    using that by (simp add: decode_result_blob_def encode_blob16_def unat_of_nat_small)
  show "decode_result_blob d \<noteq> Inl Wire_Panic" for d by (auto simp: decode_result_blob_def)
  show "length x < 65536" if "decode_result_blob d = Inr (x, r)" for d x r
    using that unsigned_less [of "u16_from_le (take 2 d)"] by (auto simp: decode_result_blob_def split: if_splits)
qed

interpretation result_group: checked_field "\<lambda>g. concat (map encode_blob16 g)" "read_list n decode_result_blob"
  "\<lambda>g. length g = n \<and> (\<forall>b \<in> set g. length b < 65536)" for n
  by (rule result_blob.list_checked_field)

interpretation lp: checked_field encode_lp_bytes_u32 "decode_lp_bytes_u32_required m m'" "\<lambda>b. length b < 2 ^ 32" for m m'
proof
  show "decode_lp_bytes_u32_required m m' (encode_lp_bytes_u32 x @ r) = Inr (x, r)" if "length x < 2 ^ 32" for x r
    using that by (simp add: decode_lp_bytes_u32_required_def encode_lp_bytes_u32_def unat_of_nat_small)
  show "decode_lp_bytes_u32_required m m' d \<noteq> Inl Wire_Panic" for d by (auto simp: decode_lp_bytes_u32_required_def)
  show "length x < 2 ^ 32" if "decode_lp_bytes_u32_required m m' d = Inr (x, r)" for d x r
    using that unsigned_less [of "u32_from_le (take 4 d)"]
    by (auto simp: decode_lp_bytes_u32_required_def split: if_splits)
qed

interpretation lp_tail: wire_field encode_lp_bytes_u32 "decode_lp_bytes_u32_or_empty m" "\<lambda>b. length b < 2 ^ 32" for m
proof
  show "decode_lp_bytes_u32_or_empty m (encode_lp_bytes_u32 x @ r) = Inr (x, r)" if "length x < 2 ^ 32" for x r
    using that by (simp add: decode_lp_bytes_u32_or_empty_def encode_lp_bytes_u32_def unat_of_nat_small)
  show "decode_lp_bytes_u32_or_empty m d \<noteq> Inl Wire_Panic" for d by (auto simp: decode_lp_bytes_u32_or_empty_def)
qed

interpretation harmony_result: checked_field encode_harmony_result_item "decode_harmony_result_item n"
  "harmony_result_item_ok n" for n
proof
  show "decode_harmony_result_item n (encode_harmony_result_item x @ r) = Inr (x, r)" if "harmony_result_item_ok n x" for x r
    using that lp.read_list_enc [of "hr_sub_results x" "''truncated batch result len''" "''truncated batch result data''" r]
    by (simp add: decode_harmony_result_item_def encode_harmony_result_item_def harmony_result_item_ok_def)
  show "harmony_result_item_ok n x" if "decode_harmony_result_item n d = Inr (x, r)" for d x r
    using that lp.read_list_wf [of "unat n"]
    by (auto simp: decode_harmony_result_item_def harmony_result_item_ok_def split: if_splits)
  show "decode_harmony_result_item n d \<noteq> Inl Wire_Panic" for d
    using lp.read_list_no_panic [of "unat n"]
    by (cases d) (auto simp: decode_harmony_result_item_def rbind_panic_iff)
qed

lemma oram_flag_bits:
  "(oram_flags i AND 0x01 \<noteq> 0) = oi_found i" "(oram_flags i AND 0x02 \<noteq> 0) = oi_whale i"
  by (simp_all add: oram_flags_def)

interpretation oram_item: checked_field encode_oram_item decode_oram_item "\<lambda>i. length (oi_raw_chunk_data i) < 2 ^ 32"
proof
  show "decode_oram_item (encode_oram_item x @ r) = Inr (x, r)" if "length (oi_raw_chunk_data x) < 2 ^ 32" for x r
    using that oram_flag_bits [of x] by (simp add: decode_oram_item_def encode_oram_item_def unat_of_nat_small)
  show "decode_oram_item d \<noteq> Inl Wire_Panic" for d by (auto simp: decode_oram_item_def)
  show "length (oi_raw_chunk_data x) < 2 ^ 32" if "decode_oram_item d = Inr (x, r)" for d x r
    using that unsigned_less [of "u32_from_le (take 4 (drop 6 d))"]
    by (auto simp: decode_oram_item_def split: if_splits)
qed

section \<open>Message bodies\<close>

lemma batch_result_roundtrip:
  assumes "batch_result_ok r"
  shows "decode_batch_result (encode_batch_result r) = Inr (r\<lparr>br_level := 0\<rparr>)"
proof -
  define n where "n = (case br_results r of [] \<Rightarrow> 0 | k # _ \<Rightarrow> length k)"
  have n: "length (br_results r) < 256" "n < 256"
    "\<forall>g \<in> set (br_results r). length g = n \<and> (\<forall>b \<in> set g. length b < 65536)"
    using assms by (auto simp: batch_result_ok_def Let_def n_def)
  have u: "unat (of_nat (length (br_results r)) :: u8) = length (br_results r)" "unat (of_nat n :: u8) = n"
    using n by (auto intro!: unat_of_nat_small)
  show ?thesis
    using u result_group.read_list_enc [OF n(3), of "[]"]
    by (simp add: decode_batch_result_def encode_batch_result_def flip: n_def)
qed

lemma harmony_batch_result_roundtrip:
  assumes "response_ok (HarmonyBatchResult r)"
  shows "decode_harmony_batch_result (encode_harmony_batch_result r) = Inr r"
  using assms harmony_result.read_list_enc [of "hb_items r" "hb_sub_results_per_group r" "[]"]
  by (simp add: decode_harmony_batch_result_def encode_harmony_batch_result_def unat_of_nat_small)

lemma oram_result_roundtrip:
  assumes "response_ok (OramLookupResult r)"
  shows "decode_oram_lookup_result (encode_oram_lookup_result r) = Inr (r\<lparr>or_trailing_padding_bytes := 0\<rparr>)"
  using assms oram_item.read_list_enc [of "or_items r" "replicate (or_trailing_padding_bytes r) 0"]
  by (simp add: decode_oram_lookup_result_def encode_oram_lookup_result_def unat_of_nat_small)

lemma anchor_ext_roundtrip:
  assumes "anchor_opt_ok a"
  shows "\<exists>kind bs. encode_anchor_ext a = kind # bs \<and> (\<forall>r. decode_anchor_ext kind (bs @ r) = Inr (a, r))"
proof -
  have "length (chain_anchor_to_bytes c) = 36" if "wf_chain_anchor c" for c using that by simp
  moreover have "length (delta_anchor_to_bytes c) = 72" if "wf_delta_anchor c" for c
    using that by (simp add: wf_delta_anchor_def delta_anchor_to_bytes_def)
  ultimately show ?thesis
    using assms
    by (auto simp: anchor_opt_ok_def encode_anchor_ext_def decode_anchor_ext_def anchor_kinds CHAIN_ANCHOR_BYTES_def
        DELTA_ANCHOR_BYTES_def split: option.splits header_anchor.splits)
qed

lemma decode_anchor_ext_no_panic: "decode_anchor_ext kind d \<noteq> Inl Wire_Panic"
  by (auto simp: decode_anchor_ext_def rbind_panic_iff map_err_def split: sum.splits)

text \<open>A catalog entry without what the extension section carries.\<close>

definition bare_entry :: "database_catalog_entry \<Rightarrow> database_catalog_entry" where
  "bare_entry e = e\<lparr>ce_index_master_seed := 0, ce_chunk_master_seed := 0, ce_anchor := None\<rparr>"

interpretation catalog_entry: wire_field encode_catalog_entry decode_catalog_entry
  "\<lambda>e. catalog_entry_ok e \<and> bare_entry e = e"
proof
  show "decode_catalog_entry (encode_catalog_entry x @ r) = Inr (x, r)" if "catalog_entry_ok x \<and> bare_entry x = x" for x r
  proof (cases x)
    case (fields a b c d e f g h i j k l m n p q)
    with that show ?thesis
      by (simp add: decode_catalog_entry_def encode_catalog_entry_def catalog_entry_ok_def bare_entry_def
          unat_of_nat_small utf8_lossy_valid_id)
  qed
  show "decode_catalog_entry d \<noteq> Inl Wire_Panic" for d
    by (auto simp: decode_catalog_entry_def rbind_panic_iff Let_def split: prod.splits)
qed

lemma catalog_ext_roundtrip:
  assumes "\<forall>e \<in> set es. catalog_entry_ok e"
  shows "decode_catalog_ext (map bare_entry es) (concat (map encode_catalog_ext es) @ r) = Inr (es, r)"
  using assms
proof (induction es)
  case (Cons e es)
  then obtain kind bs where "encode_anchor_ext (ce_anchor e) = kind # bs"
    "\<And>r. decode_anchor_ext kind (bs @ r) = Inr (ce_anchor e, r)"
    using anchor_ext_roundtrip [of "ce_anchor e"] by (auto simp: catalog_entry_ok_def)
  with Cons show ?case by (simp add: encode_catalog_ext_def bare_entry_def)
qed simp

lemma db_catalog_roundtrip:
  assumes "response_ok (DbCatalog cat)"
  shows "decode_db_catalog (encode_db_catalog cat) = Inr cat"
proof -
  let ?ext = "CATALOG_EXT_V1 # concat (map encode_catalog_ext cat)"
  have "map encode_catalog_entry (map bare_entry cat) = map encode_catalog_entry cat"
    by (simp add: encode_catalog_entry_def bare_entry_def)
  moreover have "\<forall>e \<in> set (map bare_entry cat). catalog_entry_ok e \<and> bare_entry e = e"
    using assms by (auto simp: catalog_entry_ok_def bare_entry_def anchor_opt_ok_def)
  ultimately have "read_list (length cat) decode_catalog_entry (concat (map encode_catalog_entry cat) @ ?ext) =
      Inr (map bare_entry cat, ?ext)"
    using catalog_entry.read_list_enc [of "map bare_entry cat" ?ext] by (metis length_map)
  moreover have "unat (of_nat (length cat) :: u8) = length cat" using assms by (simp add: unat_of_nat_small)
  ultimately show ?thesis
    using assms catalog_ext_roundtrip [of cat "[]"] by (simp add: decode_db_catalog_def encode_db_catalog_def)
qed

lemma decode_catalog_ext_no_panic: "decode_catalog_ext es d \<noteq> Inl Wire_Panic"
proof (induction es arbitrary: d)
  case (Cons e es)
  then show ?case using decode_anchor_ext_no_panic by (auto simp: rbind_panic_iff)
qed simp

lemma decode_db_catalog_no_panic: "decode_db_catalog d \<noteq> Inl Wire_Panic"
  using catalog_entry.read_list_no_panic decode_catalog_ext_no_panic
  by (cases d) (auto simp: decode_db_catalog_def rbind_panic_iff)

lemma server_info_roundtrip:
  assumes "anchor_opt_ok (si_anchor info)"
  shows "decode_server_info msg (encode_server_info info) = Inr info"
proof -
  obtain kind bs where e: "encode_anchor_ext (si_anchor info) = kind # bs"
    "\<And>r. decode_anchor_ext kind (bs @ r) = Inr (si_anchor info, r)"
    using anchor_ext_roundtrip [OF assms] by auto
  have "decode_info_ext (u64_to_le (si_index_master_seed info) @ u64_to_le (si_chunk_master_seed info) @ kind # bs) =
      Inr (si_index_master_seed info, si_chunk_master_seed info, si_anchor info)"
    using e(2) [of "[]"] by (simp add: decode_info_ext_def)
  then show ?thesis
    by (simp add: decode_server_info_def encode_server_info_def e(1))
qed

lemma decode_server_info_no_panic: "decode_server_info msg d \<noteq> Inl Wire_Panic"
  using decode_anchor_ext_no_panic
  by (auto simp: decode_server_info_def decode_info_ext_def rbind_panic_iff)

lemma proof_bundle_roundtrip:
  assumes "proof_bundle_ok b"
  shows "decode_db_proof_bundle v (encode_db_proof_bundle v b) = Inr b"
  using assms lp.dec_enc [where r = "[]"]
  by (simp add: decode_db_proof_bundle_def encode_db_proof_bundle_def proof_bundle_ok_def lp.dec_enc)

lemma decode_db_proof_bundle_no_panic: "decode_db_proof_bundle v d \<noteq> Inl Wire_Panic"
  using lp.dec_no_panic by (auto simp: decode_db_proof_bundle_def Let_def rbind_panic_iff)

lemma read_hashes_rest:
  assumes "\<forall>x \<in> set xs. length x = k"
  shows "read_list (length xs) (get_bytes k) (concat xs @ r) = Inr (xs, r)"
  using assms by (induction xs) auto

lemma attest_result_roundtrip:
  assumes "attest_result_ok r"
  shows "decode_attest_result (encode_attest_result r) = Inr r"
proof -
  note ok = assms [unfolded attest_result_ok_def]
  let ?tail = "encode_lp_bytes_u32 (ar_ark_pem r) @ encode_lp_bytes_u32 (ar_ask_pem r) @ encode_lp_bytes_u32 (ar_vcek_pem r)"
  have "length (concat (ar_manifest_roots r)) = length (ar_manifest_roots r) * 32"
    using ok by (intro length_concat_fixed) blast
  moreover have "unat (of_nat (length (ar_manifest_roots r)) :: u8) = length (ar_manifest_roots r)"
    "unat (of_nat (length (ar_git_rev r)) :: u16) = length (ar_git_rev r)"
    "unat (of_nat (length (ar_sev_snp_report r)) :: u32) = length (ar_sev_snp_report r)"
    using ok by (auto intro!: unat_of_nat_small)
  moreover have "decode_lp_bytes_u32_or_empty m (encode_lp_bytes_u32 (ar_vcek_pem r)) = Inr (ar_vcek_pem r, [])" for m
    using lp_tail.dec_enc [of "ar_vcek_pem r" m "[]"] ok by simp
  ultimately show ?thesis
    using ok by (simp add: decode_attest_result_def encode_attest_result_def read_hashes_rest lp_tail.dec_enc
        utf8_lossy_valid_id)
qed

lemma decode_attest_result_no_panic: "decode_attest_result d \<noteq> Inl Wire_Panic"
proof -
  have "read_list n (get_bytes 32) d \<noteq> Inl Wire_Panic" if "n * 32 \<le> length d" for n d
    using read_hashes [OF that] by auto
  then show ?thesis using lp_tail.dec_no_panic
    by (auto simp: decode_attest_result_def rbind_panic_iff not_less)
qed

lemma decode_results_no_panic:
  "decode_batch_result d \<noteq> Inl Wire_Panic"
  "decode_harmony_batch_result d \<noteq> Inl Wire_Panic"
  "decode_oram_lookup_result d \<noteq> Inl Wire_Panic"
  using result_group.read_list_no_panic harmony_result.read_list_no_panic oram_item.read_list_no_panic
  by (auto simp: decode_batch_result_def decode_harmony_batch_result_def decode_oram_lookup_result_def rbind_panic_iff)

section \<open>Properties\<close>

text \<open>C17: What \<open>Response::encode\<close> writes, \<open>Response::decode\<close> reads back: batch results, the catalog with
  seeds and chain anchors, proof bundles, attestation results and the rest, up to the level of a
  batch and the padding of an ORAM result, which a decoder sets to 0.\<close>

theorem response_roundtrip:
  assumes "response_ok r"
  shows "\<exists>payload. response_encode r = u32_to_le (of_nat (length payload)) @ payload \<and>
    response_decode payload = Inr (response_norm r)"
proof -
  have "response_decode (response_payload r) = Inr (response_norm r)"
    using assms
    by (cases r)
      (auto simp: response_decode_def response_opcodes decode_handshake_result_def decode_announce_def
        decode_credit_ok_def decode_error_def unat_of_nat_small utf8_lossy_valid_id server_info_roundtrip
        db_catalog_roundtrip proof_bundle_roundtrip attest_result_roundtrip batch_result_roundtrip
        harmony_batch_result_roundtrip oram_result_roundtrip)
  then show ?thesis by (auto simp: response_encode_def)
qed

text \<open>A catalog of one anchored snapshot.\<close>

theorem response_roundtrip_witness:
  "\<exists>payload. response_encode (DbCatalog [\<lparr>ce_db_id = 0, ce_db_type = 0, ce_name = [0x6D, 0xC3, 0xA4], ce_base_height = 0,
      ce_height = 940611, ce_index_bins_per_table = 9, ce_chunk_bins_per_table = 8, ce_index_k = 75, ce_chunk_k = 80,
      ce_tag_seed = 1, ce_dpf_n_index = 4, ce_dpf_n_chunk = 3, ce_has_bucket_merkle = True, ce_index_master_seed = 2,
      ce_chunk_master_seed = 3, ce_anchor = Some (Header_Snapshot \<lparr>block_hash = replicate 32 7, block_height = 940611\<rparr>)\<rparr>]) =
      u32_to_le (of_nat (length payload)) @ payload \<and>
    response_decode payload = Inr (DbCatalog [\<lparr>ce_db_id = 0, ce_db_type = 0, ce_name = [0x6D, 0xC3, 0xA4], ce_base_height = 0,
      ce_height = 940611, ce_index_bins_per_table = 9, ce_chunk_bins_per_table = 8, ce_index_k = 75, ce_chunk_k = 80,
      ce_tag_seed = 1, ce_dpf_n_index = 4, ce_dpf_n_chunk = 3, ce_has_bucket_merkle = True, ce_index_master_seed = 2,
      ce_chunk_master_seed = 3, ce_anchor = Some (Header_Snapshot \<lparr>block_hash = replicate 32 7, block_height = 940611\<rparr>)\<rparr>])"
proof -
  let ?e = "\<lparr>ce_db_id = 0, ce_db_type = 0, ce_name = [0x6D, 0xC3, 0xA4], ce_base_height = 0,
      ce_height = 940611, ce_index_bins_per_table = 9, ce_chunk_bins_per_table = 8, ce_index_k = 75, ce_chunk_k = 80,
      ce_tag_seed = 1, ce_dpf_n_index = 4, ce_dpf_n_chunk = 3, ce_has_bucket_merkle = True, ce_index_master_seed = 2,
      ce_chunk_master_seed = 3, ce_anchor = Some (Header_Snapshot \<lparr>block_hash = replicate 32 7, block_height = 940611\<rparr>)\<rparr>"
  have "utf8_valid [0x6D, 0xC3, 0xA4]" by code_simp
  then have "response_ok (DbCatalog [?e])"
    by (simp add: catalog_entry_ok_def anchor_opt_ok_def wf_chain_anchor_def)
  from response_roundtrip [OF this] show ?thesis by simp
qed

text \<open>C15: \<open>Response::decode\<close> panics on exactly the error responses that are cut short: a payload that
  starts with the error opcode and has no room for the length of the message or for the message. On
  every other byte string it returns a value or an error.\<close>

theorem response_decode_panics:
  "response_decode data = Inl Wire_Panic \<longleftrightarrow>
     (\<exists>d. data = RESP_ERROR # d \<and> (length d < 4 \<or> length d < 4 + unat (u32_from_le (take 4 d))))"
proof (cases data)
  case (Cons op d)
  have e: "decode_error d = Inl Wire_Panic \<longleftrightarrow> length d < 4 \<or> length d < 4 + unat (u32_from_le (take 4 d))"
    by (cases "length d < 4") (auto simp: decode_error_def get_u32_def get_bytes_def not_less)
  have "wire_safe (\<lambda>_. True) (response_decode data)" if "op \<noteq> RESP_ERROR"
  proof -
    have t: "wire_safe (\<lambda>_. True) m" if "m \<noteq> Inl Wire_Panic" for m :: "response wire" using that by (simp add: wire_safe_def)
    have "wire_safe (\<lambda>_. True) (decode_handshake_result d)" "wire_safe (\<lambda>_. True) (decode_announce d)"
      "wire_safe (\<lambda>_. True) (decode_credit_ok d)"
      by (auto simp: wire_safe_def decode_handshake_result_def decode_announce_def decode_credit_ok_def)
    then show ?thesis
      unfolding Cons response_decode_def list.case
      by (intro wire_safe_if)
        (use that in \<open>auto intro!: t simp: rbind_panic_iff decode_server_info_no_panic decode_db_catalog_no_panic
          decode_db_proof_bundle_no_panic decode_attest_result_no_panic decode_results_no_panic\<close>)
  qed
  with e show ?thesis
    by (cases "op = RESP_ERROR") (auto simp: wire_safe_def Cons response_decode_def response_opcodes)
qed (simp add: response_decode_def)

end
