(* ===== verification/Dpf_Eval.thy ===== *)
theory Dpf_Eval
  imports Wire_Request
begin

text \<open>
  The evaluation of DPF keys over the table of one group, \<open>crates/protocol/runtime/src/eval.rs\<close>. The
  DPF is a third-party library: its \<open>eval_partial\<close>, which expands a key into 128-bit blocks, is the
  argument \<open>eval\<close>. \<open>None\<close> is a panic; timing and prefetching have no effect beyond the slice that the
  prefetch takes.
\<close>

section \<open>Definitions\<close>

record dpf_block =
  blk_low :: u64
  blk_high :: u64

definition block_is_zero :: "dpf_block \<Rightarrow> bool" where
  "block_is_zero b \<longleftrightarrow> blk_low b = 0 \<and> blk_high b = 0"

definition get_dpf_bit :: "dpf_block \<Rightarrow> nat \<Rightarrow> bool" where
  "get_dpf_bit b bit_within_block =
     (if bit_within_block < 64 then drop_bit bit_within_block (blk_low b) AND 1 = 1
      else drop_bit (bit_within_block - 64) (blk_high b) AND 1 = 1)"

text \<open>The slices are read as \<open>u64\<close> values in place; the rest byte by byte.\<close>

definition eval_xor_into :: "bytes \<Rightarrow> bytes \<Rightarrow> bytes" where
  "eval_xor_into dst src =
     (let n = length dst div 8
      in concat (map (\<lambda>i. u64_to_le (u64_from_le (slice dst (i * 8) 8) XOR u64_from_le (slice src (i * 8) 8))) [0..<n]) @
         map (\<lambda>i. dst ! i XOR src ! i) [n * 8..<length dst])"

definition PREFETCH_LOOKAHEAD :: nat where "PREFETCH_LOOKAHEAD = 4"

text \<open>A loop whose body may panic.\<close>

fun fold_opt :: "('a \<Rightarrow> 's \<Rightarrow> 's option) \<Rightarrow> 'a list \<Rightarrow> 's \<Rightarrow> 's option" where
  "fold_opt f [] s = Some s"
| "fold_opt f (x # xs) s = Option.bind (f x s) (fold_opt f xs)"

definition scan_bin ::
  "bytes \<Rightarrow> nat \<Rightarrow> dpf_block option list \<Rightarrow> nat \<Rightarrow> nat \<Rightarrow> nat \<Rightarrow> bytes list \<Rightarrow> bytes list option" where
  "scan_bin table_bytes result_size blocks base_bin end_bin bin accs =
     (if bin + PREFETCH_LOOKAHEAD < end_bin \<and> length table_bytes < (bin + PREFETCH_LOOKAHEAD) * result_size then None
      else (let bits = map (\<lambda>block. case block of None \<Rightarrow> False | Some b \<Rightarrow> get_dpf_bit b (bin - base_bin)) blocks
            in if \<forall>b \<in> set bits. \<not> b then Some accs
               else if length table_bytes < bin * result_size + result_size then None
               else Some (map2 (\<lambda>bit acc. if bit then eval_xor_into acc (slice table_bytes (bin * result_size) result_size)
                                       else acc) bits accs)))"

definition scan_block ::
  "bytes \<Rightarrow> nat \<Rightarrow> nat \<Rightarrow> dpf_block list list \<Rightarrow> nat \<Rightarrow> bytes list \<Rightarrow> bytes list option" where
  "scan_block table_bytes bins_per_table result_size evals block_idx accs =
     (let blocks = map (\<lambda>e. if block_idx < length e then Some (e ! block_idx) else None) evals
      in if \<forall>b \<in> set blocks. case b of None \<Rightarrow> True | Some b \<Rightarrow> block_is_zero b then Some accs
         else (let base_bin = block_idx * 128; end_bin = min (base_bin + 128) bins_per_table
               in fold_opt (scan_bin table_bytes result_size blocks base_bin end_bin) [base_bin..<end_bin] accs))"

definition process_pass ::
  "('k \<Rightarrow> u64 \<Rightarrow> dpf_block list) \<Rightarrow> 'k list \<Rightarrow> bytes \<Rightarrow> nat \<Rightarrow> nat \<Rightarrow> bytes list option" where
  "process_pass eval keys table_bytes bins_per_table result_size =
     (if MAX_KEYS_PER_GROUP < length keys then None
      else (let evals = map (\<lambda>k. eval k (of_nat bins_per_table)) keys;
                num_blocks = foldr max (map length evals) 0
            in fold_opt (scan_block table_bytes bins_per_table result_size evals) [0..<num_blocks]
                 (map (\<lambda>_. replicate result_size 0) keys)))"

fun process_passes ::
  "('k list \<Rightarrow> bytes list option) \<Rightarrow> 'k list list \<Rightarrow> bytes list option" where
  "process_passes pass [] = Some []"
| "process_passes pass (ks # kss) =
     Option.bind (pass ks) (\<lambda>r. Option.bind (process_passes pass kss) (\<lambda>rs. Some (r @ rs)))"

definition process_table_group ::
  "('k \<Rightarrow> u64 \<Rightarrow> dpf_block list) \<Rightarrow> 'k list \<Rightarrow> bytes \<Rightarrow> nat \<Rightarrow> nat \<Rightarrow> bytes list option" where
  "process_table_group eval keys table_bytes bins_per_table result_size =
     process_passes (\<lambda>pass. process_pass eval pass table_bytes bins_per_table result_size)
       (chunks MAX_KEYS_PER_GROUP keys)"

section \<open>Reference definition\<close>

text \<open>Byte-wise exclusive or, as the clients compute it.\<close>

definition xor_into :: "bytes \<Rightarrow> bytes \<Rightarrow> bytes" where
  "xor_into dst src =
     (let n = min (length dst) (length src) in map2 (XOR) (take n dst) (take n src) @ drop n dst)"

definition dpf_bit :: "dpf_block list \<Rightarrow> nat \<Rightarrow> bool" where
  "dpf_bit e bin \<longleftrightarrow> bin div 128 < length e \<and> get_dpf_bit (e ! (bin div 128)) (bin mod 128)"

definition select_bin :: "bytes \<Rightarrow> nat \<Rightarrow> dpf_block list \<Rightarrow> bytes \<Rightarrow> nat \<Rightarrow> bytes" where
  "select_bin table rs e acc bin = (if dpf_bit e bin then xor_into acc (slice table (bin * rs) rs) else acc)"

text \<open>The exclusive or of the bins that the expansion of a key selects.\<close>

definition select_bins :: "bytes \<Rightarrow> nat \<Rightarrow> nat \<Rightarrow> dpf_block list \<Rightarrow> bytes" where
  "select_bins table bins rs e = foldl (select_bin table rs e) (replicate rs 0) [0..<bins]"

section \<open>Exclusive or by words\<close>

lemma length_xor_into [simp]: "length (xor_into dst src) = length dst"
  by (simp add: xor_into_def Let_def)

lemma xor_into_eq_map2: "length dst = length src \<Longrightarrow> xor_into dst src = map2 (XOR) dst src"
  by (simp add: xor_into_def)

lemma to_le_xor: "to_le k (a XOR b) = map2 (XOR) (to_le k a) (to_le k (b :: nat))"
proof (induction k arbitrary: a b)
  case (Suc k)
  have "(a XOR b) mod 256 = (a mod 256) XOR (b mod 256)"
    using take_bit_xor [of 8 a b] by (simp add: take_bit_eq_mod)
  moreover have "(a XOR b) div 256 = (a div 256) XOR (b div 256)"
    using drop_bit_xor [of 8 a b] by (simp add: drop_bit_eq_div)
  ultimately show ?case using Suc by (simp add: of_nat_xor_eq)
qed simp

lemma u64_le_xor: "length a = 8 \<Longrightarrow> length b = 8 \<Longrightarrow> u64_to_le (u64_from_le a XOR u64_from_le b) = map2 (XOR) a b"
  using to_le_xor [of 8 "unat (u64_from_le a)" "unat (u64_from_le b)"]
    le_roundtrips_bytes(3) [of a] le_roundtrips_bytes(3) [of b]
  by (simp add: u64_to_le_def unsigned_xor_eq)

lemma take_slice: "take (Suc n * 8) xs = take (n * 8) xs @ slice xs (n * 8) 8"
  using take_add [of "n * 8" 8 xs] by (simp add: slice_def mult.commute add.commute [of 8])

lemma map2_slices:
  assumes "length a = length b" and "n * 8 \<le> length a"
  shows "concat (map (\<lambda>i. map2 f (slice a (i * 8) 8) (slice b (i * 8) 8)) [0..<n]) = map2 f (take (n * 8) a) (take (n * 8) b)"
  using assms(2)
proof (induction n)
  case (Suc n)
  then have "n * 8 \<le> length a" by simp
  with Suc assms(1) show ?case by (simp add: take_slice del: mult_Suc)
qed simp

lemma eval_xor_into_correct:
  assumes "length dst = length src"
  shows "eval_xor_into dst src = xor_into dst src"
proof -
  let ?n = "length dst div 8"
  have n: "?n * 8 \<le> length dst" by simp
  have "map (\<lambda>i. u64_to_le (u64_from_le (slice dst (i * 8) 8) XOR u64_from_le (slice src (i * 8) 8))) [0..<?n] =
      map (\<lambda>i. map2 (XOR) (slice dst (i * 8) 8) (slice src (i * 8) 8)) [0..<?n]"
    using assms by (intro map_cong refl u64_le_xor) auto
  then have "concat (map (\<lambda>i. u64_to_le (u64_from_le (slice dst (i * 8) 8) XOR u64_from_le (slice src (i * 8) 8))) [0..<?n]) =
      map2 (XOR) (take (?n * 8) dst) (take (?n * 8) src)"
    using map2_slices [OF assms n, of "(XOR)"] by (simp only:)
  moreover have "map (\<lambda>i. dst ! i XOR src ! i) [?n * 8..<length dst] = map2 (XOR) (drop (?n * 8) dst) (drop (?n * 8) src)"
    using assms by (intro nth_equalityI) auto
  moreover have "map2 (XOR) (take m dst) (take m src) @ map2 (XOR) (drop m dst) (drop m src) = map2 (XOR) dst src" for m
    by (simp add: take_map drop_map flip: take_zip drop_zip)
      (metis append_take_drop_id map_append)
  ultimately show ?thesis by (simp add: eval_xor_into_def Let_def xor_into_eq_map2 [OF assms])
qed

section \<open>The scan\<close>

lemma fold_opt_Some:
  assumes "\<And>x s. x \<in> set xs \<Longrightarrow> P s \<Longrightarrow> f x s = Some (g s x) \<and> P (g s x)" and "P s"
  shows "fold_opt f xs s = Some (foldl g s xs) \<and> P (foldl g s xs)"
  using assms by (induction xs arbitrary: s) auto

lemma length_select_bin [simp]: "length (select_bin table rs e acc bin) = length acc"
  by (simp add: select_bin_def)

lemma length_select_foldl [simp]: "length (foldl (select_bin table rs e) acc bs) = length acc"
  by (induction bs arbitrary: acc) simp_all

lemma length_select_bins [simp]: "length (select_bins table bins rs e) = rs"
  by (simp add: select_bins_def)

definition step_all :: "bytes \<Rightarrow> nat \<Rightarrow> dpf_block list list \<Rightarrow> bytes list \<Rightarrow> nat \<Rightarrow> bytes list" where
  "step_all table rs evals accs bin = map2 (\<lambda>e acc. select_bin table rs e acc bin) evals accs"

definition accs_ok :: "nat \<Rightarrow> dpf_block list list \<Rightarrow> bytes list \<Rightarrow> bool" where
  "accs_ok rs evals accs \<longleftrightarrow> length accs = length evals \<and> (\<forall>a \<in> set accs. length a = rs)"

lemma step_all_ok: "accs_ok rs evals accs \<Longrightarrow> accs_ok rs evals (step_all table rs evals accs bin)"
  by (auto simp: accs_ok_def step_all_def select_bin_def set_zip)

lemma step_all_none:
  assumes "accs_ok rs evals accs" and "\<forall>e \<in> set evals. \<not> dpf_bit e bin"
  shows "step_all table rs evals accs bin = accs"
  using assms by (intro nth_equalityI) (auto simp: step_all_def accs_ok_def select_bin_def)

lemma scan_bin_step:
  assumes "accs_ok rs evals accs" and "idx * 128 \<le> bin" and "bin < idx * 128 + 128" and "bin < bins"
    and "bins * rs \<le> length table" and "end_bin \<le> bins"
  shows "scan_bin table rs (map (\<lambda>e. if idx < length e then Some (e ! idx) else None) evals) (idx * 128) end_bin bin accs =
    Some (step_all table rs evals accs bin)"
proof -
  have d: "bin div 128 = idx" using assms(2,3) by (intro div_nat_eqI) auto
  then have dm: "bin mod 128 = bin - idx * 128" by (simp add: modulo_nat_def)
  have mono: "a * rs \<le> length table" if "a \<le> bins" for a
    using that assms(5) mult_le_mono1 [OF that, of rs] by linarith
  have p: "\<not> (bin + PREFETCH_LOOKAHEAD < end_bin \<and> length table < (bin + PREFETCH_LOOKAHEAD) * rs)"
    using mono [of "bin + PREFETCH_LOOKAHEAD"] assms(6) by linarith
  have src: "bin * rs + rs \<le> length table" using mono [of "Suc bin"] assms(4) by simp
  let ?bits = "map (\<lambda>block. case block of None \<Rightarrow> False | Some b \<Rightarrow> get_dpf_bit b (bin - idx * 128))
    (map (\<lambda>e. if idx < length e then Some (e ! idx) else None) evals)"
  have bits: "?bits = map (\<lambda>e. dpf_bit e bin) evals" by (simp add: dpf_bit_def d dm)
  have "map2 (\<lambda>bit acc. if bit then eval_xor_into acc (slice table (bin * rs) rs) else acc)
      (map (\<lambda>e. dpf_bit e bin) evals) accs = step_all table rs evals accs bin"
    using assms(1) src
    by (intro nth_equalityI) (auto simp: step_all_def select_bin_def accs_ok_def eval_xor_into_correct)
  moreover have "step_all table rs evals accs bin = accs" if "\<forall>b \<in> set (map (\<lambda>e. dpf_bit e bin) evals). \<not> b"
    using that by (intro step_all_none [OF assms(1)]) auto
  ultimately show ?thesis using p src unfolding scan_bin_def bits Let_def by auto
qed

lemma get_dpf_bit_zero: "block_is_zero b \<Longrightarrow> \<not> get_dpf_bit b i"
  by (simp add: block_is_zero_def get_dpf_bit_def)

lemma foldl_step_all_none:
  assumes "accs_ok rs evals accs" and "\<forall>bin \<in> set bs. \<forall>e \<in> set evals. \<not> dpf_bit e bin"
  shows "foldl (step_all table rs evals) accs bs = accs"
  using assms(2) by (induction bs) (simp_all add: step_all_none [OF assms(1)])

lemma scan_block_step:
  assumes "accs_ok rs evals accs" and "bins * rs \<le> length table"
  shows "scan_block table bins rs evals idx accs =
      Some (foldl (step_all table rs evals) accs [idx * 128..<min (idx * 128 + 128) bins]) \<and>
    accs_ok rs evals (foldl (step_all table rs evals) accs [idx * 128..<min (idx * 128 + 128) bins])"
proof -
  let ?bs = "[idx * 128..<min (idx * 128 + 128) bins]"
  let ?blocks = "map (\<lambda>e. if idx < length e then Some (e ! idx) else None) evals"
  have s: "fold_opt (scan_bin table rs ?blocks (idx * 128) (min (idx * 128 + 128) bins)) ?bs accs =
      Some (foldl (step_all table rs evals) accs ?bs) \<and> accs_ok rs evals (foldl (step_all table rs evals) accs ?bs)"
    using assms scan_bin_step [OF _ _ _ _ assms(2)] step_all_ok
    by (intro fold_opt_Some [where P = "accs_ok rs evals"]) auto
  have "foldl (step_all table rs evals) accs ?bs = accs"
    if z: "\<forall>b \<in> set ?blocks. case b of None \<Rightarrow> True | Some b \<Rightarrow> block_is_zero b"
  proof (rule foldl_step_all_none [OF assms(1)], intro ballI)
    fix bin e assume "bin \<in> set ?bs" and "e \<in> set evals"
    then have "bin div 128 = idx" "(if idx < length e then Some (e ! idx) else None) \<in> set ?blocks"
      by (auto intro!: div_nat_eqI)
    then show "\<not> dpf_bit e bin" using bspec [OF z] get_dpf_bit_zero by (fastforce simp: dpf_bit_def)
  qed
  then show ?thesis using s unfolding scan_block_def Let_def by auto
qed

lemma upt_blocks: "foldl (\<lambda>s idx. foldl f s [idx * 128..<min (idx * 128 + 128) bins]) s [0..<n] = foldl f s [0..<min (n * 128) bins]"
proof (induction n)
  case (Suc n)
  have "[0..<min (Suc n * 128) bins] = [0..<min (n * 128) bins] @ [n * 128..<min (n * 128 + 128) bins]"
  proof (cases "n * 128 \<le> bins")
    case True
    then show ?thesis using upt_add_eq_append [of 0 "n * 128" "min (n * 128 + 128) bins - n * 128"] by (simp add: add.commute)
  qed (simp add: min_def)
  then show ?case using Suc by simp
qed simp

lemma foldl_unchanged: "(\<And>b a. b \<in> set bs \<Longrightarrow> f a b = a) \<Longrightarrow> foldl f a bs = a"
  by (induction bs) simp_all

lemma length_le_foldr_max: "x \<in> set xs \<Longrightarrow> x \<le> foldr max xs (0 :: nat)"
  by (induction xs) auto

lemma foldl_step_all_map:
  "foldl (step_all table rs evals) (map f evals) bs = map (\<lambda>e. foldl (select_bin table rs e) (f e) bs) evals"
proof (induction bs arbitrary: f)
  case (Cons b bs)
  have "step_all table rs evals (map f evals) b = map (\<lambda>e. select_bin table rs e (f e) b) evals"
    by (simp add: step_all_def map2_map_map [of _ "\<lambda>e. e", simplified])
  then show ?case using Cons by simp
qed simp

lemma process_pass_correct:
  assumes "length keys \<le> MAX_KEYS_PER_GROUP" and "bins * rs \<le> length table"
  shows "process_pass eval keys table bins rs = Some (map (\<lambda>k. select_bins table bins rs (eval k (of_nat bins))) keys)"
proof -
  define evals where "evals = map (\<lambda>k. eval k (of_nat bins)) keys"
  define nb where "nb = foldr max (map length evals) 0"
  define z where "z = (replicate rs 0 :: bytes)"
  let ?g = "\<lambda>accs idx. foldl (step_all table rs evals) accs [idx * 128..<min (idx * 128 + 128) bins]"
  have "accs_ok rs evals (map (\<lambda>_. z) evals)" by (auto simp: accs_ok_def z_def)
  then have "fold_opt (scan_block table bins rs evals) [0..<nb] (map (\<lambda>_. z) evals) =
      Some (foldl ?g (map (\<lambda>_. z) evals) [0..<nb])"
    using scan_block_step [OF _ assms(2)] by (intro fold_opt_Some [where P = "accs_ok rs evals", THEN conjunct1]) auto
  moreover have "foldl ?g (map (\<lambda>_. z) evals) [0..<nb] =
      map (\<lambda>e. foldl (select_bin table rs e) z [0..<min (nb * 128) bins]) evals"
    by (simp only: upt_blocks foldl_step_all_map)
  moreover have "foldl (select_bin table rs e) z [0..<min (nb * 128) bins] = select_bins table bins rs e" if "e \<in> set evals" for e
  proof -
    have "\<not> dpf_bit e bin" if "nb * 128 \<le> bin" for bin
      using that length_le_foldr_max [of "length e" "map length evals"] \<open>e \<in> set evals\<close>
      by (auto simp: dpf_bit_def nb_def dest!: div_le_mono [of "nb * 128" bin 128])
    then have r: "foldl (select_bin table rs e) a [min (nb * 128) bins..<bins] = a" for a
      by (intro foldl_unchanged) (auto simp: select_bin_def)
    have "[0..<bins] = [0..<min (nb * 128) bins] @ [min (nb * 128) bins..<bins]"
      using upt_add_eq_append [of 0 "min (nb * 128) bins" "bins - min (nb * 128) bins"] by simp
    then show ?thesis using r by (simp add: select_bins_def z_def)
  qed
  then have "map (\<lambda>e. foldl (select_bin table rs e) z [0..<min (nb * 128) bins]) evals = map (select_bins table bins rs) evals"
    by (intro map_cong) auto
  moreover have "map (\<lambda>_. z) evals = map (\<lambda>_. z) keys" by (simp add: evals_def)
  ultimately have "fold_opt (scan_block table bins rs evals) [0..<nb] (map (\<lambda>_. z) keys) = Some (map (select_bins table bins rs) evals)"
    by simp
  then show ?thesis
    using assms(1) unfolding process_pass_def Let_def nb_def z_def evals_def by (simp add: comp_def)
qed

lemma in_chunks_length: "0 < n \<Longrightarrow> c \<in> set (chunks n xs) \<Longrightarrow> length c \<le> n"
proof (induction n xs rule: chunks.induct)
  case (1 n xs)
  then show ?case using chunks.simps [of n xs] by (auto split: if_splits)
qed

lemma scan_correct:
  assumes "bins * rs \<le> length table"
  shows "process_table_group eval keys table bins rs =
    Some (map (\<lambda>k. select_bins table bins rs (eval k (of_nat bins))) keys)"
proof -
  let ?f = "\<lambda>k. select_bins table bins rs (eval k (of_nat bins))"
  have "process_passes (\<lambda>pass. process_pass eval pass table bins rs) kss = Some (concat (map (map ?f) kss))"
    if "\<forall>ks \<in> set kss. length ks \<le> MAX_KEYS_PER_GROUP" for kss
    using that by (induction kss) (simp_all add: process_pass_correct [OF _ assms])
  from this [of "chunks MAX_KEYS_PER_GROUP keys"]
  have "process_table_group eval keys table bins rs = Some (concat (map (map ?f) (chunks MAX_KEYS_PER_GROUP keys)))"
    using in_chunks_length [of MAX_KEYS_PER_GROUP _ keys]
    by (simp add: process_table_group_def MAX_KEYS_PER_GROUP_def)
  also have "concat (map (map ?f) (chunks MAX_KEYS_PER_GROUP keys)) = map ?f keys"
    by (simp add: MAX_KEYS_PER_GROUP_def flip: map_concat)
  finally show ?thesis .
qed

text \<open>C23: The scan of a group, for any number of keys: keys evaluated eight at a time, blocks of zero bits
  skipped, keys of different domain sizes mixed, words instead of bytes combined. It never panics on a
  table of the declared size, and each result is the exclusive or of the bins that this key selects,
  whatever other keys share the scan.\<close>

theorem process_table_group_correct:
  assumes "bins * rs \<le> length table"
  shows "process_table_group eval keys table bins rs =
    Some (map (\<lambda>k. select_bins table bins rs (eval k (of_nat bins))) keys)"
  by (rule scan_correct [OF assms])

text \<open>Three bins of two bytes; the key selects the bins 0 and 2.\<close>

theorem process_table_group_correct_witness:
  "process_table_group (\<lambda>k n. [\<lparr>blk_low = k, blk_high = 0\<rparr>]) [5, 2] [1, 2, 4, 8, 16, 32] 3 2 = Some [[17, 34], [4, 8]]"
proof -
  have "select_bins [1, 2, 4, 8, 16, 32] 3 2 [\<lparr>blk_low = 5, blk_high = 0\<rparr>] = [17, 34]"
    "select_bins [1, 2, 4, 8, 16, 32] 3 2 [\<lparr>blk_low = 2, blk_high = 0\<rparr>] = [4, 8]" by code_simp+
  then show ?thesis
    using process_table_group_correct [of 3 2 "[1, 2, 4, 8, 16, 32]" "\<lambda>k n. [\<lparr>blk_low = k, blk_high = 0\<rparr>]" "[5, 2]"]
    by simp
qed

end
