(* ===== verification/Table_Load.thy ===== *)
theory Table_Load
  imports Cuckoo_Header
begin

text \<open>
  The served tables of \<open>crates/protocol/runtime/src/table.rs\<close>: a sub-table file is its bytes, loading
  parses the header and checks the size of an anchored file, and a group is a slice of the file.
  \<open>None\<close> is a panic; for \<open>try_group_bytes\<close> it is the absent result.
\<close>

section \<open>Definitions\<close>

record mapped_sub_table =
  mt_mmap :: bytes
  mt_params :: table_params
  mt_bins_per_table :: nat
  mt_table_byte_size :: nat
  mt_data_offset :: nat
  mt_tag_seed :: u64
  mt_master_seed :: u64
  mt_anchor :: "header_anchor option"

definition metadata_only :: "table_params \<Rightarrow> nat \<Rightarrow> u64 \<Rightarrow> u64 \<Rightarrow> header_anchor \<Rightarrow> mapped_sub_table" where
  "metadata_only params bins_per_table master_seed tag_seed anchor =
     \<lparr>mt_mmap = [0], mt_params = params, mt_bins_per_table = bins_per_table,
      mt_table_byte_size = tp_table_byte_size params bins_per_table, mt_data_offset = 0,
      mt_tag_seed = tag_seed, mt_master_seed = master_seed, mt_anchor = Some anchor\<rparr>"

definition load_sub_table :: "bytes \<Rightarrow> table_params \<Rightarrow> mapped_sub_table option" where
  "load_sub_table mmap params =
     (case read_cuckoo_header_with_anchor mmap params of
        Inl _ \<Rightarrow> None
      | Inr parsed \<Rightarrow>
          (let table_byte_size = tp_table_byte_size params (ch_bins_per_table parsed);
               data_offset = ch_header_size parsed
           in if ch_anchor parsed \<noteq> None \<and> length mmap \<noteq> data_offset + tp_k params * table_byte_size then None
              else Some \<lparr>mt_mmap = mmap, mt_params = params, mt_bins_per_table = ch_bins_per_table parsed,
                         mt_table_byte_size = table_byte_size, mt_data_offset = data_offset,
                         mt_tag_seed = ch_tag_seed parsed, mt_master_seed = ch_master_seed parsed,
                         mt_anchor = ch_anchor parsed\<rparr>))"

definition group_bytes :: "mapped_sub_table \<Rightarrow> nat \<Rightarrow> bytes option" where
  "group_bytes t group_id =
     (let offset = mt_data_offset t + group_id * mt_table_byte_size t
      in if length (mt_mmap t) < offset + mt_table_byte_size t then None
         else Some (slice (mt_mmap t) offset (mt_table_byte_size t)))"

definition try_group_bytes :: "mapped_sub_table \<Rightarrow> nat \<Rightarrow> bytes option" where
  "try_group_bytes t group_id =
     (if tp_k (mt_params t) \<le> group_id then None
      else (let prod = group_id * mt_table_byte_size t; offset = mt_data_offset t + prod; e = offset + mt_table_byte_size t
            in if 2 ^ 64 \<le> prod \<or> 2 ^ 64 \<le> offset \<or> 2 ^ 64 \<le> e then None
               else if length (mt_mmap t) < e then None
               else Some (slice (mt_mmap t) offset (mt_table_byte_size t))))"

section \<open>Layout of a loaded file\<close>

text \<open>The size of an anchored file is right, so every group of it can be read.\<close>

lemma load_sub_table_groups:
  assumes "load_sub_table mmap params = Some t" and "mt_anchor t \<noteq> None" and "g < tp_k params"
  shows "group_bytes t g = Some (slice mmap (mt_data_offset t + g * mt_table_byte_size t) (mt_table_byte_size t))"
proof -
  have len: "length mmap = mt_data_offset t + tp_k params * mt_table_byte_size t" "mt_mmap t = mmap"
    using assms(1,2) by (auto simp: load_sub_table_def Let_def split: sum.splits if_splits)
  have "Suc g * mt_table_byte_size t \<le> tp_k params * mt_table_byte_size t" using assms(3) by (intro mult_le_mono1) simp
  with len show ?thesis by (simp add: group_bytes_def)
qed

text \<open>For a file in memory the two readers agree on the groups of the table.\<close>

lemma try_group_bytes_eq:
  assumes "g < tp_k (mt_params t)" and "length (mt_mmap t) < 2 ^ 64"
  shows "try_group_bytes t g = group_bytes t g"
  using assms by (auto simp: try_group_bytes_def group_bytes_def Let_def)

end
