(* ===== verification/Scan_Batch.thy ===== *)
theory Scan_Batch
  imports Dpf_Eval Table_Load
begin

text \<open>
  Shared table scans, \<open>apps/server/src/bin/unified_server/scan_batch.rs\<close>: \<open>scan_jobs\<close> evaluates the keys
  of several queries in one pass over a table, and the batcher lets one thread at a time scan for
  everyone queued. The batcher is a step relation over one lane: a step is a critical section of the
  code, or a message sent or received; which thread moves is not determined.
\<close>

section \<open>One scan for several queries\<close>

type_synonym 'k scan_keys = "'k list list"
type_synonym scan_result = "bytes list list"

definition job_group :: "'k scan_keys \<Rightarrow> nat \<Rightarrow> 'k list option" where
  "job_group keys g = (if g < length keys then Some (keys ! g) else None)"

definition scan_group ::
  "('k \<Rightarrow> u64 \<Rightarrow> dpf_block list) \<Rightarrow> mapped_sub_table \<Rightarrow> 'k scan_keys list \<Rightarrow> nat \<Rightarrow> bytes list option" where
  "scan_group eval table jobs g =
     Option.bind (group_bytes table g) (\<lambda>table_bytes.
       process_table_group eval (concat (List.map_filter (\<lambda>j. job_group j g) jobs)) table_bytes
         (mt_bins_per_table table) (tp_bin_size (mt_params table)))"

text \<open>Handing out the results of one group: each query takes as many as it has keys there.\<close>

fun distribute :: "nat \<Rightarrow> 'k scan_keys list \<Rightarrow> bytes list \<Rightarrow> scan_result list \<Rightarrow> scan_result list" where
  "distribute g (job # jobs) accs (r # rs) =
     (case job_group job g of
        Some keys \<Rightarrow> (r @ [take (length keys) accs]) # distribute g jobs (drop (length keys) accs) rs
      | None \<Rightarrow> r # distribute g jobs accs rs)"
| "distribute g jobs accs rs = rs"

definition scan_jobs ::
  "('k \<Rightarrow> u64 \<Rightarrow> dpf_block list) \<Rightarrow> mapped_sub_table \<Rightarrow> 'k scan_keys list \<Rightarrow> scan_result list option" where
  "scan_jobs eval table jobs =
     (let num_groups = foldr max (map length jobs) 0
      in fold_opt (\<lambda>g results. map_option (\<lambda>accs. distribute g jobs accs results) (scan_group eval table jobs g))
           [0..<num_groups] (map (\<lambda>_. []) jobs))"

text \<open>What one query alone should get.\<close>

definition table_result :: "('k \<Rightarrow> u64 \<Rightarrow> dpf_block list) \<Rightarrow> mapped_sub_table \<Rightarrow> nat \<Rightarrow> 'k \<Rightarrow> bytes" where
  "table_result eval table g k =
     select_bins (the (group_bytes table g)) (mt_bins_per_table table) (tp_bin_size (mt_params table))
       (eval k (of_nat (mt_bins_per_table table)))"

definition own_results :: "('k \<Rightarrow> u64 \<Rightarrow> dpf_block list) \<Rightarrow> mapped_sub_table \<Rightarrow> 'k scan_keys \<Rightarrow> scan_result" where
  "own_results eval table keys = map (\<lambda>g. map (table_result eval table g) (keys ! g)) [0..<length keys]"

definition table_covers :: "mapped_sub_table \<Rightarrow> nat \<Rightarrow> bool" where
  "table_covers table n \<longleftrightarrow> (\<forall>g < n. group_bytes table g \<noteq> None) \<and>
     mt_table_byte_size table = mt_bins_per_table table * tp_bin_size (mt_params table)"

lemma group_bytes_length: "group_bytes table g = Some bs \<Longrightarrow> length bs = mt_table_byte_size table"
  by (auto simp: group_bytes_def Let_def split: if_splits)

lemma scan_group_results:
  assumes "table_covers table n" and "g < n"
  shows "scan_group eval table jobs g =
    Some (map (table_result eval table g) (concat (List.map_filter (\<lambda>j. job_group j g) jobs)))"
proof -
  obtain bs where bs: "group_bytes table g = Some bs" using assms by (auto simp: table_covers_def)
  then have "mt_bins_per_table table * tp_bin_size (mt_params table) \<le> length bs"
    using assms(1) group_bytes_length by (auto simp: table_covers_def)
  then show ?thesis by (simp add: scan_group_def bs scan_correct table_result_def)
qed

lemma distribute_results:
  assumes "length rs = length jobs"
  shows "distribute g jobs (map f (concat (List.map_filter (\<lambda>j. job_group j g) jobs)) @ rest) rs =
    map2 (\<lambda>job r. case job_group job g of None \<Rightarrow> r | Some keys \<Rightarrow> r @ [map f keys]) jobs rs"
  using assms
proof (induction jobs arbitrary: rs)
  case (Cons job jobs)
  then obtain r rs' where "rs = r # rs'" by (cases rs) auto
  with Cons show ?case by (cases "job_group job g") (simp_all add: List.map_filter_def)
qed simp

lemma scan_jobs_correct:
  assumes "table_covers table n" and "\<forall>job \<in> set jobs. length job \<le> n"
  shows "scan_jobs eval table jobs = Some (map (own_results eval table) jobs)"
proof -
  let ?res = "\<lambda>m job. map (\<lambda>g. map (table_result eval table g) (job ! g)) [0..<min m (length job)]"
  let ?f = "\<lambda>g results. map_option (\<lambda>accs. distribute g jobs accs results) (scan_group eval table jobs g)"
  have step: "?f g (map (?res g) jobs) = Some (map (?res (Suc g)) jobs)" if "g < n" for g
    using that distribute_results [of "map (?res g) jobs" jobs g "table_result eval table g" "[]"]
    by (auto simp: scan_group_results [OF assms(1)] zip_map2 zip_same_conv_map job_group_def comp_def min_def
        not_less_eq_eq upt_Suc less_Suc_eq_le split: option.splits)
  have "fold_opt ?f [0..<m] (map (?res 0) jobs) = Some (map (?res m) jobs)" if "m \<le> n" for m
    using that
  proof (induction m)
    case (Suc m)
    have "fold_opt ?f (xs @ [x]) s = Option.bind (fold_opt ?f xs s) (?f x)" for xs x s
      by (induction xs arbitrary: s) (auto split: Option.bind_splits)
    with Suc step [of m] show ?case by simp
  qed simp
  moreover have "foldr max (map length jobs) 0 \<le> n" using assms(2) by (induction jobs) auto
  moreover have "?res (foldr max (map length jobs) 0) job = own_results eval table job" if "job \<in> set jobs" for job
    using length_le_foldr_max [of "length job" "map length jobs"] that by (simp add: own_results_def min_absorb2)
  ultimately show ?thesis by (simp add: scan_jobs_def cong: map_cong)
qed

end
