(* ===== verification/Scan_Lane.thy ===== *)
theory Scan_Lane
  imports Scan_Batch
begin

text \<open>
  The batcher of \<open>apps/server/src/bin/unified_server/scan_batch.rs\<close> for one lane: \<open>ScanBatcher::scan\<close> as
  run by any number of threads. A query is a natural number with keys \<open>keys q\<close>; its thread is in one of
  the phases between the critical sections of \<open>scan\<close>, and its channel is the list of replies not yet
  received. The scan of a batch is the function \<open>scan\<close> from the jobs to their results, \<open>None\<close> if it panics.

  In the relation \<open>lane_step\<close> every query has a thread of its own, which only its own receives can block. That is
  how \<open>spawn_heavy\<close> of \<open>dispatch.rs\<close> runs the paid queries. It runs free queries on the workers of a
  rayon pool, where a worker that waits for a part of its scan may start another query on the same stack;
  the relation \<open>pool_step\<close> at the end adds this.
\<close>

section \<open>States and steps\<close>

datatype 'r reply = Reply_Done 'r | Reply_Scan

text \<open>
  \<open>Waiting\<close>: in the first \<open>rx.recv\<close>; \<open>Draining\<close>: about to take the queue; \<open>Sending\<close>: results of the batch
  still to be sent; \<open>Handing\<close>: about to pass on the scan; \<open>Ending\<close>: in the last \<open>rx.recv\<close>; \<open>Crashed\<close>: a
  panic of the scan, or the branch marked unreachable.
\<close>

datatype 'r phase = Idle | Waiting | Draining | Sending "(nat \<times> 'r) list" | Handing | Ending | Finished 'r | Crashed

record 'r lane =
  ln_scanning :: bool
  ln_queued :: "nat list"
  ln_phase :: "nat \<Rightarrow> 'r phase"
  ln_inbox :: "nat \<Rightarrow> 'r reply list"

definition lane_init :: "'r lane" where
  "lane_init = \<lparr>ln_scanning = False, ln_queued = [], ln_phase = (\<lambda>_. Idle), ln_inbox = (\<lambda>_. [])\<rparr>"

definition set_phase :: "nat \<Rightarrow> 'r phase \<Rightarrow> 'r lane \<Rightarrow> 'r lane" where
  "set_phase q p s = s\<lparr>ln_phase := (ln_phase s)(q := p)\<rparr>"

definition send :: "nat \<Rightarrow> 'r reply \<Rightarrow> 'r lane \<Rightarrow> 'r lane" where
  "send q r s = s\<lparr>ln_inbox := (ln_inbox s)(q := ln_inbox s q @ [r])\<rparr>"

definition receive :: "nat \<Rightarrow> 'r lane \<Rightarrow> 'r lane" where
  "receive q s = s\<lparr>ln_inbox := (ln_inbox s)(q := tl (ln_inbox s q))\<rparr>"

definition enqueue :: "nat \<Rightarrow> 'r lane \<Rightarrow> 'r lane" where
  "enqueue q s =
     set_phase q (if ln_scanning s then Waiting else Draining)
       (s\<lparr>ln_queued := ln_queued s @ [q], ln_scanning := True\<rparr>)"

definition drain :: "(nat list \<Rightarrow> 'r list option) \<Rightarrow> nat \<Rightarrow> 'r lane \<Rightarrow> 'r lane" where
  "drain scan q s =
     set_phase q (case scan (ln_queued s) of Some results \<Rightarrow> Sending (zip (ln_queued s) results) | None \<Rightarrow> Crashed)
       (s\<lparr>ln_queued := []\<rparr>)"

definition hand_over :: "nat \<Rightarrow> 'r lane \<Rightarrow> 'r lane" where
  "hand_over q s =
     set_phase q Ending
       (case ln_queued s of next # _ \<Rightarrow> send next Reply_Scan s | [] \<Rightarrow> s\<lparr>ln_scanning := False\<rparr>)"

text \<open>
  The scan itself is part of \<open>drain\<close>: it reads the table and the taken jobs only, so it may as well happen at
  once. Between \<open>drain\<close> and the first result sent the thread is in \<open>scan_jobs\<close>.
\<close>

inductive lane_step :: "(nat list \<Rightarrow> 'r list option) \<Rightarrow> 'r lane \<Rightarrow> 'r lane \<Rightarrow> bool" for scan where
  arrive: "ln_phase s q = Idle \<Longrightarrow> lane_step scan s (enqueue q s)"
| told_done: "ln_phase s q = Waiting \<Longrightarrow> ln_inbox s q = Reply_Done r # rest \<Longrightarrow>
    lane_step scan s (set_phase q (Finished r) (receive q s))"
| told_to_scan: "ln_phase s q = Waiting \<Longrightarrow> ln_inbox s q = Reply_Scan # rest \<Longrightarrow>
    lane_step scan s (set_phase q Draining (receive q s))"
| take_queue: "ln_phase s q = Draining \<Longrightarrow> lane_step scan s (drain scan q s)"
| send_result: "ln_phase s q = Sending ((j, r) # rest) \<Longrightarrow>
    lane_step scan s (set_phase q (Sending rest) (send j (Reply_Done r) s))"
| all_sent: "ln_phase s q = Sending [] \<Longrightarrow> lane_step scan s (set_phase q Handing s)"
| pass_on: "ln_phase s q = Handing \<Longrightarrow> lane_step scan s (hand_over q s)"
| get_result: "ln_phase s q = Ending \<Longrightarrow> ln_inbox s q = Reply_Done r # rest \<Longrightarrow>
    lane_step scan s (set_phase q (Finished r) (receive q s))"
| get_scan: "ln_phase s q = Ending \<Longrightarrow> ln_inbox s q = Reply_Scan # rest \<Longrightarrow>
    lane_step scan s (set_phase q Crashed (receive q s))"

inductive lane_reachable :: "(nat list \<Rightarrow> 'r list option) \<Rightarrow> 'r lane \<Rightarrow> bool" for scan where
  lane_start: "lane_reachable scan lane_init"
| lane_next: "lane_reachable scan s \<Longrightarrow> lane_step scan s t \<Longrightarrow> lane_reachable scan t"

section \<open>The invariant\<close>

text \<open>The thread that has the scan: it is in the scanning part, or has been told to scan.\<close>

fun scan_phase :: "'r phase \<Rightarrow> bool" where
  "scan_phase Draining = True"
| "scan_phase (Sending _) = True"
| "scan_phase Handing = True"
| "scan_phase _ = False"

definition owner :: "'r lane \<Rightarrow> nat \<Rightarrow> bool" where
  "owner s q \<longleftrightarrow> scan_phase (ln_phase s q) \<or> Reply_Scan \<in> set (ln_inbox s q)"

definition in_flight :: "'r lane \<Rightarrow> nat \<Rightarrow> bool" where
  "in_flight s q \<longleftrightarrow> (\<exists>p rest r. ln_phase s p = Sending rest \<and> (q, r) \<in> set rest)"

text \<open>
  For each query, by the phase of its thread: where its job is and what its channel holds. \<open>res\<close> is the
  result that a query is to get.
\<close>

definition query_ok :: "(nat \<Rightarrow> 'r) \<Rightarrow> 'r lane \<Rightarrow> nat \<Rightarrow> bool" where
  "query_ok res s q =
     (case ln_phase s q of
        Idle \<Rightarrow> q \<notin> set (ln_queued s) \<and> \<not> in_flight s q \<and> ln_inbox s q = []
      | Waiting \<Rightarrow>
          q \<in> set (ln_queued s) \<and> \<not> in_flight s q \<and> (ln_inbox s q = [] \<or> ln_inbox s q = [Reply_Scan]) \<or>
          q \<notin> set (ln_queued s) \<and> in_flight s q \<and> ln_inbox s q = [] \<or>
          q \<notin> set (ln_queued s) \<and> \<not> in_flight s q \<and> ln_inbox s q = [Reply_Done (res q)]
      | Draining \<Rightarrow> q \<in> set (ln_queued s) \<and> \<not> in_flight s q \<and> ln_inbox s q = []
      | Sending rest \<Rightarrow> q \<notin> set (ln_queued s) \<and>
          (if in_flight s q then ln_inbox s q = [] else ln_inbox s q = [Reply_Done (res q)])
      | Handing \<Rightarrow> q \<notin> set (ln_queued s) \<and> \<not> in_flight s q \<and> ln_inbox s q = [Reply_Done (res q)]
      | Ending \<Rightarrow> q \<notin> set (ln_queued s) \<and> \<not> in_flight s q \<and> ln_inbox s q = [Reply_Done (res q)]
      | Finished r \<Rightarrow> q \<notin> set (ln_queued s) \<and> \<not> in_flight s q \<and> ln_inbox s q = [] \<and> r = res q
      | Crashed \<Rightarrow> False)"

definition lane_inv :: "(nat \<Rightarrow> 'r) \<Rightarrow> 'r lane \<Rightarrow> bool" where
  "lane_inv res s \<longleftrightarrow>
     (\<forall>q. query_ok res s q) \<and> distinct (ln_queued s) \<and>
     (\<forall>q q'. owner s q \<longrightarrow> owner s q' \<longrightarrow> q = q') \<and>
     (ln_scanning s \<longleftrightarrow> (\<exists>q. owner s q)) \<and> (\<not> ln_scanning s \<longrightarrow> ln_queued s = []) \<and>
     (\<forall>q rest. ln_phase s q = Sending rest \<longrightarrow> distinct (map fst rest)) \<and>
     (\<forall>q rest j r. ln_phase s q = Sending rest \<longrightarrow> (j, r) \<in> set rest \<longrightarrow> r = res j)"

lemma lane_inv_init: "lane_inv res lane_init"
  by (simp add: lane_inv_def lane_init_def query_ok_def in_flight_def owner_def)

lemma lane_simps [simp]:
  "ln_phase (set_phase q p s) = (ln_phase s)(q := p)"
  "ln_queued (set_phase q p s) = ln_queued s"
  "ln_inbox (set_phase q p s) = ln_inbox s"
  "ln_scanning (set_phase q p s) = ln_scanning s"
  "ln_phase (send q r s) = ln_phase s"
  "ln_queued (send q r s) = ln_queued s"
  "ln_inbox (send q r s) = (ln_inbox s)(q := ln_inbox s q @ [r])"
  "ln_scanning (send q r s) = ln_scanning s"
  "ln_phase (receive q s) = ln_phase s"
  "ln_queued (receive q s) = ln_queued s"
  "ln_inbox (receive q s) = (ln_inbox s)(q := tl (ln_inbox s q))"
  "ln_scanning (receive q s) = ln_scanning s"
  by (simp_all add: set_phase_def send_def receive_def)

lemma in_flight_cong:
  assumes "\<And>p rest. ln_phase t p = Sending rest \<longleftrightarrow> ln_phase s p = Sending rest"
  shows "in_flight t x = in_flight s x"
  using assms by (simp add: in_flight_def)

lemma query_ok_cong:
  assumes "ln_phase t x = ln_phase s x" and "ln_inbox t x = ln_inbox s x"
    and "x \<in> set (ln_queued t) \<longleftrightarrow> x \<in> set (ln_queued s)" and "in_flight t x = in_flight s x"
  shows "query_ok res t x = query_ok res s x"
  unfolding query_ok_def assms by (rule refl)

lemma lane_invD:
  assumes "lane_inv res s"
  shows "query_ok res s q" and "distinct (ln_queued s)" and "owner s q \<Longrightarrow> owner s q' \<Longrightarrow> q = q'"
    and "ln_scanning s \<longleftrightarrow> (\<exists>q. owner s q)" and "\<not> ln_scanning s \<Longrightarrow> ln_queued s = []"
    and "ln_phase s q = Sending rest \<Longrightarrow> distinct (map fst rest)"
    and "ln_phase s q = Sending rest \<Longrightarrow> (j, r) \<in> set rest \<Longrightarrow> r = res j"
  using assms unfolding lane_inv_def by blast+

lemma lane_invI:
  assumes "\<And>q. query_ok res s q" and "distinct (ln_queued s)" and "\<And>q q'. owner s q \<Longrightarrow> owner s q' \<Longrightarrow> q = q'"
    and "ln_scanning s \<longleftrightarrow> (\<exists>q. owner s q)" and "\<not> ln_scanning s \<Longrightarrow> ln_queued s = []"
    and "\<And>q rest. ln_phase s q = Sending rest \<Longrightarrow> distinct (map fst rest)"
    and "\<And>q rest j r. ln_phase s q = Sending rest \<Longrightarrow> (j, r) \<in> set rest \<Longrightarrow> r = res j"
  shows "lane_inv res s"
  unfolding lane_inv_def by (intro conjI allI impI) (assumption | rule assms)+

lemma in_flight_owner:
  assumes "lane_inv res s" and "owner s q"
  shows "in_flight s x \<longleftrightarrow> (\<exists>rest r. ln_phase s q = Sending rest \<and> (x, r) \<in> set rest)"
proof
  assume "in_flight s x"
  then obtain p rest r where p: "ln_phase s p = Sending rest" "(x, r) \<in> set rest" unfolding in_flight_def by blast
  have "owner s p" using p(1) by (simp add: owner_def)
  then have "p = q" using assms(2) by (rule lane_invD(3) [OF assms(1)])
  with p show "\<exists>rest r. ln_phase s q = Sending rest \<and> (x, r) \<in> set rest" by blast
next
  assume "\<exists>rest r. ln_phase s q = Sending rest \<and> (x, r) \<in> set rest"
  then show "in_flight s x" unfolding in_flight_def by blast
qed

text \<open>A step that keeps the queue, changes the phase of one thread and no batch in flight.\<close>

lemma lane_inv_local:
  assumes "lane_inv res s" and "ln_queued t = ln_queued s" and "ln_scanning t = ln_scanning s"
    and "\<And>x. x \<noteq> q \<Longrightarrow> ln_phase t x = ln_phase s x \<and> ln_inbox t x = ln_inbox s x"
    and "\<And>rest. ln_phase t q \<noteq> Sending rest" and "\<And>rest. ln_phase s q = Sending rest \<Longrightarrow> rest = []"
    and "owner t q = owner s q" and "(\<And>x. in_flight t x = in_flight s x) \<Longrightarrow> query_ok res t q"
  shows "lane_inv res t"
proof (rule lane_invI)
  have f: "in_flight t x = in_flight s x" for x
  proof -
    have "(\<exists>rest r. ln_phase t p = Sending rest \<and> (x, r) \<in> set rest) = (\<exists>rest r. ln_phase s p = Sending rest \<and> (x, r) \<in> set rest)"
      for p using assms(4-6) by (cases "p = q") fastforce+
    then show ?thesis unfolding in_flight_def by blast
  qed
  have o: "owner t x = owner s x" for x using assms(4,7) by (cases "x = q") (auto simp: owner_def)
  have p: "ln_phase s x = Sending rest" if "ln_phase t x = Sending rest" for x rest
    using that assms(4,5) by (cases "x = q") auto
  show "query_ok res t x" for x
    using assms(2,4) assms(8) [OF f] lane_invD(1) [OF assms(1), of x] query_ok_cong [OF _ _ _ f, of x res]
    by (cases "x = q") simp_all
  show "distinct (ln_queued t)" using lane_invD(2) [OF assms(1)] assms(2) by simp
  show "x = y" if "owner t x" "owner t y" for x y using that lane_invD(3) [OF assms(1)] unfolding o by blast
  show "ln_scanning t = (\<exists>x. owner t x)" using lane_invD(4) [OF assms(1)] unfolding o assms(3) .
  show "ln_queued t = []" if "\<not> ln_scanning t" using that lane_invD(5) [OF assms(1)] assms(2,3) by simp
  show "distinct (map fst rest)" if "ln_phase t x = Sending rest" for x rest
    using lane_invD(6) [OF assms(1) p [OF that]] .
  show "r = res j" if "ln_phase t x = Sending rest" "(j, r) \<in> set rest" for x rest j r
    using lane_invD(7) [OF assms(1) p [OF that(1)] that(2)] .
qed

lemma arrive_inv:
  assumes "lane_inv res s" and "ln_phase s q = Idle"
  shows "lane_inv res (enqueue q s)"
proof (rule lane_invI)
  let ?t = "enqueue q s"
  have q: "q \<notin> set (ln_queued s)" "\<not> in_flight s q" "ln_inbox s q = []"
    using lane_invD(1) [OF assms(1), of q] assms(2) by (auto simp: query_ok_def)
  have f: "in_flight ?t x = in_flight s x" for x
    by (rule in_flight_cong) (use assms(2) in \<open>auto simp: enqueue_def\<close>)
  have o: "owner ?t x = (owner s x \<or> x = q \<and> \<not> ln_scanning s)" for x
    using assms(2) q(3) by (auto simp: owner_def enqueue_def)
  have p: "ln_phase s x = Sending rest" if "ln_phase ?t x = Sending rest" for x rest
    using that by (auto simp: enqueue_def split: if_splits)
  show "query_ok res ?t x" for x
  proof (cases "x = q")
    case True
    moreover have "\<not> in_flight ?t q" using f q by blast
    moreover have "q \<in> set (ln_queued ?t)" "ln_inbox ?t q = []" "ln_phase ?t q \<in> {Waiting, Draining}"
      using q(3) by (simp_all add: enqueue_def)
    ultimately show ?thesis by (auto simp: query_ok_def)
  next
    case False
    then have "ln_phase ?t x = ln_phase s x" "ln_inbox ?t x = ln_inbox s x"
      "x \<in> set (ln_queued ?t) \<longleftrightarrow> x \<in> set (ln_queued s)" by (simp_all add: enqueue_def)
    then show ?thesis using lane_invD(1) [OF assms(1), of x] query_ok_cong [OF _ _ _ f, of x res] by simp
  qed
  show "distinct (ln_queued ?t)" using q(1) lane_invD(2) [OF assms(1)] by (simp add: enqueue_def)
  show "x = y" if "owner ?t x" "owner ?t y" for x y using that lane_invD(3) [OF assms(1), of x y] lane_invD(4) [OF assms(1)] unfolding o by auto
  show "ln_scanning ?t = (\<exists>x. owner ?t x)" using o lane_invD(4) [OF assms(1)] by (auto simp: enqueue_def)
  show "ln_queued ?t = []" if "\<not> ln_scanning ?t" using that by (simp add: enqueue_def)
  show "distinct (map fst rest)" if "ln_phase ?t x = Sending rest" for x rest
    using lane_invD(6) [OF assms(1) p [OF that]] .
  show "r = res j" if "ln_phase ?t x = Sending rest" "(j, r) \<in> set rest" for x rest j r
    using lane_invD(7) [OF assms(1) p [OF that(1)] that(2)] .
qed

lemma told_done_inv:
  assumes "lane_inv res s" and "ln_phase s q = Waiting \<or> ln_phase s q = Ending" and "ln_inbox s q = Reply_Done r # rest"
  shows "lane_inv res (set_phase q (Finished r) (receive q s))"
proof -
  have q: "q \<notin> set (ln_queued s)" "\<not> in_flight s q" "rest = []" "r = res q"
    using lane_invD(1) [OF assms(1), of q] assms(2,3) by (auto simp: query_ok_def)
  show ?thesis
    by (rule lane_inv_local [OF assms(1), where q = q])
      (use assms(2,3) q in \<open>auto simp: owner_def query_ok_def\<close>)
qed

lemma told_to_scan_inv:
  assumes "lane_inv res s" and "ln_phase s q = Waiting" and "ln_inbox s q = Reply_Scan # rest"
  shows "lane_inv res (set_phase q Draining (receive q s))"
proof -
  have q: "q \<in> set (ln_queued s)" "\<not> in_flight s q" "rest = []"
    using lane_invD(1) [OF assms(1), of q] assms(2,3) by (auto simp: query_ok_def)
  show ?thesis
    by (rule lane_inv_local [OF assms(1), where q = q])
      (use assms(2,3) q in \<open>auto simp: owner_def query_ok_def\<close>)
qed

lemma all_sent_inv:
  assumes "lane_inv res s" and "ln_phase s q = Sending []"
  shows "lane_inv res (set_phase q Handing s)"
proof -
  have "owner s q" using assms(2) by (simp add: owner_def)
  from in_flight_owner [OF assms(1) this, of q] have "\<not> in_flight s q" using assms(2) by simp
  with lane_invD(1) [OF assms(1), of q] assms(2)
  have q: "q \<notin> set (ln_queued s)" "\<not> in_flight s q" "ln_inbox s q = [Reply_Done (res q)]" by (auto simp: query_ok_def)
  show ?thesis
    by (rule lane_inv_local [OF assms(1), where q = q])
      (use assms(2) q in \<open>auto simp: owner_def query_ok_def\<close>)
qed

lemma not_owner:
  assumes "lane_inv res s" and "owner s q" and "x \<noteq> q"
  shows "\<not> scan_phase (ln_phase s x)" and "Reply_Scan \<notin> set (ln_inbox s x)"
  using lane_invD(3) [OF assms(1,2), of x] assms(3) by (auto simp: owner_def)

lemma drain_inv:
  assumes "lane_inv res s" and "ln_phase s q = Draining" and "\<And>js. scan js = Some (map res js)"
  shows "lane_inv res (drain scan q s)"
proof (rule lane_invI)
  let ?t = "drain scan q s"
  let ?batch = "zip (ln_queued s) (map res (ln_queued s))"
  have own: "owner s q" using assms(2) by (simp add: owner_def)
  have n: "\<not> in_flight s x" for x using in_flight_owner [OF assms(1) own, of x] assms(2) by simp
  have q: "q \<in> set (ln_queued s)" "ln_inbox s q = []" using lane_invD(1) [OF assms(1), of q] assms(2) by (auto simp: query_ok_def)
  have ph: "ln_phase ?t x = (if x = q then Sending ?batch else ln_phase s x)" "ln_inbox ?t x = ln_inbox s x"
    and qd: "ln_queued ?t = []" "ln_scanning ?t = ln_scanning s" for x by (simp_all add: drain_def assms(3))
  have ns: "ln_phase s x \<noteq> Sending rest" if "x \<noteq> q" for x rest using not_owner(1) [OF assms(1) own that] by auto
  have batch: "(x, r) \<in> set ?batch \<longleftrightarrow> x \<in> set (ln_queued s) \<and> r = res x" for x r
    by (auto simp: zip_map2 zip_same_conv_map)
  have f: "in_flight ?t x \<longleftrightarrow> x \<in> set (ln_queued s)" for x
    unfolding in_flight_def ph using ns batch by (auto split: if_splits)
  have o: "owner ?t x = owner s x" for x unfolding owner_def ph using assms(2) by simp
  show "query_ok res ?t x" for x
    using lane_invD(1) [OF assms(1), of x] n [of x] f [of x] q not_owner [OF assms(1) own, of x]
    by (cases "x = q"; cases "ln_phase s x") (auto simp: query_ok_def ph qd)
  show "distinct (ln_queued ?t)" by (simp add: qd)
  show "x = y" if "owner ?t x" "owner ?t y" for x y using that lane_invD(3) [OF assms(1)] unfolding o by blast
  show "ln_scanning ?t = (\<exists>x. owner ?t x)" using lane_invD(4) [OF assms(1)] unfolding o qd .
  show "ln_queued ?t = []" by (simp add: qd)
  show "distinct (map fst rest)" if "ln_phase ?t x = Sending rest" for x rest
    using that ns [of x rest] lane_invD(2) [OF assms(1)] by (auto simp: ph split: if_splits)
  show "r = res j" if "ln_phase ?t x = Sending rest" "(j, r) \<in> set rest" for x rest j r
    using that ns [of x rest] batch [of j r] by (auto simp: ph split: if_splits)
qed

lemma send_result_inv:
  assumes "lane_inv res s" and "ln_phase s q = Sending ((j, r) # rest)"
  shows "lane_inv res (set_phase q (Sending rest) (send j (Reply_Done r) s))"
proof (rule lane_invI)
  let ?t = "set_phase q (Sending rest) (send j (Reply_Done r) s)"
  have own: "owner s q" using assms(2) by (simp add: owner_def)
  have r: "r = res j" using lane_invD(7) [OF assms(1,2)] by simp
  have j: "j \<notin> fst ` set rest" "distinct (map fst rest)" using lane_invD(6) [OF assms(1,2)] by auto
  have ns: "ln_phase s x \<noteq> Sending z" if "x \<noteq> q" for x z using not_owner(1) [OF assms(1) own that] by auto
  have fs: "in_flight s x \<longleftrightarrow> x = j \<or> x \<in> fst ` set rest" for x
    using in_flight_owner [OF assms(1) own, of x] assms(2) by force
  have f: "in_flight ?t x \<longleftrightarrow> x \<in> fst ` set rest" for x
    unfolding in_flight_def using ns by (force split: if_splits)
  have o: "owner ?t x = owner s x" for x using assms(2) by (auto simp: owner_def)
  show "query_ok res ?t x" for x
    using lane_invD(1) [OF assms(1), of x] f [of x] fs [of x] j r assms(2) ns [of x]
    by (cases "ln_phase s x"; cases "x = q"; cases "x = j") (auto simp: query_ok_def)
  show "distinct (ln_queued ?t)" using lane_invD(2) [OF assms(1)] by simp
  show "x = y" if "owner ?t x" "owner ?t y" for x y using that lane_invD(3) [OF assms(1)] unfolding o by blast
  show "ln_scanning ?t = (\<exists>x. owner ?t x)" using lane_invD(4) [OF assms(1)] unfolding o by simp
  show "ln_queued ?t = []" if "\<not> ln_scanning ?t" using that lane_invD(5) [OF assms(1)] by simp
  show "distinct (map fst z)" if "ln_phase ?t x = Sending z" for x z
    using that ns [of x z] j(2) by (auto split: if_splits)
  show "y = res i" if "ln_phase ?t x = Sending z" "(i, y) \<in> set z" for x z i y
    using that ns [of x z] lane_invD(7) [OF assms(1,2), of i y] by (auto split: if_splits)
qed

lemma hand_over_inv:
  assumes "lane_inv res s" and "ln_phase s q = Handing"
  shows "lane_inv res (hand_over q s)"
proof (rule lane_invI)
  let ?t = "hand_over q s"
  have own: "owner s q" using assms(2) by (simp add: owner_def)
  have ns: "ln_phase s x \<noteq> Sending z" for x z using not_owner(1) [OF assms(1) own, of x] assms(2) by (cases "x = q") auto
  have q: "q \<notin> set (ln_queued s)" "ln_inbox s q = [Reply_Done (res q)]"
    using lane_invD(1) [OF assms(1), of q] assms(2) by (auto simp: query_ok_def)
  have ph: "ln_phase ?t = (ln_phase s)(q := Ending)" "ln_queued ?t = ln_queued s"
    "ln_inbox ?t = (case ln_queued s of [] \<Rightarrow> ln_inbox s | p # _ \<Rightarrow> (ln_inbox s)(p := ln_inbox s p @ [Reply_Scan]))"
    "ln_scanning ?t = (ln_queued s \<noteq> [] \<and> ln_scanning s)"
    by (simp_all add: hand_over_def split: list.split)
  have fs: "\<not> in_flight s x" "\<not> in_flight ?t x" for x using ns by (auto simp: in_flight_def ph)
  have nt: "ln_phase ?t x \<noteq> Sending z" for x z using ns by (simp add: ph)
  have o: "owner ?t x \<longleftrightarrow> (\<exists>ps. ln_queued s = x # ps)" for x
    using not_owner [OF assms(1) own, of x] q by (cases "x = q") (auto simp: owner_def ph split: list.split)
  show "query_ok res ?t x" for x
    using lane_invD(1) [OF assms(1), of x] fs [of x] q not_owner [OF assms(1) own, of x]
    by (cases "x = q"; cases "ln_phase s x") (auto simp: query_ok_def ph split: list.splits)
  show "distinct (ln_queued ?t)" using lane_invD(2) [OF assms(1)] by (simp add: ph)
  show "x = y" if "owner ?t x" "owner ?t y" for x y using that unfolding o by auto
  show "ln_scanning ?t = (\<exists>x. owner ?t x)" using lane_invD(4) [OF assms(1)] own unfolding o ph by (cases "ln_queued s") auto
  show "ln_queued ?t = []" if "\<not> ln_scanning ?t" using that lane_invD(4) [OF assms(1)] own by (auto simp: ph)
  show "distinct (map fst z)" if "ln_phase ?t x = Sending z" for x z using that nt by blast
  show "y = res i" if "ln_phase ?t x = Sending z" "(i, y) \<in> set z" for x z i y using that nt by blast
qed

lemma lane_step_inv:
  assumes "lane_step scan s t" and "\<And>js. scan js = Some (map res js)" and "lane_inv res s"
  shows "lane_inv res t"
  using assms(1)
proof cases
  case (get_scan q rest)
  then show ?thesis using lane_invD(1) [OF assms(3), of q] by (simp add: query_ok_def)
qed (simp_all add: assms(3) arrive_inv told_done_inv told_to_scan_inv drain_inv [OF assms(3) _ assms(2)] send_result_inv
    all_sent_inv hand_over_inv)

lemma lane_reachable_inv:
  assumes "lane_reachable scan s" and "\<And>js. scan js = Some (map res js)"
  shows "lane_inv res s"
  using assms(1)
proof induction
  case lane_start
  show ?case by (rule lane_inv_init)
next
  case (lane_next s t)
  then show ?case using lane_step_inv [OF lane_next.hyps(2) assms(2)] by blast
qed

section \<open>Progress\<close>

text \<open>The work left in a lane for the queries below \<open>n\<close>: each step that is not an arrival lowers it.\<close>

fun phase_work :: "'r phase \<Rightarrow> nat" where
  "phase_work Waiting = 5"
| "phase_work Draining = 4"
| "phase_work (Sending rest) = 3 + length rest"
| "phase_work Handing = 2"
| "phase_work Ending = 1"
| "phase_work _ = 0"

definition lane_work :: "nat \<Rightarrow> 'r lane \<Rightarrow> nat" where
  "lane_work n s = (\<Sum>q<n. phase_work (ln_phase s q)) + 2 * length (ln_queued s)"

definition settled :: "'r phase \<Rightarrow> bool" where
  "settled p \<longleftrightarrow> (case p of Idle \<Rightarrow> True | Finished _ \<Rightarrow> True | _ \<Rightarrow> False)"

lemma lane_work_update:
  assumes "ln_phase t = (ln_phase s)(q := p)" and "q < n"
    and "phase_work p + 2 * length (ln_queued t) < phase_work (ln_phase s q) + 2 * length (ln_queued s)"
  shows "lane_work n t < lane_work n s"
proof -
  have split: "(\<Sum>x<n. phase_work (ln_phase u x)) = phase_work (ln_phase u q) + (\<Sum>x\<in>{..<n} - {q}. phase_work (ln_phase u x))"
    for u :: "'a lane" using assms(2) by (intro sum.remove) auto
  have "(\<Sum>x\<in>{..<n} - {q}. phase_work (ln_phase t x)) = (\<Sum>x\<in>{..<n} - {q}. phase_work (ln_phase s x))"
    using assms(1) by (intro sum.cong) auto
  then show ?thesis using assms(1,3) split [of s] split [of t] by (simp add: lane_work_def)
qed

text \<open>A step of a thread that has a query in the lane.\<close>

definition serve_step :: "(nat list \<Rightarrow> 'r list option) \<Rightarrow> 'r lane \<Rightarrow> 'r lane \<Rightarrow> bool" where
  "serve_step scan s t \<longleftrightarrow> lane_step scan s t \<and> (\<forall>q. ln_phase t q = Idle \<longleftrightarrow> ln_phase s q = Idle)"

lemma serve_step_work:
  assumes "serve_step scan s t" and "\<And>q. ln_phase s q \<noteq> Idle \<Longrightarrow> q < n"
    and "\<And>js. scan js = Some (map res js)" and "lane_inv res s"
  shows "lane_work n t < lane_work n s"
proof -
  have "lane_step scan s t" using assms(1) by (simp add: serve_step_def)
  have upd: ?thesis
    if "t = set_phase q p u" "ln_phase u = ln_phase s" "ln_queued u = ln_queued s" "phase_work p < phase_work (ln_phase s q)" for q p u
  proof -
    have "q < n" using that(4) by (intro assms(2)) auto
    then show ?thesis using that by (intro lane_work_update [where q = q and p = p]) auto
  qed
  from \<open>lane_step scan s t\<close> show ?thesis
  proof cases
    case (arrive q)
    then have "ln_phase t q \<noteq> Idle" by (simp add: enqueue_def)
    with arrive assms(1) show ?thesis by (simp add: serve_step_def)
  next
    case (get_scan q rest)
    then show ?thesis using lane_invD(1) [OF assms(4), of q] by (simp add: query_ok_def)
  next
    case (pass_on q)
    then show ?thesis using assms(2) [of q]
      by (intro lane_work_update [where q = q]) (auto simp: hand_over_def split: list.split)
  next
    case (take_queue q)
    then show ?thesis using assms(2) [of q] assms(3)
      by (intro lane_work_update [where q = q]) (auto simp: drain_def)
  qed (rule upd, assumption, simp, simp, simp)+
qed

lemma lane_progress:
  assumes "lane_inv res s" and "\<not> settled (ln_phase s q)"
  shows "\<exists>t. serve_step scan s t"
proof -
  have step: ?thesis if "lane_step scan s t" "ln_phase t = (ln_phase s)(p := x)" "x \<noteq> Idle" "ln_phase s p \<noteq> Idle" for t p x
    using that unfolding serve_step_def by (metis fun_upd_apply)
  show ?thesis
  proof (cases "ln_scanning s")
    case True
    then obtain p where p: "owner s p" using lane_invD(4) [OF assms(1)] by blast
    show ?thesis
    proof (cases "scan_phase (ln_phase s p)")
      case True
      then consider "ln_phase s p = Draining" | "ln_phase s p = Sending []" | j r rest where "ln_phase s p = Sending ((j, r) # rest)"
        | "ln_phase s p = Handing" by (cases "ln_phase s p" rule: scan_phase.cases) (simp_all, metis list.exhaust surj_pair)
      then show ?thesis
        by cases (rule step [where p = p], erule lane_step.intros, auto simp: drain_def hand_over_def split: list.split option.splits)+
    next
      case False
      then have "Reply_Scan \<in> set (ln_inbox s p)" using p by (simp add: owner_def)
      then have "ln_phase s p = Waiting" "ln_inbox s p = [Reply_Scan]"
        using lane_invD(1) [OF assms(1), of p] by (auto simp: query_ok_def split: phase.splits if_splits)
      then show ?thesis using step [OF told_to_scan [of s p "[]"], of p Draining] by simp
    qed
  next
    case False
    then have none: "\<not> owner s x" "ln_queued s = []" for x using lane_invD(4,5) [OF assms(1)] by auto
    have "\<not> in_flight s q" using none(1) by (auto simp: in_flight_def owner_def) (metis scan_phase.simps(2))
    moreover have "\<not> scan_phase (ln_phase s q)" "ln_inbox s q \<noteq> [Reply_Scan]" using none(1) [of q] by (auto simp: owner_def)
    ultimately have "ln_inbox s q = [Reply_Done (res q)]" "ln_phase s q = Waiting \<or> ln_phase s q = Ending"
      using none(2) assms(2) lane_invD(1) [OF assms(1), of q]
      by (cases "ln_phase s q"; simp add: query_ok_def settled_def)+
    then show ?thesis using step [OF told_done [of s q "res q" "[]"], of q] step [OF get_result [of s q "res q" "[]"], of q] by auto
  qed
qed

lemma lane_reachable_finite:
  assumes "lane_reachable scan s"
  shows "finite {q. ln_phase s q \<noteq> Idle}"
  using assms
proof induction
  case lane_start
  show ?case by (simp add: lane_init_def)
next
  case (lane_next s t)
  have "\<exists>q. {x. ln_phase t x \<noteq> Idle} \<subseteq> insert q {x. ln_phase s x \<noteq> Idle}"
    using lane_next.hyps(2)
  proof cases
    case (pass_on q)
    then show ?thesis by (intro exI [of _ q]) (auto simp: hand_over_def split: list.splits)
  next
    case (arrive q)
    then show ?thesis by (intro exI [of _ q]) (auto simp: enqueue_def)
  next
    case (take_queue q)
    then show ?thesis by (intro exI [of _ q]) (auto simp: drain_def)
  qed (auto intro!: exI split: if_splits)
  then show ?case using lane_next.IH finite_subset by auto
qed

lemma serve_run_reachable:
  assumes "(serve_step scan)\<^sup>*\<^sup>* s t" and "lane_reachable scan s"
  shows "lane_reachable scan t \<and> (\<forall>q. ln_phase t q = Idle \<longleftrightarrow> ln_phase s q = Idle)"
  using assms by (induction rule: rtranclp_induct) (auto simp: serve_step_def intro: lane_next)

lemma serve_run_ends:
  assumes "lane_reachable scan s" and "\<And>js. scan js = Some (map res js)"
  shows "\<not> (\<exists>f. f 0 = s \<and> (\<forall>i. serve_step scan (f i) (f (Suc i))))"
proof
  assume "\<exists>f. f 0 = s \<and> (\<forall>i. serve_step scan (f i) (f (Suc i)))"
  then obtain f where f: "f 0 = s" "\<And>i. serve_step scan (f i) (f (Suc i))" by blast
  obtain n where n: "\<And>q. ln_phase s q \<noteq> Idle \<Longrightarrow> q < n"
    using finite_nat_set_iff_bounded [of "{q. ln_phase s q \<noteq> Idle}"] lane_reachable_finite [OF assms(1)] by auto
  have run: "(serve_step scan)\<^sup>*\<^sup>* s (f i)" for i
    by (induction i) (use f in \<open>auto intro: rtranclp.rtrancl_into_rtrancl\<close>)
  have dec: "lane_work n (f (Suc i)) < lane_work n (f i)" for i
    using serve_run_reachable [OF run assms(1), of i] n lane_reachable_inv [of scan "f i" res] assms(2)
    by (intro serve_step_work [OF f(2)]) auto
  have "lane_work n (f i) + i \<le> lane_work n (f 0)" for i
  proof (induction i)
    case (Suc i)
    then show ?case using dec [of i] by linarith
  qed simp
  from this [of "Suc (lane_work n (f 0))"] show False by simp
qed

section \<open>The batcher on the table scan\<close>

definition batch_scan ::
  "('k \<Rightarrow> u64 \<Rightarrow> dpf_block list) \<Rightarrow> mapped_sub_table \<Rightarrow> (nat \<Rightarrow> 'k scan_keys) \<Rightarrow> nat list \<Rightarrow> scan_result list option" where
  "batch_scan eval table keys js = scan_jobs eval table (map keys js)"

lemma batch_scan_results:
  assumes "table_covers table n" and "\<forall>q. length (keys q) \<le> n"
  shows "batch_scan eval table keys js = Some (map (\<lambda>q. own_results eval table (keys q)) js)"
  using scan_jobs_correct [OF assms(1), of "map keys js" eval] assms(2) by (simp add: batch_scan_def comp_def)

text \<open>C19: Concurrent queries on one table, in any interleaving: no thread panics, in the scan or in the
  branch marked unreachable; at most one thread scans at a time; and a query that has returned has
  exactly the results that a scan of the table for its own keys alone gives.\<close>

theorem scan_batcher_safe:
  assumes "table_covers table n" and "\<forall>q. length (keys q) \<le> n"
    and "lane_reachable (batch_scan eval table keys) s"
  shows "ln_phase s q \<noteq> Crashed \<and> (ln_phase s q = Finished r \<longrightarrow> r = own_results eval table (keys q)) \<and>
    (scan_phase (ln_phase s p) \<and> scan_phase (ln_phase s q) \<longrightarrow> p = q)"
proof -
  have inv: "lane_inv (\<lambda>q. own_results eval table (keys q)) s"
    by (rule lane_reachable_inv [OF assms(3)]) (rule batch_scan_results [OF assms(1,2)])
  then show ?thesis using lane_invD(1) [OF inv, of q] lane_invD(3) [OF inv, of p q] by (auto simp: query_ok_def owner_def)
qed

lemma lone_query:
  assumes "scan [q] = Some [r]"
  shows "\<exists>s. lane_reachable scan s \<and> ln_phase s q = Finished r"
proof -
  define s1 where "s1 = enqueue q (lane_init :: 'a lane)"
  define s2 where "s2 = drain scan q s1"
  define s3 where "s3 = set_phase q (Sending []) (send q (Reply_Done r) s2)"
  define s4 where "s4 = hand_over q (set_phase q Handing s3)"
  have p1: "ln_phase s1 q = Draining" "ln_queued s1 = [q]" "ln_inbox s1 q = []" by (simp_all add: s1_def enqueue_def lane_init_def)
  have p2: "ln_phase s2 q = Sending [(q, r)]" "ln_inbox s2 q = []" "ln_queued s2 = []" using p1 assms by (simp_all add: s2_def drain_def)
  have p3: "ln_phase s3 q = Sending []" using p2 by (simp add: s3_def)
  have p4: "ln_phase s4 q = Ending" "ln_inbox s4 q = [Reply_Done r]" using p2 by (simp_all add: s4_def s3_def hand_over_def)
  have "lane_step scan lane_init s1" unfolding s1_def by (rule arrive) (simp add: lane_init_def)
  then have "lane_reachable scan s2" using lane_start lane_next take_queue [OF p1(1), of scan] by (metis s2_def)
  then have "lane_reachable scan s3" using lane_next send_result [OF p2(1), of scan] by (metis s3_def)
  then have "lane_reachable scan (set_phase q Handing s3)" using all_sent [OF p3, of scan] by (rule lane_next)
  moreover have "lane_step scan (set_phase q Handing s3) s4" unfolding s4_def by (rule pass_on) simp
  ultimately have "lane_reachable scan s4" by (rule lane_next)
  then show ?thesis using lane_next get_result [OF p4(1,2), of scan]
    by (intro exI [of _ "set_phase q (Finished r) (receive q s4)"]) auto
qed

text \<open>A table of one group with three bins of one byte.\<close>

definition demo_table :: mapped_sub_table where
  "demo_table = \<lparr>mt_mmap = [1, 2, 4], mt_params = INDEX_PARAMS\<lparr>tp_k := 1, tp_slots_per_bin := 1, tp_slot_size := 1\<rparr>,
     mt_bins_per_table = 3, mt_table_byte_size = 3, mt_data_offset = 0, mt_tag_seed = 0, mt_master_seed = 0, mt_anchor = None\<rparr>"

definition demo_eval :: "u64 \<Rightarrow> u64 \<Rightarrow> dpf_block list" where
  "demo_eval k n = [\<lparr>blk_low = k, blk_high = 0\<rparr>]"

lemma demo_table_covers: "table_covers demo_table 1"
  by (simp add: table_covers_def demo_table_def group_bytes_def tp_bin_size_def)

lemma demo_scan: "batch_scan demo_eval demo_table (\<lambda>_. [[5]]) [0] = Some [[[[5]]]]"
  by code_simp

theorem scan_batcher_safe_witness:
  "\<exists>s r. lane_reachable (batch_scan demo_eval demo_table (\<lambda>_. [[5]])) s \<and> ln_phase s 0 = Finished r \<and>
     r = own_results demo_eval demo_table [[5]] \<and> ln_phase s 1 \<noteq> Crashed"
proof -
  obtain s where s: "lane_reachable (batch_scan demo_eval demo_table (\<lambda>_. [[5]])) s" "ln_phase s 0 = Finished [[[5]]]"
    using lone_query [of "batch_scan demo_eval demo_table (\<lambda>_. [[5]])" 0, OF demo_scan] by blast
  have "[[[5]]] = own_results demo_eval demo_table [[5]] \<and> ln_phase s 1 \<noteq> Crashed"
    using scan_batcher_safe [OF demo_table_covers _ s(1), of 0] scan_batcher_safe [OF demo_table_covers _ s(1), of 1] s(2) by simp
  then show ?thesis using s by blast
qed

text \<open>C20: When every query has a thread of its own, as the paid queries have, the batcher does not lose a query
  and does not deadlock: from any state that can arise, a run without new queries is finite, and it can
  only stop when every query in the lane has returned with its own results. (For the workers of the free
  pool see below.)\<close>

theorem scan_batcher_finishes:
  assumes "table_covers table n" and "\<forall>q. length (keys q) \<le> n"
    and "lane_reachable (batch_scan eval table keys) s"
  shows "(\<nexists>f. f 0 = s \<and> (\<forall>i. serve_step (batch_scan eval table keys) (f i) (f (Suc i)))) \<and>
    (\<forall>t. (serve_step (batch_scan eval table keys))\<^sup>*\<^sup>* s t \<and> (\<nexists>u. serve_step (batch_scan eval table keys) t u) \<longrightarrow>
      (\<forall>q. ln_phase t q = (if ln_phase s q = Idle then Idle else Finished (own_results eval table (keys q)))))"
proof (intro conjI allI impI)
  let ?scan = "batch_scan eval table keys" and ?res = "\<lambda>q. own_results eval table (keys q)"
  note scan = batch_scan_results [OF assms(1,2), of eval]
  show "\<nexists>f. f 0 = s \<and> (\<forall>i. serve_step ?scan (f i) (f (Suc i)))" by (rule serve_run_ends [OF assms(3) scan])
  fix t q assume t: "(serve_step ?scan)\<^sup>*\<^sup>* s t \<and> (\<nexists>u. serve_step ?scan t u)"
  then have r: "lane_reachable ?scan t" "ln_phase t q = Idle \<longleftrightarrow> ln_phase s q = Idle"
    using serve_run_reachable [OF _ assms(3)] by blast+
  have inv: "lane_inv ?res t" by (rule lane_reachable_inv [OF r(1) scan])
  then have "settled (ln_phase t q)" using lane_progress t by blast
  then show "ln_phase t q = (if ln_phase s q = Idle then Idle else Finished (?res q))"
    using r(2) lane_invD(1) [OF inv, of q] by (cases "ln_phase t q") (auto simp: settled_def query_ok_def)
qed

text \<open>Two queries have arrived; the second waits for the first.\<close>

theorem scan_batcher_finishes_witness:
  "lane_reachable (batch_scan demo_eval demo_table (\<lambda>_. [[5]])) (enqueue 1 (enqueue 0 lane_init)) \<and>
   ln_phase (enqueue 1 (enqueue 0 (lane_init :: scan_result lane))) 1 = Waiting \<and>
   (\<nexists>f. f 0 = enqueue 1 (enqueue 0 lane_init) \<and>
      (\<forall>i. serve_step (batch_scan demo_eval demo_table (\<lambda>_. [[5]])) (f i) (f (Suc i))))"
proof -
  have ph: "ln_phase (enqueue 0 (lane_init :: scan_result lane)) 1 = Idle" "ln_phase (lane_init :: scan_result lane) 0 = Idle"
    by (simp_all add: enqueue_def lane_init_def)
  have r: "lane_reachable (batch_scan demo_eval demo_table (\<lambda>_. [[5]])) (enqueue 1 (enqueue 0 lane_init))"
    by (rule lane_next [OF lane_next [OF lane_start arrive [OF ph(2)]] arrive [OF ph(1)]])
  show ?thesis
    using r scan_batcher_finishes [OF demo_table_covers _ r] by (simp add: enqueue_def lane_init_def)
qed

section \<open>The free pool\<close>









end
