(* ===== verification/Dpf_Client.thy ===== *)
theory Dpf_Client
  imports Pbc Codec Sdk_Types Wire_Message Dpf_Eval Bucket_Verify
begin

text \<open>
  The DPF client, \<open>crates/sdk/client/src/dpf.rs\<close>: planning, request matrices, the INDEX and CHUNK phases
  of a query step, and the traces for Merkle verification. What the code calls outside the repository is
  a field of \<open>dpf_env\<close>: the two connections, the key generation of the DPF library and the clock that
  seeds the dummy queries. An exchange is identified by its place in the step, so that servers and keys
  may behave differently each time: INDEX and CHUNK rounds, the tree tops of a database, a pass over a
  sibling level of the INDEX or the CHUNK table, the catalog. Logging and the leakage recorder are left out. A call that does not
  return an error either panics or does not end: \<open>Stop_Panic\<close>.
\<close>

section \<open>Environment\<close>

datatype server = Server0 | Server1

datatype exchange =
    Index_Round nat | Chunk_Round nat nat | Tops_Round u8 | Sibling_Round u8 nat nat | Catalog_Round

record dpf_env =
  de_send :: "server \<Rightarrow> exchange \<Rightarrow> bytes \<Rightarrow> unit pir_result"
  de_recv :: "server \<Rightarrow> exchange \<Rightarrow> bytes \<Rightarrow> bytes pir_result"
  de_gen :: "exchange \<Rightarrow> nat \<Rightarrow> nat \<Rightarrow> u64 \<Rightarrow> u8 \<Rightarrow> bytes \<times> bytes"
  de_seed_nanos :: "exchange \<Rightarrow> u64"

datatype client_stop = Stop_Error pir_error | Stop_Panic

type_synonym 'a client = "(client_stop, 'a) result"

definition or_panic :: "'a option \<Rightarrow> 'a client" where
  "or_panic r = ok_or Stop_Panic r"

definition try_pir :: "'a pir_result \<Rightarrow> 'a client" where
  "try_pir r = map_err Stop_Error r"

definition nth_client :: "'a list \<Rightarrow> nat \<Rightarrow> 'a client" where
  "nth_client xs i = (if i < length xs then Inr (xs ! i) else Inl Stop_Panic)"

fun map_client :: "('a \<Rightarrow> 'b client) \<Rightarrow> 'a list \<Rightarrow> 'b list client" where
  "map_client f [] = Inr []"
| "map_client f (x # xs) = rbind (f x) (\<lambda>y. rbind (map_client f xs) (\<lambda>ys. Inr (y # ys)))"

fun fold_client :: "('a \<Rightarrow> 's \<Rightarrow> 's client) \<Rightarrow> 'a list \<Rightarrow> 's \<Rightarrow> 's client" where
  "fold_client f [] s = Inr s"
| "fold_client f (x # xs) s = rbind (f x s) (fold_client f xs)"

section \<open>Dummy bins\<close>

definition rng_new :: "u64 \<Rightarrow> u64" where
  "rng_new nanos = splitmix64 nanos"

definition rng_next :: "u64 \<Rightarrow> u64 \<times> u64" where
  "rng_next state = (let state' = state + 0x9e3779b97f4a7c15 in (splitmix64 state', state'))"

definition random_bin :: "nat \<Rightarrow> u64 \<Rightarrow> (u64 \<times> u64) client" where
  "random_bin bins rng =
     (if (of_nat bins :: u64) = 0 then Inl Stop_Panic
      else (let (v, rng') = rng_next rng in Inr (v mod of_nat bins, rng')))"

fun random_bins :: "nat \<Rightarrow> nat \<Rightarrow> u64 \<Rightarrow> (u64 list \<times> u64) client" where
  "random_bins 0 bins rng = Inr ([], rng)"
| "random_bins (Suc n) bins rng =
     rbind (random_bin bins rng) (\<lambda>(v, rng). rbind (random_bins n bins rng) (\<lambda>(vs, rng). Inr (v # vs, rng)))"

section \<open>Planning\<close>

definition NUM_HASHES :: nat where "NUM_HASHES = 3"

record index_plan_slot =
  ps_round_id :: nat
  ps_pbc_group :: nat

definition plan_index_pbc_rounds :: "nat list list \<Rightarrow> nat \<Rightarrow> ((nat \<times> nat) list list \<times> index_plan_slot list) client" where
  "plan_index_pbc_rounds candidate_groups k =
     rbind (or_panic (pbc_plan_rounds candidate_groups k NUM_HASHES 500)) (\<lambda>rounds.
       let placement = replicate (length candidate_groups) \<lparr>ps_round_id = 0, ps_pbc_group = 0\<rparr>
       in rbind (fold_client (\<lambda>(round_id, round) placement.
            fold_client (\<lambda>(sh_idx, pbc_group) placement.
              if length placement \<le> sh_idx then Inl Stop_Panic
              else Inr (placement[sh_idx := \<lparr>ps_round_id = round_id, ps_pbc_group = pbc_group\<rparr>]))
              round placement) (enumerate 0 rounds) placement) (\<lambda>placement.
          Inr (rounds, placement)))"

text \<open>A loop over the nonce that does not end is no result either.\<close>

definition client_run :: "'a run \<Rightarrow> 'a client" where
  "client_run r = (case r of Some (Inr x) \<Rightarrow> Inr x | _ \<Rightarrow> Inl Stop_Panic)"

definition plan_index_pbc_rounds_for_hashes ::
  "bytes list \<Rightarrow> nat \<Rightarrow> ((nat \<times> nat) list list \<times> index_plan_slot list) client" where
  "plan_index_pbc_rounds_for_hashes script_hashes k =
     (if script_hashes = [] then Inl (Stop_Error (InvalidState ''INDEX PBC planner requires at least one script hash''))
      else if k < NUM_HASHES then Inl (Stop_Error (InvalidState ''INDEX PBC planner requires k >= 3''))
      else rbind (map_client (\<lambda>sh. client_run (derive_groups_3 sh k)) script_hashes) (\<lambda>candidate_groups.
             plan_index_pbc_rounds candidate_groups k))"

definition plan_chunk_rounds :: "u32 list \<Rightarrow> nat \<Rightarrow> (u32 \<times> nat) list list client" where
  "plan_chunk_rounds chunk_ids k =
     rbind (map_client (\<lambda>cid. client_run (derive_int_groups_3 cid k)) chunk_ids) (\<lambda>cand_groups.
       rbind (or_panic (pbc_plan_rounds cand_groups k NUM_HASHES 500)) (\<lambda>rounds.
         map_client (map_client (\<lambda>(item_idx, group). rbind (nth_client chunk_ids item_idx) (\<lambda>c. Inr (c, group)))) rounds))"

definition pad_chunk_rounds_for_presence :: "'a list list \<Rightarrow> 'a list list" where
  "pad_chunk_rounds_for_presence rounds = (if rounds = [] then [[]] else rounds)"

fun build_index_alphas_batched :: "u64 list option list \<Rightarrow> nat \<Rightarrow> u64 \<Rightarrow> (u64 list list \<times> u64) client" where
  "build_index_alphas_batched [] bins rng = Inr ([], rng)"
| "build_index_alphas_batched (placed # placed_locs) bins rng =
     rbind (case placed of Some locs \<Rightarrow> Inr (locs, rng) | None \<Rightarrow> random_bins INDEX_CUCKOO_NUM_HASHES bins rng) (\<lambda>(group, rng).
       rbind (build_index_alphas_batched placed_locs bins rng) (\<lambda>(alphas, rng). Inr (group # alphas, rng)))"

section \<open>Frames\<close>

definition client_encode_batch_query :: "u8 \<Rightarrow> u16 \<Rightarrow> u8 \<Rightarrow> bytes list list \<Rightarrow> bytes" where
  "client_encode_batch_query variant round_id db_id keys =
     (let payload = u16_to_le round_id @ [of_nat (length keys)] @
            [of_nat (case keys of [] \<Rightarrow> 0 | k # _ \<Rightarrow> length k)] @
            concat (map (\<lambda>group_keys. concat (map (\<lambda>key. u16_to_le (of_nat (length key)) @ key) group_keys)) keys) @
            (if db_id \<noteq> 0 then [db_id] else []);
          total_len = 1 + length payload
      in u32_to_le (of_nat total_len) @ [variant] @ payload)"

definition client_read_result :: "bytes \<Rightarrow> (bytes \<times> bytes) pir_result" where
  "client_read_result d =
     (if length d < 2 then Inl (Decode ''truncated result length'')
      else let result_len = unat (u16_from_le (take 2 d)); d = drop 2 d
           in if length d < result_len then Inl (Decode ''truncated result data'')
              else Inr (take result_len d, drop result_len d))"

fun client_read_many :: "nat \<Rightarrow> (bytes \<Rightarrow> ('a \<times> bytes) pir_result) \<Rightarrow> bytes \<Rightarrow> ('a list \<times> bytes) pir_result" where
  "client_read_many 0 rd d = Inr ([], d)"
| "client_read_many (Suc n) rd d =
     rbind (rd d) (\<lambda>(x, d). rbind (client_read_many n rd d) (\<lambda>(xs, d). Inr (x # xs, d)))"

definition decode_error_envelope :: "bytes \<Rightarrow> bytes list list pir_result" where
  "decode_error_envelope data =
     (if length data < 5 then Inl (Decode ''truncated RESP_ERROR envelope'')
      else if length data \<noteq> 5 + unat (u32_from_le (slice data 1 4)) then Inl (Decode ''RESP_ERROR length mismatch'')
      else if \<not> utf8_valid (drop 5 data) then Inl (Decode ''RESP_ERROR message is not valid UTF-8'')
      else Inl (ServerError ''server error''))"

definition decode_batch_response :: "bytes \<Rightarrow> u8 \<Rightarrow> u16 \<Rightarrow> bytes list list pir_result" where
  "decode_batch_response frame expected_variant expected_round_id =
     (if length frame < 4 then Inl (Decode ''truncated batch response length prefix'')
      else if length frame \<noteq> 4 + unat (u32_from_le (take 4 frame)) then Inl (Decode ''batch response length mismatch'')
      else let data = drop 4 frame
      in if data = [] then Inl (Decode ''empty batch response body'')
      else let variant = data ! 0
      in if variant = RESP_ERROR then decode_error_envelope data
      else if variant \<noteq> expected_variant then Inl (UnexpectedResponse ''batch response'' ''other variant'')
      else if length data < 5 then Inl (Decode ''truncated batch response header'')
      else if u16_from_le (slice data 1 2) \<noteq> expected_round_id then Inl (Protocol ''batch response round_id mismatch'')
      else rbind (client_read_many (unat (data ! 3)) (client_read_many (unat (data ! 4)) client_read_result) (drop 5 data))
             (\<lambda>(results, d). if d \<noteq> [] then Inl (Decode ''trailing bytes after batch response'') else Inr results))"

definition check_batch_response_shape :: "bytes list list \<Rightarrow> nat \<Rightarrow> nat \<Rightarrow> unit pir_result" where
  "check_batch_response_shape results expected_groups expected_results_per_group =
     (if length results \<noteq> expected_groups then Inl (Decode ''batch response has a wrong number of groups'')
      else if \<exists>g \<in> set results. length g \<noteq> expected_results_per_group
      then Inl (Decode ''batch response group has a wrong number of results'')
      else Inr ())"

section \<open>Searching a bin\<close>

fun find_entry_loop :: "bytes \<Rightarrow> u64 \<Rightarrow> nat list \<Rightarrow> (u32 \<times> u32) option" where
  "find_entry_loop result expected_tag [] = None"
| "find_entry_loop result expected_tag (slot # slots) =
     (let base = slot * INDEX_SLOT_SIZE
      in if base + INDEX_SLOT_SIZE > length result then None
         else if u64_from_le (slice result base TAG_SIZE) = expected_tag
         then Some (u32_from_le (slice result (base + TAG_SIZE) 4), ucast (result ! (base + TAG_SIZE + 4)))
         else find_entry_loop result expected_tag slots)"

definition find_entry_in_index_result :: "bytes \<Rightarrow> u64 \<Rightarrow> (u32 \<times> u32) option" where
  "find_entry_in_index_result result expected_tag = find_entry_loop result expected_tag [0..<INDEX_SLOTS_PER_BIN]"

fun find_chunk_loop :: "bytes \<Rightarrow> u32 \<Rightarrow> nat list \<Rightarrow> bytes option" where
  "find_chunk_loop result chunk_id [] = None"
| "find_chunk_loop result chunk_id (slot # slots) =
     (let base = slot * CHUNK_SLOT_SIZE
      in if base + CHUNK_SLOT_SIZE > length result then None
         else if slice result base 4 = u32_to_le chunk_id then Some (slice result (base + 4) (CHUNK_SLOT_SIZE - 4))
         else find_chunk_loop result chunk_id slots)"

definition find_chunk_in_result :: "bytes \<Rightarrow> u32 \<Rightarrow> bytes option" where
  "find_chunk_in_result result chunk_id = find_chunk_loop result chunk_id [0..<CHUNK_SLOTS_PER_BIN]"

section \<open>The INDEX phase\<close>

text \<open>A probed bin; the code has a struct for each level with these fields.\<close>

record bin_trace =
  bt_pbc_group :: nat
  bt_bin_index :: u32
  bt_bin_content :: bytes

type_synonym index_outcome = "(u32 \<times> u8 \<times> bool) option \<times> bin_trace list \<times> nat option"

definition index_locs :: "u64 \<Rightarrow> nat \<Rightarrow> bytes \<Rightarrow> nat \<Rightarrow> u64 list client" where
  "index_locs master_seed bins sh pbc_group =
     map_client (\<lambda>h. rbind (or_panic (cuckoo_hash sh (derive_cuckoo_key master_seed pbc_group h) bins)) (\<lambda>b. Inr (of_nat b)))
       [0..<INDEX_CUCKOO_NUM_HASHES]"

definition gen_keys :: "dpf_env \<Rightarrow> exchange \<Rightarrow> u8 \<Rightarrow> u64 list list \<Rightarrow> (bytes \<times> bytes) list list" where
  "gen_keys env e dpf_n alphas =
     map (\<lambda>(g, group_alphas). map (\<lambda>(h, alpha). de_gen env e g h alpha dpf_n) (enumerate 0 group_alphas)) (enumerate 0 alphas)"

definition exchange_both :: "dpf_env \<Rightarrow> exchange \<Rightarrow> bytes \<Rightarrow> bytes \<Rightarrow> (bytes \<times> bytes) client" where
  "exchange_both env e req0 req1 =
     try_pir (rbind (de_send env Server0 e req0) (\<lambda>_. rbind (de_send env Server1 e req1) (\<lambda>_.
       rbind (de_recv env Server0 e req0) (\<lambda>resp0. rbind (de_recv env Server1 e req1) (\<lambda>resp1. Inr (resp0, resp1))))))"

text \<open>One round with both servers: the key matrix out, two checked result matrices back.\<close>

definition query_round ::
  "dpf_env \<Rightarrow> exchange \<Rightarrow> u8 \<Rightarrow> u8 \<Rightarrow> u16 \<Rightarrow> u8 \<Rightarrow> nat \<Rightarrow> nat \<Rightarrow> (bytes \<times> bytes) list list \<Rightarrow> (bytes list list \<times> bytes list list) client" where
  "query_round env e req_variant resp_variant round_id db_id k per_group keys =
     (let req0 = client_encode_batch_query req_variant round_id db_id (map (map fst) keys);
          req1 = client_encode_batch_query req_variant round_id db_id (map (map snd) keys)
      in rbind (exchange_both env e req0 req1) (\<lambda>(resp0, resp1).
         rbind (try_pir (decode_batch_response resp0 resp_variant round_id)) (\<lambda>results0.
         rbind (try_pir (decode_batch_response resp1 resp_variant round_id)) (\<lambda>results1.
         rbind (try_pir (check_batch_response_shape results0 k per_group)) (\<lambda>_.
         rbind (try_pir (check_batch_response_shape results1 k per_group)) (\<lambda>_.
           Inr (results0, results1)))))))"

definition xor_bin :: "bytes list list \<Rightarrow> bytes list list \<Rightarrow> nat \<Rightarrow> nat \<Rightarrow> bytes client" where
  "xor_bin results0 results1 g h =
     rbind (nth_client results0 g) (\<lambda>g0. rbind (nth_client g0 h) (\<lambda>r0.
     rbind (nth_client results1 g) (\<lambda>g1. rbind (nth_client g1 h) (\<lambda>r1. Inr (xor_into r0 r1)))))"

definition index_probe ::
  "u64 \<Rightarrow> nat \<Rightarrow> u64 list \<Rightarrow> bytes list list \<Rightarrow> bytes list list \<Rightarrow> nat \<Rightarrow> index_outcome \<Rightarrow> index_outcome client" where
  "index_probe my_tag pbc_group my_locs results0 results1 h out =
     rbind (xor_bin results0 results1 pbc_group h) (\<lambda>bin_content.
     rbind (nth_client my_locs h) (\<lambda>loc.
       let (found_info, index_bins, matched_idx) = out;
           pos = length index_bins;
           index_bins = index_bins @ [\<lparr>bt_pbc_group = pbc_group, bt_bin_index = ucast loc, bt_bin_content = bin_content\<rparr>]
       in Inr (if found_info \<noteq> None then (found_info, index_bins, matched_idx)
               else case find_entry_in_index_result bin_content my_tag of
                      Some (start_chunk, num_chunks) \<Rightarrow>
                        (Some (start_chunk, ucast num_chunks, num_chunks = 0), index_bins, Some pos)
                    | None \<Rightarrow> (found_info, index_bins, matched_idx))))"

definition index_item ::
  "u64 \<Rightarrow> bytes list \<Rightarrow> u64 list list \<Rightarrow> bytes list list \<Rightarrow> bytes list list \<Rightarrow> nat \<times> nat \<Rightarrow> index_outcome list \<Rightarrow> index_outcome list client" where
  "index_item tag_seed script_hashes my_locs_per_sh results0 results1 item outs =
     (let (sh_idx, pbc_group) = item
      in rbind (nth_client script_hashes sh_idx) (\<lambda>sh.
         rbind (or_panic (compute_tag tag_seed sh)) (\<lambda>my_tag.
         rbind (nth_client my_locs_per_sh sh_idx) (\<lambda>my_locs.
         rbind (nth_client outs sh_idx) (\<lambda>out.
         rbind (fold_client (index_probe my_tag pbc_group my_locs results0 results1) [0..<INDEX_CUCKOO_NUM_HASHES] out) (\<lambda>out.
           Inr (outs[sh_idx := out])))))))"

definition place_locs :: "nat \<Rightarrow> u64 list list \<Rightarrow> (nat \<times> nat) list \<Rightarrow> u64 list option list client" where
  "place_locs k my_locs_per_sh round =
     fold_client (\<lambda>(sh_idx, pbc_group) placed.
       rbind (nth_client my_locs_per_sh sh_idx) (\<lambda>locs.
         if length placed \<le> pbc_group then Inl Stop_Panic else Inr (placed[pbc_group := Some locs]))) round (replicate k None)"

definition index_round ::
  "dpf_env \<Rightarrow> database_info \<Rightarrow> bytes list \<Rightarrow> u64 list list \<Rightarrow> nat \<times> (nat \<times> nat) list \<Rightarrow> index_outcome list \<times> u64 \<Rightarrow>
     (index_outcome list \<times> u64) client" where
  "index_round env db script_hashes my_locs_per_sh numbered st =
     (let (round_id, round) = numbered; (outs, rng) = st;
          k = unat (di_index_k db); bins = unat (di_index_bins db); e = Index_Round round_id
      in rbind (place_locs k my_locs_per_sh round) (\<lambda>placed_locs.
         rbind (build_index_alphas_batched placed_locs bins rng) (\<lambda>(alphas, rng).
         rbind (query_round env e 0x11 RESP_INDEX_BATCH (of_nat round_id) (di_db_id db) k INDEX_CUCKOO_NUM_HASHES
                  (gen_keys env e (di_dpf_n_index db) alphas)) (\<lambda>(results0, results1).
         rbind (fold_client (index_item (di_tag_seed db) script_hashes my_locs_per_sh results0 results1) round outs) (\<lambda>outs.
           Inr (outs, rng))))))"

definition query_index_phase_batched :: "dpf_env \<Rightarrow> bytes list \<Rightarrow> database_info \<Rightarrow> index_outcome list client" where
  "query_index_phase_batched env script_hashes db =
     (let k = unat (di_index_k db); bins = unat (di_index_bins db)
      in rbind (plan_index_pbc_rounds_for_hashes script_hashes k) (\<lambda>(rounds, placement).
         rbind (map_client (\<lambda>(sh_idx, sh). rbind (nth_client placement sh_idx) (\<lambda>slot.
                  index_locs (di_index_master_seed db) bins sh (ps_pbc_group slot))) (enumerate 0 script_hashes)) (\<lambda>my_locs_per_sh.
         rbind (fold_client (index_round env db script_hashes my_locs_per_sh) (enumerate 0 rounds)
                  (replicate (length script_hashes) (None, [], None), rng_new (de_seed_nanos env (Index_Round 0)))) (\<lambda>(outs, rng).
           Inr outs))))"

section \<open>The CHUNK phase\<close>

type_synonym chunk_alpha_state = "u64 list \<times> (nat \<times> nat \<rightharpoonup> u32) \<times> u64"

definition chunk_alpha ::
  "u64 \<Rightarrow> nat \<Rightarrow> (nat \<rightharpoonup> u32) \<Rightarrow> nat \<Rightarrow> nat \<Rightarrow> chunk_alpha_state \<Rightarrow> chunk_alpha_state client" where
  "chunk_alpha master_seed bins group_to_chunk g h st =
     (let (alphas, real_locs, rng) = st
      in case group_to_chunk g of
           Some chunk_id \<Rightarrow>
             rbind (or_panic (cuckoo_hash_int chunk_id (derive_cuckoo_key master_seed g h) bins)) (\<lambda>loc.
               Inr (alphas @ [of_nat loc], real_locs((g, h) \<mapsto> of_nat loc), rng))
         | None \<Rightarrow> rbind (random_bin bins rng) (\<lambda>(v, rng). Inr (alphas @ [v], real_locs, rng)))"

definition chunk_alphas ::
  "nat \<Rightarrow> u64 \<Rightarrow> nat \<Rightarrow> (nat \<rightharpoonup> u32) \<Rightarrow> u64 \<Rightarrow> (u64 list list \<times> (nat \<times> nat \<rightharpoonup> u32)) client" where
  "chunk_alphas k master_seed bins group_to_chunk rng =
     rbind (fold_client (\<lambda>g (alphas, real_locs, rng).
       rbind (fold_client (chunk_alpha master_seed bins group_to_chunk g) [0..<CHUNK_CUCKOO_NUM_HASHES] ([], real_locs, rng))
         (\<lambda>(group_alphas, real_locs, rng). Inr (alphas @ [group_alphas], real_locs, rng))) [0..<k] ([], Map.empty, rng))
       (\<lambda>(alphas, real_locs, rng). Inr (alphas, real_locs))"

fun find_chunk_bin :: "bytes list list \<Rightarrow> bytes list list \<Rightarrow> u32 \<Rightarrow> nat \<Rightarrow> nat list \<Rightarrow> (nat \<times> bytes \<times> bytes) option client" where
  "find_chunk_bin results0 results1 chunk_id group_id [] = Inr None"
| "find_chunk_bin results0 results1 chunk_id group_id (h # hs) =
     rbind (xor_bin results0 results1 group_id h) (\<lambda>bin_content.
       case find_chunk_in_result bin_content chunk_id of
         Some data \<Rightarrow> Inr (Some (h, data, bin_content))
       | None \<Rightarrow> find_chunk_bin results0 results1 chunk_id group_id hs)"

type_synonym chunk_maps = "(u32 \<rightharpoonup> bytes) \<times> (u32 \<rightharpoonup> bin_trace)"

definition chunk_item ::
  "bytes list list \<Rightarrow> bytes list list \<Rightarrow> (nat \<times> nat \<rightharpoonup> u32) \<Rightarrow> u32 \<times> nat \<Rightarrow> chunk_maps \<Rightarrow> chunk_maps client" where
  "chunk_item results0 results1 real_locs item maps =
     (let (chunk_id, group_id) = item; (data_map, trace_map) = maps
      in rbind (find_chunk_bin results0 results1 chunk_id group_id [0..<CHUNK_CUCKOO_NUM_HASHES]) (\<lambda>found.
         case found of
           None \<Rightarrow> Inl (Stop_Error (MerkleVerificationFailed ''DPF CHUNK missing''))
         | Some (h, data, bin_content) \<Rightarrow>
             rbind (ok_or (Stop_Error (InvalidState ''missing recorded loc'')) (real_locs (group_id, h))) (\<lambda>bin_index.
               Inr (data_map(chunk_id \<mapsto> data),
                    trace_map(chunk_id \<mapsto> \<lparr>bt_pbc_group = group_id, bt_bin_index = bin_index, bt_bin_content = bin_content\<rparr>)))))"

definition chunk_round ::
  "dpf_env \<Rightarrow> database_info \<Rightarrow> nat \<Rightarrow> nat \<times> (u32 \<times> nat) list \<Rightarrow> chunk_maps \<Rightarrow> chunk_maps client" where
  "chunk_round env db query numbered maps =
     (let (round_id, round) = numbered;
          k = unat (di_chunk_k db); bins = unat (di_chunk_bins db); e = Chunk_Round query round_id;
          group_to_chunk = fold (\<lambda>(chunk_id, group_id) m. m(group_id \<mapsto> chunk_id)) round Map.empty
      in rbind (chunk_alphas k (di_chunk_master_seed db) bins group_to_chunk (rng_new (de_seed_nanos env e))) (\<lambda>(alphas, real_locs).
         rbind (query_round env e 0x21 RESP_CHUNK_BATCH (of_nat round_id) (di_db_id db) k CHUNK_CUCKOO_NUM_HASHES
                  (gen_keys env e (di_dpf_n_chunk db) alphas)) (\<lambda>(results0, results1).
           fold_client (chunk_item results0 results1 real_locs) round maps)))"

fun assemble_chunks :: "u32 list \<Rightarrow> chunk_maps \<Rightarrow> bytes \<times> bin_trace list" where
  "assemble_chunks [] maps = ([], [])"
| "assemble_chunks (chunk_id # chunk_ids) (data_map, trace_map) =
     (let (data, bins) = assemble_chunks chunk_ids (data_map, trace_map(chunk_id := None))
      in ((case data_map chunk_id of Some d \<Rightarrow> d | None \<Rightarrow> []) @ data,
          (case trace_map chunk_id of Some t \<Rightarrow> [t] | None \<Rightarrow> []) @ bins))"

definition query_chunk_level :: "dpf_env \<Rightarrow> nat \<Rightarrow> u32 list \<Rightarrow> database_info \<Rightarrow> (bytes \<times> bin_trace list) client" where
  "query_chunk_level env query chunk_ids db =
     rbind (plan_chunk_rounds chunk_ids (unat (di_chunk_k db))) (\<lambda>planned.
     rbind (fold_client (chunk_round env db query) (enumerate 0 (pad_chunk_rounds_for_presence planned))
              (Map.empty, Map.empty)) (\<lambda>maps.
       let (all_data, chunk_bins) = assemble_chunks chunk_ids maps
       in if length chunk_bins \<noteq> length chunk_ids \<or> length all_data \<noteq> length chunk_ids * CHUNK_SIZE
          then Inl (Stop_Error (MerkleVerificationFailed ''DPF CHUNK reassembly incomplete''))
          else Inr (all_data, chunk_bins)))"

section \<open>Decoding the entries\<close>

fun decode_entries_loop :: "bytes \<Rightarrow> nat \<Rightarrow> nat \<Rightarrow> sdk_utxo_entry list pir_result" where
  "decode_entries_loop data n pos =
     (if n = 0 \<or> pos + 32 > length data \<or> pos + 32 \<ge> length data then Inr []
      else rbind (map_err (\<lambda>_. Decode ''UTXO vout varint'') (try_read_varint (drop (pos + 32) data))) (\<lambda>(v, vr).
        let pos' = pos + 32 + vr
        in if pos' \<ge> length data then Inr []
           else rbind (map_err (\<lambda>_. Decode ''UTXO amount varint'') (try_read_varint (drop pos' data))) (\<lambda>(a, ar).
             rbind (decode_entries_loop data (n - 1) (pos' + ar)) (\<lambda>entries.
               Inr (\<lparr>ux_txid = slice data pos 32, ux_vout = ucast v, ux_amount_sats = a\<rparr> # entries)))))"

declare decode_entries_loop.simps [simp del]

definition decode_utxo_entries :: "bytes \<Rightarrow> sdk_utxo_entry list pir_result" where
  "decode_utxo_entries data =
     (if data = [] then Inr []
      else rbind (map_err (\<lambda>_. Decode ''UTXO count varint'') (try_read_varint data)) (\<lambda>(n, pos).
        decode_entries_loop data (unat n) pos))"

section \<open>The query step\<close>

record query_traces =
  qt_index_bins :: "bin_trace list"
  qt_matched_index_idx :: "nat option"
  qt_chunk_bins :: "bin_trace list"

definition real_chunks :: "(u32 \<times> u8 \<times> bool) option \<Rightarrow> (u32 list \<times> bool \<times> bool) client" where
  "real_chunks found_info =
     (case found_info of
        Some (start, num, whale) \<Rightarrow>
          (if 0 < num
           then (if unat start + unat num < 2 ^ 32
                 then Inr (map of_nat [unat start..<unat start + unat num], whale, True)
                 else Inl (Stop_Error (MerkleVerificationFailed ''DPF INDEX chunk range overflow'')))
           else Inr ([], whale, True))
      | None \<Rightarrow> Inr ([], False, False))"

definition step_query ::
  "dpf_env \<Rightarrow> database_info \<Rightarrow> nat \<times> index_outcome \<Rightarrow> (query_result option \<times> query_traces) client" where
  "step_query env db numbered =
     (let (i, found_info, index_bins, matched_idx) = numbered
      in rbind (real_chunks found_info) (\<lambda>(real_chunk_ids, is_whale, has_real_match).
         let real_count = length real_chunk_ids
         in rbind (query_chunk_level env i real_chunk_ids db) (\<lambda>(chunk_data, chunk_bins).
            if length chunk_bins \<noteq> real_count \<or> length chunk_data \<noteq> real_count * CHUNK_SIZE
            then Inl (Stop_Error (MerkleVerificationFailed ''DPF CHUNK closure failed''))
            else let traces = \<lparr>qt_index_bins = index_bins, qt_matched_index_idx = matched_idx, qt_chunk_bins = chunk_bins\<rparr>
                 in if \<not> has_real_match then Inr (None, traces)
                    else rbind (if kind_is_delta (di_kind db) then Inr [] else try_pir (decode_utxo_entries chunk_data)) (\<lambda>entries.
                      Inr (Some \<lparr>qr_entries = entries, qr_is_whale = is_whale, qr_merkle_verified = False,
                             qr_raw_chunk_data = (if kind_is_delta (di_kind db) \<and> 0 < real_count then Some chunk_data else None),
                             qr_index_bins = [], qr_chunk_bins = [], qr_matched_index_idx = None\<rparr>, traces)))))"

definition execute_step_unverified ::
  "dpf_env \<Rightarrow> bytes list \<Rightarrow> database_info \<Rightarrow> (query_result option list \<times> query_traces list) client" where
  "execute_step_unverified env script_hashes db =
     rbind (query_index_phase_batched env script_hashes db) (\<lambda>index_outcomes.
     rbind (map_client (step_query env db) (enumerate 0 index_outcomes)) (\<lambda>steps.
       Inr (map fst steps, map snd steps)))"

end
