(* ===== verification/Dpf_Server.thy ===== *)
theory Dpf_Server
  imports Scan_Batch Wire_Message
begin

text \<open>
  The DPF side of the unified server: \<open>MappedDatabase\<close> (\<open>crates/protocol/runtime/src/table.rs\<close>), the batch
  handlers of \<open>apps/server/src/bin/unified_server/state.rs\<close> and the DPF arms of the request loop in
  \<open>dispatch.rs\<close>, from the payload of a request frame to the reply. Key parsing and expansion belong to the
  DPF library and are the arguments \<open>from_bytes\<close> and \<open>eval\<close>. A batch goes through the scan batcher, which
  gives every query the results of a scan of its own (theory \<open>Scan_Lane\<close>). \<open>Server_Panic\<close> is a panic of the task that serves the connection;
  formatted values in error messages are dropped.
\<close>

section \<open>Databases\<close>

record mapped_database =
  md_index :: mapped_sub_table
  md_chunk :: mapped_sub_table
  md_index_siblings :: "mapped_sub_table list"
  md_chunk_siblings :: "mapped_sub_table list"
  md_tree_tops :: "bytes option"
  md_roots :: "bytes option"
  md_root :: "bytes option"

definition has_bucket_merkle :: "mapped_database \<Rightarrow> bool" where
  "has_bucket_merkle db \<longleftrightarrow> md_tree_tops db \<noteq> None \<and> md_roots db \<noteq> None \<and> md_root db \<noteq> None"

text \<open>The files of a database directory, by name.\<close>

type_synonym db_files = "string \<rightharpoonup> bytes"

definition sibling_params :: "nat \<Rightarrow> u64 \<Rightarrow> nat \<Rightarrow> table_params" where
  "sibling_params k table_bit level =
     \<lparr>tp_k = k, tp_num_hashes = 0, tp_master_seed = 0, tp_slots_per_bin = 1, tp_cuckoo_num_hashes = 0,
      tp_slot_size = 8 * 32, tp_dpf_n = 0,
      tp_magic = 0xBA7CB00000000000 OR table_bit OR push_bit 16 (of_nat level),
      tp_header_size = 32, tp_has_tag_seed = False\<rparr>"

definition decimal_digit :: "nat \<Rightarrow> char" where
  "decimal_digit d = char_of (48 + d)"

fun decimal :: "nat \<Rightarrow> string" where
  "decimal n = (if n < 10 then [decimal_digit n] else decimal (n div 10) @ [decimal_digit (n mod 10)])"

declare decimal.simps [simp del]

text \<open>The sibling files are read from level 0 up to the first one missing; \<open>limit\<close> bounds the levels.\<close>

fun load_siblings :: "db_files \<Rightarrow> string \<Rightarrow> nat \<Rightarrow> u64 \<Rightarrow> nat list \<Rightarrow> mapped_sub_table list option" where
  "load_siblings files stem k table_bit [] = Some []"
| "load_siblings files stem k table_bit (level # levels) =
     (case files (stem @ decimal level @ ''.bin'') of
        None \<Rightarrow> Some []
      | Some bytes \<Rightarrow>
          Option.bind (load_sub_table bytes (sibling_params k table_bit level)) (\<lambda>t.
            map_option ((#) t) (load_siblings files stem k table_bit levels)))"

definition load_database :: "db_files \<Rightarrow> table_params \<Rightarrow> table_params \<Rightarrow> nat \<Rightarrow> mapped_database option" where
  "load_database files index_params chunk_params limit =
     Option.bind (Option.bind (files ''batch_pir_cuckoo.bin'') (\<lambda>b. load_sub_table b index_params)) (\<lambda>index.
     Option.bind (Option.bind (files ''chunk_pir_cuckoo.bin'') (\<lambda>b. load_sub_table b chunk_params)) (\<lambda>chunk.
     Option.bind (load_siblings files ''merkle_bucket_index_sib_L'' (tp_k index_params) 0 [0..<limit]) (\<lambda>index_sibs.
     Option.bind (load_siblings files ''merkle_bucket_chunk_sib_L'' (tp_k chunk_params) (push_bit 40 1) [0..<limit]) (\<lambda>chunk_sibs.
       let roots = files ''merkle_bucket_roots.bin''
       in if \<exists>r. roots = Some r \<and> length r \<noteq> (tp_k index_params + tp_k chunk_params) * 32 then None
          else Some \<lparr>md_index = index, md_chunk = chunk, md_index_siblings = index_sibs, md_chunk_siblings = chunk_sibs,
                 md_tree_tops = files ''merkle_bucket_tree_tops.bin'', md_roots = roots,
                 md_root = files ''merkle_bucket_root.bin''\<rparr>))))"

definition get_db :: "mapped_database list \<Rightarrow> u8 \<Rightarrow> mapped_database option" where
  "get_db dbs db_id = (if unat db_id < length dbs then Some (dbs ! unat db_id) else None)"

section \<open>Batches\<close>

definition USIZE_MAX :: nat where "USIZE_MAX = 2 ^ 64 - 1"

definition dpf_keys :: "(bytes \<Rightarrow> 'k option) \<Rightarrow> batch_query \<Rightarrow> mapped_sub_table \<Rightarrow> nat \<Rightarrow> 'k list list option" where
  "dpf_keys from_bytes query table per_group =
     those (map (\<lambda>group. those (map from_bytes (take per_group group))) (take (tp_k (mt_params table)) (bq_keys query)))"

definition scan_batch ::
  "('k \<Rightarrow> u64 \<Rightarrow> dpf_block list) \<Rightarrow> mapped_sub_table \<Rightarrow> 'k list list \<Rightarrow> u8 \<Rightarrow> u16 \<Rightarrow> batch_result option" where
  "scan_batch eval table keys level round_id =
     map_option (\<lambda>rs. \<lparr>br_level = level, br_round_id = round_id, br_results = hd rs\<rparr>) (scan_jobs eval table [keys])"

definition process_index_batch ::
  "(bytes \<Rightarrow> 'k option) \<Rightarrow> ('k \<Rightarrow> u64 \<Rightarrow> dpf_block list) \<Rightarrow> batch_query \<Rightarrow> mapped_database \<Rightarrow> batch_result option" where
  "process_index_batch from_bytes eval query db =
     Option.bind (dpf_keys from_bytes query (md_index db) INDEX_CUCKOO_NUM_HASHES) (\<lambda>keys. scan_batch eval (md_index db) keys 0 0)"

definition process_chunk_batch ::
  "(bytes \<Rightarrow> 'k option) \<Rightarrow> ('k \<Rightarrow> u64 \<Rightarrow> dpf_block list) \<Rightarrow> batch_query \<Rightarrow> mapped_database \<Rightarrow> batch_result option" where
  "process_chunk_batch from_bytes eval query db =
     Option.bind (dpf_keys from_bytes query (md_chunk db) USIZE_MAX) (\<lambda>keys.
       scan_batch eval (md_chunk db) keys 1 (bq_round_id query))"

definition process_generic_batch ::
  "(bytes \<Rightarrow> 'k option) \<Rightarrow> ('k \<Rightarrow> u64 \<Rightarrow> dpf_block list) \<Rightarrow> batch_query \<Rightarrow> mapped_sub_table \<Rightarrow> batch_result option" where
  "process_generic_batch from_bytes eval query table =
     Option.bind (dpf_keys from_bytes query table USIZE_MAX) (\<lambda>keys.
       scan_batch eval table keys (bq_level query) (bq_round_id query))"

section \<open>Requests\<close>

datatype served = Reply bytes | No_Reply | Server_Panic

definition reply_with :: "(batch_result \<Rightarrow> response) \<Rightarrow> batch_result option \<Rightarrow> served" where
  "reply_with resp r = (case r of None \<Rightarrow> Server_Panic | Some b \<Rightarrow> Reply (response_encode (resp b)))"

definition error_reply :: "string \<Rightarrow> served" where
  "error_reply msg = Reply (response_encode (ErrorR (str_bytes msg)))"

definition REQ_BUCKET_MERKLE_TREE_TOPS :: u8 where "REQ_BUCKET_MERKLE_TREE_TOPS = 0x34"
definition RESP_BUCKET_MERKLE_TREE_TOPS :: u8 where "RESP_BUCKET_MERKLE_TREE_TOPS = 0x34"

definition handle_index_batch ::
  "(bytes \<Rightarrow> 'k option) \<Rightarrow> ('k \<Rightarrow> u64 \<Rightarrow> dpf_block list) \<Rightarrow> mapped_database list \<Rightarrow> bytes \<Rightarrow> served" where
  "handle_index_batch from_bytes eval dbs payload =
     (case request_decode payload of
        Inr (IndexBatch q) \<Rightarrow>
          (case get_db dbs (bq_db_id q) of
             None \<Rightarrow> error_reply ''unknown db_id''
           | Some db \<Rightarrow> reply_with IndexBatchR (process_index_batch from_bytes eval q db))
      | _ \<Rightarrow> No_Reply)"

definition handle_chunk_batch ::
  "(bytes \<Rightarrow> 'k option) \<Rightarrow> ('k \<Rightarrow> u64 \<Rightarrow> dpf_block list) \<Rightarrow> mapped_database list \<Rightarrow> bytes \<Rightarrow> served" where
  "handle_chunk_batch from_bytes eval dbs payload =
     (case request_decode payload of
        Inr (ChunkBatch q) \<Rightarrow>
          (case get_db dbs (bq_db_id q) of
             None \<Rightarrow> error_reply ''unknown db_id''
           | Some db \<Rightarrow> reply_with ChunkBatchR (process_chunk_batch from_bytes eval q db))
      | _ \<Rightarrow> No_Reply)"

definition handle_sibling_batch ::
  "(bytes \<Rightarrow> 'k option) \<Rightarrow> ('k \<Rightarrow> u64 \<Rightarrow> dpf_block list) \<Rightarrow> mapped_database list \<Rightarrow> bytes \<Rightarrow> served" where
  "handle_sibling_batch from_bytes eval dbs payload =
     (case request_decode payload of
        Inr (BucketMerkleSibBatch q) \<Rightarrow>
          (case get_db dbs (bq_db_id q) of
             None \<Rightarrow> error_reply ''db has no bucket merkle''
           | Some db \<Rightarrow>
               if \<not> has_bucket_merkle db then error_reply ''db has no bucket merkle''
               else let table_type = unat (bq_round_id q) div 100; level = unat (bq_round_id q) mod 100;
                        sib_tables = (if table_type = 0 then md_index_siblings db else md_chunk_siblings db)
                    in if length sib_tables \<le> level then error_reply ''bucket merkle: invalid level''
                       else reply_with BucketMerkleSibBatchR (process_generic_batch from_bytes eval q (sib_tables ! level)))
      | _ \<Rightarrow> No_Reply)"

definition handle_tree_tops :: "mapped_database list \<Rightarrow> bytes \<Rightarrow> served" where
  "handle_tree_tops dbs payload =
     (let db_id = (if 1 < length payload then payload ! 1 else 0)
      in case Option.bind (get_db dbs db_id) md_tree_tops of
           Some tops \<Rightarrow> Reply (u32_to_le (of_nat (1 + length tops)) @ [RESP_BUCKET_MERKLE_TREE_TOPS] @ tops)
         | None \<Rightarrow> error_reply ''db has no bucket merkle tree-tops'')"

definition handle_dpf ::
  "(bytes \<Rightarrow> 'k option) \<Rightarrow> ('k \<Rightarrow> u64 \<Rightarrow> dpf_block list) \<Rightarrow> mapped_database list \<Rightarrow> bytes \<Rightarrow> served" where
  "handle_dpf from_bytes eval dbs payload =
     (case payload of
        [] \<Rightarrow> Server_Panic
      | variant # _ \<Rightarrow>
          if variant = REQ_INDEX_BATCH then handle_index_batch from_bytes eval dbs payload
          else if variant = REQ_CHUNK_BATCH then handle_chunk_batch from_bytes eval dbs payload
          else if variant = REQ_BUCKET_MERKLE_SIB_BATCH then handle_sibling_batch from_bytes eval dbs payload
          else if variant = REQ_BUCKET_MERKLE_TREE_TOPS then handle_tree_tops dbs payload
          else No_Reply)"

end
