(* ===== verification/Dpf_Merkle.thy ===== *)
theory Dpf_Merkle
  imports Dpf_Client Dpf_Server
begin

text \<open>
  Merkle verification of a query step of the DPF client: the sibling and tree-top frames and the
  \<open>DpfSiblingQuerier\<close> of \<open>crates/sdk/client/src/merkle_verify.rs\<close>, and the part of \<open>crates/sdk/client/src/dpf.rs\<close> that
  turns the traces of a step into verified results. The batch verification itself is theory
  \<open>Bucket_Verify\<close>; here its querier is the one that talks to the two servers. \<open>query_pass\<close> of the code is
  \<open>query_levels\<close> for a single pass and is not called by the batch verification.
\<close>

section \<open>Results in order\<close>

fun try_map :: "('a \<Rightarrow> ('e, 'b) result) \<Rightarrow> 'a list \<Rightarrow> ('e, 'b list) result" where
  "try_map f [] = Inr []"
| "try_map f (x # xs) = rbind (f x) (\<lambda>y. rbind (try_map f xs) (\<lambda>ys. Inr (y # ys)))"

section \<open>Frames\<close>

definition encode_tree_tops_request :: "u8 \<Rightarrow> bytes" where
  "encode_tree_tops_request db_id =
     (let payload = (if db_id \<noteq> 0 then [REQ_BUCKET_MERKLE_TREE_TOPS, db_id] else [REQ_BUCKET_MERKLE_TREE_TOPS])
      in u32_to_le (of_nat (length payload)) @ payload)"

definition encode_sibling_batch :: "u8 \<Rightarrow> u16 \<Rightarrow> bytes list \<Rightarrow> bytes" where
  "encode_sibling_batch db_id round_id keys_per_group =
     (let payload = [REQ_BUCKET_MERKLE_SIB_BATCH] @ u16_to_le round_id @ [of_nat (length keys_per_group)] @ [1] @
            concat (map (\<lambda>key. u16_to_le (of_nat (length key)) @ key) keys_per_group) @
            (if db_id \<noteq> 0 then [db_id] else [])
      in u32_to_le (of_nat (length payload)) @ payload)"

definition decode_error_response_message :: "bytes \<Rightarrow> bytes option pir_result" where
  "decode_error_response_message body =
     (if body = [] \<or> body ! 0 \<noteq> RESP_ERROR then Inr None
      else if length body < 5 then Inl (Decode ''truncated RESP_ERROR envelope'')
      else if length body \<noteq> 5 + unat (u32_from_le (slice body 1 4)) then Inl (Decode ''RESP_ERROR length mismatch'')
      else if \<not> utf8_valid (drop 5 body) then Inl (Decode ''RESP_ERROR message is not valid UTF-8'')
      else Inr (Some (drop 5 body)))"

definition read_sibling_result :: "bytes \<Rightarrow> (bytes \<times> bytes) pir_result" where
  "read_sibling_result d =
     (if length d < 2 then Inl (Decode ''truncated length'')
      else let len = unat (u16_from_le (take 2 d)); d = drop 2 d
           in if length d < len then Inl (Decode ''truncated data'') else Inr (take len d, drop len d))"

definition decode_sibling_batch_body :: "bytes \<Rightarrow> u16 \<Rightarrow> nat \<Rightarrow> bytes list list pir_result" where
  "decode_sibling_batch_body data expected_round_id expected_groups =
     (if data = [] then Inl (Decode ''empty sibling response'')
      else rbind (decode_error_response_message data) (\<lambda>message.
        case message of
          Some m \<Rightarrow> Inl (MerkleVerificationFailed ''server error'')
        | None \<Rightarrow>
            if data ! 0 \<noteq> RESP_BUCKET_MERKLE_SIB_BATCH then Inl (UnexpectedResponse ''RESP_BUCKET_MERKLE_SIB_BATCH'' ''other variant'')
            else let body = drop 1 data
            in if length body < 4 then Inl (Decode ''sibling batch body too short'')
            else if u16_from_le (take 2 body) \<noteq> expected_round_id then Inl (Protocol ''sibling round_id mismatch'')
            else if unat (body ! 2) \<noteq> expected_groups then Inl (Protocol ''sibling group count mismatch'')
            else if unat (body ! 3) \<noteq> 1 then Inl (Protocol ''expected exactly one sibling result per group'')
            else rbind (client_read_many (unat (body ! 2)) (client_read_many (unat (body ! 3)) read_sibling_result) (drop 4 body))
                   (\<lambda>(results, d). if d \<noteq> [] then Inl (Decode ''trailing bytes after sibling response'') else Inr results)))"

definition decode_sibling_batch_frame :: "bytes \<Rightarrow> u16 \<Rightarrow> nat \<Rightarrow> bytes list list pir_result" where
  "decode_sibling_batch_frame frame expected_round_id expected_groups =
     (if length frame < 4 then Inl (Decode ''sibling response missing length prefix'')
      else if length frame \<noteq> 4 + unat (u32_from_le (take 4 frame)) then Inl (Decode ''response length mismatch'')
      else decode_sibling_batch_body (drop 4 frame) expected_round_id expected_groups)"

definition decode_tree_tops_response :: "bytes \<Rightarrow> tree_top list pir_result" where
  "decode_tree_tops_response frame =
     (if length frame < 4 then Inl (Decode ''tree-tops response missing length prefix'')
      else if length frame \<noteq> 4 + unat (u32_from_le (take 4 frame)) then Inl (Decode ''tree-tops response length mismatch'')
      else let body = drop 4 frame
      in if body = [] then Inl (Decode ''empty tree-tops response body'')
      else rbind (decode_error_response_message body) (\<lambda>message.
        case message of
          Some m \<Rightarrow> Inl (ProtocolSkew ''bucket_merkle support'' ''RESP_ERROR'')
        | None \<Rightarrow>
            if body ! 0 \<noteq> RESP_BUCKET_MERKLE_TREE_TOPS then Inl (UnexpectedResponse ''RESP_BUCKET_MERKLE_TREE_TOPS'' ''other variant'')
            else parse_tree_tops (drop 1 body)))"

definition fetch_tree_tops :: "dpf_env \<Rightarrow> u8 \<Rightarrow> tree_top list pir_result" where
  "fetch_tree_tops env db_id =
     (let req = encode_tree_tops_request db_id
      in rbind (de_send env Server0 (Tops_Round db_id) req) (\<lambda>_.
         rbind (de_recv env Server0 (Tops_Round db_id) req) decode_tree_tops_response))"

section \<open>The sibling querier\<close>

definition merkle_rng_new :: "u64 \<Rightarrow> u64" where
  "merkle_rng_new nanos = splitmix64 (nanos + 0xbadc0ffee0ddf00d)"

fun sibling_alphas :: "u32 \<Rightarrow> u32 option list \<Rightarrow> u64 \<Rightarrow> u64 list \<times> u64" where
  "sibling_alphas bins [] rng = ([], rng)"
| "sibling_alphas bins (target # targets) rng =
     (let (alpha, rng) =
            (case target of
               Some t \<Rightarrow> (ucast t, rng)
             | None \<Rightarrow> if bins = 0 then (0, rng) else (let (v, rng) = rng_next rng in (v mod ucast bins, rng)));
          (alphas, rng) = sibling_alphas bins targets rng
      in (alpha # alphas, rng))"

record sibling_round =
  sg_exchange :: exchange
  sg_round_id :: u16
  sg_pass_targets :: "u32 option list"
  sg_request0 :: bytes
  sg_request1 :: bytes

definition sibling_round_id :: "u8 \<Rightarrow> nat \<Rightarrow> u16" where
  "sibling_round_id table_type level = ucast table_type * 100 + of_nat level"

text \<open>\<open>compute_dpf_n\<close> returns for every \<open>u32\<close>, so the round below is always prepared.\<close>

lemma sibling_domain: "\<exists>n. compute_dpf_n (unat (bins :: u32)) = Some n"
proof (cases "1 < unat bins")
  case True
  have "unat bins < 2 ^ 32" using unsigned_less [where 'a = nat, of bins] by simp
  then have "unat bins \<le> 2 ^ 63" by simp
  then show ?thesis using compute_dpf_n_returns [OF True] by blast
qed (simp add: compute_dpf_n_def)

definition prepare_round ::
  "dpf_env \<Rightarrow> u8 \<Rightarrow> nat \<Rightarrow> u32 \<Rightarrow> u8 \<Rightarrow> nat \<times> u32 option list \<Rightarrow> u64 \<Rightarrow> sibling_round \<times> u64" where
  "prepare_round env table_type level level_bins db_id numbered rng =
     (let (pass, targets) = numbered;
          e = Sibling_Round table_type level pass;
          dpf_n = the (compute_dpf_n (unat level_bins));
          (alphas, rng) = sibling_alphas level_bins targets rng;
          keys = map (\<lambda>(g, alpha). de_gen env e g 0 alpha dpf_n) (enumerate 0 alphas);
          round_id = sibling_round_id table_type level
      in (\<lparr>sg_exchange = e, sg_round_id = round_id, sg_pass_targets = targets,
           sg_request0 = encode_sibling_batch db_id round_id (map fst keys),
           sg_request1 = encode_sibling_batch db_id round_id (map snd keys)\<rparr>, rng))"

fun thread_map :: "('a \<Rightarrow> 's \<Rightarrow> 'b \<times> 's) \<Rightarrow> 'a list \<Rightarrow> 's \<Rightarrow> 'b list \<times> 's" where
  "thread_map f [] s = ([], s)"
| "thread_map f (x # xs) s = (let (y, s) = f x s; (ys, s) = thread_map f xs s in (y # ys, s))"

definition prepare_levels ::
  "dpf_env \<Rightarrow> u8 \<Rightarrow> u8 \<Rightarrow> sibling_level_plan list \<Rightarrow> u64 \<Rightarrow> sibling_round list list \<times> u64" where
  "prepare_levels env table_type db_id plans rng =
     thread_map (\<lambda>plan. thread_map (prepare_round env table_type (slp_level plan) (slp_bins_per_table plan) db_id)
       (enumerate 0 (slp_passes plan))) plans rng"

definition send_round :: "dpf_env \<Rightarrow> sibling_round \<Rightarrow> unit pir_result" where
  "send_round env r =
     rbind (de_send env Server0 (sg_exchange r) (sg_request0 r)) (\<lambda>_. de_send env Server1 (sg_exchange r) (sg_request1 r))"

definition recv_round :: "dpf_env \<Rightarrow> sibling_round \<Rightarrow> (bytes \<times> bytes) pir_result" where
  "recv_round env r =
     rbind (de_recv env Server0 (sg_exchange r) (sg_request0 r)) (\<lambda>r0.
     rbind (de_recv env Server1 (sg_exchange r) (sg_request1 r)) (\<lambda>r1. Inr (r0, r1)))"

definition finish_round :: "sibling_round \<Rightarrow> bytes \<times> bytes \<Rightarrow> bytes option list pir_result" where
  "finish_round r responses =
     (let expected_groups = length (sg_pass_targets r)
      in rbind (decode_sibling_batch_frame (fst responses) (sg_round_id r) expected_groups) (\<lambda>rows0.
         rbind (decode_sibling_batch_frame (snd responses) (sg_round_id r) expected_groups) (\<lambda>rows1.
           Inr (map (\<lambda>(group, target).
             if target = None \<or> length rows0 \<le> group \<or> length rows1 \<le> group \<or> rows0 ! group = [] \<or> rows1 ! group = [] then None
             else Some (xor_into (rows0 ! group ! 0) (rows1 ! group ! 0))) (enumerate 0 (sg_pass_targets r))))))"

definition dpf_query_levels :: "dpf_env \<Rightarrow> (u8 \<Rightarrow> u64) \<Rightarrow> querier" where
  "dpf_query_levels env rng table_type plans db_id =
     (let prepared = fst (prepare_levels env table_type db_id plans (rng table_type))
      in rbind (try_map (try_map (send_round env)) prepared) (\<lambda>_.
         rbind (try_map (try_map (recv_round env)) prepared) (\<lambda>responses.
           try_map (\<lambda>(rounds, level_responses). try_map (\<lambda>(r, rs). finish_round r rs) (zip rounds level_responses))
             (zip prepared responses))))"

text \<open>
  A querier owns one generator for its dummy queries: the CHUNK levels, asked for second, go on where
  the INDEX levels stopped.
\<close>

definition batch_querier :: "dpf_env \<Rightarrow> bucket_merkle_item list \<Rightarrow> u32 \<Rightarrow> nat \<Rightarrow> u8 \<Rightarrow> tree_top list \<Rightarrow> querier" where
  "batch_querier env items index_bins index_k db_id tree_tops =
     (let rng0 = merkle_rng_new (de_seed_nanos env (Sibling_Round 0 0 0));
          index_plans = level_plans (map index_sub items) index_bins index_k (take index_k tree_tops);
          rng1 = snd (prepare_levels env 0 db_id index_plans rng0)
      in dpf_query_levels env (\<lambda>table_type. if table_type = 0 then rng0 else rng1))"

definition verify_bucket_merkle_batch_dpf ::
  "dpf_env \<Rightarrow> bucket_merkle_item list \<Rightarrow> u32 \<Rightarrow> u32 \<Rightarrow> nat \<Rightarrow> nat \<Rightarrow> u8 \<Rightarrow> tree_top list \<Rightarrow> bool list pir_result option" where
  "verify_bucket_merkle_batch_dpf env items index_bins chunk_bins index_k chunk_k db_id tree_tops =
     verify_bucket_merkle_batch_generic (batch_querier env items index_bins index_k db_id tree_tops)
       items index_bins chunk_bins index_k chunk_k db_id tree_tops"

section \<open>From traces to verdicts\<close>

definition items_from_trace :: "query_traces \<Rightarrow> bucket_merkle_item list" where
  "items_from_trace trace =
     map (\<lambda>(bi, bin).
       \<lparr>index_pbc_group = bt_pbc_group bin, index_bin_index = bt_bin_index bin, index_bin_content = bt_bin_content bin,
        chunk_pbc_groups = (if bi = 0 then map bt_pbc_group (qt_chunk_bins trace) else []),
        chunk_bin_indices = (if bi = 0 then map bt_bin_index (qt_chunk_bins trace) else []),
        chunk_bin_contents = (if bi = 0 then map bt_bin_content (qt_chunk_bins trace) else [])\<rparr>)
       (enumerate (0 :: nat) (qt_index_bins trace))"

definition collect_merkle_items_from_traces :: "query_traces list \<Rightarrow> bucket_merkle_item list \<times> nat list" where
  "collect_merkle_items_from_traces traces =
     (let pairs = concat (map (\<lambda>(qi, trace). map (\<lambda>it. (it, qi)) (items_from_trace trace)) (enumerate 0 traces))
      in (map fst pairs, map snd pairs))"

definition fold_verdict :: "nat list \<Rightarrow> nat \<times> bool \<Rightarrow> bool option list \<Rightarrow> bool option list client" where
  "fold_verdict item_to_query numbered per_query =
     (let (ii, item_ok) = numbered
      in rbind (nth_client item_to_query ii) (\<lambda>qi. rbind (nth_client per_query qi) (\<lambda>prev.
           Inr (per_query[qi := Some (case prev of None \<Rightarrow> item_ok | Some p \<Rightarrow> p \<and> item_ok)]))))"

definition verify_merkle_items ::
  "dpf_env \<Rightarrow> tree_top list option \<Rightarrow> bucket_merkle_item list \<Rightarrow> nat list \<Rightarrow> nat \<Rightarrow> database_info \<Rightarrow> bool option list client" where
  "verify_merkle_items env verified_tops items item_to_query num_queries db =
     (if items = [] then Inr (replicate num_queries None)
      else rbind (try_pir (case verified_tops of Some tops \<Rightarrow> Inr tops | None \<Rightarrow> fetch_tree_tops env (di_db_id db))) (\<lambda>tree_tops.
           rbind (or_panic (verify_bucket_merkle_batch_dpf env items (di_index_bins db) (di_chunk_bins db) (unat (di_index_k db))
                    (unat (di_chunk_k db)) (di_db_id db) tree_tops)) (\<lambda>batch.
           rbind (try_pir batch) (\<lambda>per_item.
             fold_client (fold_verdict item_to_query) (enumerate 0 per_item) (replicate num_queries None)))))"

definition apply_verdict :: "bool option \<Rightarrow> query_result option \<Rightarrow> query_result option" where
  "apply_verdict verdict result =
     (case verdict of
        None \<Rightarrow> result
      | Some True \<Rightarrow> map_option (\<lambda>r. r\<lparr>qr_merkle_verified := True\<rparr>) result
      | Some False \<Rightarrow> Some ((case result of Some r \<Rightarrow> r | None \<Rightarrow> merkle_failed)\<lparr>qr_merkle_verified := False\<rparr>))"

definition run_merkle_verification ::
  "dpf_env \<Rightarrow> tree_top list option \<Rightarrow> query_result option list \<Rightarrow> query_traces list \<Rightarrow> database_info \<Rightarrow> query_result option list client" where
  "run_merkle_verification env verified_tops results traces db =
     (let (items, item_to_query) = collect_merkle_items_from_traces traces
      in rbind (verify_merkle_items env verified_tops items item_to_query (length results) db) (\<lambda>verdicts.
           Inr (map2 apply_verdict verdicts results)))"

definition execute_step_traced ::
  "dpf_env \<Rightarrow> tree_top list option \<Rightarrow> bytes list \<Rightarrow> database_info \<Rightarrow> (query_result option list \<times> query_traces list) client" where
  "execute_step_traced env verified_tops script_hashes db =
     (if script_hashes = [] then Inr ([], [])
      else rbind (execute_step_unverified env script_hashes db) (\<lambda>(results, traces).
           if di_has_bucket_merkle db
           then rbind (run_merkle_verification env verified_tops results traces db) (\<lambda>results. Inr (results, traces))
           else Inr (results, traces)))"

definition execute_step :: "dpf_env \<Rightarrow> tree_top list option \<Rightarrow> bytes list \<Rightarrow> database_info \<Rightarrow> query_result option list client" where
  "execute_step env verified_tops script_hashes db = rbind (execute_step_traced env verified_tops script_hashes db) (\<lambda>(results, traces). Inr results)"

end
