(* ===== verification/Cuckoo_Probe.thy ===== *)
theory Cuckoo_Probe
  imports Cuckoo
begin

text \<open>
  What a reader of a built cuckoo table (\<open>crates/protocol/core/src/cuckoo.rs\<close>) relies on beyond the
  presence of every entry: a probe that goes through the bins of an entry in order, slot by slot, meets
  no empty slot before the entry. Insertion fills the slots of a bin in order, takes a later bin only
  when the earlier ones are full, and an occupied slot never becomes empty again.
\<close>

section \<open>The invariant\<close>

definition bin_full :: "nat \<Rightarrow> u32 list \<Rightarrow> nat \<Rightarrow> bool" where
  "bin_full slots table b \<longleftrightarrow> (\<forall>s < slots. table ! (b * slots + s) \<noteq> EMPTY)"

text \<open>The bins of \<open>x\<close> before its first occurrence of the bin \<open>b\<close> are full.\<close>

definition earlier_full :: "(u32 \<Rightarrow> nat \<Rightarrow> nat option) \<Rightarrow> nat \<Rightarrow> nat \<Rightarrow> u32 list \<Rightarrow> u32 \<Rightarrow> nat \<Rightarrow> bool" where
  "earlier_full hash nh slots table x b \<longleftrightarrow>
     (\<forall>hf < nh. \<forall>c. hash x hf = Some c \<and> (\<forall>hf' \<le> hf. hash x hf' \<noteq> Some b) \<longrightarrow> bin_full slots table c)"

definition greedy :: "(u32 \<Rightarrow> nat \<Rightarrow> nat option) \<Rightarrow> nat \<Rightarrow> nat \<Rightarrow> u32 list \<Rightarrow> bool" where
  "greedy hash nh slots table \<longleftrightarrow>
     (\<forall>pos < length table. table ! pos \<noteq> EMPTY \<longrightarrow>
        (\<forall>s < pos mod slots. table ! (pos div slots * slots + s) \<noteq> EMPTY) \<and>
        earlier_full hash nh slots table (table ! pos) (pos div slots))"

lemma greedyD:
  assumes "greedy hash nh slots table" and "pos < length table" and "table ! pos \<noteq> EMPTY"
  shows "s < pos mod slots \<Longrightarrow> table ! (pos div slots * slots + s) \<noteq> EMPTY"
    and "earlier_full hash nh slots table (table ! pos) (pos div slots)"
  using assms unfolding greedy_def by blast+

lemma greedy_empty: "greedy hash nh slots (replicate n EMPTY)"
  by (simp add: greedy_def)

lemma update_not_EMPTY: "table ! q \<noteq> EMPTY \<Longrightarrow> x \<noteq> EMPTY \<Longrightarrow> table[p := x] ! q \<noteq> EMPTY"
  by (cases "p < length table") (auto simp: nth_list_update list_update_beyond)

lemma bin_full_update: "bin_full slots table b \<Longrightarrow> x \<noteq> EMPTY \<Longrightarrow> bin_full slots (table[p := x]) b"
  by (simp add: bin_full_def update_not_EMPTY)

lemma earlier_full_update: "earlier_full hash nh slots table y b \<Longrightarrow> x \<noteq> EMPTY \<Longrightarrow> earlier_full hash nh slots (table[p := x]) y b"
  by (simp add: earlier_full_def bin_full_update)

lemma greedy_update:
  assumes "greedy hash nh slots table" and "p < length table" and "x \<noteq> EMPTY"
    and "\<forall>s < p mod slots. table ! (p div slots * slots + s) \<noteq> EMPTY"
    and "earlier_full hash nh slots table x (p div slots)"
  shows "greedy hash nh slots (table[p := x])"
  unfolding greedy_def
proof (intro allI impI)
  fix pos assume pos: "pos < length (table[p := x])" "table[p := x] ! pos \<noteq> EMPTY"
  show "(\<forall>s < pos mod slots. table[p := x] ! (pos div slots * slots + s) \<noteq> EMPTY) \<and>
      earlier_full hash nh slots (table[p := x]) (table[p := x] ! pos) (pos div slots)"
  proof (cases "pos = p")
    case True
    then show ?thesis using assms(2-5) by (simp add: update_not_EMPTY earlier_full_update)
  next
    case False
    then have "table ! pos \<noteq> EMPTY" "pos < length table" using pos by simp_all
    note g = greedyD [OF assms(1) this(2,1)]
    show ?thesis using g False assms(3) by (simp add: update_not_EMPTY earlier_full_update)
  qed
qed

section \<open>Insertion keeps it\<close>

lemma free_slot_first:
  assumes "free_slot table base [a..<slots] = Some (Some p)"
  shows "\<exists>s. p = base + s \<and> a \<le> s \<and> s < slots \<and> p < length table \<and> table ! p = EMPTY \<and> (\<forall>s' \<in> {a..<s}. table ! (base + s') \<noteq> EMPTY)"
  using assms
proof (induction "slots - a" arbitrary: a)
  case (Suc n)
  then have a: "[a..<slots] = a # [Suc a..<slots]" and n: "n = slots - Suc a" by (simp_all add: upt_rec)
  show ?case
  proof (cases "table ! (base + a) = EMPTY")
    case False
    with Suc.prems a have "free_slot table base [Suc a..<slots] = Some (Some p)" by (simp split: if_splits)
    from Suc.hyps(1) [OF n this] obtain s where
      "p = base + s" "Suc a \<le> s" "s < slots" "p < length table" "table ! p = EMPTY" "\<forall>s' \<in> {Suc a..<s}. table ! (base + s') \<noteq> EMPTY"
      by auto
    moreover have "{a..<s} = insert a {Suc a..<s}" using \<open>Suc a \<le> s\<close> by auto
    ultimately show ?thesis using False by (intro exI [of _ s]) auto
  qed (use Suc.prems Suc.hyps(2) a in \<open>auto split: if_splits\<close>)
qed simp

lemma free_slot_none: "free_slot table base ss = Some None \<Longrightarrow> s \<in> set ss \<Longrightarrow> table ! (base + s) \<noteq> EMPTY"
  by (induction ss) (auto split: if_splits)

lemma free_slot_full: "free_slot table (b * slots) [0..<slots] = Some None \<Longrightarrow> bin_full slots table b"
  using free_slot_none [of table "b * slots" "[0..<slots]"] by (simp add: bin_full_def)

text \<open>A position that the scan of a bin returns continues the filled part of the bin.\<close>

lemma free_slot_prefix:
  assumes "free_slot table (b * slots) [0..<slots] = Some (Some p)"
  shows "p div slots = b" and "p < length table" and "\<forall>s < p mod slots. table ! (p div slots * slots + s) \<noteq> EMPTY"
  using free_slot_first [OF assms] by auto

lemma try_bins_first:
  assumes "try_bins hash x table slots [a..<nh] = Some (Some p)"
  shows "\<exists>hf b. a \<le> hf \<and> hf < nh \<and> hash x hf = Some b \<and> free_slot table (b * slots) [0..<slots] = Some (Some p) \<and>
    (\<forall>hf' \<in> {a..<hf}. \<forall>c. hash x hf' = Some c \<longrightarrow> bin_full slots table c)"
  using assms
proof (induction "nh - a" arbitrary: a)
  case (Suc n)
  then have a: "[a..<nh] = a # [Suc a..<nh]" and n: "n = nh - Suc a" by (simp_all add: upt_rec)
  from Suc.prems a obtain b where b: "hash x a = Some b" by (auto split: option.splits)
  show ?case
  proof (cases "free_slot table (b * slots) [0..<slots] = Some None")
    case True
    with Suc.prems a b have "try_bins hash x table slots [Suc a..<nh] = Some (Some p)" by simp
    from Suc.hyps(1) [OF n this] obtain hf c where h: "Suc a \<le> hf" "hf < nh" "hash x hf = Some c"
      "free_slot table (c * slots) [0..<slots] = Some (Some p)"
      "\<forall>hf' \<in> {Suc a..<hf}. \<forall>c. hash x hf' = Some c \<longrightarrow> bin_full slots table c"
      by auto
    moreover have "{a..<hf} = insert a {Suc a..<hf}" using \<open>Suc a \<le> hf\<close> by auto
    ultimately show ?thesis using free_slot_full [OF True] b by (intro exI [of _ hf] exI [of _ c]) auto
  next
    case False
    then have "free_slot table (b * slots) [0..<slots] = Some (Some p)"
      using Suc.prems a b by (auto split: option.splits)
    then show ?thesis using b Suc.hyps(2) by (intro exI [of _ a] exI [of _ b]) auto
  qed
qed simp

lemma try_bins_none:
  "try_bins hash x table slots hfs = Some None \<Longrightarrow> hf \<in> set hfs \<Longrightarrow> hash x hf = Some c \<Longrightarrow> bin_full slots table c"
  by (induction hfs) (auto split: option.splits intro: free_slot_full)

lemma find_alt_bin_first:
  assumes "find_alt_bin hash x b [a..<nh] = Some alt"
  shows "alt = b \<or> (\<exists>hf. a \<le> hf \<and> hf < nh \<and> hash x hf = Some alt \<and> (\<forall>hf' \<in> {a..<hf}. hash x hf' = Some b))"
  using assms
proof (induction "nh - a" arbitrary: a)
  case (Suc n)
  then have a: "[a..<nh] = a # [Suc a..<nh]" and n: "n = nh - Suc a" by (simp_all add: upt_rec)
  from Suc.prems a obtain c where c: "hash x a = Some c" by (auto split: option.splits)
  show ?case
  proof (cases "c = b")
    case True
    with Suc.prems a c have "find_alt_bin hash x b [Suc a..<nh] = Some alt" by simp
    from Suc.hyps(1) [OF n this] consider "alt = b" | hf where "Suc a \<le> hf" "hf < nh" "hash x hf = Some alt"
      "\<forall>hf' \<in> {Suc a..<hf}. hash x hf' = Some b" by auto
    then show ?thesis
    proof cases
      case (2 hf)
      moreover have "{a..<hf} = insert a {Suc a..<hf}" using 2(1) by auto
      ultimately show ?thesis using c True by (intro disjI2 exI [of _ hf]) auto
    qed simp
  next
    case False
    then show ?thesis using Suc.prems a c Suc.hyps(2) by (intro disjI2 exI [of _ a]) auto
  qed
qed simp

lemma alt_bin_earlier_full:
  assumes "find_alt_bin hash x b [0..<nh] = Some alt" and "earlier_full hash nh slots table x b" and "bin_full slots table b"
  shows "earlier_full hash nh slots table x alt"
proof (cases "alt = b")
  case False
  then obtain hf where hf: "hf < nh" "hash x hf = Some alt" "\<forall>hf' < hf. hash x hf' = Some b"
    using find_alt_bin_first [OF assms(1)] by auto
  have "bin_full slots table c" if "hash x h = Some c" "\<forall>h' \<le> h. hash x h' \<noteq> Some alt" for h c
  proof -
    have "h < hf" using that(2) hf(2) by (meson not_less)
    then show ?thesis using hf(3) that(1) assms(3) by auto
  qed
  then show ?thesis unfolding earlier_full_def by blast
qed (use assms in simp)

lemma full_bin_slot: "bin_full slots table b \<Longrightarrow> s < slots \<Longrightarrow> table ! (b * slots + s) \<noteq> EMPTY"
  by (simp add: bin_full_def)

lemma evict_loop_greedy:
  assumes "evict_loop hash slots nh table x b kicks = Some (ok, table')" and "greedy hash nh slots table"
    and "x \<noteq> EMPTY" and "bin_full slots table b" and "earlier_full hash nh slots table x b"
  shows "greedy hash nh slots table'"
  using assms
proof (induction kicks arbitrary: table x b)
  case (Cons kick kicks)
  let ?pos = "b * slots + kick mod slots"
  let ?e = "table ! ?pos" and ?t = "table[b * slots + kick mod slots := x]"
  have sl: "0 < slots" "?pos < length table" using Cons.prems(1) by (auto simp: Let_def split: if_splits)
  then have dv: "?pos div slots = b" "?pos mod slots = kick mod slots" by simp_all
  have e: "?e \<noteq> EMPTY" using full_bin_slot [OF Cons.prems(4)] sl(1) by simp
  have "\<forall>s < kick mod slots. table ! (b * slots + s) \<noteq> EMPTY"
    using full_bin_slot [OF Cons.prems(4)] sl(1) by (meson less_trans mod_less_divisor)
  then have gt: "greedy hash nh slots ?t"
    using greedy_update [OF Cons.prems(2) sl(2) Cons.prems(3)] Cons.prems(5) by (simp add: dv)
  have ee: "earlier_full hash nh slots ?t ?e b" "bin_full slots ?t b"
    using greedyD(2) [OF Cons.prems(2) sl(2) e] Cons.prems(3,4) by (simp_all add: dv earlier_full_update bin_full_update)
  obtain alt where alt: "find_alt_bin hash ?e b [0..<nh] = Some alt"
    using Cons.prems(1) sl by (auto simp: Let_def split: option.splits)
  have ea: "earlier_full hash nh slots ?t ?e alt" by (rule alt_bin_earlier_full [OF alt ee])
  from Cons.prems(1) sl alt consider
    (free) p where "free_slot ?t (alt * slots) [0..<slots] = Some (Some p)" "table' = ?t[p := ?e]"
    | (full) "free_slot ?t (alt * slots) [0..<slots] = Some None" "evict_loop hash slots nh ?t ?e alt kicks = Some (ok, table')"
    by (auto simp: Let_def split: option.splits)
  then show ?case
  proof cases
    case free
    note p = free_slot_prefix [OF free(1)]
    have "earlier_full hash nh slots ?t ?e (p div slots)" using ea p(1) by simp
    from greedy_update [OF gt p(2) e p(3) this] show ?thesis by (simp only: free(2))
  next
    case full
    from Cons.IH [OF full(2) gt e free_slot_full [OF full(1)] ea] show ?thesis .
  qed
qed simp

lemma cuckoo_insert_greedy:
  assumes "cuckoo_insert table slots x hash nh mk = Some (ok, table')" and "greedy hash nh slots table" and "x \<noteq> EMPTY" and "0 < nh"
  shows "greedy hash nh slots table'"
proof -
  from assms(1) consider
    (free) p where "try_bins hash x table slots [0..<nh] = Some (Some p)" "table' = table[p := x]"
    | (full) b where "try_bins hash x table slots [0..<nh] = Some None" "hash x 0 = Some b"
      "evict_loop hash slots nh table x b [0..<mk] = Some (ok, table')"
    by (auto simp: cuckoo_insert_def split: option.splits)
  then show ?thesis
  proof cases
    case free
    obtain hf b where h: "hf < nh" "hash x hf = Some b" "free_slot table (b * slots) [0..<slots] = Some (Some p)"
      "\<And>hf' c. hf' < hf \<Longrightarrow> hash x hf' = Some c \<Longrightarrow> bin_full slots table c"
      using try_bins_first [OF free(1)] by auto
    note p = free_slot_prefix [OF h(3)]
    have "earlier_full hash nh slots table x (p div slots)"
      unfolding earlier_full_def p(1) using h(2,4) by (metis not_le_imp_less)
    from greedy_update [OF assms(2) p(2) assms(3) p(3) this] show ?thesis by (simp only: free(2))
  next
    case full
    have "earlier_full hash nh slots table x b" using full(2) by (auto simp: earlier_full_def)
    moreover have "bin_full slots table b" using try_bins_none [OF full(1) _ full(2)] assms(4) by simp
    ultimately show ?thesis using evict_loop_greedy [OF full(3) assms(2,3)] by blast
  qed
qed

lemma insert_all_greedy:
  assumes "insert_all hash slots nh is table = Some table'" and "greedy hash nh slots table" and "0 < nh"
    and "\<forall>i \<in> set is. (of_nat i :: u32) \<noteq> EMPTY"
  shows "greedy hash nh slots table'"
  using assms
proof (induction "is" arbitrary: table)
  case (Cons i "is")
  then obtain t where t: "cuckoo_insert table slots (of_nat i) hash nh CUCKOO_MAX_KICKS = Some (True, t)"
    "insert_all hash slots nh is t = Some table'"
    by (auto split: option.splits bool.splits)
  then show ?case using Cons cuckoo_insert_greedy [OF t(1)] by simp
qed simp

section \<open>Probing\<close>

text \<open>
  The place of an entry as a reader sees it: the first of its bins that holds it, with the earlier bins and
  the earlier slots of that bin occupied.
\<close>

definition first_place :: "(u32 \<Rightarrow> nat \<Rightarrow> nat option) \<Rightarrow> nat \<Rightarrow> nat \<Rightarrow> u32 list \<Rightarrow> u32 \<Rightarrow> nat \<Rightarrow> nat \<Rightarrow> nat \<Rightarrow> bool" where
  "first_place hash nh slots table x hf b s \<longleftrightarrow>
     hf < nh \<and> hash x hf = Some b \<and> s < slots \<and> b * slots + s < length table \<and> table ! (b * slots + s) = x \<and>
     (\<forall>s' < s. table ! (b * slots + s') \<noteq> EMPTY) \<and>
     (\<forall>hf' < hf. \<forall>c. hash x hf' = Some c \<longrightarrow> c \<noteq> b \<and> bin_full slots table c)"

lemma greedy_first_place:
  assumes "greedy hash nh slots table" and "well_placed hash nh n valid slots table" and "0 < slots" and "x \<in> set table" and "x \<noteq> EMPTY"
  shows "\<exists>hf b s. first_place hash nh slots table x hf b s"
proof -
  obtain pos where pos: "pos < length table" "table ! pos = x" using assms(4) by (metis in_set_conv_nth)
  let ?b = "pos div slots" and ?P = "\<lambda>hf. hash x hf = Some (pos div slots)"
  obtain h0 where "h0 < nh" "?P h0" using assms(2,5) pos by (auto simp: well_placed_def own_bins_def)
  then have l: "?P (Least ?P)" "Least ?P < nh" using LeastI [of ?P h0] Least_le [of ?P h0] by auto
  have nl: "\<not> ?P hf'" if "hf' < Least ?P" for hf' using not_less_Least [OF that] .
  have xe: "table ! pos \<noteq> EMPTY" using pos assms(5) by simp
  note g = greedyD [OF assms(1) pos(1) xe]
  have "c \<noteq> ?b \<and> bin_full slots table c" if "hf' < Least ?P" "hash x hf' = Some c" for hf' c
  proof -
    have "\<forall>h \<le> hf'. hash x h \<noteq> Some ?b" using nl that(1) by (meson le_less_trans)
    moreover have "hf' < nh" using that(1) l(2) by simp
    ultimately have "bin_full slots table c" using g(2) that(2) unfolding pos(2) earlier_full_def by blast
    then show ?thesis using nl [OF that(1)] that(2) by auto
  qed
  moreover have "\<forall>s' < pos mod slots. table ! (?b * slots + s') \<noteq> EMPTY" using g(1) by blast
  moreover have "table ! (?b * slots + pos mod slots) = x" "?b * slots + pos mod slots < length table" "pos mod slots < slots"
    using pos assms(3) by simp_all
  ultimately have "first_place hash nh slots table x (Least ?P) ?b (pos mod slots)"
    using l unfolding first_place_def by blast
  then show ?thesis by blast
qed

section \<open>Built tables\<close>

context cuckoo_family
begin

lemma built_first_place:
  assumes "insert_all hash slots nh [0..<n] (replicate (num_bins * slots) EMPTY) = Some table"
    and "0 < slots" and "0 < nh" and "n \<le> 2 ^ 32 - 1" and "\<forall>i < n. valid (of_nat i)" and "i < n"
  shows "\<exists>hf b s. first_place hash nh slots table (of_nat i) hf b s"
proof -
  have "placed slots table \<and> mset table + replicate_mset (length [0..<n]) EMPTY =
      mset (replicate (num_bins * slots) EMPTY) + mset (map of_nat [0..<n])"
    using assms(5) by (intro insert_all_placed [OF assms(1) well_placed_empty assms(2,3)]) simp
  moreover have "greedy hash nh slots table"
    using assms(5) valid_not_EMPTY by (intro insert_all_greedy [OF assms(1) greedy_empty assms(3)]) simp
  moreover have "(of_nat i :: u32) \<in># mset table"
    unfolding built_table(1) [OF assms(1-5)] using assms(6) by auto
  moreover have "(of_nat i :: u32) \<noteq> EMPTY" using assms(5,6) valid_not_EMPTY by blast
  ultimately show ?thesis using greedy_first_place [OF _ _ assms(2)] by auto
qed

end

lemma byte_table_place:
  assumes "build_byte_keyed_table entries g p n = Some table" and "0 < tp_slots_per_bin p" and "0 < tp_cuckoo_num_hashes p"
    and "length entries \<le> 2 ^ 32 - 1" and "\<forall>e \<in> set entries. 20 \<le> length e" and "i < length entries"
  shows "\<exists>hf b s. first_place (byte_hash_fn entries (cuckoo_keys p g) n) (tp_cuckoo_num_hashes p) (tp_slots_per_bin p) table (of_nat i) hf b s"
proof -
  let ?h = "byte_hash_fn entries (cuckoo_keys p g) n"
  have ins: "insert_all ?h (tp_slots_per_bin p) (length (cuckoo_keys p g)) [0..<length entries]
      (replicate (n * tp_slots_per_bin p) EMPTY) = Some table"
    using assms(1) by (simp add: build_byte_keyed_table_def)
  have "0 < length entries" "0 < length (cuckoo_keys p g)" using assms(3,6) by auto
  moreover have "?h x hf = None" if "n = 0" for x hf using that by (simp add: byte_hash_fn_def cuckoo_hash_def)
  ultimately have "0 < n" using insert_all_no_bins [OF ins] by blast
  moreover have "unat (of_nat i :: u32) = i" if "i < length entries" for i
    using that assms(4) by (intro unat_of_nat_small) simp
  ultimately have "\<forall>i < length entries. byte_valid entries n (of_nat i)"
    using assms(4,5) of_nat_not_EMPTY by (auto simp: byte_valid_def)
  then show ?thesis using byte_table.built_first_place [OF ins assms(2) _ assms(4) _ assms(6)] assms(3) by simp
qed

lemma int_table_place:
  assumes "build_int_keyed_table ids g p n = Some table" and "0 < tp_slots_per_bin p" and "0 < tp_cuckoo_num_hashes p"
    and "length ids \<le> 2 ^ 32 - 1" and "i < length ids"
  shows "\<exists>hf b s. first_place (int_hash_fn ids (cuckoo_keys p g) n) (tp_cuckoo_num_hashes p) (tp_slots_per_bin p) table (of_nat i) hf b s"
proof -
  let ?h = "int_hash_fn ids (cuckoo_keys p g) n"
  have ins: "insert_all ?h (tp_slots_per_bin p) (length (cuckoo_keys p g)) [0..<length ids]
      (replicate (n * tp_slots_per_bin p) EMPTY) = Some table"
    using assms(1) by (simp add: build_int_keyed_table_def)
  have "0 < length ids" "0 < length (cuckoo_keys p g)" using assms(3,5) by auto
  moreover have "?h x hf = None" if "n = 0" for x hf using that by (simp add: int_hash_fn_def cuckoo_hash_int_def)
  ultimately have "0 < n" using insert_all_no_bins [OF ins] by blast
  moreover have "unat (of_nat i :: u32) = i" if "i < length ids" for i
    using that assms(4) by (intro unat_of_nat_small) simp
  ultimately have "\<forall>i < length ids. int_valid ids n (of_nat i)"
    using assms(4) of_nat_not_EMPTY by (auto simp: int_valid_def)
  then show ?thesis using int_table.built_first_place [OF ins assms(2) _ assms(4) _ assms(5)] assms(3) by simp
qed

end
