(* ===== verification/Table_Build.thy ===== *)
theory Table_Build
  imports Cuckoo_Probe Table_Load
begin

text \<open>
  The table builder \<open>tools/db-builder/src/build_cuckoo_generic.rs\<close>: the seeds of a build, the INDEX file
  and the CHUNK file, from the contents of the input files. \<open>None\<close> is an exit with an error, a panic or
  a call that does not return. The number of bins, which \<open>compute_bins_per_table\<close> computes in floating
  point, is the argument \<open>compute_bins\<close>; progress output is left out.
\<close>

section \<open>Seeds\<close>

definition LEGACY_INDEX_MASTER :: u64 where "LEGACY_INDEX_MASTER = 0x71a2ef38b4c90d15"
definition LEGACY_CHUNK_MASTER :: u64 where "LEGACY_CHUNK_MASTER = 0xa3f7c2d918e4b065"
definition LEGACY_TAG_SEED :: u64 where "LEGACY_TAG_SEED = 0xd4e5f6a7b8c91023"

record resolved_anchor =
  ra_anchor :: "header_anchor option"
  ra_index_master :: u64
  ra_chunk_master :: u64
  ra_index_tag :: u64

definition resolve_seeds :: "(bytes \<Rightarrow> bytes) \<Rightarrow> bytes option \<Rightarrow> resolved_anchor option" where
  "resolve_seeds H anchor_file =
     (case anchor_file of
        Some bytes \<Rightarrow>
          (if length bytes = CHAIN_ANCHOR_BYTES
           then (case chain_anchor_from_bytes bytes of
                   Inl _ \<Rightarrow> None
                 | Inr a \<Rightarrow> (let s = derive_snapshot_seeds H a
                            in Some \<lparr>ra_anchor = Some (Header_Snapshot a), ra_index_master = ss_index_master s,
                                     ra_chunk_master = ss_chunk_master s, ra_index_tag = ss_index_tag s\<rparr>))
           else if length bytes = DELTA_ANCHOR_BYTES
           then (case delta_anchor_from_bytes bytes of
                   Inl _ \<Rightarrow> None
                 | Inr a \<Rightarrow> (let s = derive_delta_seeds H a
                            in Some \<lparr>ra_anchor = Some (Header_Delta a), ra_index_master = ds_index_master s,
                                     ra_chunk_master = ds_chunk_master s, ra_index_tag = ds_index_tag s\<rparr>))
           else None)
      | None \<Rightarrow> Some \<lparr>ra_anchor = None, ra_index_master = LEGACY_INDEX_MASTER,
                      ra_chunk_master = LEGACY_CHUNK_MASTER, ra_index_tag = LEGACY_TAG_SEED\<rparr>)"

section \<open>Groups\<close>

definition INDEX_RECORD_SIZE :: nat where "INDEX_RECORD_SIZE = SCRIPT_HASH_SIZE + 4 + 1"

definition run_value :: "'a run \<Rightarrow> 'a option" where
  "run_value r = (case r of Some (Inr x) \<Rightarrow> Some x | _ \<Rightarrow> None)"

definition push_to_groups :: "'a \<Rightarrow> nat list \<Rightarrow> 'a list list \<Rightarrow> 'a list list" where
  "push_to_groups x groups gs = fold (\<lambda>b gs. gs[b := gs ! b @ [x]]) groups gs"

fun assign_groups :: "('a \<Rightarrow> nat list run) \<Rightarrow> 'a list \<Rightarrow> 'a list list \<Rightarrow> 'a list list option" where
  "assign_groups groups_of [] gs = Some gs"
| "assign_groups groups_of (x # xs) gs =
     Option.bind (run_value (groups_of x)) (\<lambda>groups. assign_groups groups_of xs (push_to_groups x groups gs))"

section \<open>The INDEX file\<close>

definition record_hash :: "bytes \<Rightarrow> nat \<Rightarrow> bytes" where
  "record_hash mmap i = slice mmap (i * INDEX_RECORD_SIZE) SCRIPT_HASH_SIZE"

definition index_slot :: "u64 \<Rightarrow> bytes \<Rightarrow> nat list \<Rightarrow> u32 \<Rightarrow> bytes option" where
  "index_slot tag_seed mmap entries entry_local =
     (if entry_local = EMPTY then Some (replicate INDEX_SLOT_SIZE 0)
      else if length entries \<le> unat entry_local then None
      else (let global_idx = entries ! unat entry_local;
                offset = global_idx * INDEX_RECORD_SIZE
            in case compute_tag tag_seed (record_hash mmap global_idx) of
                 None \<Rightarrow> None
               | Some tag \<Rightarrow>
                   Some (u64_to_le tag @ slice mmap (offset + SCRIPT_HASH_SIZE) (INDEX_RECORD_SIZE - SCRIPT_HASH_SIZE))))"

text \<open>Writing out the tables of all groups.\<close>

definition serialize_tables ::
  "nat \<Rightarrow> nat \<Rightarrow> ('a list \<Rightarrow> u32 \<Rightarrow> bytes option) \<Rightarrow> u32 list list \<Rightarrow> 'a list list \<Rightarrow> bytes option" where
  "serialize_tables k cells slot tables groups =
     map_option concat (those (map (\<lambda>g. map_option concat (those (map (slot (groups ! g)) (take cells (tables ! g))))) [0..<k]))"

definition build_index_cuckoo :: "(nat \<Rightarrow> nat \<Rightarrow> nat) \<Rightarrow> bytes \<Rightarrow> resolved_anchor \<Rightarrow> bytes option" where
  "build_index_cuckoo compute_bins mmap seeds =
     (let params = with_master_seed INDEX_PARAMS (ra_index_master seeds);
          n = length mmap div INDEX_RECORD_SIZE
      in Option.bind (assign_groups (\<lambda>i. derive_groups_3 (record_hash mmap i) (tp_k params)) [0..<n]
                        (replicate (tp_k params) [])) (\<lambda>group_entries.
         let max_load = foldr max (map length group_entries) 0;
             bins_per_table = compute_bins max_load (tp_slots_per_bin params)
         in Option.bind (those (map (\<lambda>g. build_byte_keyed_table (map (record_hash mmap) (group_entries ! g)) g params
                                       bins_per_table) [0..<tp_k params])) (\<lambda>tables.
            Option.bind (write_header_with_anchor params bins_per_table (ra_index_tag seeds) (ra_anchor seeds)) (\<lambda>header.
            Option.bind (serialize_tables (tp_k params) (bins_per_table * tp_slots_per_bin params)
                           (index_slot (ra_index_tag seeds) mmap) tables group_entries) (\<lambda>body.
            Some (header @ body))))))"

section \<open>The CHUNK file\<close>

definition chunk_slot :: "bytes \<Rightarrow> u32 list \<Rightarrow> u32 \<Rightarrow> bytes option" where
  "chunk_slot chunks_mmap ids entry_local =
     (if entry_local = EMPTY then Some (replicate (4 + CHUNK_SIZE) 0)
      else if length ids \<le> unat entry_local then None
      else (let chunk_id = ids ! unat entry_local;
                data_offset = unat chunk_id * CHUNK_SIZE
            in if length chunks_mmap < data_offset + CHUNK_SIZE then None
               else Some (u32_to_le chunk_id @ slice chunks_mmap data_offset CHUNK_SIZE)))"

definition build_chunk_cuckoo :: "(nat \<Rightarrow> nat \<Rightarrow> nat) \<Rightarrow> bytes \<Rightarrow> resolved_anchor \<Rightarrow> bytes option" where
  "build_chunk_cuckoo compute_bins chunks_mmap seeds =
     (let params = with_master_seed CHUNK_PARAMS (ra_chunk_master seeds);
          num_chunks = length chunks_mmap div CHUNK_SIZE;
          chunk_ids = map of_nat [0..<unat (of_nat num_chunks :: u32)]
      in Option.bind (assign_groups (\<lambda>chunk_id. derive_int_groups_3 chunk_id (tp_k params)) chunk_ids
                        (replicate (tp_k params) [])) (\<lambda>group_chunks.
         let max_load = foldr max (map length group_chunks) 0;
             bins_per_table = compute_bins max_load (tp_slots_per_bin params)
         in Option.bind (those (map (\<lambda>g. build_int_keyed_table (group_chunks ! g) g params bins_per_table) [0..<tp_k params])) (\<lambda>tables.
            Option.bind (write_header_with_anchor params bins_per_table 0 (ra_anchor seeds)) (\<lambda>header.
            Option.bind (serialize_tables (tp_k params) (bins_per_table * tp_slots_per_bin params)
                           (chunk_slot chunks_mmap) tables group_chunks) (\<lambda>body.
            Some (header @ body))))))"

section \<open>Assignment to groups\<close>

lemma those_Some: "those xs = Some ys \<longleftrightarrow> xs = map Some ys"
  by (induction xs arbitrary: ys) (auto split: option.splits simp: Cons_eq_map_conv map_eq_Cons_conv)

lemma push_to_groups_nth:
  assumes "distinct groups" and "set groups \<subseteq> {..<length gs}"
  shows "length (push_to_groups x groups gs) = length gs"
    and "g < length gs \<Longrightarrow> push_to_groups x groups gs ! g = (if g \<in> set groups then gs ! g @ [x] else gs ! g)"
  using assms unfolding push_to_groups_def
  by (induction groups arbitrary: gs) (auto simp: nth_list_update)

lemma assign_groups_nth:
  assumes "assign_groups groups_of xs gs = Some gs'"
    and "\<And>x r. run_value (groups_of x) = Some r \<Longrightarrow> distinct r \<and> set r \<subseteq> {..<length gs}"
  shows "length gs' = length gs \<and>
    (\<forall>g < length gs. gs' ! g = gs ! g @ filter (\<lambda>x. g \<in> set (the (run_value (groups_of x)))) xs) \<and>
    (\<forall>x \<in> set xs. run_value (groups_of x) \<noteq> None)"
  using assms
proof (induction xs arbitrary: gs)
  case (Cons x xs)
  then obtain r where r: "run_value (groups_of x) = Some r" "assign_groups groups_of xs (push_to_groups x r gs) = Some gs'"
    by (auto split: Option.bind_splits)
  have d: "distinct r" "set r \<subseteq> {..<length gs}" using Cons.prems(2) [OF r(1)] by auto
  show ?case
    using Cons.IH [OF r(2)] Cons.prems(2) r(1) push_to_groups_nth [OF d, where x = x] by auto
qed simp

section \<open>Layout of the files\<close>

lemma serialize_layout:
  assumes "serialize_tables k cells slot tables groups = Some body" and "\<And>g. g < k \<Longrightarrow> length (tables ! g) = cells"
    and "\<And>g e b. g < k \<Longrightarrow> slot (groups ! g) e = Some b \<Longrightarrow> length b = w"
  shows "length body = k * (cells * w)"
    and "g < k \<Longrightarrow> p < cells \<Longrightarrow>
      slot (groups ! g) (tables ! g ! p) = Some (slice (slice body (g * (cells * w)) (cells * w)) (p * w) w)"
proof -
  obtain parts where parts: "those (map (\<lambda>g. map_option concat (those (map (slot (groups ! g)) (take cells (tables ! g))))) [0..<k]) = Some parts"
    "body = concat parts" using assms(1) by (auto simp: serialize_tables_def)
  have len: "length parts = k" using arg_cong [OF parts(1) [unfolded those_Some], of length] by simp
  have part: "\<exists>ss. map (slot (groups ! g)) (tables ! g) = map Some ss \<and> parts ! g = concat ss" if "g < k" for g
  proof -
    have "map_option concat (those (map (slot (groups ! g)) (take cells (tables ! g)))) = Some (parts ! g)"
      using that len arg_cong [OF parts(1) [unfolded those_Some], of "\<lambda>l. l ! g"] by simp
    then show ?thesis using assms(2) [OF that] by (auto simp: those_Some)
  qed
  have slots: "length ss = cells \<and> (\<forall>b \<in> set ss. length b = w)" if "g < k" "map (slot (groups ! g)) (tables ! g) = map Some ss" for g ss
  proof
    show "length ss = cells" using arg_cong [OF that(2), of length] assms(2) [OF that(1)] by simp
    show "\<forall>b \<in> set ss. length b = w"
    proof
      fix b assume "b \<in> set ss"
      then have "Some b \<in> set (map (slot (groups ! g)) (tables ! g))" using that(2) by simp
      then show "length b = w" using assms(3) [OF that(1)] by auto
    qed
  qed
  have pl: "\<forall>b \<in> set parts. length b = cells * w"
  proof
    fix b assume "b \<in> set parts"
    then obtain g where g: "g < k" "b = parts ! g" using len by (metis in_set_conv_nth)
    obtain ss where ss: "map (slot (groups ! g)) (tables ! g) = map Some ss" "parts ! g = concat ss" using part [OF g(1)] by blast
    then show "length b = cells * w" using slots [OF g(1) ss(1)] g(2) length_concat_fixed [of ss w] by simp
  qed
  show "length body = k * (cells * w)" using length_concat_fixed [OF pl] len parts(2) by simp
  assume g: "g < k" and p: "p < cells"
  obtain ss where ss: "map (slot (groups ! g)) (tables ! g) = map Some ss" "parts ! g = concat ss" using part [OF g] by blast
  note sl = slots [OF g ss(1)]
  have "slice body (g * (cells * w)) (cells * w) = concat ss"
    using slice_concat_fixed [OF pl, of g "[]"] g len ss(2) parts(2) by simp
  moreover have "slice (concat ss) (p * w) w = ss ! p" using slice_concat_fixed [of ss w p "[]"] sl p by simp
  moreover have "slot (groups ! g) (tables ! g ! p) = Some (ss ! p)"
    using arg_cong [OF ss(1), of "\<lambda>l. l ! p"] sl p assms(2) [OF g] by simp
  ultimately show "slot (groups ! g) (tables ! g ! p) = Some (slice (slice body (g * (cells * w)) (cells * w)) (p * w) w)" by simp
qed

lemma with_master_seed_simps [simp]:
  "tp_header_size (with_master_seed p m) = tp_header_size p"
  "tp_magic (with_master_seed p m) = tp_magic p"
  "tp_has_tag_seed (with_master_seed p m) = tp_has_tag_seed p"
  "tp_k (with_master_seed p m) = tp_k p"
  "tp_slots_per_bin (with_master_seed p m) = tp_slots_per_bin p"
  "tp_slot_size (with_master_seed p m) = tp_slot_size p"
  "tp_cuckoo_num_hashes (with_master_seed p m) = tp_cuckoo_num_hashes p"
  "tp_master_seed (with_master_seed p m) = m"
  by (simp_all add: with_master_seed_def)

lemma read_header_seed:
  "read_cuckoo_header_with_anchor d (with_master_seed p m) = read_cuckoo_header_with_anchor d p"
  unfolding read_cuckoo_header_with_anchor_def header_variant_def with_master_seed_simps by (rule refl)

definition loaded_as ::
  "table_params \<Rightarrow> nat \<Rightarrow> u64 \<Rightarrow> u64 \<Rightarrow> header_anchor option \<Rightarrow> bytes \<Rightarrow> mapped_sub_table \<Rightarrow> bool" where
  "loaded_as p bins master tag anchor body t \<longleftrightarrow>
     mt_params t = p \<and> mt_bins_per_table t = bins \<and> mt_master_seed t = master \<and> mt_tag_seed t = tag \<and> mt_anchor t = anchor \<and>
     mt_table_byte_size t = bins * tp_bin_size p \<and>
     (\<forall>g < tp_k p. group_bytes t g = Some (slice body (g * (bins * tp_bin_size p)) (bins * tp_bin_size p)))"

text \<open>A header with a body of the right size loads, whatever anchor the header carries.\<close>

lemma load_built:
  assumes "write_header_with_anchor (with_master_seed p m) bins tag anchor = Some h" and "32 \<le> tp_header_size p"
    and "bins < 2 ^ 32" and "\<forall>a. anchor = Some a \<longrightarrow> wf_header_anchor a" and "length body = tp_k p * (bins * tp_bin_size p)"
  shows "\<exists>t. load_sub_table (h @ body) p = Some t \<and>
    loaded_as p bins m (if tp_has_tag_seed p \<and> 40 \<le> tp_header_size p then tag else 0) anchor body t"
proof -
  let ?p = "with_master_seed p m" and ?e = "expected_header (with_master_seed p m) bins tag anchor"
  have hs: "32 \<le> tp_header_size ?p" using assms(2) by simp
  have h: "length h = ch_header_size ?e" "read_cuckoo_header_with_anchor (h @ body) p = Inr ?e"
    using header_roundtrip_aux [OF hs assms(3,4), of tag body] assms(1) by (auto simp: read_header_seed)
  have e: "ch_bins_per_table ?e = bins" "ch_master_seed ?e = m" "ch_anchor ?e = anchor"
    "ch_tag_seed ?e = (if tp_has_tag_seed p \<and> 40 \<le> tp_header_size p then tag else 0)"
    by (simp_all add: expected_header_def)
  define ts where "ts = bins * tp_bin_size p"
  define t where "t = \<lparr>mt_mmap = h @ body, mt_params = p, mt_bins_per_table = bins, mt_table_byte_size = ts, mt_data_offset = length h,
     mt_tag_seed = ch_tag_seed ?e, mt_master_seed = m, mt_anchor = anchor\<rparr>"
  have "load_sub_table (h @ body) p = Some t"
    using assms(5) by (simp add: load_sub_table_def h(2) Let_def e tp_table_byte_size_def t_def ts_def h(1))
  moreover have "group_bytes t g = Some (slice body (g * ts) ts)" if "g < tp_k p" for g
  proof -
    have "Suc g * ts \<le> tp_k p * ts" using that by (intro mult_le_mono1) simp
    then show ?thesis using assms(5) by (simp add: group_bytes_def t_def Let_def slice_shift ts_def)
  qed
  ultimately show ?thesis by (auto simp: loaded_as_def t_def e ts_def)
qed

lemma length_insert_all: "insert_all hash slots nh is table = Some table' \<Longrightarrow> length table' = length table"
proof -
  have ev: "evict_loop hash slots nh t x b ks = Some (ok, t') \<Longrightarrow> length t' = length t" for t x b ks ok t'
    by (induction ks arbitrary: t x b) (auto simp: Let_def split: if_splits option.splits)
  have ins: "cuckoo_insert t slots x hash nh mk = Some (ok, t') \<Longrightarrow> length t' = length t" for t x mk ok t'
    using ev by (auto simp: cuckoo_insert_def split: option.splits)
  show "insert_all hash slots nh is table = Some table' \<Longrightarrow> length table' = length table"
    by (induction "is" arbitrary: table) (auto split: option.splits bool.splits dest: ins)
qed

lemma built_length:
  "build_byte_keyed_table entries g p n = Some t \<Longrightarrow> length t = n * tp_slots_per_bin p"
  "build_int_keyed_table ids g p n = Some t \<Longrightarrow> length t = n * tp_slots_per_bin p"
  by (auto simp: build_byte_keyed_table_def build_int_keyed_table_def dest!: length_insert_all)

section \<open>What a built file serves\<close>

definition index_groups :: "bytes \<Rightarrow> nat list" where
  "index_groups h = the (run_value (derive_groups_3 h (tp_k INDEX_PARAMS)))"

definition chunk_groups :: "u32 \<Rightarrow> nat list" where
  "chunk_groups c = the (run_value (derive_int_groups_3 c (tp_k CHUNK_PARAMS)))"

lemma run_value_Some: "run_value r = Some x \<longleftrightarrow> r = Some (Inr x)"
  by (auto simp: run_value_def split: option.splits sum.splits)

lemma derive_groups_3_range:
  assumes "run_value (derive_groups_3 h k) = Some r" and "k \<le> 2 ^ 64"
  shows "length r = 3" and "distinct r" and "set r \<subseteq> {..<k}"
  using assms byte_groups.derive_groups_loop_cases [OF assms(2), of 3 h]
  by (auto simp: run_value_Some derive_groups_3_def derive_groups_3_loop_eq split: if_splits option.splits)

lemma derive_int_groups_3_range:
  assumes "run_value (derive_int_groups_3 c k) = Some r" and "k \<le> 2 ^ 64"
  shows "length r = 3" and "distinct r" and "set r \<subseteq> {..<k}"
  using assms int_groups.derive_groups_loop_cases [OF assms(2), of 3 c]
  by (auto simp: run_value_Some derive_int_groups_3_def derive_groups_3_loop_eq split: if_splits option.splits)

lemma derive_groups_3_total:
  assumes "20 \<le> length h" and "3 \<le> k" and "k \<le> 2 ^ 64"
  shows "run_value (derive_groups_3 h k) \<noteq> None"
  using assms byte_groups.derive_groups_loop_cases [OF assms(3), of 3 h]
  by (auto simp: run_value_def derive_groups_3_def derive_groups_3_loop_eq split: option.splits)

lemma derive_int_groups_3_total:
  assumes "3 \<le> k" and "k \<le> 2 ^ 64"
  shows "run_value (derive_int_groups_3 c k) \<noteq> None"
  using assms int_groups.derive_groups_loop_cases [OF assms(2), of 3 c]
  by (auto simp: run_value_def derive_int_groups_3_def derive_groups_3_loop_eq split: option.splits)

lemma group_params:
  "tp_k INDEX_PARAMS = 75" "tp_k CHUNK_PARAMS = 80" "tp_header_size INDEX_PARAMS = 40" "tp_header_size CHUNK_PARAMS = 32"
  "tp_has_tag_seed INDEX_PARAMS" "\<not> tp_has_tag_seed CHUNK_PARAMS"
  "tp_slots_per_bin INDEX_PARAMS = 4" "tp_slots_per_bin CHUNK_PARAMS = 3"
  "tp_slot_size INDEX_PARAMS = 13" "tp_slot_size CHUNK_PARAMS = 44"
  "tp_cuckoo_num_hashes INDEX_PARAMS = 2" "tp_cuckoo_num_hashes CHUNK_PARAMS = 2"
  by (simp_all add: INDEX_PARAMS_def CHUNK_PARAMS_def INDEX_SLOT_SIZE_def CHUNK_SLOT_SIZE_def TAG_SIZE_def CHUNK_SIZE_def)

text \<open>Reading record \<open>i\<close> of the index file: the script hash, and the five bytes of chunk start and count.\<close>

definition record_count :: "bytes \<Rightarrow> nat" where
  "record_count mmap = length mmap div INDEX_RECORD_SIZE"

definition record_tail :: "bytes \<Rightarrow> nat \<Rightarrow> bytes" where
  "record_tail mmap i = slice mmap (i * INDEX_RECORD_SIZE + SCRIPT_HASH_SIZE) 5"

lemma record_lengths:
  assumes "i < record_count mmap"
  shows "length (record_hash mmap i) = 20" and "length (record_tail mmap i) = 5"
proof -
  have "Suc i \<le> length mmap div 25" using assms by (simp add: record_count_def INDEX_RECORD_SIZE_def SCRIPT_HASH_SIZE_def)
  then have "Suc i * 25 \<le> length mmap" by (metis div_times_less_eq_dividend le_trans mult_le_mono1)
  then show "length (record_hash mmap i) = 20" "length (record_tail mmap i) = 5"
    by (simp_all add: record_hash_def record_tail_def INDEX_RECORD_SIZE_def SCRIPT_HASH_SIZE_def)
qed

lemma index_slot_occupied:
  assumes "e \<noteq> EMPTY" and "unat e < length entries" and "entries ! unat e < record_count mmap"
  shows "\<exists>tag. compute_tag tag_seed (record_hash mmap (entries ! unat e)) = Some tag \<and>
    index_slot tag_seed mmap entries e = Some (u64_to_le tag @ record_tail mmap (entries ! unat e))"
  using assms record_lengths(1) [OF assms(3)]
  by (auto simp: index_slot_def Let_def compute_tag_def record_tail_def INDEX_RECORD_SIZE_def SCRIPT_HASH_SIZE_def)

lemma index_slot_length:
  assumes "index_slot tag mmap entries e = Some b" and "\<And>i. i \<in> set entries \<Longrightarrow> i < record_count mmap"
  shows "length b = 13"
proof (cases "e = EMPTY")
  case False
  then have e: "unat e < length entries" using assms(1) by (auto simp: index_slot_def split: if_splits)
  then have "entries ! unat e < record_count mmap" using assms(2) by simp
  from index_slot_occupied [OF False e this, of tag] show ?thesis
    using assms(1) record_lengths(2) [OF \<open>entries ! unat e < record_count mmap\<close>] by auto
qed (use assms(1) in \<open>auto simp: index_slot_def INDEX_SLOT_SIZE_def TAG_SIZE_def\<close>)

lemma bin_size_params: "tp_bin_size INDEX_PARAMS = 52" "tp_bin_size CHUNK_PARAMS = 132"
  by (simp_all add: tp_bin_size_def group_params)

definition index_served :: "bytes \<Rightarrow> resolved_anchor \<Rightarrow> u32 list list \<Rightarrow> mapped_sub_table \<Rightarrow> bool" where
  "index_served mmap seeds tables t \<longleftrightarrow>
     mt_params t = INDEX_PARAMS \<and> mt_master_seed t = ra_index_master seeds \<and> mt_tag_seed t = ra_index_tag seeds \<and>
     mt_anchor t = ra_anchor seeds \<and> mt_table_byte_size t = mt_bins_per_table t * 52 \<and> mt_bins_per_table t < 2 ^ 32 \<and>
     (\<forall>g < 75. group_bytes t g \<noteq> None \<and>
        (let entries = filter (\<lambda>i. g \<in> set (index_groups (record_hash mmap i))) [0..<record_count mmap]
         in build_byte_keyed_table (map (record_hash mmap) entries) g (with_master_seed INDEX_PARAMS (ra_index_master seeds))
              (mt_bins_per_table t) = Some (tables ! g) \<and>
            (\<forall>p < mt_bins_per_table t * 4. index_slot (ra_index_tag seeds) mmap entries (tables ! g ! p) =
               Some (slice (the (group_bytes t g)) (p * 13) 13))))"

lemma built_index_served:
  assumes "build_index_cuckoo cb mmap seeds = Some file" and "\<And>l s. cb l s < 2 ^ 32"
    and "\<forall>a. ra_anchor seeds = Some a \<longrightarrow> wf_header_anchor a"
  shows "\<exists>t tables l. load_sub_table file INDEX_PARAMS = Some t \<and> index_served mmap seeds tables t \<and> mt_bins_per_table t = cb l 4"
proof -
  let ?p = "with_master_seed INDEX_PARAMS (ra_index_master seeds)"
  let ?entries = "\<lambda>g. filter (\<lambda>i. g \<in> set (index_groups (record_hash mmap i))) [0..<record_count mmap]"
  obtain ge tables h body where
    ge: "assign_groups (\<lambda>i. derive_groups_3 (record_hash mmap i) 75) [0..<record_count mmap] (replicate 75 []) = Some ge"
    and tables: "those (map (\<lambda>g. build_byte_keyed_table (map (record_hash mmap) (ge ! g)) g ?p (cb (foldr max (map length ge) 0) 4)) [0..<75]) = Some tables"
    and h: "write_header_with_anchor ?p (cb (foldr max (map length ge) 0) 4) (ra_index_tag seeds) (ra_anchor seeds) = Some h"
    and body: "serialize_tables 75 (cb (foldr max (map length ge) 0) 4 * 4) (index_slot (ra_index_tag seeds) mmap) tables ge = Some body"
    and f: "file = h @ body"
    using assms(1) by (auto simp: build_index_cuckoo_def Let_def group_params record_count_def split: Option.bind_splits)
  define bins where "bins = cb (foldr max (map length ge) 0) 4"
  have b: "bins < 2 ^ 32" using assms(2) by (simp add: bins_def)
  have gr: "\<And>x r. run_value (derive_groups_3 (record_hash mmap x) 75) = Some r \<Longrightarrow> distinct r \<and> set r \<subseteq> {..<length (replicate 75 [])}"
    using derive_groups_3_range by fastforce
  note ag = assign_groups_nth [OF ge gr]
  have ent: "ge ! g = ?entries g" if "g < 75" for g using ag that by (simp add: index_groups_def group_params)
  have tab: "build_byte_keyed_table (map (record_hash mmap) (?entries g)) g ?p bins = Some (tables ! g)" if "g < 75" for g
    using arg_cong [OF tables [unfolded those_Some], of "\<lambda>l. l ! g"] arg_cong [OF tables [unfolded those_Some], of length] that ent
    by (simp add: bins_def)
  have "g < 75 \<Longrightarrow> length (tables ! g) = bins * 4" for g using built_length(1) [OF tab] by (simp add: group_params)
  moreover have "g < 75 \<Longrightarrow> index_slot (ra_index_tag seeds) mmap (ge ! g) e = Some s \<Longrightarrow> length s = 13" for g e s
    using index_slot_length ent by fastforce
  ultimately have lay: "length body = 75 * (bins * 4 * 13)"
    "g < 75 \<Longrightarrow> p < bins * 4 \<Longrightarrow> index_slot (ra_index_tag seeds) mmap (?entries g) (tables ! g ! p) =
      Some (slice (slice body (g * (bins * 4 * 13)) (bins * 4 * 13)) (p * 13) 13)" for g p
    using serialize_layout [OF body [folded bins_def], where w = 13] ent by simp_all
  have "length body = tp_k INDEX_PARAMS * (bins * tp_bin_size INDEX_PARAMS)" using lay(1) by (simp add: group_params bin_size_params)
  from load_built [OF h [folded bins_def] _ b assms(3) this] obtain t where
    t: "load_sub_table file INDEX_PARAMS = Some t"
      "loaded_as INDEX_PARAMS bins (ra_index_master seeds) (ra_index_tag seeds) (ra_anchor seeds) body t"
    by (auto simp: group_params f)
  have "index_served mmap seeds tables t"
    using t(2) b ag tab lay(2) unfolding index_served_def loaded_as_def bin_size_params group_params Let_def
    by (simp add: mult.assoc)
  moreover have "mt_bins_per_table t = bins" using t(2) by (simp add: loaded_as_def)
  ultimately show ?thesis using t(1) bins_def by blast
qed

definition chunk_count :: "bytes \<Rightarrow> nat" where
  "chunk_count cfile = unat (of_nat (length cfile div CHUNK_SIZE) :: u32)"

definition chunk_at :: "bytes \<Rightarrow> u32 \<Rightarrow> bytes" where
  "chunk_at cfile c = slice cfile (unat c * CHUNK_SIZE) CHUNK_SIZE"

lemma chunk_count_le: "chunk_count cfile * 40 \<le> length cfile"
proof -
  have "chunk_count cfile \<le> length cfile div 40"
    by (simp add: chunk_count_def CHUNK_SIZE_def unat_of_nat)
  then have "chunk_count cfile * 40 \<le> length cfile div 40 * 40" by (rule mult_le_mono1)
  then show ?thesis by (meson div_times_less_eq_dividend le_trans)
qed

lemma chunk_slot_occupied:
  assumes "e \<noteq> EMPTY" and "unat e < length ids" and "unat (ids ! unat e) < chunk_count cfile"
  shows "chunk_slot cfile ids e = Some (u32_to_le (ids ! unat e) @ chunk_at cfile (ids ! unat e))"
    and "length (chunk_at cfile (ids ! unat e)) = 40"
proof -
  have "Suc (unat (ids ! unat e)) * 40 \<le> chunk_count cfile * 40" using assms(3) by (intro mult_le_mono1) simp
  then have "unat (ids ! unat e) * 40 + 40 \<le> length cfile" using chunk_count_le [of cfile] by simp
  then show "chunk_slot cfile ids e = Some (u32_to_le (ids ! unat e) @ chunk_at cfile (ids ! unat e))"
    "length (chunk_at cfile (ids ! unat e)) = 40"
    using assms by (auto simp: chunk_slot_def chunk_at_def CHUNK_SIZE_def Let_def)
qed

lemma chunk_slot_length:
  assumes "chunk_slot cfile ids e = Some b"
  shows "length b = 44"
  using assms by (auto simp: chunk_slot_def CHUNK_SIZE_def Let_def split: if_splits)

definition chunk_served :: "bytes \<Rightarrow> resolved_anchor \<Rightarrow> u32 list list \<Rightarrow> mapped_sub_table \<Rightarrow> bool" where
  "chunk_served cfile seeds tables t \<longleftrightarrow>
     mt_params t = CHUNK_PARAMS \<and> mt_master_seed t = ra_chunk_master seeds \<and> mt_anchor t = ra_anchor seeds \<and>
     mt_table_byte_size t = mt_bins_per_table t * 132 \<and> mt_bins_per_table t < 2 ^ 32 \<and>
     (\<forall>g < 80. group_bytes t g \<noteq> None \<and>
        (let ids = filter (\<lambda>c. g \<in> set (chunk_groups c)) (map of_nat [0..<chunk_count cfile])
         in build_int_keyed_table ids g (with_master_seed CHUNK_PARAMS (ra_chunk_master seeds)) (mt_bins_per_table t) = Some (tables ! g) \<and>
            (\<forall>p < mt_bins_per_table t * 3. chunk_slot cfile ids (tables ! g ! p) =
               Some (slice (the (group_bytes t g)) (p * 44) 44))))"

lemma built_chunk_served:
  assumes "build_chunk_cuckoo cb cfile seeds = Some file" and "\<And>l s. cb l s < 2 ^ 32"
    and "\<forall>a. ra_anchor seeds = Some a \<longrightarrow> wf_header_anchor a"
  shows "\<exists>t tables l. load_sub_table file CHUNK_PARAMS = Some t \<and> chunk_served cfile seeds tables t \<and> mt_bins_per_table t = cb l 3"
proof -
  let ?p = "with_master_seed CHUNK_PARAMS (ra_chunk_master seeds)"
  let ?ids = "\<lambda>g. filter (\<lambda>c. g \<in> set (chunk_groups c)) (map of_nat [0..<chunk_count cfile])"
  obtain gc tables h body where
    gc: "assign_groups (\<lambda>c. derive_int_groups_3 c 80) (map of_nat [0..<chunk_count cfile]) (replicate 80 []) = Some gc"
    and tables: "those (map (\<lambda>g. build_int_keyed_table (gc ! g) g ?p (cb (foldr max (map length gc) 0) 3)) [0..<80]) = Some tables"
    and h: "write_header_with_anchor ?p (cb (foldr max (map length gc) 0) 3) 0 (ra_anchor seeds) = Some h"
    and body: "serialize_tables 80 (cb (foldr max (map length gc) 0) 3 * 3) (chunk_slot cfile) tables gc = Some body"
    and f: "file = h @ body"
    using assms(1) by (auto simp: build_chunk_cuckoo_def Let_def group_params chunk_count_def split: Option.bind_splits)
  define bins where "bins = cb (foldr max (map length gc) 0) 3"
  have b: "bins < 2 ^ 32" using assms(2) by (simp add: bins_def)
  have gr: "\<And>x r. run_value (derive_int_groups_3 x 80) = Some r \<Longrightarrow> distinct r \<and> set r \<subseteq> {..<length (replicate 80 [])}"
    using derive_int_groups_3_range by fastforce
  have ids: "gc ! g = ?ids g" if "g < 80" for g
    using assign_groups_nth [OF gc gr] that by (simp add: chunk_groups_def group_params)
  have tab: "build_int_keyed_table (?ids g) g ?p bins = Some (tables ! g)" if "g < 80" for g
    using arg_cong [OF tables [unfolded those_Some], of "\<lambda>l. l ! g"] arg_cong [OF tables [unfolded those_Some], of length] that ids
    by (simp add: bins_def)
  have "g < 80 \<Longrightarrow> length (tables ! g) = bins * 3" for g using built_length(2) [OF tab] by (simp add: group_params)
  then have lay: "length body = 80 * (bins * 3 * 44)"
    "g < 80 \<Longrightarrow> p < bins * 3 \<Longrightarrow> chunk_slot cfile (?ids g) (tables ! g ! p) =
      Some (slice (slice body (g * (bins * 3 * 44)) (bins * 3 * 44)) (p * 44) 44)" for g p
    using serialize_layout [OF body [folded bins_def], where w = 44] ids chunk_slot_length by simp_all
  have "length body = tp_k CHUNK_PARAMS * (bins * tp_bin_size CHUNK_PARAMS)" using lay(1) by (simp add: group_params bin_size_params)
  from load_built [OF h [folded bins_def] _ b assms(3) this] obtain t where
    t: "load_sub_table file CHUNK_PARAMS = Some t" "loaded_as CHUNK_PARAMS bins (ra_chunk_master seeds) 0 (ra_anchor seeds) body t"
    by (auto simp: group_params f)
  have "chunk_served cfile seeds tables t"
    using t(2) b tab lay(2) unfolding chunk_served_def loaded_as_def bin_size_params group_params Let_def
    by (simp add: mult.assoc)
  moreover have "mt_bins_per_table t = bins" using t(2) by (simp add: loaded_as_def)
  ultimately show ?thesis using t(1) bins_def by blast
qed

end
