(* ===== verification/Dpf_Round.thy ===== *)
theory Dpf_Round
  imports Dpf_Client Dpf_Server Table_Build
begin

text \<open>
  One round of the DPF protocol between the client (theory \<open>Dpf_Client\<close>) and two honest servers (theory
  \<open>Dpf_Server\<close>): the requests decode to the keys that were sent, the replies decode to the scan results,
  and the exclusive or of the two results of a key pair is the bin at the queried index.
\<close>

section \<open>Hypotheses on the DPF library and the network\<close>

text \<open>
  A pair of keys for the point \<open>alpha\<close>: both are serialised within the limits of the wire format, parse, and
  their expansions differ exactly at \<open>alpha\<close>.
\<close>

definition dpf_pair :: "(bytes \<Rightarrow> 'k option) \<Rightarrow> ('k \<Rightarrow> u64 \<Rightarrow> dpf_block list) \<Rightarrow> u64 \<Rightarrow> u8 \<Rightarrow> bytes \<times> bytes \<Rightarrow> bool" where
  "dpf_pair from_bytes eval alpha n keys \<longleftrightarrow>
     key_ok (fst keys) \<and> key_ok (snd keys) \<and> from_bytes (fst keys) \<noteq> None \<and> from_bytes (snd keys) \<noteq> None \<and>
     (\<forall>bins \<le> 2 ^ unat n. \<forall>i < bins.
        (dpf_bit (eval (the (from_bytes (fst keys))) (of_nat bins)) i \<noteq> dpf_bit (eval (the (from_bytes (snd keys))) (of_nat bins)) i)
          \<longleftrightarrow> i = unat alpha)"

definition dpf_correct :: "dpf_env \<Rightarrow> (bytes \<Rightarrow> 'k option) \<Rightarrow> ('k \<Rightarrow> u64 \<Rightarrow> dpf_block list) \<Rightarrow> bool" where
  "dpf_correct env from_bytes eval \<longleftrightarrow>
     (\<forall>e g h alpha n. MIN_DPF_DOMAIN_N \<le> n \<and> n \<le> MAX_DPF_DOMAIN_N \<and> unat alpha < 2 ^ unat n \<longrightarrow>
        dpf_pair from_bytes eval alpha n (de_gen env e g h alpha n))"

text \<open>Both connections deliver, and each server runs the code of theory \<open>Dpf_Server\<close> on the same databases.\<close>

definition honest_servers :: "dpf_env \<Rightarrow> (bytes \<Rightarrow> 'k option) \<Rightarrow> ('k \<Rightarrow> u64 \<Rightarrow> dpf_block list) \<Rightarrow> mapped_database list \<Rightarrow> bool" where
  "honest_servers env from_bytes eval dbs \<longleftrightarrow>
     (\<forall>s e req. de_send env s e req = Inr ()) \<and>
     (\<forall>s e req r. handle_dpf from_bytes eval dbs (drop 4 req) = Reply r \<longrightarrow> de_recv env s e req = Inr r)"

section \<open>Reconstruction of a bin\<close>

lemma xor_into_select:
  assumes "length a = length s" and "length b = length s"
  shows "xor_into (if x then xor_into a s else a) (if y then xor_into b s else b) =
    (if x \<noteq> y then xor_into (xor_into a b) s else xor_into a b)"
  using assms by (auto simp: xor_into_eq_map2 intro!: nth_equalityI) (simp_all add: ac_simps)

lemma xor_into_zero: "length a = n \<Longrightarrow> xor_into (replicate n 0) a = a"
  by (auto simp: xor_into_eq_map2 intro!: nth_equalityI)

lemma select_bins_pair:
  assumes "bins * rs \<le> length table" and "\<And>i. i < bins \<Longrightarrow> (dpf_bit e0 i \<noteq> dpf_bit e1 i) \<longleftrightarrow> i = alpha" and "alpha < bins"
  shows "xor_into (select_bins table bins rs e0) (select_bins table bins rs e1) = slice table (alpha * rs) rs"
proof -
  let ?s = "\<lambda>e m. foldl (select_bin table rs e) (replicate rs 0) [0..<m]"
  have "xor_into (?s e0 m) (?s e1 m) = (if alpha < m then slice table (alpha * rs) rs else replicate rs 0)" if "m \<le> bins" for m
    using that
  proof (induction m)
    case 0
    show ?case by (simp add: xor_into_zero)
  next
    case (Suc m)
    have "Suc m * rs \<le> bins * rs" using Suc.prems by (rule mult_le_mono1)
    then have l: "length (slice table (m * rs) rs) = rs" using assms(1) by simp
    have "xor_into (?s e0 (Suc m)) (?s e1 (Suc m)) =
        (if m = alpha then xor_into (xor_into (?s e0 m) (?s e1 m)) (slice table (m * rs) rs) else xor_into (?s e0 m) (?s e1 m))"
      using xor_into_select [of "?s e0 m" "slice table (m * rs) rs" "?s e1 m" "dpf_bit e0 m" "dpf_bit e1 m"] l assms(2) [of m] Suc.prems
      by (simp add: select_bin_def)
    then show ?case using Suc l by (auto simp: xor_into_zero)
  qed
  from this [of bins] show ?thesis using assms(3) by (simp add: select_bins_def)
qed

section \<open>Decoding the replies\<close>

lemma client_read_many_enc:
  assumes "\<And>x d. P x \<Longrightarrow> rd (enc x @ d) = Inr (x, d)" and "\<forall>x \<in> set xs. P x"
  shows "client_read_many (length xs) rd (concat (map enc xs) @ d) = Inr (xs, d)"
  using assms(2) by (induction xs) (simp_all add: assms(1))

lemma client_read_result_enc: "length b < 65536 \<Longrightarrow> client_read_result (encode_blob16 b @ d) = Inr (b, d)"
  by (simp add: client_read_result_def encode_blob16_def Let_def unat_of_nat_small)

lemma client_decodes_results:
  assumes "batch_result_ok r" and "length (encode_batch_result r) < 2 ^ 32 - 1" and "v \<noteq> RESP_ERROR"
  shows "decode_batch_response (u32_to_le (of_nat (length (v # encode_batch_result r))) @ v # encode_batch_result r) v rid =
    (if br_round_id r = rid then Inr (br_results r) else Inl (Protocol ''batch response round_id mismatch''))"
proof -
  define n where "n = (case br_results r of [] \<Rightarrow> 0 | k # _ \<Rightarrow> length k)"
  have n: "length (br_results r) < 256" "n < 256" "\<forall>g \<in> set (br_results r). length g = n \<and> (\<forall>b \<in> set g. length b < 65536)"
    using assms(1) by (auto simp: batch_result_ok_def Let_def n_def)
  let ?body = "concat (map (\<lambda>group_results. concat (map encode_blob16 group_results)) (br_results r))"
  have enc: "encode_batch_result r = u16_to_le (br_round_id r) @ [of_nat (length (br_results r)), of_nat n] @ ?body"
    by (simp add: encode_batch_result_def n_def)
  have "client_read_many n client_read_result (concat (map encode_blob16 g) @ d) = Inr (g, d)"
    if "length g = n \<and> (\<forall>b \<in> set g. length b < 65536)" for g d
    using client_read_many_enc [of "\<lambda>b. length b < 65536" client_read_result encode_blob16 g d] client_read_result_enc that by simp
  then have rd: "client_read_many (length (br_results r)) (client_read_many n client_read_result) (?body @ []) = Inr (br_results r, [])"
    using client_read_many_enc [of "\<lambda>g. length g = n \<and> (\<forall>b \<in> set g. length b < 65536)" "client_read_many n client_read_result"
        "\<lambda>g. concat (map encode_blob16 g)" "br_results r" "[]"] n(3) by blast
  have u: "unat (of_nat (length (br_results r)) :: u8) = length (br_results r)" "unat (of_nat n :: u8) = n"
    using n by (auto intro!: unat_of_nat_small)
  have len: "unat (of_nat (length (v # encode_batch_result r)) :: u32) = length (v # encode_batch_result r)"
    using assms(2) by (intro unat_of_nat_small) simp
  let ?d = "v # encode_batch_result r"
  have f: "?d ! 0 = v" "slice ?d 1 2 = u16_to_le (br_round_id r)" "?d ! 3 = of_nat (length (br_results r))" "?d ! 4 = of_nat n"
    "drop 5 ?d = ?body" "\<not> length ?d < 5"
    unfolding enc by (simp_all add: slice_def nth_append numeral_eq_Suc)
  show ?thesis
    unfolding decode_batch_response_def using assms(3) rd u f len by (simp add: Let_def)
qed

section \<open>The servers\<close>

definition sent_query :: "u16 \<Rightarrow> u8 \<Rightarrow> bytes list list \<Rightarrow> batch_query" where
  "sent_query round_id db_id keys = \<lparr>bq_level = 0, bq_round_id = round_id, bq_db_id = db_id, bq_keys = keys\<rparr>"

text \<open>The client writes the frame that the runtime crate reads.\<close>

lemma client_frame_payload:
  "drop 4 (client_encode_batch_query v round_id db_id keys) = v # encode_batch_query (sent_query round_id db_id keys)"
  by (simp add: client_encode_batch_query_def encode_batch_query_def sent_query_def encode_blob16_def [abs_def] db_id_suffix_def Let_def
      cong: list.case_cong)

definition keys_ok :: "(bytes \<Rightarrow> 'k option) \<Rightarrow> nat \<Rightarrow> nat \<Rightarrow> bytes list list \<Rightarrow> bool" where
  "keys_ok from_bytes k n keys \<longleftrightarrow>
     length keys = k \<and> (\<forall>g \<in> set keys. length g = n \<and> (\<forall>key \<in> set g. key_ok key \<and> from_bytes key \<noteq> None))"

lemma keys_ok_query:
  assumes "keys_ok from_bytes k n keys" and "k < 256" and "0 < k" and "n \<le> MAX_KEYS_PER_GROUP" and "m \<le> n"
  shows "batch_query_ok m (sent_query round_id db_id keys)"
  using assms by (cases keys) (auto simp: keys_ok_def batch_query_ok_def sent_query_def Let_def)

lemma keys_ok_parse:
  assumes "keys_ok from_bytes k n keys" and "tp_k (mt_params t) = k" and "n \<le> per_group"
  shows "dpf_keys from_bytes (sent_query round_id db_id keys) t per_group = Some (map (map (the \<circ> from_bytes)) keys)"
proof -
  have "map from_bytes g = map Some (map (the \<circ> from_bytes) g)" if "g \<in> set keys" for g
    using assms(1) that by (auto simp: keys_ok_def)
  then have "map (\<lambda>g. those (map from_bytes (take per_group g))) keys = map Some (map (map (the \<circ> from_bytes)) keys)"
    using assms(1,3) by (auto simp: keys_ok_def those_Some intro!: map_cong)
  then show ?thesis using assms(1,2) by (simp add: dpf_keys_def sent_query_def keys_ok_def those_Some)
qed

lemma scan_batch_served:
  assumes "keys_ok from_bytes k n keys" and "table_covers t k"
  shows "scan_batch eval t (map (map (the \<circ> from_bytes)) keys) level round_id =
    Some \<lparr>br_level = level, br_round_id = round_id, br_results = own_results eval t (map (map (the \<circ> from_bytes)) keys)\<rparr>"
  using scan_jobs_correct [OF assms(2), of "[map (map (the \<circ> from_bytes)) keys]" eval] assms(1)
  by (simp add: scan_batch_def keys_ok_def)

lemma index_request_served:
  assumes "keys_ok from_bytes k 2 keys" and "k < 256" and "0 < k" and "get_db dbs db_id = Some d" and "tp_k (mt_params (md_index d)) = k"
    and "table_covers (md_index d) k"
  shows "handle_dpf from_bytes eval dbs (drop 4 (client_encode_batch_query 0x11 round_id db_id keys)) =
    Reply (response_encode (IndexBatchR
      \<lparr>br_level = 0, br_round_id = 0, br_results = own_results eval (md_index d) (map (map (the \<circ> from_bytes)) keys)\<rparr>))"
proof -
  let ?q = "sent_query round_id db_id keys"
  have "batch_query_ok 2 ?q" using keys_ok_query [OF assms(1-3)] by (simp add: MAX_KEYS_PER_GROUP_def)
  then have "request_decode (REQ_INDEX_BATCH # encode_batch_query ?q) = Inr (IndexBatch ?q)"
    using batch_query_roundtrip [of 2 ?q] by (simp add: request_decode_def request_opcodes level_constants) (simp add: sent_query_def)
  moreover have "dpf_keys from_bytes ?q (md_index d) 2 = Some (map (map (the \<circ> from_bytes)) keys)"
    by (rule keys_ok_parse [OF assms(1,5) order.refl])
  moreover have "bq_db_id ?q = db_id" by (simp add: sent_query_def)
  ultimately show ?thesis
    using scan_batch_served [OF assms(1,6), of eval 0 0] assms(4)
    unfolding client_frame_payload REQ_INDEX_BATCH_def [symmetric]
    by (simp add: handle_dpf_def handle_index_batch_def process_index_batch_def reply_with_def level_constants)
qed

lemma chunk_request_served:
  assumes "keys_ok from_bytes k 2 keys" and "k < 256" and "0 < k" and "get_db dbs db_id = Some d" and "tp_k (mt_params (md_chunk d)) = k"
    and "table_covers (md_chunk d) k"
  shows "handle_dpf from_bytes eval dbs (drop 4 (client_encode_batch_query 0x21 round_id db_id keys)) =
    Reply (response_encode (ChunkBatchR
      \<lparr>br_level = 1, br_round_id = round_id, br_results = own_results eval (md_chunk d) (map (map (the \<circ> from_bytes)) keys)\<rparr>))"
proof -
  let ?q = "sent_query round_id db_id keys"
  have "batch_query_ok 0 ?q" using keys_ok_query [OF assms(1-3)] by (simp add: MAX_KEYS_PER_GROUP_def)
  then have "request_decode (REQ_CHUNK_BATCH # encode_batch_query ?q) = Inr (ChunkBatch ?q)"
    using batch_query_roundtrip [of 0 ?q] by (simp add: request_decode_def request_opcodes level_constants) (simp add: sent_query_def)
  moreover have "dpf_keys from_bytes ?q (md_chunk d) USIZE_MAX = Some (map (map (the \<circ> from_bytes)) keys)"
    by (rule keys_ok_parse [OF assms(1,5)]) (simp add: USIZE_MAX_def)
  moreover have "bq_db_id ?q = db_id" "bq_round_id ?q = round_id" by (simp_all add: sent_query_def)
  moreover have "REQ_CHUNK_BATCH \<noteq> REQ_INDEX_BATCH" by (simp add: request_opcodes)
  ultimately show ?thesis
    using scan_batch_served [OF assms(1,6), of eval 1 round_id] assms(4)
    unfolding client_frame_payload REQ_CHUNK_BATCH_def [symmetric]
    by (simp add: handle_dpf_def handle_chunk_batch_def process_chunk_batch_def reply_with_def)
qed

section \<open>A round\<close>

definition served_bin :: "mapped_sub_table \<Rightarrow> nat \<Rightarrow> nat \<Rightarrow> bytes" where
  "served_bin t g b = slice (the (group_bytes t g)) (b * tp_bin_size (mt_params t)) (tp_bin_size (mt_params t))"

definition alphas_ok :: "nat \<Rightarrow> nat \<Rightarrow> nat \<Rightarrow> u64 list list \<Rightarrow> bool" where
  "alphas_ok k n bins alphas \<longleftrightarrow> length alphas = k \<and> (\<forall>as \<in> set alphas. length as = n \<and> (\<forall>a \<in> set as. unat a < bins))"

definition domain_ok :: "nat \<Rightarrow> u8 \<Rightarrow> bool" where
  "domain_ok bins n \<longleftrightarrow> MIN_DPF_DOMAIN_N \<le> n \<and> n \<le> MAX_DPF_DOMAIN_N \<and> bins \<le> 2 ^ unat n"

lemma gen_keys_nth:
  assumes "g < length alphas" and "h < length (alphas ! g)"
  shows "gen_keys env e n alphas ! g ! h = de_gen env e g h (alphas ! g ! h) n"
  using assms by (simp add: gen_keys_def nth_enumerate_eq)

lemma gen_keys_pairs:
  assumes "dpf_correct env from_bytes eval" and "alphas_ok k m bins alphas" and "domain_ok bins n"
  shows "length (gen_keys env e n alphas) = k"
    and "g < k \<Longrightarrow> length (gen_keys env e n alphas ! g) = m"
    and "g < k \<Longrightarrow> h < m \<Longrightarrow> dpf_pair from_bytes eval (alphas ! g ! h) n (gen_keys env e n alphas ! g ! h)"
proof -
  show "length (gen_keys env e n alphas) = k" using assms(2) by (simp add: gen_keys_def alphas_ok_def)
  have g: "length (alphas ! g) = m \<and> (\<forall>a \<in> set (alphas ! g). unat a < bins)" "g < length alphas" if "g < k" for g
    using assms(2) that nth_mem [of g alphas] by (auto simp: alphas_ok_def)
  show "length (gen_keys env e n alphas ! g) = m" if "g < k" for g
    using g [OF that] by (simp add: gen_keys_def nth_enumerate_eq)
  show "dpf_pair from_bytes eval (alphas ! g ! h) n (gen_keys env e n alphas ! g ! h)" if "g < k" "h < m" for g h
  proof -
    have "unat (alphas ! g ! h) < bins" using g [OF that(1)] that(2) by simp
    then have "unat (alphas ! g ! h) < 2 ^ unat n" using assms(3) by (simp add: domain_ok_def)
    then show ?thesis
      using assms(1,3) g [OF that(1)] that(2) by (simp add: gen_keys_nth dpf_correct_def domain_ok_def)
  qed
qed

lemma gen_keys_ok:
  assumes "dpf_correct env from_bytes eval" and "alphas_ok k m bins alphas" and "domain_ok bins n"
  shows "keys_ok from_bytes k m (map (map fst) (gen_keys env e n alphas))"
    and "keys_ok from_bytes k m (map (map snd) (gen_keys env e n alphas))"
proof -
  note K = gen_keys_pairs [OF assms, where e = e]
  have "length ks = m \<and> (\<forall>p \<in> set ks. key_ok (fst p) \<and> key_ok (snd p) \<and> from_bytes (fst p) \<noteq> None \<and> from_bytes (snd p) \<noteq> None)"
    if ks: "ks \<in> set (gen_keys env e n alphas)" for ks
  proof -
    obtain g where g: "g < k" "ks = gen_keys env e n alphas ! g" using ks K(1) by (metis in_set_conv_nth)
    have "\<exists>a. dpf_pair from_bytes eval a n p" if "p \<in> set ks" for p
      using that g K(2,3) [OF g(1)] by (metis in_set_conv_nth)
    then show ?thesis using g K(2) by (auto simp: dpf_pair_def)
  qed
  then show "keys_ok from_bytes k m (map (map fst) (gen_keys env e n alphas))"
    "keys_ok from_bytes k m (map (map snd) (gen_keys env e n alphas))"
    using K(1) unfolding keys_ok_def by auto
qed

lemma own_results_nth:
  assumes "g < length keys" and "h < length (keys ! g)"
  shows "own_results eval t keys ! g ! h = table_result eval t g (keys ! g ! h)"
  using assms by (simp add: own_results_def)

lemma length_own_results: "length (own_results eval t keys) = length keys" "g < length keys \<Longrightarrow> length (own_results eval t keys ! g) = length (keys ! g)"
  by (simp_all add: own_results_def)

lemma round_bins:
  fixes e :: exchange
  assumes "dpf_correct env from_bytes eval" and "alphas_ok k m (mt_bins_per_table t) alphas" and "domain_ok (mt_bins_per_table t) n"
    and "table_covers t k" and "g < k" and "h < m"
  defines "keys \<equiv> gen_keys env e n alphas"
  shows "xor_bin (own_results eval t (map (map (the \<circ> from_bytes)) (map (map fst) keys)))
      (own_results eval t (map (map (the \<circ> from_bytes)) (map (map snd) keys))) g h =
    Inr (served_bin t g (unat (alphas ! g ! h)))"
proof -
  let ?k = "keys ! g ! h" and ?bins = "mt_bins_per_table t" and ?rs = "tp_bin_size (mt_params t)"
  note K = gen_keys_pairs [OF assms(1-3), where e = e, folded keys_def]
  have p: "dpf_pair from_bytes eval (alphas ! g ! h) n ?k" using K(3) assms(5,6) by blast
  have "alphas ! g ! h \<in> set (alphas ! g)" "alphas ! g \<in> set alphas" using assms(2,5,6) by (auto simp: alphas_ok_def)
  then have a: "unat (alphas ! g ! h) < ?bins" using assms(2) by (auto simp: alphas_ok_def)
  obtain bs where bs: "group_bytes t g = Some bs" using assms(4,5) by (auto simp: table_covers_def)
  then have len: "?bins * ?rs \<le> length bs" using assms(4) group_bytes_length [OF bs] by (simp add: table_covers_def)
  have "xor_into (table_result eval t g (the (from_bytes (fst ?k)))) (table_result eval t g (the (from_bytes (snd ?k)))) =
      served_bin t g (unat (alphas ! g ! h))"
    unfolding table_result_def served_bin_def bs option.sel
    by (rule select_bins_pair [OF len _ a]) (use p assms(3) in \<open>auto simp: dpf_pair_def domain_ok_def\<close>)
  then show ?thesis
    using K(1,2) assms(5,6) by (simp add: xor_bin_def nth_client_def own_results_nth length_own_results)
qed

lemma scan_result_ok:
  fixes eval :: "'k \<Rightarrow> u64 \<Rightarrow> dpf_block list" and from_bytes :: "bytes \<Rightarrow> 'k option"
  assumes "keys_ok from_bytes k n keys" and "k < 256" and "n < 256" and "tp_bin_size (mt_params t) < 65536"
  defines "r \<equiv> own_results eval t (map (map (the \<circ> from_bytes)) keys)"
  shows "batch_result_ok \<lparr>br_level = l, br_round_id = rid, br_results = r\<rparr>"
    and "length (encode_batch_result \<lparr>br_level = l, br_round_id = rid, br_results = r\<rparr>) < 2 ^ 32 - 1"
    and "check_batch_response_shape r k n = Inr ()"
proof -
  have k: "length keys = k" "\<forall>g \<in> set keys. length g = n" using assms(1) by (auto simp: keys_ok_def)
  have r: "length r = k" "\<forall>g \<in> set r. length g = n \<and> (\<forall>b \<in> set g. length b = tp_bin_size (mt_params t))"
    using k by (auto simp: r_def own_results_def table_result_def)
  show "batch_result_ok \<lparr>br_level = l, br_round_id = rid, br_results = r\<rparr>"
    using r assms(2-4) by (cases r) (auto simp: batch_result_ok_def)
  have "length (concat (map encode_blob16 g)) = n * (2 + tp_bin_size (mt_params t))" if "g \<in> set r" for g
    using r(2) that length_concat_fixed [of "map encode_blob16 g" "2 + tp_bin_size (mt_params t)"] by (auto simp: encode_blob16_def)
  then have "length (concat (map (\<lambda>g. concat (map encode_blob16 g)) r)) = k * (n * (2 + tp_bin_size (mt_params t)))"
    using r(1) length_concat_fixed [of "map (\<lambda>g. concat (map encode_blob16 g)) r"] by auto
  moreover have "k * (n * (2 + tp_bin_size (mt_params t))) \<le> 255 * (255 * 65537)"
    using assms(2-4) by (intro mult_le_mono) auto
  ultimately show "length (encode_batch_result \<lparr>br_level = l, br_round_id = rid, br_results = r\<rparr>) < 2 ^ 32 - 1"
    by (simp add: encode_batch_result_def)
  show "check_batch_response_shape r k n = Inr ()" using r by (auto simp: check_batch_response_shape_def)
qed

text \<open>What a table must be for its level of the protocol.\<close>

definition table_ok :: "mapped_sub_table \<Rightarrow> nat \<Rightarrow> u8 \<Rightarrow> bool" where
  "table_ok t k n \<longleftrightarrow> tp_k (mt_params t) = k \<and> 0 < k \<and> k < 256 \<and> table_covers t k \<and>
     tp_bin_size (mt_params t) < 65536 \<and> domain_ok (mt_bins_per_table t) n"

definition scan_pair :: "(bytes \<Rightarrow> 'k option) \<Rightarrow> ('k \<Rightarrow> u64 \<Rightarrow> dpf_block list) \<Rightarrow> mapped_sub_table \<Rightarrow> (bytes \<times> bytes) list list \<Rightarrow>
    bytes list list \<times> bytes list list" where
  "scan_pair from_bytes eval t keys =
     (own_results eval t (map (map (the \<circ> from_bytes)) (map (map fst) keys)),
      own_results eval t (map (map (the \<circ> from_bytes)) (map (map snd) keys)))"

lemma honest_exchange:
  assumes "honest_servers env from_bytes eval dbs"
    and "handle_dpf from_bytes eval dbs (drop 4 req0) = Reply r0" and "handle_dpf from_bytes eval dbs (drop 4 req1) = Reply r1"
  shows "exchange_both env e req0 req1 = Inr (r0, r1)"
  using assms by (simp add: honest_servers_def exchange_both_def try_pir_def)

lemma batch_frames:
  "response_encode (IndexBatchR r) = u32_to_le (of_nat (length (RESP_INDEX_BATCH # encode_batch_result r))) @ RESP_INDEX_BATCH # encode_batch_result r"
  "response_encode (ChunkBatchR r) = u32_to_le (of_nat (length (RESP_CHUNK_BATCH # encode_batch_result r))) @ RESP_CHUNK_BATCH # encode_batch_result r"
  "RESP_INDEX_BATCH \<noteq> RESP_ERROR" "RESP_CHUNK_BATCH \<noteq> RESP_ERROR"
  by (simp_all add: response_encode_def response_opcodes)

lemma index_query_round:
  assumes "honest_servers env from_bytes eval dbs" and "dpf_correct env from_bytes eval" and "get_db dbs db_id = Some d"
    and "table_ok (md_index d) k n" and "alphas_ok k 2 (mt_bins_per_table (md_index d)) alphas"
  shows "query_round env e 0x11 RESP_INDEX_BATCH rid db_id k 2 (gen_keys env e n alphas) =
    (if rid = 0 then Inr (scan_pair from_bytes eval (md_index d) (gen_keys env e n alphas))
     else Inl (Stop_Error (Protocol ''batch response round_id mismatch'')))"
proof -
  let ?keys = "gen_keys env e n alphas" and ?t = "md_index d"
  note T = assms(4) [unfolded table_ok_def]
  note ok = gen_keys_ok [OF assms(2,5), where n = n and e = e]
  have ok: "keys_ok from_bytes k 2 (map (map fst) ?keys)" "keys_ok from_bytes k 2 (map (map snd) ?keys)" using ok T by blast+
  note served = index_request_served [OF _ _ _ assms(3), where k = k and eval = eval and from_bytes = from_bytes and round_id = rid]
  have ex: "exchange_both env e (client_encode_batch_query 0x11 rid db_id (map (map fst) ?keys))
      (client_encode_batch_query 0x11 rid db_id (map (map snd) ?keys)) =
    Inr (response_encode (IndexBatchR \<lparr>br_level = 0, br_round_id = 0, br_results = fst (scan_pair from_bytes eval ?t ?keys)\<rparr>),
         response_encode (IndexBatchR \<lparr>br_level = 0, br_round_id = 0, br_results = snd (scan_pair from_bytes eval ?t ?keys)\<rparr>))"
    by (rule honest_exchange [OF assms(1)]) (use served [OF ok(1)] served [OF ok(2)] T in \<open>simp_all add: scan_pair_def\<close>)
  have "k < 256" "tp_bin_size (mt_params ?t) < 65536" using T by simp_all
  note R = scan_result_ok [OF ok(1) this(1) _ this(2), where eval = eval] scan_result_ok [OF ok(2) this(1) _ this(2), where eval = eval]
  have dec: "decode_batch_response (response_encode (IndexBatchR \<lparr>br_level = 0, br_round_id = 0, br_results = r\<rparr>)) RESP_INDEX_BATCH rid =
      (if rid = 0 then Inr r else Inl (Protocol ''batch response round_id mismatch''))"
    and sh: "check_batch_response_shape r k 2 = Inr ()"
    if "r = fst (scan_pair from_bytes eval ?t ?keys) \<or> r = snd (scan_pair from_bytes eval ?t ?keys)" for r
    unfolding batch_frames
    using client_decodes_results [OF _ _ batch_frames(3), of "\<lparr>br_level = 0, br_round_id = 0, br_results = r\<rparr>" rid] R that
    by (auto simp: scan_pair_def)
  show ?thesis
    unfolding query_round_def Let_def ex
    using dec [of "fst (scan_pair from_bytes eval ?t ?keys)"] dec [of "snd (scan_pair from_bytes eval ?t ?keys)"]
      sh [of "fst (scan_pair from_bytes eval ?t ?keys)"] sh [of "snd (scan_pair from_bytes eval ?t ?keys)"]
    by (simp add: try_pir_def)
qed

lemma chunk_query_round:
  assumes "honest_servers env from_bytes eval dbs" and "dpf_correct env from_bytes eval" and "get_db dbs db_id = Some d"
    and "table_ok (md_chunk d) k n" and "alphas_ok k 2 (mt_bins_per_table (md_chunk d)) alphas"
  shows "query_round env e 0x21 RESP_CHUNK_BATCH rid db_id k 2 (gen_keys env e n alphas) =
    Inr (scan_pair from_bytes eval (md_chunk d) (gen_keys env e n alphas))"
proof -
  let ?keys = "gen_keys env e n alphas" and ?t = "md_chunk d"
  note T = assms(4) [unfolded table_ok_def]
  note ok = gen_keys_ok [OF assms(2,5), where n = n and e = e]
  have ok: "keys_ok from_bytes k 2 (map (map fst) ?keys)" "keys_ok from_bytes k 2 (map (map snd) ?keys)" using ok T by blast+
  note served = chunk_request_served [OF _ _ _ assms(3), where k = k and eval = eval and from_bytes = from_bytes and round_id = rid]
  have ex: "exchange_both env e (client_encode_batch_query 0x21 rid db_id (map (map fst) ?keys))
      (client_encode_batch_query 0x21 rid db_id (map (map snd) ?keys)) =
    Inr (response_encode (ChunkBatchR \<lparr>br_level = 1, br_round_id = rid, br_results = fst (scan_pair from_bytes eval ?t ?keys)\<rparr>),
         response_encode (ChunkBatchR \<lparr>br_level = 1, br_round_id = rid, br_results = snd (scan_pair from_bytes eval ?t ?keys)\<rparr>))"
    by (rule honest_exchange [OF assms(1)]) (use served [OF ok(1)] served [OF ok(2)] T in \<open>simp_all add: scan_pair_def\<close>)
  have "k < 256" "tp_bin_size (mt_params ?t) < 65536" using T by simp_all
  note R = scan_result_ok [OF ok(1) this(1) _ this(2), where eval = eval] scan_result_ok [OF ok(2) this(1) _ this(2), where eval = eval]
  have dec: "decode_batch_response (response_encode (ChunkBatchR \<lparr>br_level = 1, br_round_id = rid, br_results = r\<rparr>)) RESP_CHUNK_BATCH rid = Inr r"
    and sh: "check_batch_response_shape r k 2 = Inr ()"
    if "r = fst (scan_pair from_bytes eval ?t ?keys) \<or> r = snd (scan_pair from_bytes eval ?t ?keys)" for r
    unfolding batch_frames
    using client_decodes_results [OF _ _ batch_frames(4), of "\<lparr>br_level = 1, br_round_id = rid, br_results = r\<rparr>" rid] R that
    by (auto simp: scan_pair_def)
  show ?thesis
    unfolding query_round_def Let_def ex
    using dec [of "fst (scan_pair from_bytes eval ?t ?keys)"] dec [of "snd (scan_pair from_bytes eval ?t ?keys)"]
      sh [of "fst (scan_pair from_bytes eval ?t ?keys)"] sh [of "snd (scan_pair from_bytes eval ?t ?keys)"]
    by (simp add: try_pir_def)
qed

lemma scan_pair_bins:
  assumes "dpf_correct env from_bytes eval" and "table_ok t k n" and "alphas_ok k m (mt_bins_per_table t) alphas" and "g < k" and "h < m"
    and "scan_pair from_bytes eval t (gen_keys env e n alphas) = (r0, r1)"
  shows "xor_bin r0 r1 g h = Inr (served_bin t g (unat (alphas ! g ! h)))"
  using round_bins [OF assms(1,3) _ _ assms(4,5), of n e] assms(2,6) by (auto simp: table_ok_def scan_pair_def)

end
