(* ===== verification/Dpf_Index.thy ===== *)
theory Dpf_Index
  imports Dpf_Round
begin

text \<open>
  The INDEX phase of the DPF client against honest servers: the plan of a batch, the request matrix of a
  round, and what the phase returns. A batch that needs one round gets, for every query, the bins of its
  group at its cuckoo positions; a batch that needs more fails, because the server answers every INDEX
  request with round 0.
\<close>

section \<open>Loops\<close>

lemma map_client_Inr: "(\<And>x. x \<in> set xs \<Longrightarrow> f x = Inr (g x)) \<Longrightarrow> map_client f xs = Inr (map g xs)"
  by (induction xs) simp_all

lemma fold_client_append: "fold_client f (xs @ ys) s = rbind (fold_client f xs s) (fold_client f ys)"
  by (induction xs arbitrary: s) (simp_all add: rbind_def split: sum.splits)

section \<open>The plan\<close>

lemma place_round:
  assumes "distinct (map fst round)" and "\<forall>(i, g) \<in> set round. i < length p"
  shows "\<exists>p'. fold_client (\<lambda>(sh_idx, pbc_group) placement.
        if length placement \<le> sh_idx then Inl Stop_Panic
        else Inr (placement[sh_idx := \<lparr>ps_round_id = r, ps_pbc_group = pbc_group\<rparr>])) round p = Inr p' \<and>
      length p' = length p \<and> (\<forall>(i, g) \<in> set round. p' ! i = \<lparr>ps_round_id = r, ps_pbc_group = g\<rparr>) \<and>
      (\<forall>i. i \<notin> fst ` set round \<longrightarrow> p' ! i = p ! i)"
  using assms
proof (induction round arbitrary: p)
  case (Cons x round)
  obtain i g where x: "x = (i, g)" by (cases x)
  let ?q = "p[i := \<lparr>ps_round_id = r, ps_pbc_group = g\<rparr>]"
  have "distinct (map fst round)" "\<forall>(i, g) \<in> set round. i < length ?q" using Cons.prems by auto
  from Cons.IH [OF this] obtain p' where p': "fold_client (\<lambda>(sh_idx, pbc_group) placement.
        if length placement \<le> sh_idx then Inl Stop_Panic
        else Inr (placement[sh_idx := \<lparr>ps_round_id = r, ps_pbc_group = pbc_group\<rparr>])) round ?q = Inr p'"
    "length p' = length p" "\<forall>(i, g) \<in> set round. p' ! i = \<lparr>ps_round_id = r, ps_pbc_group = g\<rparr>"
    "\<forall>i. i \<notin> fst ` set round \<longrightarrow> p' ! i = ?q ! i" by auto
  have "i \<notin> fst ` set round" "i < length p" using Cons.prems x by auto
  then show ?case using p' x by (intro exI [of _ p']) (auto simp: nth_list_update)
qed simp

lemma place_rounds:
  assumes "distinct (map fst (concat rounds))" and "\<forall>(i, g) \<in> set (concat rounds). i < length p"
  shows "\<exists>p'. fold_client (\<lambda>(round_id, round) placement.
            fold_client (\<lambda>(sh_idx, pbc_group) placement.
              if length placement \<le> sh_idx then Inl Stop_Panic
              else Inr (placement[sh_idx := \<lparr>ps_round_id = round_id, ps_pbc_group = pbc_group\<rparr>]))
              round placement) (enumerate r rounds) p = Inr p' \<and> length p' = length p \<and>
      (\<forall>(i, g) \<in> set (concat rounds). ps_pbc_group (p' ! i) = g) \<and>
      (\<forall>i. i \<notin> fst ` set (concat rounds) \<longrightarrow> p' ! i = p ! i)"
  using assms
proof (induction rounds arbitrary: p r)
  case (Cons round rounds)
  from place_round [of round p r] Cons.prems obtain q where q: "fold_client (\<lambda>(sh_idx, pbc_group) placement.
        if length placement \<le> sh_idx then Inl Stop_Panic
        else Inr (placement[sh_idx := \<lparr>ps_round_id = r, ps_pbc_group = pbc_group\<rparr>])) round p = Inr q"
    "length q = length p" "\<forall>(i, g) \<in> set round. q ! i = \<lparr>ps_round_id = r, ps_pbc_group = g\<rparr>"
    "\<forall>i. i \<notin> fst ` set round \<longrightarrow> q ! i = p ! i" by auto
  have "distinct (map fst (concat rounds))" "\<forall>(i, g) \<in> set (concat rounds). i < length q" using Cons.prems q(2) by auto
  from Cons.IH [OF this, of "Suc r"] obtain p' where p': "fold_client (\<lambda>(round_id, round) placement.
            fold_client (\<lambda>(sh_idx, pbc_group) placement.
              if length placement \<le> sh_idx then Inl Stop_Panic
              else Inr (placement[sh_idx := \<lparr>ps_round_id = round_id, ps_pbc_group = pbc_group\<rparr>]))
              round placement) (enumerate (Suc r) rounds) q = Inr p'" "length p' = length p"
    "\<forall>(i, g) \<in> set (concat rounds). ps_pbc_group (p' ! i) = g" "\<forall>i. i \<notin> fst ` set (concat rounds) \<longrightarrow> p' ! i = q ! i"
    using q(2) by auto
  have "fst ` set round \<inter> fst ` set (concat rounds) = {}" using Cons.prems(1) by (auto simp: distinct_append)
  then have "i \<notin> fst ` set (concat rounds)" if "(i, g) \<in> set round" for i g using that by force
  then have "ps_pbc_group (p' ! i) = g" if "(i, g) \<in> set round" for i g using that p'(4) q(3) by fastforce
  then have "\<forall>(i, g) \<in> set (concat (round # rounds)). ps_pbc_group (p' ! i) = g" using p'(3) by auto
  moreover have "\<forall>i. i \<notin> fst ` set (concat (round # rounds)) \<longrightarrow> p' ! i = p ! i" using p'(4) q(4) by (simp add: image_Un)
  ultimately show ?case using p'(1,2) q(1) by (intro exI [of _ p']) simp
qed simp

definition plan_ok :: "nat list list \<Rightarrow> nat \<Rightarrow> (nat \<times> nat) list list \<Rightarrow> bool" where
  "plan_ok cands k rounds \<longleftrightarrow>
     mset (map fst (concat rounds)) = mset [0..<length cands] \<and> (\<forall>es \<in> set rounds. round_ok cands k es)"

lemma plan_rounds:
  assumes "candidates_ok cands k NUM_HASHES"
  obtains rounds where "pbc_plan_rounds cands k NUM_HASHES mk = Some rounds" "plan_ok cands k rounds"
  using pbc_plan_loop_correct [OF assms, of "[0..<length cands]" mk "[]"] that
  by (auto simp: pbc_plan_rounds_def plan_ok_def)

lemma plan_ok_items:
  assumes "plan_ok cands k rounds"
  shows "distinct (map fst (concat rounds))" and "fst ` set (concat rounds) = {..<length cands}"
    and "(i, g) \<in> set (concat rounds) \<Longrightarrow> i < length cands \<and> g < k \<and> g \<in> set (cands ! i)"
    and "es \<in> set rounds \<Longrightarrow> distinct (map snd es) \<and> es \<noteq> []"
proof -
  have m: "mset (map fst (concat rounds)) = mset [0..<length cands]" using assms by (simp add: plan_ok_def)
  show "distinct (map fst (concat rounds))" using m by (metis distinct_upt mset_eq_imp_distinct_iff)
  show "fst ` set (concat rounds) = {..<length cands}" using mset_eq_setD [OF m] by (auto simp: lessThan_atLeast0)
  show "(i, g) \<in> set (concat rounds) \<Longrightarrow> i < length cands \<and> g < k \<and> g \<in> set (cands ! i)"
    using assms by (auto simp: plan_ok_def round_ok_def)
  show "es \<in> set rounds \<Longrightarrow> distinct (map snd es) \<and> es \<noteq> []"
    using assms by (auto simp: plan_ok_def round_ok_def strict_sorted_iff)
qed

definition hash_groups :: "bytes \<Rightarrow> nat \<Rightarrow> nat list" where
  "hash_groups sh k = the (run_value (derive_groups_3 sh k))"

lemma client_run_groups:
  assumes "20 \<le> length sh" and "3 \<le> k" and "k \<le> 2 ^ 64"
  shows "client_run (derive_groups_3 sh k) = Inr (hash_groups sh k)" and "length (hash_groups sh k) = 3"
    and "distinct (hash_groups sh k)" and "set (hash_groups sh k) \<subseteq> {..<k}"
proof -
  obtain gs where gs: "run_value (derive_groups_3 sh k) = Some gs" using derive_groups_3_total [OF assms] by blast
  then show "client_run (derive_groups_3 sh k) = Inr (hash_groups sh k)" 
    using run_value_Some [of "derive_groups_3 sh k" gs] by (simp add: client_run_def hash_groups_def)
  show "length (hash_groups sh k) = 3" "distinct (hash_groups sh k)" "set (hash_groups sh k) \<subseteq> {..<k}"
    using derive_groups_3_range [OF gs assms(3)] gs by (simp_all add: hash_groups_def)
qed

definition group_of :: "(nat \<times> nat) list list \<Rightarrow> nat \<Rightarrow> nat" where
  "group_of rounds i = the (map_of (concat rounds) i)"

lemma group_of_item:
  assumes "plan_ok cands k rounds"
  shows "(i, g) \<in> set (concat rounds) \<Longrightarrow> group_of rounds i = g"
    and "i < length cands \<Longrightarrow> (i, group_of rounds i) \<in> set (concat rounds)"
proof -
  show item: "(i, g) \<in> set (concat rounds) \<Longrightarrow> group_of rounds i = g" for g
    using plan_ok_items(1) [OF assms] by (simp add: group_of_def)
  assume "i < length cands"
  then obtain g where "(i, g) \<in> set (concat rounds)" 
    using plan_ok_items(2) [OF assms] by (metis imageE lessThan_iff prod.collapse)
  with item show "(i, group_of rounds i) \<in> set (concat rounds)" by simp
qed

lemma plan_for_hashes:
  assumes "shs \<noteq> []" and "\<forall>sh \<in> set shs. 20 \<le> length sh" and "3 \<le> k" and "k \<le> 2 ^ 64"
  shows "\<exists>rounds placement. plan_index_pbc_rounds_for_hashes shs k = Inr (rounds, placement) \<and>
    plan_ok (map (\<lambda>sh. hash_groups sh k) shs) k rounds \<and> length placement = length shs \<and>
    (\<forall>i < length shs. ps_pbc_group (placement ! i) = group_of rounds i)"
proof -
  let ?c = "map (\<lambda>sh. hash_groups sh k) shs"
  have m: "map_client (\<lambda>sh. client_run (derive_groups_3 sh k)) shs = Inr ?c"
    using assms(2) client_run_groups(1) [OF _ assms(3,4)] by (intro map_client_Inr) simp
  have "candidates_ok ?c k NUM_HASHES"
    using assms(2) client_run_groups(2,4) [OF _ assms(3,4)] by (fastforce simp: candidates_ok_def NUM_HASHES_def)
  from plan_rounds [OF this, of 500] obtain rounds where
    r: "pbc_plan_rounds ?c k NUM_HASHES 500 = Some rounds" "plan_ok ?c k rounds" by blast
  have "\<forall>(i, g) \<in> set (concat rounds). i < length (replicate (length ?c) \<lparr>ps_round_id = 0, ps_pbc_group = 0\<rparr>)"
    using plan_ok_items(3) [OF r(2)] by auto
  from place_rounds [OF plan_ok_items(1) [OF r(2)] this, of 0] obtain p where
    p: "plan_index_pbc_rounds ?c k = Inr (rounds, p)" "length p = length shs"
      "\<forall>(i, g) \<in> set (concat rounds). ps_pbc_group (p ! i) = g"
    using r(1) by (auto simp: plan_index_pbc_rounds_def or_panic_def)
  have "ps_pbc_group (p ! i) = group_of rounds i" if "i < length shs" for i
    using group_of_item(2) [OF r(2), of i] p(3) that by auto
  then show ?thesis
    using p r(2) m assms(1,3) by (auto simp: plan_index_pbc_rounds_for_hashes_def NUM_HASHES_def)
qed

section \<open>The request matrix\<close>

definition cuckoo_loc :: "u64 \<Rightarrow> nat \<Rightarrow> bytes \<Rightarrow> nat \<Rightarrow> nat \<Rightarrow> nat" where
  "cuckoo_loc master bins sh g h = the (cuckoo_hash sh (derive_cuckoo_key master g h) bins)"

lemma cuckoo_loc_less:
  assumes "20 \<le> length sh" and "0 < bins"
  shows "cuckoo_hash sh (derive_cuckoo_key master g h) bins = Some (cuckoo_loc master bins sh g h)"
    and "cuckoo_loc master bins sh g h < bins"
  using assms by (simp_all add: cuckoo_loc_def cuckoo_hash_def Let_def)

lemma two_hashes: "[0..<INDEX_CUCKOO_NUM_HASHES] = [0, 1]" "[0..<CHUNK_CUCKOO_NUM_HASHES] = [0, 1]"
  by (simp_all add: level_constants upt_rec)

lemma index_locs_Inr:
  assumes "20 \<le> length sh" and "0 < bins"
  shows "index_locs master bins sh g = Inr (map (\<lambda>h. of_nat (cuckoo_loc master bins sh g h)) [0, 1])"
  unfolding index_locs_def two_hashes
  by (rule map_client_Inr) (simp add: cuckoo_loc_less(1) [OF assms] or_panic_def)

lemma random_bin_ok:
  assumes "0 < bins" and "bins < 2 ^ 64"
  shows "\<exists>v rng'. random_bin bins rng = Inr (v, rng') \<and> unat v < bins"
proof -
  have u: "unat (of_nat bins :: u64) = bins" using assms(2) by (intro unat_of_nat_small) simp
  then have "(of_nat bins :: u64) \<noteq> 0" using assms(1) by auto
  then show ?thesis using u assms(1) by (simp add: random_bin_def rng_next_def Let_def unat_mod)
qed

lemma random_bins_ok:
  assumes "0 < bins" and "bins < 2 ^ 64"
  shows "\<exists>vs rng'. random_bins n bins rng = Inr (vs, rng') \<and> length vs = n \<and> (\<forall>v \<in> set vs. unat v < bins)"
proof (induction n arbitrary: rng)
  case (Suc n)
  obtain v r where v: "random_bin bins rng = Inr (v, r)" "unat v < bins" using random_bin_ok [OF assms] by blast
  obtain vs r' where vs: "random_bins n bins r = Inr (vs, r')" "length vs = n" "\<forall>v \<in> set vs. unat v < bins" using Suc by blast
  with v show ?case by auto
qed simp

lemma index_alphas_ok:
  assumes "0 < bins" and "bins < 2 ^ 64" and "\<forall>locs. Some locs \<in> set placed \<longrightarrow> length locs = 2 \<and> (\<forall>a \<in> set locs. unat a < bins)"
  shows "\<exists>alphas rng'. build_index_alphas_batched placed bins rng = Inr (alphas, rng') \<and> alphas_ok (length placed) 2 bins alphas \<and>
    (\<forall>g < length placed. \<forall>locs. placed ! g = Some locs \<longrightarrow> alphas ! g = locs)"
  using assms(3)
proof (induction placed arbitrary: rng)
  case Nil
  show ?case by (simp add: alphas_ok_def)
next
  case (Cons p placed)
  have "\<exists>gr r. (case p of Some locs \<Rightarrow> Inr (locs, rng) | None \<Rightarrow> random_bins 2 bins rng) = Inr (gr, r) \<and>
      length gr = 2 \<and> (\<forall>a \<in> set gr. unat a < bins) \<and> (\<forall>locs. p = Some locs \<longrightarrow> gr = locs)"
  proof (cases p)
    case None
    then show ?thesis using random_bins_ok [OF assms(1,2), of 2 rng] by simp
  next
    case (Some locs)
    then show ?thesis using Cons.prems by simp
  qed
  then obtain gr r where gr: "(case p of Some locs \<Rightarrow> Inr (locs, rng) | None \<Rightarrow> random_bins 2 bins rng) = Inr (gr, r)"
    "length gr = 2" "\<forall>a \<in> set gr. unat a < bins" "\<forall>locs. p = Some locs \<longrightarrow> gr = locs" by blast
  obtain as r' where as: "build_index_alphas_batched placed bins r = Inr (as, r')" "alphas_ok (length placed) 2 bins as"
    "\<forall>g < length placed. \<forall>locs. placed ! g = Some locs \<longrightarrow> as ! g = locs" using Cons.IH [of r] Cons.prems by (metis list.set_intros(2))
  have "build_index_alphas_batched (p # placed) bins rng = Inr (gr # as, r')"
    unfolding build_index_alphas_batched.simps level_constants gr(1) using as(1) by simp
  moreover have "alphas_ok (length (p # placed)) 2 bins (gr # as)" using gr as(2) by (simp add: alphas_ok_def)
  moreover have "\<forall>g < length (p # placed). \<forall>locs. (p # placed) ! g = Some locs \<longrightarrow> (gr # as) ! g = locs"
    using gr(4) as(3) by (simp add: All_less_Suc2)
  ultimately show ?case by blast
qed

lemma place_locs_ok:
  assumes "distinct (map snd round)" and "\<forall>(i, g) \<in> set round. i < length locs \<and> g < k"
  shows "\<exists>placed. place_locs k locs round = Inr placed \<and> length placed = k \<and>
    (\<forall>(i, g) \<in> set round. placed ! g = Some (locs ! i)) \<and> (\<forall>x. Some x \<in> set placed \<longrightarrow> x \<in> set locs)"
proof -
  have "\<exists>q. fold_client (\<lambda>(sh_idx, pbc_group) placed. rbind (nth_client locs sh_idx) (\<lambda>ls.
         if length placed \<le> pbc_group then Inl Stop_Panic else Inr (placed[pbc_group := Some ls]))) round p = Inr q \<and>
      length q = length p \<and> (\<forall>(i, g) \<in> set round. q ! g = Some (locs ! i)) \<and>
      (\<forall>g. g \<notin> snd ` set round \<longrightarrow> q ! g = p ! g) \<and> (\<forall>x. Some x \<in> set q \<longrightarrow> x \<in> set locs \<or> Some x \<in> set p)"
    if "\<forall>(i, g) \<in> set round. i < length locs \<and> g < length p" for p
    using that assms(1)
  proof (induction round arbitrary: p)
    case (Cons x round)
    obtain i g where x: "x = (i, g)" by (cases x)
    let ?p = "p[g := Some (locs ! i)]"
    obtain q where q: "fold_client (\<lambda>(sh_idx, pbc_group) placed. rbind (nth_client locs sh_idx) (\<lambda>ls.
         if length placed \<le> pbc_group then Inl Stop_Panic else Inr (placed[pbc_group := Some ls]))) round ?p = Inr q"
      "length q = length p" "\<forall>(i, g) \<in> set round. q ! g = Some (locs ! i)" "\<forall>g. g \<notin> snd ` set round \<longrightarrow> q ! g = ?p ! g"
      "\<forall>x. Some x \<in> set q \<longrightarrow> x \<in> set locs \<or> Some x \<in> set ?p"
      using Cons.IH [of ?p] Cons.prems by auto
    have g: "g \<notin> snd ` set round" "g < length p" "i < length locs" using Cons.prems x by auto
    have "\<forall>y. Some y \<in> set q \<longrightarrow> y \<in> set locs \<or> Some y \<in> set p"
      using q(5) g(3) set_update_subset_insert [of p g "Some (locs ! i)"] by fastforce
    then show ?case using q(1-4) g x by (intro exI [of _ q]) (auto simp: nth_client_def nth_list_update)
  qed simp
  from this [of "replicate k None"] assms(2) show ?thesis by (auto simp: place_locs_def)
qed

section \<open>The outcome of a query\<close>

text \<open>One probe, with the content of the bin.\<close>

definition probe_step :: "u64 \<Rightarrow> nat \<Rightarrow> u64 \<Rightarrow> bytes \<Rightarrow> index_outcome \<Rightarrow> index_outcome" where
  "probe_step my_tag g loc bin_content out =
     (let (found_info, index_bins, matched_idx) = out;
          pos = length index_bins;
          index_bins = index_bins @ [\<lparr>bt_pbc_group = g, bt_bin_index = ucast loc, bt_bin_content = bin_content\<rparr>]
      in if found_info \<noteq> None then (found_info, index_bins, matched_idx)
         else case find_entry_in_index_result bin_content my_tag of
                Some (start_chunk, num_chunks) \<Rightarrow> (Some (start_chunk, ucast num_chunks, num_chunks = 0), index_bins, Some pos)
              | None \<Rightarrow> (found_info, index_bins, matched_idx))"

lemma index_probe_step:
  assumes "xor_bin r0 r1 g h = Inr bin" and "h < length locs"
  shows "index_probe tag g locs r0 r1 h out = Inr (probe_step tag g (locs ! h) bin out)"
  using assms by (cases out) (simp add: index_probe_def nth_client_def probe_step_def Let_def)

text \<open>What a table holds for a script hash in one of its groups.\<close>

definition index_answer :: "database_info \<Rightarrow> (nat \<Rightarrow> nat \<Rightarrow> bytes) \<Rightarrow> bytes \<Rightarrow> nat \<Rightarrow> index_outcome" where
  "index_answer db bin sh g =
     (let tag = the (compute_tag (di_tag_seed db) sh);
          loc = cuckoo_loc (di_index_master_seed db) (unat (di_index_bins db)) sh g
      in probe_step tag g (of_nat (loc 1)) (bin g (loc 1)) (probe_step tag g (of_nat (loc 0)) (bin g (loc 0)) (None, [], None)))"

definition sh_locs :: "database_info \<Rightarrow> bytes \<Rightarrow> nat \<Rightarrow> u64 list" where
  "sh_locs db sh g = map (\<lambda>h. of_nat (cuckoo_loc (di_index_master_seed db) (unat (di_index_bins db)) sh g h)) [0, 1]"

lemma sh_locs_nth:
  assumes "20 \<le> length sh" and "0 < unat (di_index_bins db)" and "h < 2"
  shows "unat (sh_locs db sh g ! h) = cuckoo_loc (di_index_master_seed db) (unat (di_index_bins db)) sh g h"
    and "sh_locs db sh g ! h = of_nat (cuckoo_loc (di_index_master_seed db) (unat (di_index_bins db)) sh g h)"
proof -
  have "cuckoo_loc (di_index_master_seed db) (unat (di_index_bins db)) sh g h < 2 ^ 64"
    using cuckoo_loc_less(2) [OF assms(1,2), of "di_index_master_seed db" g h] unsigned_less [of "di_index_bins db", where 'a = nat]
    by simp
  then have "unat (of_nat (cuckoo_loc (di_index_master_seed db) (unat (di_index_bins db)) sh g h) :: u64) =
      cuckoo_loc (di_index_master_seed db) (unat (di_index_bins db)) sh g h"
    by (intro unat_of_nat_small) simp
  moreover show "sh_locs db sh g ! h = of_nat (cuckoo_loc (di_index_master_seed db) (unat (di_index_bins db)) sh g h)"
    using assms(3) by (auto simp: sh_locs_def less_2_cases_iff)
  ultimately show "unat (sh_locs db sh g ! h) = cuckoo_loc (di_index_master_seed db) (unat (di_index_bins db)) sh g h" by simp
qed

lemma index_item_answer:
  assumes "i < length shs" and "20 \<le> length (shs ! i)" and "0 < unat (di_index_bins db)" and "length locs = length shs"
    and "locs ! i = sh_locs db (shs ! i) g" and "length outs = length shs" and "outs ! i = (None, [], None)"
    and "\<And>h. h < 2 \<Longrightarrow> xor_bin r0 r1 g h = Inr (bin g (unat (locs ! i ! h)))"
  shows "index_item (di_tag_seed db) shs locs r0 r1 (i, g) outs = Inr (outs[i := index_answer db bin (shs ! i) g])"
proof -
  let ?sh = "shs ! i"
  obtain tag where tag: "compute_tag (di_tag_seed db) ?sh = Some tag" using assms(2) by (simp add: compute_tag_def Let_def)
  have "xor_bin r0 r1 g 0 = Inr (bin g (unat (locs ! i ! 0)))" "xor_bin r0 r1 g 1 = Inr (bin g (unat (locs ! i ! 1)))"
    using assms(8) by simp_all
  then have s: "index_probe tag g (locs ! i) r0 r1 0 out = Inr (probe_step tag g (locs ! i ! 0) (bin g (unat (locs ! i ! 0))) out)"
    "index_probe tag g (locs ! i) r0 r1 1 out = Inr (probe_step tag g (locs ! i ! 1) (bin g (unat (locs ! i ! 1))) out)" for out
    using assms(5) by (simp_all add: index_probe_step sh_locs_def)
  have "fold_client (index_probe tag g (locs ! i) r0 r1) [0..<INDEX_CUCKOO_NUM_HASHES] (None, [], None) =
      Inr (index_answer db bin ?sh g)"
    unfolding two_hashes fold_client.simps s rbind_simps index_answer_def tag Let_def option.sel
    using sh_locs_nth [OF assms(2,3), of 0 g] sh_locs_nth [OF assms(2,3), of 1 g] assms(5) by simp
  then show ?thesis using assms(1,4,6,7) tag by (simp add: index_item_def nth_client_def or_panic_def)
qed

lemma index_items_answer:
  assumes "distinct (map fst round)" and "\<forall>(i, g) \<in> set round. i < length shs \<and> 20 \<le> length (shs ! i) \<and> locs ! i = sh_locs db (shs ! i) g \<and>
      outs ! i = (None, [], None) \<and> (\<forall>h < 2. xor_bin r0 r1 g h = Inr (bin g (unat (locs ! i ! h))))"
    and "0 < unat (di_index_bins db)" and "length locs = length shs" and "length outs = length shs"
  shows "\<exists>outs'. fold_client (index_item (di_tag_seed db) shs locs r0 r1) round outs = Inr outs' \<and> length outs' = length shs \<and>
    (\<forall>(i, g) \<in> set round. outs' ! i = index_answer db bin (shs ! i) g) \<and> (\<forall>i. i \<notin> fst ` set round \<longrightarrow> outs' ! i = outs ! i)"
  using assms(1,2,5)
proof (induction round arbitrary: outs)
  case (Cons x round)
  obtain i g where x: "x = (i, g)" by (cases x)
  let ?o = "outs[i := index_answer db bin (shs ! i) g]"
  have i: "i < length shs" "20 \<le> length (shs ! i)" "locs ! i = sh_locs db (shs ! i) g" "outs ! i = (None, [], None)"
    "\<And>h. h < 2 \<Longrightarrow> xor_bin r0 r1 g h = Inr (bin g (unat (locs ! i ! h)))" "i \<notin> fst ` set round"
    using Cons.prems x by auto
  have step: "index_item (di_tag_seed db) shs locs r0 r1 x outs = Inr ?o"
    unfolding x using i(5) by (intro index_item_answer [OF i(1,2) assms(3,4) i(3) Cons.prems(3) i(4)])
  have "distinct (map fst round)" "length ?o = length shs" using Cons.prems by simp_all
  moreover have "?o ! j = outs ! j" if "(j, g') \<in> set round" for j g' using that i(6) by (metis fst_conv image_eqI nth_list_update_neq)
  then have "\<forall>(j, g) \<in> set round. j < length shs \<and> 20 \<le> length (shs ! j) \<and> locs ! j = sh_locs db (shs ! j) g \<and>
      ?o ! j = (None, [], None) \<and> (\<forall>h < 2. xor_bin r0 r1 g h = Inr (bin g (unat (locs ! j ! h))))"
    using Cons.prems(2) by fastforce
  ultimately obtain o' where o': "fold_client (index_item (di_tag_seed db) shs locs r0 r1) round ?o = Inr o'" "length o' = length shs"
    "\<forall>(i, g) \<in> set round. o' ! i = index_answer db bin (shs ! i) g" "\<forall>i. i \<notin> fst ` set round \<longrightarrow> o' ! i = ?o ! i"
    using Cons.IH by blast
  have "o' ! i = index_answer db bin (shs ! i) g" using o'(4) i(1,6) Cons.prems(3) by simp
  then show ?case using o' step x by (intro exI [of _ o']) auto
qed simp

section \<open>The phase\<close>

text \<open>The catalog entry of a database agrees with the table that the server has loaded.\<close>

definition index_match :: "database_info \<Rightarrow> mapped_sub_table \<Rightarrow> bool" where
  "index_match db t \<longleftrightarrow> unat (di_index_bins db) = mt_bins_per_table t \<and> 0 < mt_bins_per_table t \<and> 3 \<le> unat (di_index_k db) \<and>
     table_ok t (unat (di_index_k db)) (di_dpf_n_index db)"

definition round_mismatch :: client_stop where
  "round_mismatch = Stop_Error (Protocol ''batch response round_id mismatch'')"

definition plan_locs :: "database_info \<Rightarrow> bytes list \<Rightarrow> (nat \<times> nat) list list \<Rightarrow> u64 list list" where
  "plan_locs db shs rounds = map (\<lambda>i. sh_locs db (shs ! i) (group_of rounds i)) [0..<length shs]"

lemma index_round_answer:
  assumes "honest_servers env from_bytes eval dbs" and "dpf_correct env from_bytes eval" and "get_db dbs (di_db_id db) = Some d"
    and "index_match db (md_index d)" and "\<forall>sh \<in> set shs. 20 \<le> length sh"
    and "plan_ok (map (\<lambda>sh. hash_groups sh (unat (di_index_k db))) shs) (unat (di_index_k db)) rounds" and "round \<in> set rounds"
    and "length outs = length shs" and "\<forall>(i, g) \<in> set round. outs ! i = (None, [], None)"
  shows "rid = 0 \<Longrightarrow> \<exists>outs' rng'. index_round env db shs (plan_locs db shs rounds) (rid, round) (outs, rng) = Inr (outs', rng') \<and>
      length outs' = length shs \<and> (\<forall>(i, g) \<in> set round. outs' ! i = index_answer db (served_bin (md_index d)) (shs ! i) g) \<and>
      (\<forall>i. i \<notin> fst ` set round \<longrightarrow> outs' ! i = outs ! i)"
    and "(of_nat rid :: u16) \<noteq> 0 \<Longrightarrow> index_round env db shs (plan_locs db shs rounds) (rid, round) (outs, rng) = Inl round_mismatch"
proof -
  let ?k = "unat (di_index_k db)" and ?t = "md_index d" and ?locs = "plan_locs db shs rounds" and ?n = "di_dpf_n_index db"
  have T: "unat (di_index_bins db) = mt_bins_per_table ?t" "0 < mt_bins_per_table ?t" "table_ok ?t ?k ?n"
    using assms(4) by (simp_all add: index_match_def)
  have sub: "set round \<subseteq> set (concat rounds)" using assms(7) by auto
  have it: "i < length shs \<and> g < ?k \<and> ?locs ! i = sh_locs db (shs ! i) g" if "(i, g) \<in> set round" for i g
  proof -
    have "(i, g) \<in> set (concat rounds)" using sub that by blast
    from plan_ok_items(3) [OF assms(6) this] group_of_item(1) [OF assms(6) this] show ?thesis by (simp add: plan_locs_def)
  qed
  have ll: "length ?locs = length shs" by (simp add: plan_locs_def)
  obtain placed where placed: "place_locs ?k ?locs round = Inr placed" "length placed = ?k"
    "\<forall>(i, g) \<in> set round. placed ! g = Some (?locs ! i)" "\<forall>x. Some x \<in> set placed \<longrightarrow> x \<in> set ?locs"
    using place_locs_ok [of round ?locs ?k] plan_ok_items(4) [OF assms(6,7)] it ll by auto
  have "length x = 2 \<and> (\<forall>a \<in> set x. unat a < mt_bins_per_table ?t)" if x: "x \<in> set ?locs" for x
  proof -
    obtain i where i: "i < length shs" "x = sh_locs db (shs ! i) (group_of rounds i)" using x by (auto simp: plan_locs_def)
    have l: "20 \<le> length (shs ! i)" "0 < unat (di_index_bins db)" using i assms(5) T by simp_all
    have b: "unat (x ! h) < mt_bins_per_table ?t" if "h < 2" for h
      using sh_locs_nth(1) [OF l that] cuckoo_loc_less(2) [OF l] i(2) T(1) by simp
    have "length x = 2" using i(2) by (simp add: sh_locs_def)
    then show ?thesis using b unfolding all_set_conv_all_nth by simp
  qed
  then have pl: "\<forall>x. Some x \<in> set placed \<longrightarrow> length x = 2 \<and> (\<forall>a \<in> set x. unat a < mt_bins_per_table ?t)" using placed(4) by blast
  have "mt_bins_per_table ?t < 2 ^ 64" using T(1) unsigned_less [of "di_index_bins db", where 'a = nat] by simp
  from index_alphas_ok [OF T(2) this pl, of rng] obtain alphas rng' where
    al: "build_index_alphas_batched placed (mt_bins_per_table ?t) rng = Inr (alphas, rng')" "alphas_ok ?k 2 (mt_bins_per_table ?t) alphas"
      "\<forall>g < ?k. \<forall>locs. placed ! g = Some locs \<longrightarrow> alphas ! g = locs" using placed(2) by auto
  note qr = index_query_round [OF assms(1-3) T(3) al(2), of "Index_Round rid" "of_nat rid"]
  show "index_round env db shs ?locs (rid, round) (outs, rng) = Inl round_mismatch" if "(of_nat rid :: u16) \<noteq> 0"
    using qr that placed(1) al(1) by (simp add: index_round_def Let_def T(1) level_constants round_mismatch_def)
  assume rid: "rid = 0"
  obtain r0 r1 where r: "scan_pair from_bytes eval ?t (gen_keys env (Index_Round rid) ?n alphas) = (r0, r1)" by (metis surj_pair)
  have "xor_bin r0 r1 g h = Inr (served_bin ?t g (unat (?locs ! i ! h)))" if "(i, g) \<in> set round" "h < 2" for i g h
    using scan_pair_bins [OF assms(2) T(3) al(2) _ that(2) r, of g] it [OF that(1)] al(3) placed(3) that(1) by fastforce
  then have "\<forall>(i, g) \<in> set round. i < length shs \<and> 20 \<le> length (shs ! i) \<and> ?locs ! i = sh_locs db (shs ! i) g \<and>
      outs ! i = (None, [], None) \<and> (\<forall>h < 2. xor_bin r0 r1 g h = Inr (served_bin ?t g (unat (?locs ! i ! h))))"
    using it assms(5,9) by auto
  moreover have "distinct (map fst round)"
    using plan_ok_items(1) [OF assms(6)] assms(7) by (metis distinct_concat_iff distinct_map map_concat list.set_map image_eqI)
  ultimately have "\<exists>outs'. fold_client (index_item (di_tag_seed db) shs ?locs r0 r1) round outs = Inr outs' \<and> length outs' = length shs \<and>
      (\<forall>(i, g) \<in> set round. outs' ! i = index_answer db (served_bin ?t) (shs ! i) g) \<and> (\<forall>i. i \<notin> fst ` set round \<longrightarrow> outs' ! i = outs ! i)"
    using T assms(8) ll by (intro index_items_answer) simp_all
  then show "\<exists>outs' rng'. index_round env db shs ?locs (rid, round) (outs, rng) = Inr (outs', rng') \<and>
      length outs' = length shs \<and> (\<forall>(i, g) \<in> set round. outs' ! i = index_answer db (served_bin ?t) (shs ! i) g) \<and>
      (\<forall>i. i \<notin> fst ` set round \<longrightarrow> outs' ! i = outs ! i)"
    using qr rid r placed(1) al(1) by (auto simp: index_round_def Let_def T(1) level_constants)
qed

text \<open>The phase runs the rounds of the plan, with the positions of every script hash in its group.\<close>

lemma index_phase_rounds:
  assumes "shs \<noteq> []" and "\<forall>sh \<in> set shs. 20 \<le> length sh" and "3 \<le> unat (di_index_k db)" and "0 < unat (di_index_bins db)"
  shows "\<exists>rounds placement. plan_index_pbc_rounds_for_hashes shs (unat (di_index_k db)) = Inr (rounds, placement) \<and>
    plan_ok (map (\<lambda>sh. hash_groups sh (unat (di_index_k db))) shs) (unat (di_index_k db)) rounds \<and>
    query_index_phase_batched env shs db =
      rbind (fold_client (index_round env db shs (plan_locs db shs rounds)) (enumerate 0 rounds)
        (replicate (length shs) (None, [], None), rng_new (de_seed_nanos env (Index_Round 0)))) (\<lambda>(outs, rng). Inr outs)"
proof -
  let ?k = "unat (di_index_k db)"
  have "?k \<le> 2 ^ 64" using unsigned_less [of "di_index_k db", where 'a = nat] by simp
  from plan_for_hashes [OF assms(1-3) this] obtain rounds placement where
    pl: "plan_index_pbc_rounds_for_hashes shs ?k = Inr (rounds, placement)" "plan_ok (map (\<lambda>sh. hash_groups sh ?k) shs) ?k rounds"
      "length placement = length shs" "\<forall>i < length shs. ps_pbc_group (placement ! i) = group_of rounds i" by blast
  have "map_client (\<lambda>(sh_idx, sh). rbind (nth_client placement sh_idx) (\<lambda>slot.
      index_locs (di_index_master_seed db) (unat (di_index_bins db)) sh (ps_pbc_group slot))) (enumerate 0 shs) =
    Inr (map (\<lambda>(i, sh). sh_locs db sh (group_of rounds i)) (enumerate 0 shs))"
    using pl(3,4) assms(2,4)
    by (intro map_client_Inr) (auto simp: in_set_enumerate_eq nth_client_def index_locs_Inr sh_locs_def)
  moreover have "map (\<lambda>(i, sh). sh_locs db sh (group_of rounds i)) (enumerate 0 shs) = plan_locs db shs rounds"
    by (rule nth_equalityI) (simp_all add: plan_locs_def nth_enumerate_eq)
  ultimately show ?thesis using pl(1,2) by (simp add: query_index_phase_batched_def Let_def)
qed

text \<open>
  The result of the phase: with one round, what the served table holds for each script hash in the group
  that the plan gives it; with more, an error.
\<close>

lemma index_phase_answer:
  assumes "honest_servers env from_bytes eval dbs" and "dpf_correct env from_bytes eval" and "get_db dbs (di_db_id db) = Some d"
    and "index_match db (md_index d)" and "shs \<noteq> []" and "\<forall>sh \<in> set shs. 20 \<le> length sh"
  shows "\<exists>rounds placement. plan_index_pbc_rounds_for_hashes shs (unat (di_index_k db)) = Inr (rounds, placement) \<and>
    plan_ok (map (\<lambda>sh. hash_groups sh (unat (di_index_k db))) shs) (unat (di_index_k db)) rounds \<and> rounds \<noteq> [] \<and>
    query_index_phase_batched env shs db =
      (if length rounds = 1
       then Inr (map (\<lambda>i. index_answer db (served_bin (md_index d)) (shs ! i) (group_of rounds i)) [0..<length shs])
       else Inl round_mismatch)"
proof -
  let ?k = "unat (di_index_k db)" and ?t = "md_index d"
  have T: "unat (di_index_bins db) = mt_bins_per_table ?t" "0 < mt_bins_per_table ?t" "3 \<le> ?k" using assms(4) by (simp_all add: index_match_def)
  from index_phase_rounds [OF assms(5,6) T(3), of env] T(1,2) obtain rounds placement where
    pl: "plan_index_pbc_rounds_for_hashes shs ?k = Inr (rounds, placement)" "plan_ok (map (\<lambda>sh. hash_groups sh ?k) shs) ?k rounds"
      "query_index_phase_batched env shs db =
        rbind (fold_client (index_round env db shs (plan_locs db shs rounds)) (enumerate 0 rounds)
          (replicate (length shs) (None, [], None), rng_new (de_seed_nanos env (Index_Round 0)))) (\<lambda>(outs, rng). Inr outs)" by auto
  have ne: "rounds \<noteq> []" using plan_ok_items(2) [OF pl(2)] assms(5) by auto
  then obtain r1 rs where rounds: "rounds = r1 # rs" by (cases rounds) auto
  let ?o = "replicate (length shs) (None, [], None) :: index_outcome list" and ?rng = "rng_new (de_seed_nanos env (Index_Round 0))"
  have r1: "r1 \<in> set rounds" "\<forall>(i, g) \<in> set r1. ?o ! i = (None, [], None)"
    using rounds plan_ok_items(3) [OF pl(2)] by fastforce+
  obtain outs rng where o1: "index_round env db shs (plan_locs db shs rounds) (0, r1) (?o, ?rng) = Inr (outs, rng)" "length outs = length shs"
    "\<forall>(i, g) \<in> set r1. outs ! i = index_answer db (served_bin ?t) (shs ! i) g" "\<forall>i. i \<notin> fst ` set r1 \<longrightarrow> outs ! i = ?o ! i"
    using index_round_answer(1) [OF assms(1-4,6) pl(2) r1(1) _ r1(2), of 0 ?rng] by auto
  have phase: "query_index_phase_batched env shs db =
      rbind (fold_client (index_round env db shs (plan_locs db shs rounds)) (enumerate 1 rs) (outs, rng)) (\<lambda>(outs, rng). Inr outs)"
    using pl(3) o1(1) by (simp add: rounds)
  show ?thesis
  proof (cases rs)
    case Nil
    have "outs ! i = index_answer db (served_bin ?t) (shs ! i) (group_of rounds i)" if "i < length shs" for i
      using o1(3) group_of_item(2) [OF pl(2), of i] that rounds Nil by auto
    then have "outs = map (\<lambda>i. index_answer db (served_bin ?t) (shs ! i) (group_of rounds i)) [0..<length shs]"
      using o1(2) by (intro nth_equalityI) simp_all
    then show ?thesis using phase pl(1,2) rounds Nil by (intro exI [of _ rounds]) simp
  next
    case (Cons r2 rs')
    have d: "distinct (map fst (concat rounds))" by (rule plan_ok_items(1) [OF pl(2)])
    have "outs ! i = (None, [], None)" if "(i, g) \<in> set r2" for i g
    proof -
      have "i \<notin> fst ` set r1" using d that rounds Cons by force
      moreover have "i < length shs" using plan_ok_items(3) [OF pl(2), of i g] that rounds Cons by auto
      ultimately show ?thesis using o1(4) by simp
    qed
    then have "index_round env db shs (plan_locs db shs rounds) (1, r2) (outs, rng) = Inl round_mismatch"
      using index_round_answer(2) [OF assms(1-4,6) pl(2) _ o1(2), of r2 1 rng] rounds Cons by auto
    then show ?thesis using phase pl(1,2) rounds Cons by (intro exI [of _ rounds]) simp
  qed
qed

end
