(* ===== verification/Dpf_Chunk.thy ===== *)
theory Dpf_Chunk
  imports Dpf_Index
begin

text \<open>
  The CHUNK phase of the DPF client against honest servers: any number of rounds, each padded to all
  groups, retrieves every chunk that the served table holds.
\<close>

section \<open>The request matrix\<close>

definition chunk_loc :: "database_info \<Rightarrow> u32 \<Rightarrow> nat \<Rightarrow> nat \<Rightarrow> nat" where
  "chunk_loc db c g h = the (cuckoo_hash_int c (derive_cuckoo_key (di_chunk_master_seed db) g h) (unat (di_chunk_bins db)))"

lemma chunk_loc_less:
  assumes "0 < unat (di_chunk_bins db)"
  shows "cuckoo_hash_int c (derive_cuckoo_key (di_chunk_master_seed db) g h) (unat (di_chunk_bins db)) = Some (chunk_loc db c g h)"
    and "chunk_loc db c g h < unat (di_chunk_bins db)" and "unat (of_nat (chunk_loc db c g h) :: u64) = chunk_loc db c g h"
proof -
  show "cuckoo_hash_int c (derive_cuckoo_key (di_chunk_master_seed db) g h) (unat (di_chunk_bins db)) = Some (chunk_loc db c g h)"
    and l: "chunk_loc db c g h < unat (di_chunk_bins db)" using assms by (simp_all add: chunk_loc_def cuckoo_hash_int_def)
  then show "unat (of_nat (chunk_loc db c g h) :: u64) = chunk_loc db c g h"
    using unsigned_less [of "di_chunk_bins db", where 'a = nat] by (intro unat_of_nat_small) simp
qed

lemma group_alphas_ok:
  assumes "0 < unat (di_chunk_bins db)"
  shows "\<exists>as locs' rng'. fold_client (chunk_alpha (di_chunk_master_seed db) (unat (di_chunk_bins db)) gtc g) [0, 1] ([], locs, rng) =
      Inr (as, locs', rng') \<and> length as = 2 \<and> (\<forall>a \<in> set as. unat a < unat (di_chunk_bins db)) \<and>
    (\<forall>c. gtc g = Some c \<longrightarrow> (\<forall>h < 2. unat (as ! h) = chunk_loc db c g h \<and> locs' (g, h) = Some (of_nat (chunk_loc db c g h)))) \<and>
    (\<forall>g' h. g' \<noteq> g \<longrightarrow> locs' (g', h) = locs (g', h))"
proof (cases "gtc g")
  case (Some c)
  let ?l = "chunk_loc db c g"
  have "fold_client (chunk_alpha (di_chunk_master_seed db) (unat (di_chunk_bins db)) gtc g) [0, 1] ([], locs, rng) =
      Inr ([of_nat (?l 0), of_nat (?l 1)], locs((g, 0) \<mapsto> of_nat (?l 0), (g, 1) \<mapsto> of_nat (?l 1)), rng)"
    using Some chunk_loc_less(1) [OF assms, of c g] by (simp add: chunk_alpha_def or_panic_def)
  moreover have "unat (of_nat (?l h) :: u64) = ?l h" "?l h < unat (di_chunk_bins db)" for h using chunk_loc_less(2,3) [OF assms] by simp_all
  ultimately show ?thesis using Some by (auto simp: less_2_cases_iff)
next
  case None
  have b: "unat (di_chunk_bins db) < 2 ^ 64" using unsigned_less [of "di_chunk_bins db", where 'a = nat] by simp
  obtain v r where v: "random_bin (unat (di_chunk_bins db)) rng = Inr (v, r)" "unat v < unat (di_chunk_bins db)"
    using random_bin_ok [OF assms b] by blast
  obtain w r' where w: "random_bin (unat (di_chunk_bins db)) r = Inr (w, r')" "unat w < unat (di_chunk_bins db)"
    using random_bin_ok [OF assms b] by blast
  show ?thesis using None v w by (simp add: chunk_alpha_def)
qed

lemma chunk_alphas_ok:
  assumes "0 < unat (di_chunk_bins db)"
  shows "\<exists>alphas locs. chunk_alphas k (di_chunk_master_seed db) (unat (di_chunk_bins db)) gtc rng = Inr (alphas, locs) \<and>
    alphas_ok k 2 (unat (di_chunk_bins db)) alphas \<and>
    (\<forall>g < k. \<forall>c. gtc g = Some c \<longrightarrow> (\<forall>h < 2. unat (alphas ! g ! h) = chunk_loc db c g h \<and> locs (g, h) = Some (of_nat (chunk_loc db c g h))))"
proof -
  let ?f = "\<lambda>g (alphas, real_locs, rng). rbind (fold_client (chunk_alpha (di_chunk_master_seed db) (unat (di_chunk_bins db)) gtc g)
      [0..<CHUNK_CUCKOO_NUM_HASHES] ([], real_locs, rng))
      (\<lambda>(group_alphas, real_locs, rng). Inr (alphas @ [group_alphas], real_locs, rng))"
  have "\<exists>alphas locs rng'. fold_client ?f [0..<k] ([], Map.empty, rng) = Inr (alphas, locs, rng') \<and>
      alphas_ok k 2 (unat (di_chunk_bins db)) alphas \<and>
      (\<forall>g < k. \<forall>c. gtc g = Some c \<longrightarrow> (\<forall>h < 2. unat (alphas ! g ! h) = chunk_loc db c g h \<and> locs (g, h) = Some (of_nat (chunk_loc db c g h))))"
  proof (induction k)
    case 0
    show ?case by (simp add: alphas_ok_def)
  next
    case (Suc k)
    then obtain alphas locs rng' where IH: "fold_client ?f [0..<k] ([], Map.empty, rng) = Inr (alphas, locs, rng')"
      "alphas_ok k 2 (unat (di_chunk_bins db)) alphas"
      "\<forall>g < k. \<forall>c. gtc g = Some c \<longrightarrow> (\<forall>h < 2. unat (alphas ! g ! h) = chunk_loc db c g h \<and> locs (g, h) = Some (of_nat (chunk_loc db c g h)))"
      by blast
    obtain as locs' r where G: "fold_client (chunk_alpha (di_chunk_master_seed db) (unat (di_chunk_bins db)) gtc k) [0, 1] ([], locs, rng') =
        Inr (as, locs', r)" "length as = 2" "\<forall>a \<in> set as. unat a < unat (di_chunk_bins db)"
      "\<forall>c. gtc k = Some c \<longrightarrow> (\<forall>h < 2. unat (as ! h) = chunk_loc db c k h \<and> locs' (k, h) = Some (of_nat (chunk_loc db c k h)))"
      "\<forall>g' h. g' \<noteq> k \<longrightarrow> locs' (g', h) = locs (g', h)"
      using group_alphas_ok [OF assms, of gtc k locs rng'] by blast
    have lk: "length alphas = k" using IH(2) by (simp add: alphas_ok_def)
    have step: "fold_client ?f [0..<Suc k] ([], Map.empty, rng) = Inr (alphas @ [as], locs', r)"
      using IH(1) G(1) by (simp add: fold_client_append two_hashes del: fold_client.simps(2)) (simp add: two_hashes)
    have ok: "alphas_ok (Suc k) 2 (unat (di_chunk_bins db)) (alphas @ [as])" using IH(2) G(2,3) by (auto simp: alphas_ok_def)
    have "unat ((alphas @ [as]) ! g ! h) = chunk_loc db c g h \<and> locs' (g, h) = Some (of_nat (chunk_loc db c g h))"
      if "g < Suc k" "gtc g = Some c" "h < 2" for g c h
      using that IH(3) G(4,5) lk by (cases "g = k") (auto simp: nth_append)
    then show ?case using step ok by blast
  qed
  then show ?thesis by (auto simp: chunk_alphas_def)
qed

section \<open>The plan\<close>

definition id_groups :: "u32 \<Rightarrow> nat \<Rightarrow> nat list" where
  "id_groups c k = the (run_value (derive_int_groups_3 c k))"

lemma client_run_id_groups:
  assumes "3 \<le> k" and "k \<le> 2 ^ 64"
  shows "client_run (derive_int_groups_3 c k) = Inr (id_groups c k)" and "length (id_groups c k) = 3"
    and "distinct (id_groups c k)" and "set (id_groups c k) \<subseteq> {..<k}"
proof -
  obtain gs where gs: "run_value (derive_int_groups_3 c k) = Some gs" using derive_int_groups_3_total [OF assms] by blast
  then show "client_run (derive_int_groups_3 c k) = Inr (id_groups c k)"
    using run_value_Some [of "derive_int_groups_3 c k" gs] by (simp add: client_run_def id_groups_def)
  show "length (id_groups c k) = 3" "distinct (id_groups c k)" "set (id_groups c k) \<subseteq> {..<k}"
    using derive_int_groups_3_range [OF gs assms(2)] gs by (simp_all add: id_groups_def)
qed

definition chunk_rounds_ok :: "nat \<Rightarrow> (u32 \<times> nat) list list \<Rightarrow> bool" where
  "chunk_rounds_ok k rounds \<longleftrightarrow>
     (\<forall>round \<in> set rounds. distinct (map snd round) \<and> (\<forall>(c, g) \<in> set round. g < k \<and> g \<in> set (id_groups c k)))"

lemma plan_chunks:
  assumes "3 \<le> k" and "k \<le> 2 ^ 64"
  shows "\<exists>rounds. plan_chunk_rounds ids k = Inr rounds \<and> fst ` set (concat rounds) = set ids \<and> chunk_rounds_ok k rounds"
proof -
  let ?c = "map (\<lambda>c. id_groups c k) ids" and ?f = "\<lambda>(i, g). (ids ! i, g)"
  note G = client_run_id_groups [OF assms]
  have m: "map_client (\<lambda>c. client_run (derive_int_groups_3 c k)) ids = Inr ?c" using G(1) by (intro map_client_Inr)
  have "candidates_ok ?c k NUM_HASHES" using G(2,4) by (fastforce simp: candidates_ok_def NUM_HASHES_def)
  from plan_rounds [OF this, of 500] obtain rounds where
    r: "pbc_plan_rounds ?c k NUM_HASHES 500 = Some rounds" "plan_ok ?c k rounds" by blast
  note P = plan_ok_items [OF r(2)]
  have it: "i < length ids \<and> g < k \<and> g \<in> set (id_groups (ids ! i) k)" if "round \<in> set rounds" "(i, g) \<in> set round" for round i g
  proof -
    have "(i, g) \<in> set (concat rounds)" using that by auto
    from P(3) [OF this] show ?thesis by (auto simp: nth_map)
  qed
  have "map_client (\<lambda>(item_idx, group). rbind (nth_client ids item_idx) (\<lambda>c. Inr (c, group))) round = Inr (map ?f round)"
    if "round \<in> set rounds" for round
    using it [OF that] by (intro map_client_Inr) (auto simp: nth_client_def)
  then have "map_client (map_client (\<lambda>(item_idx, group). rbind (nth_client ids item_idx) (\<lambda>c. Inr (c, group)))) rounds =
      Inr (map (map ?f) rounds)"
    by (rule map_client_Inr)
  then have pl: "plan_chunk_rounds ids k = Inr (map (map ?f) rounds)" using m r(1) by (simp add: plan_chunk_rounds_def or_panic_def)
  have "fst ` set (concat (map (map ?f) rounds)) = (!) ids ` (fst ` set (concat rounds))"
    by (simp add: image_UN image_image case_prod_unfold)
  also have "\<dots> = set ids" unfolding P(2) by (auto simp: set_conv_nth)
  finally have "fst ` set (concat (map (map ?f) rounds)) = set ids" .
  moreover have sn: "map snd (map ?f round) = map snd round" for round by (induction round) auto
  have "distinct (map snd (map ?f round)) \<and> (\<forall>(c, g) \<in> set (map ?f round). g < k \<and> g \<in> set (id_groups c k))"
    if "round \<in> set rounds" for round
    unfolding sn using P(4) [OF that] it [OF that] by auto
  then have "chunk_rounds_ok k (map (map ?f) rounds)" unfolding chunk_rounds_ok_def by simp
  ultimately show ?thesis using pl by blast
qed

section \<open>A round\<close>

definition chunk_trace :: "database_info \<Rightarrow> (nat \<Rightarrow> nat \<Rightarrow> bytes) \<Rightarrow> u32 \<Rightarrow> nat \<Rightarrow> nat \<Rightarrow> bin_trace" where
  "chunk_trace db bin c g h =
     \<lparr>bt_pbc_group = g, bt_bin_index = of_nat (chunk_loc db c g h), bt_bin_content = bin g (chunk_loc db c g h)\<rparr>"

text \<open>Probe \<open>h\<close> in a group of the chunk is the first one whose bin has an entry for it.\<close>

definition chunk_hit :: "database_info \<Rightarrow> (nat \<Rightarrow> nat \<Rightarrow> bytes) \<Rightarrow> u32 \<Rightarrow> nat \<Rightarrow> nat \<Rightarrow> bytes \<Rightarrow> bool" where
  "chunk_hit db bin c g h data \<longleftrightarrow>
     g \<in> set (id_groups c (unat (di_chunk_k db))) \<and> h < 2 \<and> find_chunk_in_result (bin g (chunk_loc db c g h)) c = Some data \<and>
     (\<forall>h' < h. find_chunk_in_result (bin g (chunk_loc db c g h')) c = None)"

lemma chunk_item_hit:
  assumes "\<And>h. h < 2 \<Longrightarrow> xor_bin r0 r1 g h = Inr (bin g (chunk_loc db c g h))"
    and "\<And>h. h < 2 \<Longrightarrow> locs (g, h) = Some (of_nat (chunk_loc db c g h))" and "chunk_hit db bin c g h data"
  shows "chunk_item r0 r1 locs (c, g) (dm, tm) = Inr (dm(c \<mapsto> data), tm(c \<mapsto> chunk_trace db bin c g h))"
proof -
  have "find_chunk_bin r0 r1 c g [0, 1] = Inr (Some (h, data, bin g (chunk_loc db c g h)))"
    using assms(3) assms(1) [of 0] assms(1) [of 1] by (auto simp: chunk_hit_def less_2_cases_iff)
  then show ?thesis using assms(2) [of h] assms(3) by (simp add: chunk_item_def two_hashes chunk_trace_def chunk_hit_def)
qed

definition chunk_maps_ok ::
  "database_info \<Rightarrow> (nat \<Rightarrow> nat \<Rightarrow> bytes) \<Rightarrow> (u32 \<Rightarrow> bytes) \<Rightarrow> u32 set \<Rightarrow> chunk_maps \<Rightarrow> bool" where
  "chunk_maps_ok db bin data C maps \<longleftrightarrow>
     (\<forall>c \<in> C. fst maps c = Some (data c) \<and> (\<exists>g h. chunk_hit db bin c g h (data c) \<and> snd maps c = Some (chunk_trace db bin c g h)))"

lemma chunk_items_ok:
  assumes "\<forall>(c, g) \<in> set round. (\<exists>h. chunk_hit db bin c g h (data c)) \<and>
      (\<forall>h < 2. xor_bin r0 r1 g h = Inr (bin g (chunk_loc db c g h)) \<and> locs (g, h) = Some (of_nat (chunk_loc db c g h)))"
    and "chunk_maps_ok db bin data C maps"
  shows "\<exists>maps'. fold_client (chunk_item r0 r1 locs) round maps = Inr maps' \<and> chunk_maps_ok db bin data (C \<union> fst ` set round) maps'"
  using assms
proof (induction round arbitrary: maps C)
  case (Cons x round)
  obtain c g dm tm where x: "x = (c, g)" "maps = (dm, tm)" by (cases x; cases maps)
  obtain h where h: "chunk_hit db bin c g h (data c)" using Cons.prems(1) x by auto
  let ?m = "(dm(c \<mapsto> data c), tm(c \<mapsto> chunk_trace db bin c g h))"
  have "chunk_item r0 r1 locs x maps = Inr ?m" unfolding x by (rule chunk_item_hit) (use Cons.prems(1) x h in auto)
  moreover have "chunk_maps_ok db bin data (insert c C) ?m" using Cons.prems(2) h x by (auto simp: chunk_maps_ok_def)
  ultimately show ?case using Cons.IH [of "insert c C" ?m] Cons.prems(1) x by auto
qed simp

lemma group_to_chunk_item:
  assumes "distinct (map snd round)" and "(c, g) \<in> set round"
  shows "fold (\<lambda>(chunk_id, group_id) m. m(group_id \<mapsto> chunk_id)) round m0 g = Some c"
  using assms
proof (induction round arbitrary: m0)
  case (Cons x round)
  have keep: "g \<notin> snd ` set round \<Longrightarrow> fold (\<lambda>(chunk_id, group_id) m. m(group_id \<mapsto> chunk_id)) round m g = m g" for m
    by (induction round arbitrary: m) auto
  show ?case
  proof (cases "x = (c, g)")
    case True
    then show ?thesis using keep [of "m0(g \<mapsto> c)"] Cons.prems(1) by (simp del: fun_upd_apply) simp
  next
    case False
    then show ?thesis using Cons by (cases x) auto
  qed
qed simp

text \<open>The catalog entry agrees with the CHUNK table that the server has loaded.\<close>

definition chunk_match :: "database_info \<Rightarrow> mapped_sub_table \<Rightarrow> bool" where
  "chunk_match db t \<longleftrightarrow> unat (di_chunk_bins db) = mt_bins_per_table t \<and> 0 < mt_bins_per_table t \<and> 3 \<le> unat (di_chunk_k db) \<and>
     table_ok t (unat (di_chunk_k db)) (di_dpf_n_chunk db)"

lemma chunk_round_ok:
  assumes "honest_servers env from_bytes eval dbs" and "dpf_correct env from_bytes eval" and "get_db dbs (di_db_id db) = Some d"
    and "chunk_match db (md_chunk d)" and "distinct (map snd round)"
    and "\<forall>(c, g) \<in> set round. g < unat (di_chunk_k db) \<and> (\<exists>h. chunk_hit db (served_bin (md_chunk d)) c g h (data c))"
    and "chunk_maps_ok db (served_bin (md_chunk d)) data C maps"
  shows "\<exists>maps'. chunk_round env db q (rid, round) maps = Inr maps' \<and>
    chunk_maps_ok db (served_bin (md_chunk d)) data (C \<union> fst ` set round) maps'"
proof -
  let ?k = "unat (di_chunk_k db)" and ?t = "md_chunk d" and ?n = "di_dpf_n_chunk db" and ?e = "Chunk_Round q rid"
  let ?gtc = "fold (\<lambda>(chunk_id, group_id) m. m(group_id \<mapsto> chunk_id)) round Map.empty"
  have T: "unat (di_chunk_bins db) = mt_bins_per_table ?t" "0 < unat (di_chunk_bins db)" "table_ok ?t ?k ?n"
    using assms(4) by (simp_all add: chunk_match_def)
  obtain alphas locs where al: "chunk_alphas ?k (di_chunk_master_seed db) (unat (di_chunk_bins db)) ?gtc (rng_new (de_seed_nanos env ?e)) = Inr (alphas, locs)"
    "alphas_ok ?k 2 (unat (di_chunk_bins db)) alphas"
    "\<forall>g < ?k. \<forall>c. ?gtc g = Some c \<longrightarrow> (\<forall>h < 2. unat (alphas ! g ! h) = chunk_loc db c g h \<and> locs (g, h) = Some (of_nat (chunk_loc db c g h)))"
    using chunk_alphas_ok [OF T(2)] by blast
  have al2: "alphas_ok ?k 2 (mt_bins_per_table ?t) alphas" using al(2) T(1) by simp
  obtain r0 r1 where r: "scan_pair from_bytes eval ?t (gen_keys env ?e ?n alphas) = (r0, r1)" by (metis surj_pair)
  have "xor_bin r0 r1 g h = Inr (served_bin ?t g (chunk_loc db c g h)) \<and> locs (g, h) = Some (of_nat (chunk_loc db c g h))"
    if "(c, g) \<in> set round" "h < 2" for c g h
    using scan_pair_bins [OF assms(2) T(3) al2 _ that(2) r, of g] group_to_chunk_item [OF assms(5) that(1), of Map.empty] al(3) assms(6) that
    by fastforce
  then have "\<forall>(c, g) \<in> set round. (\<exists>h. chunk_hit db (served_bin ?t) c g h (data c)) \<and>
      (\<forall>h < 2. xor_bin r0 r1 g h = Inr (served_bin ?t g (chunk_loc db c g h)) \<and> locs (g, h) = Some (of_nat (chunk_loc db c g h)))"
    using assms(6) by blast
  from chunk_items_ok [OF this assms(7)] show ?thesis
    using al(1) r chunk_query_round [OF assms(1-3) T(3) al2, of ?e "of_nat rid"]
    by (simp add: chunk_round_def Let_def level_constants)
qed

section \<open>The phase\<close>

lemma chunk_rounds_served:
  assumes "honest_servers env from_bytes eval dbs" and "dpf_correct env from_bytes eval" and "get_db dbs (di_db_id db) = Some d"
    and "chunk_match db (md_chunk d)" and "chunk_rounds_ok (unat (di_chunk_k db)) rounds"
    and "\<forall>c \<in> fst ` set (concat rounds). \<forall>g \<in> set (id_groups c (unat (di_chunk_k db))). \<exists>h. chunk_hit db (served_bin (md_chunk d)) c g h (data c)"
    and "chunk_maps_ok db (served_bin (md_chunk d)) data C maps"
  shows "\<exists>maps'. fold_client (chunk_round env db q) (enumerate n rounds) maps = Inr maps' \<and>
    chunk_maps_ok db (served_bin (md_chunk d)) data (C \<union> fst ` set (concat rounds)) maps'"
  using assms(5-7)
proof (induction rounds arbitrary: maps C n)
  case (Cons round rounds)
  have "\<forall>(c, g) \<in> set round. g < unat (di_chunk_k db) \<and> (\<exists>h. chunk_hit db (served_bin (md_chunk d)) c g h (data c))"
    using Cons.prems(1,2) by (force simp: chunk_rounds_ok_def)
  moreover have "distinct (map snd round)" using Cons.prems(1) by (simp add: chunk_rounds_ok_def)
  ultimately obtain maps' where m: "chunk_round env db q (n, round) maps = Inr maps'"
    "chunk_maps_ok db (served_bin (md_chunk d)) data (C \<union> fst ` set round) maps'"
    using chunk_round_ok [OF assms(1-4) _ _ Cons.prems(3)] by blast
  have "chunk_rounds_ok (unat (di_chunk_k db)) rounds" using Cons.prems(1) by (simp add: chunk_rounds_ok_def)
  from Cons.IH [OF this _ m(2), of "Suc n"] show ?case using Cons.prems(2) m(1) by (auto simp: Un_assoc image_Un)
qed simp

lemma assemble_chunks_ok:
  assumes "chunk_maps_ok db bin data (set ids) maps" and "distinct ids"
  shows "\<exists>bins. assemble_chunks ids maps = (concat (map data ids), bins) \<and>
    list_all2 (\<lambda>c t. \<exists>g h. chunk_hit db bin c g h (data c) \<and> t = chunk_trace db bin c g h) ids bins"
  using assms
proof (induction ids arbitrary: maps)
  case (Cons c ids)
  obtain dm tm where m: "maps = (dm, tm)" by (cases maps)
  have "chunk_maps_ok db bin data (set ids) (dm, tm(c := None))" using Cons.prems m by (auto simp: chunk_maps_ok_def)
  from Cons.IH [OF this] Cons.prems(2) obtain bins where b: "assemble_chunks ids (dm, tm(c := None)) = (concat (map data ids), bins)"
    "list_all2 (\<lambda>c t. \<exists>g h. chunk_hit db bin c g h (data c) \<and> t = chunk_trace db bin c g h) ids bins" by auto
  obtain g h where "chunk_hit db bin c g h (data c)" "tm c = Some (chunk_trace db bin c g h)" "dm c = Some (data c)"
    using Cons.prems(1) m by (auto simp: chunk_maps_ok_def)
  then show ?case using b m by auto
qed simp

text \<open>
  Every chunk that can be found in each of its three candidate groups is retrieved, with the bin it was
  found in; an empty request still runs one round.
\<close>

lemma chunk_phase_answer:
  assumes "honest_servers env from_bytes eval dbs" and "dpf_correct env from_bytes eval" and "get_db dbs (di_db_id db) = Some d"
    and "chunk_match db (md_chunk d)" and "distinct ids"
    and "\<forall>c \<in> set ids. length (data c) = CHUNK_SIZE \<and>
      (\<forall>g \<in> set (id_groups c (unat (di_chunk_k db))). \<exists>h. chunk_hit db (served_bin (md_chunk d)) c g h (data c))"
  shows "\<exists>bins. query_chunk_level env q ids db = Inr (concat (map data ids), bins) \<and>
    list_all2 (\<lambda>c t. \<exists>g h. chunk_hit db (served_bin (md_chunk d)) c g h (data c) \<and> t = chunk_trace db (served_bin (md_chunk d)) c g h) ids bins"
proof -
  let ?k = "unat (di_chunk_k db)" and ?bin = "served_bin (md_chunk d)"
  have "?k \<le> 2 ^ 64" using unsigned_less [of "di_chunk_k db", where 'a = nat] by simp
  with assms(4) obtain rounds where r: "plan_chunk_rounds ids ?k = Inr rounds" "fst ` set (concat rounds) = set ids" "chunk_rounds_ok ?k rounds"
    using plan_chunks [of ?k ids] by (auto simp: chunk_match_def)
  let ?p = "pad_chunk_rounds_for_presence rounds"
  have p: "chunk_rounds_ok ?k ?p" "fst ` set (concat ?p) = set ids"
    using r(2,3) by (auto simp: pad_chunk_rounds_for_presence_def chunk_rounds_ok_def)
  have "chunk_maps_ok db ?bin data {} (Map.empty, Map.empty)" by (simp add: chunk_maps_ok_def)
  moreover have "\<forall>c \<in> fst ` set (concat ?p). \<forall>g \<in> set (id_groups c ?k). \<exists>h. chunk_hit db ?bin c g h (data c)"
    unfolding p(2) using assms(6) by blast
  ultimately have "\<exists>maps. fold_client (chunk_round env db q) (enumerate 0 ?p) (Map.empty, Map.empty) = Inr maps \<and>
      chunk_maps_ok db ?bin data ({} \<union> fst ` set (concat ?p)) maps"
    by (intro chunk_rounds_served [OF assms(1-4) p(1)])
  then obtain maps where
    m: "fold_client (chunk_round env db q) (enumerate 0 ?p) (Map.empty, Map.empty) = Inr maps" "chunk_maps_ok db ?bin data (set ids) maps"
    unfolding p(2) by auto
  from assemble_chunks_ok [OF m(2) assms(5)] obtain bins where b: "assemble_chunks ids maps = (concat (map data ids), bins)"
    "list_all2 (\<lambda>c t. \<exists>g h. chunk_hit db ?bin c g h (data c) \<and> t = chunk_trace db ?bin c g h) ids bins" by blast
  have "length (concat (map data ids)) = length ids * CHUNK_SIZE"
    using assms(6) length_concat_fixed [of "map data ids" CHUNK_SIZE] by simp
  then show ?thesis using r(1) m(1) b list_all2_lengthD [OF b(2)] by (simp add: query_chunk_level_def)
qed

end
