(* ===== verification/Dpf_Lookup.thy ===== *)
theory Dpf_Lookup
  imports Dpf_Chunk
begin

text \<open>
  What the client finds in the bins of a database that the table builder wrote: the record of a script
  hash in the INDEX table and the data of a chunk in the CHUNK table (theory \<open>Table_Build\<close>), searched
  with the loops of theory \<open>Dpf_Client\<close>.
\<close>

section \<open>Bins and slots\<close>

lemma slice_slice: "i + m \<le> n \<Longrightarrow> slice (slice xs a n) i m = slice xs (a + i) m"
  by (simp add: slice_def drop_take add.commute [of i a])

lemma slice_append_drop: "length xs \<le> a \<Longrightarrow> slice (xs @ ys) a n = slice ys (a - length xs) n"
  by (simp add: slice_def)

lemma bin_position: "b < bins \<Longrightarrow> s < (n::nat) \<Longrightarrow> b * n + s < bins * n"
proof -
  assume b: "b < bins" and s: "s < n"
  have "Suc b * n \<le> bins * n" using b by (intro mult_le_mono1) simp
  then show ?thesis using s by simp
qed

definition index_entries :: "bytes \<Rightarrow> nat \<Rightarrow> nat list" where
  "index_entries mmap g = filter (\<lambda>i. g \<in> set (index_groups (record_hash mmap i))) [0..<record_count mmap]"

definition chunk_ids :: "bytes \<Rightarrow> nat \<Rightarrow> u32 list" where
  "chunk_ids cfile g = filter (\<lambda>c. g \<in> set (chunk_groups c)) (map of_nat [0..<chunk_count cfile])"

lemma index_served_bins:
  assumes "index_served mmap seeds tables t" and "g < 75" and "b < mt_bins_per_table t"
  shows "length (served_bin t g b) = 52"
    and "s < 4 \<Longrightarrow> index_slot (ra_index_tag seeds) mmap (index_entries mmap g) (tables ! g ! (b * 4 + s)) =
      Some (slice (served_bin t g b) (s * 13) 13)"
proof -
  have p: "mt_params t = INDEX_PARAMS" "group_bytes t g \<noteq> None" "mt_table_byte_size t = mt_bins_per_table t * 52"
    using assms(1,2) by (simp_all add: index_served_def)
  then obtain bs where bs: "group_bytes t g = Some bs" by blast
  have "Suc b * 52 \<le> mt_bins_per_table t * 52" using assms(3) by (intro mult_le_mono1) simp
  then show "length (served_bin t g b) = 52" using group_bytes_length [OF bs] bs p by (simp add: served_bin_def bin_size_params)
  assume s: "s < 4"
  have "b * 4 + s < mt_bins_per_table t * 4" using bin_position [OF assms(3) s] .
  then have "index_slot (ra_index_tag seeds) mmap (index_entries mmap g) (tables ! g ! (b * 4 + s)) = Some (slice bs ((b * 4 + s) * 13) 13)"
    using assms(1,2) bs unfolding index_served_def index_entries_def Let_def by (metis option.sel)
  moreover have "slice (served_bin t g b) (s * 13) 13 = slice bs (b * 52 + s * 13) 13"
    using s bs p by (simp add: served_bin_def bin_size_params slice_slice)
  ultimately show "index_slot (ra_index_tag seeds) mmap (index_entries mmap g) (tables ! g ! (b * 4 + s)) =
      Some (slice (served_bin t g b) (s * 13) 13)"
    by (simp add: distrib_right mult.commute [of b])
qed

lemma chunk_served_bins:
  assumes "chunk_served cfile seeds tables t" and "g < 80" and "b < mt_bins_per_table t"
  shows "length (served_bin t g b) = 132"
    and "s < 3 \<Longrightarrow> chunk_slot cfile (chunk_ids cfile g) (tables ! g ! (b * 3 + s)) = Some (slice (served_bin t g b) (s * 44) 44)"
proof -
  have p: "mt_params t = CHUNK_PARAMS" "group_bytes t g \<noteq> None" "mt_table_byte_size t = mt_bins_per_table t * 132"
    using assms(1,2) by (simp_all add: chunk_served_def)
  then obtain bs where bs: "group_bytes t g = Some bs" by blast
  have "Suc b * 132 \<le> mt_bins_per_table t * 132" using assms(3) by (intro mult_le_mono1) simp
  then show "length (served_bin t g b) = 132" using group_bytes_length [OF bs] bs p by (simp add: served_bin_def bin_size_params)
  assume s: "s < 3"
  have "b * 3 + s < mt_bins_per_table t * 3" using bin_position [OF assms(3) s] .
  then have "chunk_slot cfile (chunk_ids cfile g) (tables ! g ! (b * 3 + s)) = Some (slice bs ((b * 3 + s) * 44) 44)"
    using assms(1,2) bs unfolding chunk_served_def chunk_ids_def Let_def by (metis option.sel)
  moreover have "slice (served_bin t g b) (s * 44) 44 = slice bs (b * 132 + s * 44) 44"
    using s bs p by (simp add: served_bin_def bin_size_params slice_slice)
  ultimately show "chunk_slot cfile (chunk_ids cfile g) (tables ! g ! (b * 3 + s)) = Some (slice (served_bin t g b) (s * 44) 44)"
    by (simp add: distrib_right mult.commute [of b])
qed

section \<open>Searching an INDEX bin\<close>

text \<open>The start and the number of chunks in the five bytes after a tag.\<close>

definition tail_entry :: "bytes \<Rightarrow> u32 \<times> u8" where
  "tail_entry tail = (u32_from_le (take 4 tail), tail ! 4)"

definition slot_tag :: "bytes \<Rightarrow> nat \<Rightarrow> u64" where
  "slot_tag bin s = u64_from_le (slice bin (s * 13) 8)"

definition slot_tail :: "bytes \<Rightarrow> nat \<Rightarrow> bytes" where
  "slot_tail bin s = slice bin (s * 13 + 8) 5"

lemma slot_sizes: "INDEX_SLOT_SIZE = 13" "TAG_SIZE = 8" "CHUNK_SLOT_SIZE = 44" "CHUNK_SIZE = 40"
  by (simp_all add: INDEX_SLOT_SIZE_def TAG_SIZE_def CHUNK_SLOT_SIZE_def CHUNK_SIZE_def)

lemma find_entry_loop_cases:
  assumes "length bin = 52" and "\<forall>s \<in> set ss. s < 4"
  shows "(\<exists>s \<in> set ss. slot_tag bin s = tag \<and>
        find_entry_loop bin tag ss = Some (fst (tail_entry (slot_tail bin s)), ucast (snd (tail_entry (slot_tail bin s))))) \<or>
      (\<forall>s \<in> set ss. slot_tag bin s \<noteq> tag) \<and> find_entry_loop bin tag ss = None"
  using assms(2)
proof (induction ss)
  case (Cons s ss)
  have s: "s < 4" using Cons.prems by simp
  then have "s * 13 \<le> 3 * 13" by (intro mult_le_mono1) simp
  then have b: "\<not> length bin < s * 13 + 13" "s * 13 + 12 < length bin" using assms(1) by simp_all
  have e: "fst (tail_entry (slot_tail bin s)) = u32_from_le (slice bin (s * 13 + 8) 4)" "snd (tail_entry (slot_tail bin s)) = bin ! (s * 13 + 12)"
    using b(2) by (simp_all add: tail_entry_def slot_tail_def slice_def) (simp add: add.commute)
  have "find_entry_loop bin tag (s # ss) =
      (if slot_tag bin s = tag then Some (fst (tail_entry (slot_tail bin s)), ucast (snd (tail_entry (slot_tail bin s))))
       else find_entry_loop bin tag ss)"
    using b(1) unfolding e find_entry_loop.simps Let_def slot_sizes slot_tag_def by (simp add: add.assoc)
  then show ?case using Cons by auto
qed simp

lemma find_entry_cases:
  assumes "length bin = 52"
  shows "(\<exists>s < 4. slot_tag bin s = tag \<and>
        find_entry_in_index_result bin tag = Some (fst (tail_entry (slot_tail bin s)), ucast (snd (tail_entry (slot_tail bin s))))) \<or>
      (\<forall>s < 4. slot_tag bin s \<noteq> tag) \<and> find_entry_in_index_result bin tag = None"
proof -
  have m: "s \<in> set [0..<INDEX_SLOTS_PER_BIN] \<longleftrightarrow> s < 4" for s by (simp add: level_constants)
  then have "\<forall>s \<in> set [0..<INDEX_SLOTS_PER_BIN]. s < 4" by simp
  from find_entry_loop_cases [OF assms this, of tag] show ?thesis
    unfolding find_entry_in_index_result_def Bex_def Ball_def m .
qed

section \<open>The record of a script hash\<close>

definition lookup_record :: "bytes \<Rightarrow> bytes \<Rightarrow> bytes option" where
  "lookup_record mmap sh = map_of (map (\<lambda>i. (record_hash mmap i, record_tail mmap i)) [0..<record_count mmap]) sh"

text \<open>
  The client compares 64-bit tags, and an empty slot reads as tag 0. So the tag of the queried script hash
  must not be 0, and a record with the same tag must say what the record of the script hash says.
\<close>

definition tag_exact :: "u64 \<Rightarrow> bytes \<Rightarrow> bytes \<Rightarrow> bool" where
  "tag_exact tag_seed mmap sh \<longleftrightarrow> compute_tag tag_seed sh \<noteq> Some 0 \<and>
     (\<forall>i < record_count mmap. compute_tag tag_seed (record_hash mmap i) = compute_tag tag_seed sh \<longrightarrow>
        lookup_record mmap sh = Some (record_tail mmap i))"

lemma lookup_record_Some:
  assumes "lookup_record mmap sh = Some tail"
  obtains i where "i < record_count mmap" "record_hash mmap i = sh" "record_tail mmap i = tail"
  using map_of_SomeD [OF assms [unfolded lookup_record_def]] by auto

lemma slot_fields:
  assumes "length bin = 52" and "s < 4" and "slice bin (s * 13) 13 = u64_to_le tag @ tail" and "length tail = 5"
  shows "slot_tag bin s = tag" and "slot_tail bin s = tail"
proof -
  have "slot_tag bin s = u64_from_le (slice (slice bin (s * 13) 13) 0 8)" by (simp add: slot_tag_def slice_slice)
  then show "slot_tag bin s = tag" unfolding assms(3) by (simp add: slice_def)
  have "slot_tail bin s = slice (slice bin (s * 13) 13) 8 5" by (simp add: slot_tail_def slice_slice)
  then show "slot_tail bin s = tail" unfolding assms(3) using assms(4) by (simp add: slice_def)
qed

lemma empty_index_slot: "replicate 13 (0 :: u8) = u64_to_le 0 @ replicate 5 0"
  by code_simp

lemma index_entries_less: "i \<in> set (index_entries mmap g) \<Longrightarrow> i < record_count mmap"
  by (simp add: index_entries_def)

lemma index_bin_slot:
  assumes "index_served mmap seeds tables t" and "g < 75" and "b < mt_bins_per_table t" and "s < 4"
  defines "e \<equiv> tables ! g ! (b * 4 + s)" and "entries \<equiv> index_entries mmap g" and "bin \<equiv> served_bin t g b"
  shows "e = EMPTY \<Longrightarrow> slot_tag bin s = 0"
    and "e \<noteq> EMPTY \<Longrightarrow> unat e < length entries \<and> entries ! unat e < record_count mmap \<and>
      compute_tag (ra_index_tag seeds) (record_hash mmap (entries ! unat e)) = Some (slot_tag bin s) \<and>
      slot_tail bin s = record_tail mmap (entries ! unat e)"
proof -
  have len: "length bin = 52" and sl: "index_slot (ra_index_tag seeds) mmap entries e = Some (slice bin (s * 13) 13)"
    using index_served_bins [OF assms(1-3)] assms(4) by (simp_all add: e_def entries_def bin_def)
  show "slot_tag bin s = 0" if "e = EMPTY"
  proof -
    have "slice bin (s * 13) 13 = u64_to_le 0 @ replicate 5 0"
      using sl that unfolding empty_index_slot [symmetric] by (simp add: index_slot_def slot_sizes)
    from slot_fields(1) [OF len assms(4) this] show ?thesis by simp
  qed
  assume ne: "e \<noteq> EMPTY"
  then have u: "unat e < length entries" using sl by (auto simp: index_slot_def split: if_splits)
  then have c: "entries ! unat e < record_count mmap" using index_entries_less [of "entries ! unat e" mmap g] by (simp add: entries_def)
  from index_slot_occupied [OF ne u c, of "ra_index_tag seeds"] obtain tag where
    tag: "compute_tag (ra_index_tag seeds) (record_hash mmap (entries ! unat e)) = Some tag"
      "slice bin (s * 13) 13 = u64_to_le tag @ record_tail mmap (entries ! unat e)" using sl by auto
  from slot_fields [OF len assms(4) tag(2) record_lengths(2) [OF c]] show
    "unat e < length entries \<and> entries ! unat e < record_count mmap \<and>
      compute_tag (ra_index_tag seeds) (record_hash mmap (entries ! unat e)) = Some (slot_tag bin s) \<and>
      slot_tail bin s = record_tail mmap (entries ! unat e)"
    using u c tag(1) by simp
qed

lemma index_bin_search:
  assumes "index_served mmap seeds tables t" and "g < 75" and "b < mt_bins_per_table t"
    and "tag_exact (ra_index_tag seeds) mmap sh" and "compute_tag (ra_index_tag seeds) sh = Some tag"
  shows "find_entry_in_index_result (served_bin t g b) tag = None \<and> (\<forall>s < 4. slot_tag (served_bin t g b) s \<noteq> tag) \<or>
    (\<exists>tail. lookup_record mmap sh = Some tail \<and>
       find_entry_in_index_result (served_bin t g b) tag = Some (fst (tail_entry tail), ucast (snd (tail_entry tail))))"
proof -
  let ?bin = "served_bin t g b"
  have hit: "lookup_record mmap sh = Some (slot_tail ?bin s)" if s: "s < 4" "slot_tag ?bin s = tag" for s
  proof -
    note S = index_bin_slot [OF assms(1-3) s(1)]
    have "tables ! g ! (b * 4 + s) \<noteq> EMPTY" using S(1) s(2) assms(4,5) by (auto simp: tag_exact_def)
    from S(2) [OF this] show ?thesis using s(2) assms(4,5) by (auto simp: tag_exact_def)
  qed
  from find_entry_cases [OF index_served_bins(1) [OF assms(1-3)], of tag] show ?thesis
  proof
    assume "\<exists>s < 4. slot_tag ?bin s = tag \<and>
      find_entry_in_index_result ?bin tag = Some (fst (tail_entry (slot_tail ?bin s)), ucast (snd (tail_entry (slot_tail ?bin s))))"
    then obtain s where s: "s < 4" "slot_tag ?bin s = tag"
      "find_entry_in_index_result ?bin tag = Some (fst (tail_entry (slot_tail ?bin s)), ucast (snd (tail_entry (slot_tail ?bin s))))" by blast
    from hit [OF s(1,2)] s(3) show ?thesis by (intro disjI2 exI conjI)
  qed simp
qed

lemma probe_step_found:
  "fst (probe_step tag g loc bin out) =
     (case fst out of
        Some f \<Rightarrow> Some f
      | None \<Rightarrow> map_option (\<lambda>(start, num). (start, ucast num, num = 0)) (find_entry_in_index_result bin tag))"
  by (cases out) (auto simp: probe_step_def Let_def split: option.splits)

lemma probe_step_bins:
  "fst (snd (probe_step tag g loc bin out)) =
     fst (snd out) @ [\<lparr>bt_pbc_group = g, bt_bin_index = ucast loc, bt_bin_content = bin\<rparr>]"
  by (cases out) (auto simp: probe_step_def Let_def split: option.splits)

lemma num_chunks_cast:
  fixes n :: u8
  shows "ucast (ucast n :: u32) = n" and "(ucast n :: u32) = 0 \<longleftrightarrow> n = 0"
proof -
  have u: "unat (ucast n :: u32) = unat n" by transfer (simp add: take_bit_take_bit)
  show "ucast (ucast n :: u32) = n" by transfer (simp add: take_bit_take_bit)
  show "(ucast n :: u32) = 0 \<longleftrightarrow> n = 0" using u by (metis unsigned_0 word_unat_eq_iff)
qed

definition found_of :: "bytes \<Rightarrow> u32 \<times> u8 \<times> bool" where
  "found_of tail = (fst (tail_entry tail), snd (tail_entry tail), snd (tail_entry tail) = 0)"

text \<open>The catalog entry of a database that was built with the given seeds.\<close>

definition catalog_matches :: "database_info \<Rightarrow> resolved_anchor \<Rightarrow> mapped_database \<Rightarrow> bool" where
  "catalog_matches db seeds d \<longleftrightarrow>
     di_index_k db = 75 \<and> di_chunk_k db = 80 \<and> di_tag_seed db = ra_index_tag seeds \<and>
     di_index_master_seed db = ra_index_master seeds \<and> di_chunk_master_seed db = ra_chunk_master seeds \<and>
     unat (di_index_bins db) = mt_bins_per_table (md_index d) \<and> unat (di_chunk_bins db) = mt_bins_per_table (md_chunk d) \<and>
     0 < mt_bins_per_table (md_index d) \<and> 0 < mt_bins_per_table (md_chunk d) \<and>
     domain_ok (mt_bins_per_table (md_index d)) (di_dpf_n_index db) \<and> domain_ok (mt_bins_per_table (md_chunk d)) (di_dpf_n_chunk db)"

lemma index_groups_range:
  assumes "20 \<le> length sh"
  shows "g \<in> set (index_groups sh) \<Longrightarrow> g < 75" and "hash_groups sh 75 = index_groups sh"
  using client_run_groups(4) [OF assms, of 75] by (auto simp: index_groups_def hash_groups_def group_params)

lemma index_record_placed:
  assumes "index_served mmap seeds tables t" and "record_count mmap \<le> 2 ^ 32 - 1" and "i < record_count mmap"
    and "g \<in> set (index_groups (record_hash mmap i))"
  shows "\<exists>h < 2. \<exists>b < mt_bins_per_table t. \<exists>s < 4.
    cuckoo_hash (record_hash mmap i) (derive_cuckoo_key (ra_index_master seeds) g h) (mt_bins_per_table t) = Some b \<and>
    compute_tag (ra_index_tag seeds) (record_hash mmap i) = Some (slot_tag (served_bin t g b) s)"
proof -
  let ?p = "with_master_seed INDEX_PARAMS (ra_index_master seeds)" and ?n = "mt_bins_per_table t"
  let ?es = "index_entries mmap g"
  have len: "length (record_hash mmap i) = 20" by (rule record_lengths(1) [OF assms(3)])
  then have g: "g < 75" using index_groups_range(1) [OF _ assms(4)] by simp
  have "i \<in> set ?es" using assms(3,4) by (simp add: index_entries_def)
  then obtain j where j: "j < length ?es" "?es ! j = i" by (metis in_set_conv_nth)
  have "length ?es \<le> length [0..<record_count mmap]" unfolding index_entries_def by (rule length_filter_le)
  then have l: "length (map (record_hash mmap) ?es) \<le> 2 ^ 32 - 1" using assms(2) by simp
  have "build_byte_keyed_table (map (record_hash mmap) ?es) g ?p ?n = Some (tables ! g)"
    using assms(1) g by (simp add: index_served_def Let_def index_entries_def)
  moreover have "\<forall>e \<in> set (map (record_hash mmap) ?es). 20 \<le> length e"
    using index_entries_less record_lengths(1) by fastforce
  ultimately obtain h b s where f: "first_place (byte_hash_fn (map (record_hash mmap) ?es) (cuckoo_keys ?p g) ?n) 2 4 (tables ! g) (of_nat j) h b s"
    using byte_table_place [OF _ _ _ l, of g ?p ?n "tables ! g" j] j(1) by (auto simp: group_params)
  have u: "unat (of_nat j :: u32) = j" using j(1) l by (intro unat_of_nat_small) simp
  have h: "h < 2" "s < 4" "tables ! g ! (b * 4 + s) = of_nat j" using f by (simp_all add: first_place_def)
  have c: "cuckoo_hash (record_hash mmap i) (derive_cuckoo_key (ra_index_master seeds) g h) ?n = Some b"
    using f j h(1) u by (simp add: first_place_def byte_hash_fn_def cuckoo_keys_def group_params split: if_splits)
  then have b: "b < ?n" using len by (auto simp: cuckoo_hash_def Let_def split: if_splits)
  have "(of_nat j :: u32) \<noteq> EMPTY" using j(1) l by (intro of_nat_not_EMPTY) simp
  then have "compute_tag (ra_index_tag seeds) (record_hash mmap i) = Some (slot_tag (served_bin t g b) s)"
    using index_bin_slot(2) [OF assms(1) g b h(2)] h(3) u j(2) by simp
  then show ?thesis using h(1,2) b c by blast
qed

lemma index_answer_found:
  assumes "index_served mmap seeds tables (md_index d)" and "catalog_matches db seeds d" and "record_count mmap \<le> 2 ^ 32 - 1"
    and "tag_exact (ra_index_tag seeds) mmap sh" and "20 \<le> length sh" and "g \<in> set (index_groups sh)"
  shows "fst (index_answer db (served_bin (md_index d)) sh g) = map_option found_of (lookup_record mmap sh)"
proof -
  let ?t = "md_index d" and ?loc = "cuckoo_loc (di_index_master_seed db) (unat (di_index_bins db)) sh g"
  have m: "di_tag_seed db = ra_index_tag seeds" "di_index_master_seed db = ra_index_master seeds" "unat (di_index_bins db) = mt_bins_per_table ?t"
    "0 < mt_bins_per_table ?t" using assms(2) by (simp_all add: catalog_matches_def)
  have g: "g < 75" using index_groups_range(1) [OF assms(5,6)] .
  obtain tag where tag: "compute_tag (ra_index_tag seeds) sh = Some tag" using assms(5) by (simp add: compute_tag_def Let_def)
  let ?r = "\<lambda>h. find_entry_in_index_result (served_bin ?t g (?loc h)) tag"
  have loc: "?loc h < mt_bins_per_table ?t" for h using cuckoo_loc_less(2) [OF assms(5) m(4)] m(3) by simp
  note S = index_bin_search [OF assms(1) g loc assms(4) tag]
  have a: "fst (index_answer db (served_bin ?t) sh g) =
      map_option (\<lambda>(start, num). (start, ucast num, num = 0)) (case ?r 0 of Some f \<Rightarrow> Some f | None \<Rightarrow> ?r 1)"
    by (simp add: index_answer_def Let_def probe_step_found tag m(1) split: option.split)
  have found: "map_option (\<lambda>(start, num). (start, ucast num, num = 0)) (Some (fst (tail_entry tail), ucast (snd (tail_entry tail)) :: u32)) =
      Some (found_of tail)" for tail
    by (simp add: found_of_def num_chunks_cast)
  show ?thesis
  proof (cases "lookup_record mmap sh")
    case None
    then show ?thesis using S [of 0] S [of 1] a by simp
  next
    case (Some tail)
    then obtain i where i: "i < record_count mmap" "record_hash mmap i = sh" by (rule lookup_record_Some)
    have "\<exists>h < 2. ?r h \<noteq> None"
    proof -
      from index_record_placed [OF assms(1,3) i(1), of g] i(2) assms(6) obtain h b s where
        h: "h < 2" "s < 4" "cuckoo_hash sh (derive_cuckoo_key (ra_index_master seeds) g h) (mt_bins_per_table ?t) = Some b"
          "compute_tag (ra_index_tag seeds) sh = Some (slot_tag (served_bin ?t g b) s)" by blast
      then have "?loc h = b" by (simp add: cuckoo_loc_def m)
      then show ?thesis using S [of h] h tag by auto
    qed
    then have "?r 0 \<noteq> None \<or> ?r 1 \<noteq> None" by (auto simp: less_2_cases_iff)
    then show ?thesis using S [of 0] S [of 1] Some a found [of tail] by auto
  qed
qed

section \<open>The data of a chunk\<close>

definition slot_id :: "bytes \<Rightarrow> nat \<Rightarrow> bytes" where
  "slot_id bin s = slice bin (s * 44) 4"

definition slot_data :: "bytes \<Rightarrow> nat \<Rightarrow> bytes" where
  "slot_data bin s = slice bin (s * 44 + 4) 40"

lemma find_chunk_loop_cases:
  assumes "length bin = 132" and "n \<le> 3" and "m \<le> n"
  shows "(\<exists>s. m \<le> s \<and> s < n \<and> slot_id bin s = u32_to_le c \<and> (\<forall>s'. m \<le> s' \<and> s' < s \<longrightarrow> slot_id bin s' \<noteq> u32_to_le c) \<and>
        find_chunk_loop bin c [m..<n] = Some (slot_data bin s)) \<or>
      (\<forall>s. m \<le> s \<and> s < n \<longrightarrow> slot_id bin s \<noteq> u32_to_le c) \<and> find_chunk_loop bin c [m..<n] = None"
  using assms(3)
proof (induction "n - m" arbitrary: m)
  case (Suc k)
  then have m: "m < n" "k = n - Suc m" "Suc m \<le> n" by simp_all
  then have "m * 44 \<le> 2 * 44" using assms(2) by (intro mult_le_mono1) simp
  then have "\<not> length bin < m * 44 + 44" using assms(1) by simp
  then have step: "find_chunk_loop bin c [m..<n] =
      (if slot_id bin m = u32_to_le c then Some (slot_data bin m) else find_chunk_loop bin c [Suc m..<n])"
    unfolding upt_conv_Cons [OF m(1)] by (simp add: Let_def slot_sizes slot_id_def slot_data_def)
  show ?case
  proof (cases "slot_id bin m = u32_to_le c")
    case True
    then show ?thesis using step m(1) by auto
  next
    case False
    then have e: "(\<forall>s'. m \<le> s' \<and> s' < s \<longrightarrow> slot_id bin s' \<noteq> u32_to_le c) \<longleftrightarrow> (\<forall>s'. Suc m \<le> s' \<and> s' < s \<longrightarrow> slot_id bin s' \<noteq> u32_to_le c)" for s
      by (metis Suc_le_eq Suc_leD le_neq_implies_less)
    have f: "find_chunk_loop bin c [m..<n] = find_chunk_loop bin c [Suc m..<n]" using step False by simp
    from Suc.hyps(1) [OF m(2,3)] show ?thesis unfolding e f by (meson Suc_leD)
  qed
qed auto

lemma find_chunk_cases:
  assumes "length bin = 132"
  shows "(\<exists>s < 3. slot_id bin s = u32_to_le c \<and> (\<forall>s' < s. slot_id bin s' \<noteq> u32_to_le c) \<and>
        find_chunk_in_result bin c = Some (slot_data bin s)) \<or>
      (\<forall>s < 3. slot_id bin s \<noteq> u32_to_le c) \<and> find_chunk_in_result bin c = None"
  using find_chunk_loop_cases [OF assms, of 3 0 c] by (simp add: find_chunk_in_result_def level_constants)

lemma chunk_ids_props:
  "distinct (chunk_ids cfile g)" "c \<in> set (chunk_ids cfile g) \<Longrightarrow> unat c < chunk_count cfile" "length (chunk_ids cfile g) \<le> 2 ^ 32 - 1"
proof -
  have k: "chunk_count cfile < 2 ^ 32" using unsigned_less [of "of_nat (length cfile div CHUNK_SIZE) :: u32", where 'a = nat]
    by (simp add: chunk_count_def)
  have u: "unat (of_nat i :: u32) = i" if "i < chunk_count cfile" for i using that k by (intro unat_of_nat_small) simp
  then have "inj_on (of_nat :: nat \<Rightarrow> u32) {0..<chunk_count cfile}" by (intro inj_onI) (metis atLeastLessThan_iff)
  then show "distinct (chunk_ids cfile g)" by (simp add: chunk_ids_def distinct_map)
  show "c \<in> set (chunk_ids cfile g) \<Longrightarrow> unat c < chunk_count cfile" using u by (auto simp: chunk_ids_def)
  have "length (chunk_ids cfile g) \<le> length (map of_nat [0..<chunk_count cfile] :: u32 list)"
    unfolding chunk_ids_def by (rule length_filter_le)
  then show "length (chunk_ids cfile g) \<le> 2 ^ 32 - 1" using k by simp
qed

lemma chunk_bin_slot:
  assumes "chunk_served cfile seeds tables t" and "g < 80" and "b < mt_bins_per_table t" and "s < 3"
    and "tables ! g ! (b * 3 + s) \<noteq> EMPTY"
  defines "c \<equiv> chunk_ids cfile g ! unat (tables ! g ! (b * 3 + s))"
  shows "slot_id (served_bin t g b) s = u32_to_le c" and "slot_data (served_bin t g b) s = chunk_at cfile c"
proof -
  let ?e = "tables ! g ! (b * 3 + s)" and ?ids = "chunk_ids cfile g" and ?bin = "served_bin t g b"
  have sl: "chunk_slot cfile ?ids ?e = Some (slice ?bin (s * 44) 44)" by (rule chunk_served_bins(2) [OF assms(1-4)])
  then have e: "unat ?e < length ?ids" using assms(5) by (auto simp: chunk_slot_def split: if_splits)
  then have "unat (?ids ! unat ?e) < chunk_count cfile" using chunk_ids_props(2) [OF nth_mem] by blast
  note o = chunk_slot_occupied [OF assms(5) e this, folded c_def]
  have sl: "slice ?bin (s * 44) 44 = u32_to_le c @ chunk_at cfile c" using sl o(1) by simp
  have "slot_id ?bin s = slice (slice ?bin (s * 44) 44) 0 4" by (simp add: slot_id_def slice_slice)
  then show "slot_id ?bin s = u32_to_le c" unfolding sl by (simp add: slice_def)
  have "slot_data ?bin s = slice (slice ?bin (s * 44) 44) 4 40" by (simp add: slot_data_def slice_slice)
  then show "slot_data ?bin s = chunk_at cfile c" unfolding sl using o(2) by (simp add: slice_def)
qed

lemma chunk_bin_search:
  assumes "chunk_served cfile seeds tables t" and "g < 80" and "b < mt_bins_per_table t" and "n \<le> 3"
    and "\<forall>s < n. tables ! g ! (b * 3 + s) \<noteq> EMPTY"
  shows "s < n \<Longrightarrow> slot_id (served_bin t g b) s = u32_to_le c \<Longrightarrow>
      find_chunk_in_result (served_bin t g b) c = Some (chunk_at cfile c)"
    and "n = 3 \<Longrightarrow> find_chunk_in_result (served_bin t g b) c \<noteq> None \<Longrightarrow>
      find_chunk_in_result (served_bin t g b) c = Some (chunk_at cfile c)"
proof -
  let ?bin = "served_bin t g b"
  note C = find_chunk_cases [OF chunk_served_bins(1) [OF assms(1-3)], of c]
  have hit: "slot_data ?bin s = chunk_at cfile c" if s: "s < n" "slot_id ?bin s = u32_to_le c" for s
    using chunk_bin_slot [OF assms(1-3) _ assms(5) [rule_format, OF s(1)]] s assms(4) by simp
  show "find_chunk_in_result ?bin c = Some (chunk_at cfile c)" if "s < n" "slot_id ?bin s = u32_to_le c" for s
    using C
  proof
    assume "\<exists>s < 3. slot_id ?bin s = u32_to_le c \<and> (\<forall>s' < s. slot_id ?bin s' \<noteq> u32_to_le c) \<and>
        find_chunk_in_result ?bin c = Some (slot_data ?bin s)"
    then obtain s' where s': "slot_id ?bin s' = u32_to_le c" "\<forall>s < s'. slot_id ?bin s \<noteq> u32_to_le c"
      "find_chunk_in_result ?bin c = Some (slot_data ?bin s')" by blast
    then have "s' < n" using that by (meson le_less_trans not_le)
    then show ?thesis using s'(1,3) hit by simp
  qed (use that assms(4) in auto)
  show "find_chunk_in_result ?bin c = Some (chunk_at cfile c)" if "n = 3" "find_chunk_in_result ?bin c \<noteq> None"
    using C hit that by auto
qed

lemma id_groups_range: "g \<in> set (chunk_groups c) \<Longrightarrow> g < 80" "id_groups c 80 = chunk_groups c"
  using client_run_id_groups(4) [of 80 c] by (auto simp: chunk_groups_def id_groups_def group_params)

lemma chunk_found:
  assumes "chunk_served cfile seeds tables (md_chunk d)" and "catalog_matches db seeds d" and "unat c < chunk_count cfile"
    and "g \<in> set (chunk_groups c)"
  shows "\<exists>h. chunk_hit db (served_bin (md_chunk d)) c g h (chunk_at cfile c)"
proof -
  let ?p = "with_master_seed CHUNK_PARAMS (ra_chunk_master seeds)" and ?t = "md_chunk d"
  let ?n = "mt_bins_per_table ?t" and ?ids = "chunk_ids cfile g" and ?r = "\<lambda>h. find_chunk_in_result (served_bin ?t g (chunk_loc db c g h)) c"
  have m: "di_chunk_master_seed db = ra_chunk_master seeds" "unat (di_chunk_bins db) = ?n" "0 < ?n"
    using assms(2) by (simp_all add: catalog_matches_def)
  have g: "g < 80" using id_groups_range(1) [OF assms(4)] .
  have ig: "g \<in> set (id_groups c (unat (di_chunk_k db)))" using assms(2,4) id_groups_range(2) by (simp add: catalog_matches_def)
  have "c \<in> set (map of_nat [0..<chunk_count cfile])" using assms(3) by (auto intro!: image_eqI [of _ _ "unat c"])
  then have "c \<in> set ?ids" using assms(4) by (simp add: chunk_ids_def)
  then obtain j where j: "j < length ?ids" "?ids ! j = c" by (metis in_set_conv_nth)
  note l = chunk_ids_props(3) [of cfile g]
  have "build_int_keyed_table ?ids g ?p ?n = Some (tables ! g)" using assms(1) g by (simp add: chunk_served_def Let_def chunk_ids_def)
  from int_table_place [OF this _ _ l j(1)] obtain h b s where
    f: "first_place (int_hash_fn ?ids (cuckoo_keys ?p g) ?n) 2 3 (tables ! g) (of_nat j) h b s" by (auto simp: group_params)
  have u: "unat (of_nat j :: u32) = j" using j(1) l by (intro unat_of_nat_small) simp
  have hash: "int_hash_fn ?ids (cuckoo_keys ?p g) ?n (of_nat j) h' = Some (chunk_loc db c g h')" if "h' < 2" for h'
    using chunk_loc_less(1) [of db c g h'] that m j u by (simp add: int_hash_fn_def cuckoo_keys_def group_params)
  have loc: "chunk_loc db c g h' < ?n" for h' using chunk_loc_less(2) [of db c g h'] m by simp
  have h: "h < 2" "s < 3" "b = chunk_loc db c g h" "tables ! g ! (b * 3 + s) = of_nat j" "\<forall>s' < s. tables ! g ! (b * 3 + s') \<noteq> EMPTY"
    "\<forall>h' < h. bin_full 3 (tables ! g) (chunk_loc db c g h')"
    using f hash by (auto simp: first_place_def)
  have ne: "(of_nat j :: u32) \<noteq> EMPTY" using j(1) l by (intro of_nat_not_EMPTY) simp
  then have occ: "\<forall>s' < Suc s. tables ! g ! (b * 3 + s') \<noteq> EMPTY" using h(4,5) by (auto simp: less_Suc_eq)
  have b: "b < ?n" using loc h(3) by simp
  have "slot_id (served_bin ?t g b) s = u32_to_le c"
    using chunk_bin_slot(1) [OF assms(1) g b h(2)] h(4) ne u j(2) by simp
  then have hit: "?r h = Some (chunk_at cfile c)"
    using chunk_bin_search(1) [OF assms(1) g b _ occ, of s c] h(2,3) by simp
  have earlier: "?r h' = None \<or> ?r h' = Some (chunk_at cfile c)" if "h' < h" for h'
    using chunk_bin_search(2) [OF assms(1) g loc [of h'], of 3 c] h(6) that
    by (cases "?r h'") (auto simp: bin_full_def)
  show ?thesis
  proof (cases "h = 1 \<and> ?r 0 \<noteq> None")
    case True
    then show ?thesis using earlier [of 0] ig by (intro exI [of _ 0]) (auto simp: chunk_hit_def)
  next
    case False
    then show ?thesis using hit h(1) ig by (intro exI [of _ h]) (auto simp: chunk_hit_def less_2_cases_iff)
  qed
qed

lemma concat_whole_chunks:
  assumes "start + n \<le> chunk_count cfile"
  shows "concat (map (chunk_at cfile) (map of_nat [start..<start + n])) = slice cfile (start * 40) (n * 40)"
  using assms
proof (induction n)
  case (Suc n)
  have k: "chunk_count cfile < 2 ^ 32" using unsigned_less [of "of_nat (length cfile div CHUNK_SIZE) :: u32", where 'a = nat]
    by (simp add: chunk_count_def)
  then have u: "unat (of_nat (start + n) :: u32) = start + n" using Suc.prems by (intro unat_of_nat_small) simp
  have "take (n * 40 + 40) (drop (start * 40) cfile) = take (n * 40) (drop (start * 40) cfile) @ take 40 (drop (n * 40) (drop (start * 40) cfile))"
    by (rule take_add)
  then have "slice cfile (start * 40) (Suc n * 40) = slice cfile (start * 40) (n * 40) @ slice cfile ((start + n) * 40) 40"
    by (simp add: slice_def distrib_right add.commute)
  then show ?case using Suc u by (simp add: chunk_at_def CHUNK_SIZE_def)
qed (simp add: slice_def)

end
