(* ===== verification/Dpf_Demo.thy ===== *)
theory Dpf_Demo
  imports Dpf_Lookup
begin

text \<open>
  A concrete instance of what the theorems on the DPF protocol assume: keys that carry their point in the
  clear, servers that answer as the server code does, and a database of one record and two chunks that
  the table builder accepts.
\<close>

section \<open>Keys\<close>

definition demo_gen :: "u64 \<Rightarrow> u8 \<Rightarrow> bytes \<times> bytes" where
  "demo_gen alpha n = (n # u64_to_le alpha @ 1 # replicate 600 0, n # u64_to_le alpha @ 0 # replicate 600 0)"

definition demo_from_bytes :: "bytes \<Rightarrow> (u64 \<times> bool) option" where
  "demo_from_bytes bs = Some (u64_from_le (slice bs 1 8), bs ! 9 = 1)"

definition demo_block :: "nat \<Rightarrow> dpf_block" where
  "demo_block i = \<lparr>blk_low = (if i < 64 then push_bit i 1 else 0), blk_high = (if i < 64 then 0 else push_bit (i - 64) 1)\<rparr>"

definition demo_eval :: "u64 \<times> bool \<Rightarrow> u64 \<Rightarrow> dpf_block list" where
  "demo_eval key bins =
     (if snd key then replicate (unat (fst key) div 128) \<lparr>blk_low = 0, blk_high = 0\<rparr> @ [demo_block (unat (fst key) mod 128)] else [])"

definition demo_env :: "mapped_database list \<Rightarrow> dpf_env" where
  "demo_env dbs =
     \<lparr>de_send = (\<lambda>s e req. Inr ()),
      de_recv = (\<lambda>s e req. case handle_dpf demo_from_bytes demo_eval dbs (drop 4 req) of
                   Reply r \<Rightarrow> Inr r | _ \<Rightarrow> Inl (ConnectionFailed ''closed'')),
      de_gen = (\<lambda>e g h alpha n. demo_gen alpha n),
      de_seed_nanos = (\<lambda>e. 0)\<rparr>"

lemma demo_env_honest: "honest_servers (demo_env dbs) demo_from_bytes demo_eval dbs"
  by (simp add: honest_servers_def demo_env_def)

lemma push_bit_test:
  assumes "i < 64" and "j < 64"
  shows "drop_bit j (push_bit i 1 :: u64) AND 1 = 1 \<longleftrightarrow> i = j"
proof -
  have "drop_bit j (push_bit i 1 :: u64) AND 1 = 1 \<longleftrightarrow> bit (push_bit i 1 :: u64) j"
    by (simp add: bit_iff_odd_drop_bit and_one_eq odd_iff_mod_2_eq_one)
  then show ?thesis using assms by (auto simp: bit_simps)
qed

lemma demo_block_bit: "i < 128 \<Longrightarrow> j < 128 \<Longrightarrow> get_dpf_bit (demo_block i) j \<longleftrightarrow> i = j"
  using push_bit_test [of i j] push_bit_test [of "i - 64" "j - 64"]
  by (auto simp: get_dpf_bit_def demo_block_def)

lemma demo_bit: "dpf_bit (demo_eval (alpha, True) bins) i \<longleftrightarrow> i = unat alpha"
proof -
  have "i = unat alpha \<longleftrightarrow> i div 128 = unat alpha div 128 \<and> i mod 128 = unat alpha mod 128"
    by (metis div_mult_mod_eq)
  moreover have "\<not> get_dpf_bit \<lparr>blk_low = 0, blk_high = 0\<rparr> j" for j by (simp add: get_dpf_bit_def)
  ultimately show ?thesis
    using demo_block_bit [of "unat alpha mod 128" "i mod 128"] by (auto simp: dpf_bit_def demo_eval_def nth_append less_Suc_eq)
qed

lemma demo_env_correct: "dpf_correct (demo_env dbs) demo_from_bytes demo_eval"
proof -
  have ok: "key_ok (n # u64_to_le alpha @ b # replicate 600 0)" if "MIN_DPF_DOMAIN_N \<le> n" "n \<le> MAX_DPF_DOMAIN_N" for n b and alpha :: u64
  proof -
    have "unat (n - 7) \<le> 25" using that unat_sub [of 7 n] by (simp add: MIN_DPF_DOMAIN_N_def MAX_DPF_DOMAIN_N_def word_le_nat_alt)
    then show ?thesis using that by (simp add: key_ok_def validate_dpf_key_bytes_def Let_def)
  qed
  have fb: "demo_from_bytes (n # u64_to_le alpha @ b # replicate 600 0) = Some (alpha, b = 1)" for n b and alpha :: u64
    by (simp add: demo_from_bytes_def slice_def nth_append)
  have "\<not> dpf_bit (demo_eval (alpha, False) bins) i" for alpha bins i by (simp add: demo_eval_def dpf_bit_def)
  then have "dpf_pair demo_from_bytes demo_eval alpha n (demo_gen alpha n)" if "MIN_DPF_DOMAIN_N \<le> n" "n \<le> MAX_DPF_DOMAIN_N" for alpha n
    using ok [OF that] fb demo_bit by (simp add: dpf_pair_def demo_gen_def)
  then show ?thesis by (simp add: dpf_correct_def demo_env_def)
qed

section \<open>A small database\<close>

lemma those_total: "\<forall>x \<in> set xs. x \<noteq> None \<Longrightarrow> \<exists>ys. those xs = Some ys"
  by (induction xs) auto

lemma assign_groups_total: "\<forall>x \<in> set xs. run_value (f x) \<noteq> None \<Longrightarrow> \<exists>gs'. assign_groups f xs gs = Some gs'"
  by (induction xs arbitrary: gs) auto

lemma insert_first:
  assumes "0 < slots" and "0 < nh" and "hash 0 0 = Some 0"
  shows "insert_all hash slots nh [0] (replicate slots EMPTY) = Some ((replicate slots EMPTY)[0 := 0])"
  using assms by (simp add: cuckoo_insert_def upt_conv_Cons)

lemma one_entry_tables:
  assumes "entries = [] \<or> (\<exists>e. entries = [e] \<and> 20 \<le> length e)"
  shows "build_byte_keyed_table entries g (with_master_seed INDEX_PARAMS m) 1 =
    Some (if entries = [] then replicate 4 EMPTY else (replicate 4 EMPTY)[0 := 0])"
  using assms insert_first [of 4 2 "byte_hash_fn entries (cuckoo_keys (with_master_seed INDEX_PARAMS m) g) 1"]
  by (auto simp: build_byte_keyed_table_def group_params byte_hash_fn_def cuckoo_hash_def Let_def)

lemma insert_second:
  assumes "hash 0 0 = Some 0" and "hash 1 0 = Some 0"
  shows "insert_all hash 3 2 [0, 1] (replicate 3 EMPTY) = Some [0, 1, EMPTY]"
proof -
  have "EMPTY \<noteq> 0" by (simp add: EMPTY_def)
  then show ?thesis using assms by (simp add: cuckoo_insert_def upt_conv_Cons numeral_3_eq_3)
qed

lemma few_chunk_tables:
  assumes "length ids \<le> 2"
  shows "build_int_keyed_table ids g (with_master_seed CHUNK_PARAMS m) 1 = Some (map of_nat [0..<length ids] @ replicate (3 - length ids) EMPTY)"
proof -
  let ?h = "int_hash_fn ids (cuckoo_keys (with_master_seed CHUNK_PARAMS m) g) 1"
  have h: "i < length ids \<Longrightarrow> ?h (of_nat i) 0 = Some 0" if "i < 2" for i
    using that by (auto simp: int_hash_fn_def cuckoo_hash_int_def group_params unat_of_nat_small)
  consider "ids = []" | "length ids = 1" | "length ids = 2" using assms by (cases "length ids") (auto simp: le_Suc_eq)
  then show ?thesis
  proof cases
    case 2
    then show ?thesis using insert_first [of 3 2 ?h] h [of 0] by (simp add: build_int_keyed_table_def group_params numeral_3_eq_3)
  next
    case 3
    then have "[0..<length ids] = [0, 1]" by (simp add: upt_rec)
    then show ?thesis using insert_second [of ?h] h [of 0] h [of 1] 3 by (simp add: build_int_keyed_table_def group_params)
  qed (simp add: build_int_keyed_table_def group_params)
qed

lemma header_total: "ra_anchor seeds = None \<Longrightarrow> \<exists>h. write_header_with_anchor (with_master_seed INDEX_PARAMS m) 1 tag (ra_anchor seeds) = Some h"
  "ra_anchor seeds = None \<Longrightarrow> \<exists>h. write_header_with_anchor (with_master_seed CHUNK_PARAMS m) 1 tag (ra_anchor seeds) = Some h"
  by (simp_all add: write_header_with_anchor_def write_header_def group_params Let_def split: option.splits)

lemma serialize_total:
  assumes "\<And>g x. g < k \<Longrightarrow> x \<in> set (tables ! g) \<Longrightarrow> slot (groups ! g) x \<noteq> None"
  shows "\<exists>body. serialize_tables k cells slot tables groups = Some body"
proof -
  have "\<exists>ys. those (map (slot (groups ! g)) (take cells (tables ! g))) = Some ys" if "g < k" for g
    using assms [OF that] by (intro those_total) (auto dest: in_set_takeD)
  then have "\<forall>x \<in> set (map (\<lambda>g. map_option concat (those (map (slot (groups ! g)) (take cells (tables ! g))))) [0..<k]). x \<noteq> None"
    by fastforce
  then show ?thesis using those_total unfolding serialize_tables_def by fastforce
qed

lemma one_record_builds:
  assumes "length mmap = 25" and "ra_anchor seeds = None"
  shows "\<exists>f. build_index_cuckoo (\<lambda>_ _. 1) mmap seeds = Some f"
proof -
  let ?p = "with_master_seed INDEX_PARAMS (ra_index_master seeds)" and ?f = "\<lambda>i. derive_groups_3 (record_hash mmap i) 75"
  have rc: "record_count mmap = 1" using assms(1) by (simp add: record_count_def INDEX_RECORD_SIZE_def SCRIPT_HASH_SIZE_def)
  have l: "length (record_hash mmap 0) = 20" using record_lengths(1) [of 0 mmap] rc by simp
  then have "\<forall>i \<in> set [0..<1]. run_value (?f i) \<noteq> None" using derive_groups_3_total [of "record_hash mmap 0" 75] by simp
  then obtain ge where ge: "assign_groups ?f [0..<1] (replicate 75 []) = Some ge" using assign_groups_total [of "[0..<1]" ?f] by blast
  have gr: "run_value (?f x) = Some r \<Longrightarrow> distinct r \<and> set r \<subseteq> {..<length (replicate 75 [])}" for x r
    using derive_groups_3_range by fastforce
  have e: "ge ! g = [] \<or> ge ! g = [0]" if "g < 75" for g using assign_groups_nth [OF ge gr] that by auto
  define tab where "tab g = (if ge ! g = [] then replicate 4 EMPTY else (replicate 4 EMPTY)[0 := 0])" for g
  have t: "build_byte_keyed_table (map (record_hash mmap) (ge ! g)) g ?p 1 = Some (tab g)" if "g < 75" for g
    using one_entry_tables [of "map (record_hash mmap) (ge ! g)" g "ra_index_master seeds"] e [OF that] l by (auto simp: tab_def)
  then have ts: "those (map (\<lambda>g. build_byte_keyed_table (map (record_hash mmap) (ge ! g)) g ?p 1) [0..<75]) = Some (map tab [0..<75])"
    unfolding those_Some by simp
  have cell: "index_slot (ra_index_tag seeds) mmap (ge ! g) x \<noteq> None" if "g < 75" "x \<in> set (tab g)" for g x
  proof (cases "x = EMPTY")
    case True
    then show ?thesis by (simp add: index_slot_def)
  next
    case False
    then have "x = 0 \<and> ge ! g = [0]" using that(2) e [OF that(1)] by (auto simp: tab_def numeral_eq_Suc split: if_splits)
    then show ?thesis using index_slot_occupied [of x "[0]" mmap "ra_index_tag seeds"] False rc by auto
  qed
  obtain body where body: "serialize_tables 75 4 (index_slot (ra_index_tag seeds) mmap) (map tab [0..<75]) ge = Some body"
    using serialize_total [of 75 "map tab [0..<75]" "index_slot (ra_index_tag seeds) mmap" ge 4] cell by auto
  obtain h where h: "write_header_with_anchor ?p 1 (ra_index_tag seeds) (ra_anchor seeds) = Some h" using header_total(1) [OF assms(2)] by blast
  have "length mmap div INDEX_RECORD_SIZE = 1" using rc by (simp add: record_count_def)
  then have "build_index_cuckoo (\<lambda>_ _. 1) mmap seeds = Some (h @ body)"
    unfolding build_index_cuckoo_def Let_def with_master_seed_simps group_params mult_1
    by (simp only: ge ts h body Option.bind.simps)
  then show ?thesis by blast
qed

lemma two_chunks_build:
  assumes "length cfile = 80" and "ra_anchor seeds = None"
  shows "\<exists>f. build_chunk_cuckoo (\<lambda>_ _. 1) cfile seeds = Some f"
proof -
  let ?p = "with_master_seed CHUNK_PARAMS (ra_chunk_master seeds)" and ?f = "\<lambda>c. derive_int_groups_3 c 80"
  have cc: "chunk_count cfile = 2" using assms(1) by (simp add: chunk_count_def CHUNK_SIZE_def)
  have "\<forall>c \<in> set [0, 1]. run_value (?f c) \<noteq> None" using derive_int_groups_3_total [of 80] by simp
  then obtain gc where gc: "assign_groups ?f [0, 1] (replicate 80 []) = Some gc" using assign_groups_total [of "[0, 1]" ?f] by blast
  have gr: "run_value (?f x) = Some r \<Longrightarrow> distinct r \<and> set r \<subseteq> {..<length (replicate 80 [])}" for x r
    using derive_int_groups_3_range by fastforce
  have e: "length (gc ! g) \<le> 2 \<and> set (gc ! g) \<subseteq> {0, 1}" if "g < 80" for g using assign_groups_nth [OF gc gr] that by auto
  define tab where "tab g = map of_nat [0..<length (gc ! g)] @ replicate (3 - length (gc ! g)) (EMPTY :: u32)" for g
  have t: "build_int_keyed_table (gc ! g) g ?p 1 = Some (tab g)" if "g < 80" for g
    using few_chunk_tables [of "gc ! g" g "ra_chunk_master seeds"] e [OF that] by (simp add: tab_def)
  then have ts: "those (map (\<lambda>g. build_int_keyed_table (gc ! g) g ?p 1) [0..<80]) = Some (map tab [0..<80])"
    unfolding those_Some by simp
  have cell: "chunk_slot cfile (gc ! g) x \<noteq> None" if gx: "g < 80" "x \<in> set (tab g)" for g x
  proof (cases "x = EMPTY")
    case True
    then show ?thesis by (simp add: chunk_slot_def)
  next
    case False
    then obtain i where i: "x = of_nat i" "i < length (gc ! g)" using gx(2) by (auto simp: tab_def)
    then have "unat x = i" using e [OF gx(1)] by (simp add: unat_of_nat_small)
    moreover have "(gc ! g) ! i \<in> {0, 1}" using e [OF gx(1)] i(2) nth_mem by blast
    then have "unat ((gc ! g) ! i) < chunk_count cfile" using cc by auto
    ultimately show ?thesis using chunk_slot_occupied(1) [OF False, of "gc ! g" cfile] i(2) by simp
  qed
  obtain body where body: "serialize_tables 80 3 (chunk_slot cfile) (map tab [0..<80]) gc = Some body"
    using serialize_total [of 80 "map tab [0..<80]" "chunk_slot cfile" gc 3] cell by auto
  obtain h where h: "write_header_with_anchor ?p 1 0 (ra_anchor seeds) = Some h" using header_total(2) [OF assms(2)] by blast
  have "map of_nat [0..<unat (of_nat (length cfile div CHUNK_SIZE) :: u32)] = [0, 1 :: u32]" using cc by (simp add: chunk_count_def upt_rec)
  then have "build_chunk_cuckoo (\<lambda>_ _. 1) cfile seeds = Some (h @ body)"
    unfolding build_chunk_cuckoo_def Let_def with_master_seed_simps group_params mult_1
    by (simp only: gc ts h body Option.bind.simps)
  then show ?thesis by blast
qed

definition demo_seeds :: resolved_anchor where
  "demo_seeds = \<lparr>ra_anchor = None, ra_index_master = LEGACY_INDEX_MASTER, ra_chunk_master = LEGACY_CHUNK_MASTER, ra_index_tag = LEGACY_TAG_SEED\<rparr>"

definition demo_hash :: bytes where "demo_hash = replicate 20 0"

definition demo_entry :: utxo_entry where "demo_entry = \<lparr>txid = replicate 32 9, vout = 1, amount = 5000\<rparr>"

text \<open>One record that points at the second of two chunks, with one entry in it.\<close>

definition demo_index :: bytes where "demo_index = demo_hash @ u32_to_le 1 @ [1]"

definition demo_chunks :: bytes where "demo_chunks = replicate 40 0 @ serialize_utxo_data [demo_entry] @ replicate 4 0"

definition demo_info :: database_info where
  "demo_info =
     \<lparr>di_db_id = 0, di_kind = Full, di_name = ''demo'', di_height = 1, di_index_bins = 1, di_chunk_bins = 1, di_index_k = 75, di_chunk_k = 80,
      di_tag_seed = LEGACY_TAG_SEED, di_dpf_n_index = 7, di_dpf_n_chunk = 7, di_has_bucket_merkle = False,
      di_index_master_seed = LEGACY_INDEX_MASTER, di_chunk_master_seed = LEGACY_CHUNK_MASTER, di_anchor_kind = 0, di_anchor_bytes = []\<rparr>"

lemma demo_lengths: "length demo_hash = 20" "length demo_index = 25" "length demo_chunks = 80"
  "record_count demo_index = 1" "chunk_count demo_chunks = 2"
proof -
  show "length demo_hash = 20" "length demo_index = 25" by (simp_all add: demo_hash_def demo_index_def)
  then show "record_count demo_index = 1" by (simp add: record_count_def INDEX_RECORD_SIZE_def SCRIPT_HASH_SIZE_def)
  show "length demo_chunks = 80" by (simp add: demo_chunks_def demo_entry_def serialize_utxo_data_def serialize_utxo_entry_def write_varint_def) code_simp
  then show "chunk_count demo_chunks = 2" by (simp add: chunk_count_def CHUNK_SIZE_def)
qed

lemma demo_record: "record_hash demo_index 0 = demo_hash" "record_tail demo_index 0 = u32_to_le 1 @ [1]"
  by (simp_all add: record_hash_def record_tail_def demo_index_def demo_hash_def slice_def INDEX_RECORD_SIZE_def SCRIPT_HASH_SIZE_def)

lemma demo_lookup: "lookup_record demo_index demo_hash = Some (u32_to_le 1 @ [1])"
  by (simp add: lookup_record_def demo_lengths demo_record)

lemma demo_tag: "tag_exact LEGACY_TAG_SEED demo_index demo_hash"
proof -
  have z: "u64_from_le (replicate 8 0) = 0" "u32_from_le (replicate 4 0) = 0" by code_simp+
  have "splitmix64 LEGACY_TAG_SEED \<noteq> splitmix64 0" using inj_splitmix64 by (simp add: inj_eq LEGACY_TAG_SEED_def)
  moreover have "splitmix64 0 = 0" by (simp add: splitmix64_def)
  moreover have "compute_tag LEGACY_TAG_SEED demo_hash = Some (splitmix64 LEGACY_TAG_SEED)"
    using z by (simp add: compute_tag_def demo_hash_def sh_a_def sh_b_def sh_c_def slice_def Let_def)
  ultimately have "compute_tag LEGACY_TAG_SEED demo_hash \<noteq> Some 0" by simp
  then show ?thesis by (simp add: tag_exact_def demo_lengths demo_record demo_lookup)
qed

end
