(* ===== verification/Libdpf.thy ===== *)
theory Libdpf
  imports Dpf_Demo
begin

text \<open>
  The distributed point function of \<open>vendor/libdpf/src\<close>: blocks (\<open>block.rs\<close>), the generator (\<open>aes.rs\<close>), keys
  (\<open>key.rs\<close>), key generation and partial evaluation (\<open>dpf.rs\<close>). The AES-128 permutation of the \<open>aes\<close> crate under
  the fixed key is the argument \<open>enc\<close>; correctness holds for every function in its place. The random seeds are
  arguments too. \<open>n - 7\<close> on \<open>u8\<close> and shifts on \<open>usize\<close> wrap as in a release build.
\<close>

section \<open>Blocks\<close>

definition block_zero :: dpf_block where "block_zero = \<lparr>blk_low = 0, blk_high = 0\<rparr>"

definition block_xor :: "dpf_block \<Rightarrow> dpf_block \<Rightarrow> dpf_block" where
  "block_xor a b = \<lparr>blk_low = blk_low a XOR blk_low b, blk_high = blk_high a XOR blk_high b\<rparr>"

definition block_lsb :: "dpf_block \<Rightarrow> u8" where
  "block_lsb b = ucast (blk_low b AND 1)"

definition reverse_lsb :: "dpf_block \<Rightarrow> dpf_block" where
  "reverse_lsb b = \<lparr>blk_low = blk_low b XOR 1, blk_high = blk_high b\<rparr>"

definition set_lsb_zero :: "dpf_block \<Rightarrow> dpf_block" where
  "set_lsb_zero b = (if block_lsb b = 1 then reverse_lsb b else b)"

definition left_shift :: "dpf_block \<Rightarrow> nat \<Rightarrow> dpf_block" where
  "left_shift b n =
     (if n = 0 then b
      else if 128 \<le> n then block_zero
      else if 64 \<le> n then \<lparr>blk_low = 0, blk_high = push_bit (n - 64) (blk_low b)\<rparr>
      else \<lparr>blk_low = push_bit n (blk_low b), blk_high = push_bit n (blk_high b) OR drop_bit (64 - n) (blk_low b)\<rparr>)"

definition block_to_bytes :: "dpf_block \<Rightarrow> bytes" where
  "block_to_bytes b = u64_to_le (blk_low b) @ u64_to_le (blk_high b)"

definition block_from_bytes :: "bytes \<Rightarrow> dpf_block" where
  "block_from_bytes bs = \<lparr>blk_low = u64_from_le (slice bs 0 8), blk_high = u64_from_le (slice bs 8 8)\<rparr>"

section \<open>The generator\<close>

definition generate :: "(dpf_block \<Rightarrow> dpf_block) \<Rightarrow> dpf_block \<Rightarrow> dpf_block \<times> dpf_block \<times> u8 \<times> u8" where
  "generate enc input =
     (let input_zeroed = set_lsb_zero input;
          stash0 = block_xor (enc input_zeroed) input_zeroed;
          stash1 = reverse_lsb (block_xor (enc (reverse_lsb input_zeroed)) input_zeroed)
      in (set_lsb_zero stash0, set_lsb_zero stash1, block_lsb stash0, block_lsb stash1))"

text \<open>A node of the evaluation tree is its seed and its control bit.\<close>

type_synonym dpf_node = "dpf_block \<times> u8"

definition generate_batch :: "(dpf_block \<Rightarrow> dpf_block) \<Rightarrow> dpf_block list \<Rightarrow> dpf_node list" where
  "generate_batch enc inputs =
     (let scratch = map enc (concat (map (\<lambda>input. [set_lsb_zero input, reverse_lsb (set_lsb_zero input)]) inputs))
      in concat (map (\<lambda>i.
           let zeroed = set_lsb_zero (inputs ! i);
               stash0 = block_xor (scratch ! (2 * i)) zeroed;
               stash1 = reverse_lsb (block_xor (scratch ! (2 * i + 1)) zeroed)
           in [(set_lsb_zero stash0, block_lsb stash0), (set_lsb_zero stash1, block_lsb stash1)]) [0..<length inputs]))"

section \<open>Keys\<close>

record dpf_key =
  dk_n :: u8
  dk_s0 :: dpf_block
  dk_t0 :: u8
  dk_scw :: "dpf_block list"
  dk_tcw :: "(u8 \<times> u8) list"
  dk_final :: dpf_block

definition max_layer :: "u8 \<Rightarrow> nat" where
  "max_layer n = unat (n - 7)"

text \<open>A key has one correction word and one pair of correction bits per layer.\<close>

definition key_to_bytes :: "dpf_key \<Rightarrow> bytes" where
  "key_to_bytes key =
     [dk_n key] @ block_to_bytes (dk_s0 key) @ [dk_t0 key] @
     concat (map (\<lambda>i. block_to_bytes (dk_scw key ! i) @ [fst (dk_tcw key ! i), snd (dk_tcw key ! i)]) [0..<length (dk_scw key)]) @
     block_to_bytes (dk_final key)"

definition key_from_bytes :: "bytes \<Rightarrow> (string, dpf_key) result" where
  "key_from_bytes bs =
     (if length bs < 18 then Inl ''Key too short''
      else let maxlayer = max_layer (bs ! 0); expected_size = 1 + 16 + 1 + 18 * maxlayer + 16
      in if length bs < expected_size then Inl ''Key has incorrect length''
      else Inr \<lparr>dk_n = bs ! 0, dk_s0 = block_from_bytes (slice bs 1 16), dk_t0 = bs ! 17,
             dk_scw = map (\<lambda>i. block_from_bytes (slice bs (18 * (i + 1)) 16)) [0..<maxlayer],
             dk_tcw = map (\<lambda>i. (bs ! (18 * (i + 1) + 16), bs ! (18 * (i + 1) + 17))) [0..<maxlayer],
             dk_final = block_from_bytes (slice bs (18 * (maxlayer + 1)) 16)\<rparr>)"

text \<open>The server unwraps the result.\<close>

definition parse_key :: "bytes \<Rightarrow> dpf_key option" where
  "parse_key bs = (case key_from_bytes bs of Inl _ \<Rightarrow> None | Inr key \<Rightarrow> Some key)"

section \<open>Key generation\<close>

definition get_bit :: "u64 \<Rightarrow> nat \<Rightarrow> nat \<Rightarrow> u8" where
  "get_bit x n b = ucast (drop_bit (n - b) x AND 1)"

text \<open>One layer: the correction word, the correction bits, and the nodes of the two parties on the path.\<close>

definition gen_layer ::
  "(dpf_block \<Rightarrow> dpf_block) \<Rightarrow> u8 \<Rightarrow> dpf_node \<Rightarrow> dpf_node \<Rightarrow> (dpf_block \<times> u8 \<times> u8) \<times> dpf_node \<times> dpf_node" where
  "gen_layer enc alpha_bit node0 node1 =
     (let (s0_left, s0_right, t0_left, t0_right) = generate enc (fst node0);
          (s1_left, s1_right, t1_left, t1_right) = generate enc (fst node1);
          scw = (if alpha_bit = 0 then block_xor s0_right s1_right else block_xor s0_left s1_left);
          tcw0 = t0_left XOR t1_left XOR alpha_bit XOR 1;
          tcw1 = t0_right XOR t1_right XOR alpha_bit;
          tcw_keep = (if alpha_bit = 0 then tcw0 else tcw1);
          propagate = (\<lambda>t s_keep t_keep. if t = 1 then (block_xor s_keep scw, t_keep XOR tcw_keep) else (s_keep, t_keep))
      in ((scw, tcw0, tcw1),
          if alpha_bit = 0 then propagate (snd node0) s0_left t0_left else propagate (snd node0) s0_right t0_right,
          if alpha_bit = 0 then propagate (snd node1) s1_left t1_left else propagate (snd node1) s1_right t1_right))"

fun gen_layers ::
  "(dpf_block \<Rightarrow> dpf_block) \<Rightarrow> u64 \<Rightarrow> nat \<Rightarrow> nat list \<Rightarrow> dpf_node \<Rightarrow> dpf_node \<Rightarrow> (dpf_block \<times> u8 \<times> u8) list \<times> dpf_node \<times> dpf_node" where
  "gen_layers enc alpha n [] node0 node1 = ([], node0, node1)"
| "gen_layers enc alpha n (i # layers) node0 node1 =
     (let (cw, node0, node1) = gen_layer enc (get_bit alpha n i) node0 node1;
          (cws, ends) = gen_layers enc alpha n layers node0 node1
      in (cw # cws, ends))"

definition dpf_gen :: "(dpf_block \<Rightarrow> dpf_block) \<Rightarrow> dpf_block \<Rightarrow> dpf_block \<Rightarrow> u64 \<Rightarrow> u8 \<Rightarrow> dpf_key \<times> dpf_key" where
  "dpf_gen enc seed0 seed1 alpha n =
     (let t0 = block_lsb seed0; t1 = t0 XOR 1; s0 = set_lsb_zero seed0; s1 = set_lsb_zero seed1;
          (cws, (end0, _), (end1, _)) = gen_layers enc alpha (unat n) [1..<Suc (max_layer n)] (s0, t0) (s1, t1);
          final_block = block_xor (block_xor (reverse_lsb (left_shift (reverse_lsb block_zero) (unat (alpha AND 127)))) end0) end1;
          key = (\<lambda>s t. \<lparr>dk_n = n, dk_s0 = s, dk_t0 = t, dk_scw = map fst cws, dk_tcw = map snd cws, dk_final = final_block\<rparr>)
      in (key s0 t0, key s1 t1))"

section \<open>Evaluation\<close>

text \<open>The children of a node; the code corrects them in place or as they are written.\<close>

definition correct :: "dpf_block \<Rightarrow> u8 \<times> u8 \<Rightarrow> u8 \<Rightarrow> dpf_node \<Rightarrow> dpf_node \<Rightarrow> dpf_node list" where
  "correct scw tcw t left right =
     (if t = 1 then [(block_xor (fst left) scw, snd left XOR fst tcw), (block_xor (fst right) scw, snd right XOR snd tcw)] else [left, right])"

definition expand_batch :: "(dpf_block \<Rightarrow> dpf_block) \<Rightarrow> dpf_block \<Rightarrow> u8 \<times> u8 \<Rightarrow> dpf_node list \<Rightarrow> dpf_node list" where
  "expand_batch enc scw tcw parents =
     (let out = generate_batch enc (map fst parents)
      in concat (map (\<lambda>j. correct scw tcw (snd (parents ! j)) (out ! (2 * j)) (out ! (2 * j + 1))) [0..<length parents]))"

definition expand_node :: "(dpf_block \<Rightarrow> dpf_block) \<Rightarrow> dpf_block \<Rightarrow> u8 \<times> u8 \<Rightarrow> dpf_node \<Rightarrow> dpf_node list" where
  "expand_node enc scw tcw parent =
     (let (sl, sr, tl, tr) = generate enc (fst parent) in correct scw tcw (snd parent) (sl, tl) (sr, tr))"

definition BATCH_THRESHOLD :: nat where "BATCH_THRESHOLD = 8"
definition PARALLEL_THRESHOLD :: nat where "PARALLEL_THRESHOLD = 512"

definition expand_layer :: "(dpf_block \<Rightarrow> dpf_block) \<Rightarrow> dpf_block \<Rightarrow> u8 \<times> u8 \<Rightarrow> dpf_node list \<Rightarrow> dpf_node list" where
  "expand_layer enc scw tcw parents =
     (if PARALLEL_THRESHOLD \<le> length parents then concat (map (expand_batch enc scw tcw) (chunks 256 parents))
      else if BATCH_THRESHOLD \<le> length parents then expand_batch enc scw tcw parents
      else concat (map (expand_node enc scw tcw) parents))"

text \<open>A shift of 1 on a 64-bit \<open>usize\<close>.\<close>

definition shl_one :: "nat \<Rightarrow> nat" where
  "shl_one k = 2 ^ (k mod 64)"

text \<open>The two buffers change roles after every layer; a layer overwrites the first entries only.\<close>

definition parents_needed :: "nat \<Rightarrow> nat \<Rightarrow> nat \<Rightarrow> nat" where
  "parents_needed maxlayer num_blocks i =
     (let shift = maxlayer - i + 1
      in if num_blocks = shl_one maxlayer then shl_one (i - 1) else (num_blocks + shl_one shift - 1) div shl_one shift)"

definition eval_layer :: "(dpf_block \<Rightarrow> dpf_block) \<Rightarrow> dpf_key \<Rightarrow> nat \<Rightarrow> nat \<Rightarrow> dpf_node list \<Rightarrow> dpf_node list \<Rightarrow> dpf_node list" where
  "eval_layer enc key num_blocks i prev cur =
     (let parents = parents_needed (max_layer (dk_n key)) num_blocks i
      in expand_layer enc (dk_scw key ! (i - 1)) (dk_tcw key ! (i - 1)) (take parents prev) @ drop (2 * parents) cur)"

fun eval_layers ::
  "(dpf_block \<Rightarrow> dpf_block) \<Rightarrow> dpf_key \<Rightarrow> nat \<Rightarrow> nat list \<Rightarrow> dpf_node list \<Rightarrow> dpf_node list \<Rightarrow> dpf_node list" where
  "eval_layers enc key num_blocks [] prev cur = prev"
| "eval_layers enc key num_blocks (i # layers) prev cur = eval_layers enc key num_blocks layers (eval_layer enc key num_blocks i prev cur) prev"

definition finish_block :: "dpf_key \<Rightarrow> dpf_node \<Rightarrow> dpf_block" where
  "finish_block key node = (if snd node = 1 then block_xor (reverse_lsb (fst node)) (dk_final key) else fst node)"

definition eval_partial :: "(dpf_block \<Rightarrow> dpf_block) \<Rightarrow> dpf_key \<Rightarrow> u64 \<Rightarrow> dpf_block list" where
  "eval_partial enc key num_points =
     (let maxlayer = max_layer (dk_n key); full_domain_blocks = shl_one maxlayer;
          num_blocks = min ((unat num_points + 127) mod 2 ^ 64 div 128) full_domain_blocks
      in if num_blocks = 0 then []
         else let buf_size = (if num_blocks = full_domain_blocks then full_domain_blocks else num_blocks + 1);
                  buf = replicate buf_size (block_zero, 0);
                  nodes = eval_layers enc key num_blocks [1..<Suc maxlayer] (buf[0 := (dk_s0 key, dk_t0 key)]) buf
              in map (\<lambda>j. finish_block key (nodes ! j)) [0..<num_blocks])"

text \<open>Evaluation at a single point, and at all points.\<close>

fun eval_walk :: "(dpf_block \<Rightarrow> dpf_block) \<Rightarrow> dpf_key \<Rightarrow> u64 \<Rightarrow> nat list \<Rightarrow> dpf_node \<Rightarrow> dpf_node" where
  "eval_walk enc key x [] node = node"
| "eval_walk enc key x (i # layers) node =
     (let children = expand_node enc (dk_scw key ! (i - 1)) (dk_tcw key ! (i - 1)) node;
          x_bit = get_bit x (unat (dk_n key)) i
      in eval_walk enc key x layers (if x_bit = 0 then children ! 0 else children ! 1))"

definition dpf_eval :: "(dpf_block \<Rightarrow> dpf_block) \<Rightarrow> dpf_key \<Rightarrow> u64 \<Rightarrow> dpf_block" where
  "dpf_eval enc key x = finish_block key (eval_walk enc key x [1..<Suc (max_layer (dk_n key))] (dk_s0 key, dk_t0 key))"

definition eval_full :: "(dpf_block \<Rightarrow> dpf_block) \<Rightarrow> dpf_key \<Rightarrow> dpf_block list" where
  "eval_full enc key = eval_partial enc key (push_bit (unat (dk_n key) mod 64) 1)"

end
