(* ===== verification/Libdpf_Correct.thy ===== *)
theory Libdpf_Correct
  imports Libdpf
begin

text \<open>
  Correctness of the DPF library (theory \<open>Libdpf\<close>): the partial evaluation computes the leaves of a binary tree,
  the two trees of a key pair differ on the path to the point only, and serialised keys parse back. Nothing is
  assumed of the block cipher.
\<close>

section \<open>Blocks\<close>

definition block_one :: dpf_block where "block_one = \<lparr>blk_low = 1, blk_high = 0\<rparr>"

lemma block_xor_ac:
  "block_xor (block_xor a b) c = block_xor a (block_xor b c)" "block_xor a b = block_xor b a" "block_xor a (block_xor b c) = block_xor b (block_xor a c)"
  by (simp_all add: block_xor_def ac_simps)

lemma block_xor_cancel: "block_xor a (block_xor a b) = b" "block_xor a a = block_zero" "block_xor a block_zero = a" "block_xor block_zero a = a"
  by (simp_all add: block_xor_def block_zero_def flip: xor.assoc)

lemma reverse_lsb_xor: "reverse_lsb b = block_xor b block_one"
  by (simp add: reverse_lsb_def block_xor_def block_one_def)

lemma lsb_range: "block_lsb b = 0 \<or> block_lsb b = 1"
  by (cases "odd (blk_low b)") (simp_all add: block_lsb_def and_one_eq mod_2_eq_odd)

lemma get_dpf_bit_xor: "get_dpf_bit (block_xor a b) i \<longleftrightarrow> get_dpf_bit a i \<noteq> get_dpf_bit b i"
proof -
  have b: "drop_bit k x AND 1 = 1 \<longleftrightarrow> bit x k" for k and x :: u64 by (simp add: bit_iff_odd_drop_bit and_one_eq odd_iff_mod_2_eq_one)
  show ?thesis unfolding get_dpf_bit_def b by (simp add: block_xor_def bit_xor_iff)
qed

lemma shifted_one: "k < 128 \<Longrightarrow> left_shift block_one k = demo_block k"
proof -
  assume k: "k < 128"
  have "drop_bit j (1 :: u64) = 0" if "0 < j" for j using that by (cases j) (simp_all add: drop_bit_Suc)
  then show ?thesis using k by (auto simp: left_shift_def block_one_def demo_block_def)
qed

lemma block_bytes_roundtrip: "block_from_bytes (block_to_bytes b) = b" "length (block_to_bytes b) = 16"
  by (simp_all add: block_from_bytes_def block_to_bytes_def slice_def)

section \<open>The layers of the tree\<close>

lemma generate_batch_eq:
  "generate_batch enc inputs = concat (map (\<lambda>x. let (sl, sr, tl, tr) = generate enc x in [(sl, tl), (sr, tr)]) inputs)"
proof (induction inputs)
  case (Cons x xs)
  have u: "[0..<length (x # xs)] = 0 # map Suc [0..<length xs]" by (simp add: upt_conv_Cons map_Suc_upt del: upt_Suc)
  show ?case using Cons unfolding generate_batch_def u by (simp add: Let_def o_def generate_def)
qed (simp add: generate_batch_def)

lemma nth_pairs:
  assumes "\<forall>x \<in> set xs. length (f x) = 2" and "j < length xs"
  shows "concat (map f xs) ! (2 * j) = f (xs ! j) ! 0" and "concat (map f xs) ! (2 * j + 1) = f (xs ! j) ! 1"
  using assms
proof (induction xs arbitrary: j)
  case (Cons x xs)
  {
    case 1
    then show ?case using Cons.IH(1) [of "j - 1"] by (cases j) (auto simp: nth_append)
  next
    case 2
    then show ?case using Cons.IH(2) [of "j - 1"] by (cases j) (auto simp: nth_append)
  }
qed simp_all

lemma length_expand_node [simp]: "length (expand_node enc scw tcw p) = 2"
  by (simp add: expand_node_def correct_def split: prod.split)

lemma expand_batch_eq: "expand_batch enc scw tcw parents = concat (map (expand_node enc scw tcw) parents)"
proof -
  let ?f = "\<lambda>x. let (sl, sr, tl, tr) = generate enc x in [(sl, tl), (sr, tr)]"
  have l: "\<forall>x \<in> set (map fst parents). length (?f x) = 2" by (simp add: Let_def split: prod.split)
  have "correct scw tcw (snd (parents ! j)) (generate_batch enc (map fst parents) ! (2 * j)) (generate_batch enc (map fst parents) ! (2 * j + 1)) =
      expand_node enc scw tcw (parents ! j)" if "j < length parents" for j
    unfolding generate_batch_eq using nth_pairs [OF l, of j] that by (simp add: expand_node_def Let_def split: prod.split)
  then have "map (\<lambda>j. correct scw tcw (snd (parents ! j)) (generate_batch enc (map fst parents) ! (2 * j)) (generate_batch enc (map fst parents) ! (2 * j + 1)))
      [0..<length parents] = map (expand_node enc scw tcw) parents"
    by (intro nth_equalityI) simp_all
  then show ?thesis by (simp add: expand_batch_def)
qed

lemma expand_layer_eq: "expand_layer enc scw tcw parents = concat (map (expand_node enc scw tcw) parents)"
proof -
  have "concat (map (expand_batch enc scw tcw) xss) = concat (map (expand_node enc scw tcw) (concat xss))" for xss
    by (induction xss) (simp_all add: expand_batch_eq)
  then show ?thesis by (simp add: expand_layer_def expand_batch_eq)
qed

text \<open>The node at position \<open>j\<close> of layer \<open>i\<close>.\<close>

fun node_at :: "(dpf_block \<Rightarrow> dpf_block) \<Rightarrow> dpf_key \<Rightarrow> nat \<Rightarrow> nat \<Rightarrow> dpf_node" where
  "node_at enc key 0 j = (dk_s0 key, dk_t0 key)"
| "node_at enc key (Suc i) j = expand_node enc (dk_scw key ! i) (dk_tcw key ! i) (node_at enc key i (j div 2)) ! (j mod 2)"

lemma div_ceil_multiple: "0 < b \<Longrightarrow> div_ceil (a * b) b = a"
  using div_ceil_le_iff [of b "a * b" a] div_ceil_le_iff [of b "a * b" "div_ceil (a * b) b"] by (intro order.antisym) simp_all

lemma parents_needed_eq:
  assumes "maxlayer < 64" and "num_blocks \<le> 2 ^ maxlayer" and "1 \<le> i" and "i \<le> maxlayer"
  shows "parents_needed maxlayer num_blocks i = div_ceil num_blocks (2 ^ (maxlayer - i + 1))"
proof -
  have s: "shl_one maxlayer = 2 ^ maxlayer" "shl_one (i - 1) = 2 ^ (i - 1)" "shl_one (maxlayer - i + 1) = 2 ^ (maxlayer - i + 1)"
    using assms by (simp_all add: shl_one_def)
  have "(2 :: nat) ^ maxlayer = 2 ^ (i - 1) * 2 ^ (maxlayer - i + 1)" using assms(3,4) power_add [of "2 :: nat" "i - 1" "maxlayer - i + 1"] by simp
  then have "div_ceil (2 ^ maxlayer) (2 ^ (maxlayer - i + 1)) = 2 ^ (i - 1)" using div_ceil_multiple [of "2 ^ (maxlayer - i + 1)" "2 ^ (i - 1)"] by simp
  then show ?thesis unfolding parents_needed_def Let_def s by (simp add: div_ceil_def)
qed

lemma half_parents:
  assumes "0 < k"
  shows "div_ceil n k \<le> 2 * div_ceil n (2 * k)"
proof -
  have "n \<le> div_ceil n (2 * k) * (2 * k)" using assms div_ceil_le_iff [of "2 * k" n "div_ceil n (2 * k)"] by (simp add: mult.commute)
  then show ?thesis using assms div_ceil_le_iff [of k n] by (simp add: ac_simps)
qed

lemma nth_pair:
  assumes "\<forall>x \<in> set xs. length (f x) = 2" and "j < 2 * length xs"
  shows "concat (map f xs) ! j = f (xs ! (j div 2)) ! (j mod 2)"
  using nth_pairs [OF assms(1), of "j div 2"] assms(2) by (cases "even j") (auto elim!: evenE oddE)

lemma eval_layer_nodes:
  assumes "max_layer (dk_n key) = m" and "m < 64" and "num_blocks \<le> 2 ^ m" and "i < m"
    and "div_ceil num_blocks (2 ^ (m - i)) \<le> length prev" and "\<forall>j < div_ceil num_blocks (2 ^ (m - i)). prev ! j = node_at enc key i j"
  shows "div_ceil num_blocks (2 ^ (m - Suc i)) \<le> length (eval_layer enc key num_blocks (Suc i) prev cur)"
    and "\<forall>j < div_ceil num_blocks (2 ^ (m - Suc i)). eval_layer enc key num_blocks (Suc i) prev cur ! j = node_at enc key (Suc i) j"
proof -
  let ?p = "div_ceil num_blocks (2 ^ (m - i))" and ?e = "expand_node enc (dk_scw key ! i) (dk_tcw key ! i)"
  have "m - Suc i + 1 = m - i" using assms(4) by simp
  then have p: "parents_needed m num_blocks (Suc i) = ?p" using parents_needed_eq [OF assms(2,3), of "Suc i"] assms(4) by simp
  have t: "take ?p prev = map (node_at enc key i) [0..<?p]" using assms(5,6) by (intro nth_equalityI) simp_all
  have e: "eval_layer enc key num_blocks (Suc i) prev cur = concat (map ?e (map (node_at enc key i) [0..<?p])) @ drop (2 * ?p) cur"
    by (simp only: eval_layer_def assms(1) p Let_def t expand_layer_eq) simp
  have l: "length (concat (map ?e (map (node_at enc key i) [0..<?p]))) = 2 * ?p"
    using length_concat_fixed [of "map ?e (map (node_at enc key i) [0..<?p])" 2] by simp
  have "(2 :: nat) ^ (m - i) = 2 * 2 ^ (m - Suc i)" using assms(4) by (simp flip: power_Suc add: Suc_diff_Suc)
  then have h: "div_ceil num_blocks (2 ^ (m - Suc i)) \<le> 2 * ?p" using half_parents [of "2 ^ (m - Suc i)" num_blocks] by simp
  then show "div_ceil num_blocks (2 ^ (m - Suc i)) \<le> length (eval_layer enc key num_blocks (Suc i) prev cur)" unfolding e using l by simp
  have "concat (map ?e (map (node_at enc key i) [0..<?p])) ! j = node_at enc key (Suc i) j" if "j < 2 * ?p" for j
    using nth_pair [of "map (node_at enc key i) [0..<?p]" ?e j] that by simp
  then show "\<forall>j < div_ceil num_blocks (2 ^ (m - Suc i)). eval_layer enc key num_blocks (Suc i) prev cur ! j = node_at enc key (Suc i) j"
    unfolding e using l h by (simp add: nth_append)
qed

lemma eval_layers_nodes:
  assumes "max_layer (dk_n key) = m" and "m < 64" and "num_blocks \<le> 2 ^ m" and "i \<le> m"
    and "div_ceil num_blocks (2 ^ (m - i)) \<le> length prev" and "\<forall>j < div_ceil num_blocks (2 ^ (m - i)). prev ! j = node_at enc key i j"
  shows "\<forall>j < num_blocks. eval_layers enc key num_blocks [Suc i..<Suc m] prev cur ! j = node_at enc key m j"
  using assms(4-6)
proof (induction "m - i" arbitrary: i prev cur)
  case 0
  then have "i = m" by simp
  then show ?case using 0 by (simp add: div_ceil_def)
next
  case (Suc d)
  then have i: "i < m" by simp
  then have u: "[Suc i..<Suc m] = Suc i # [Suc (Suc i)..<Suc m]" by (simp add: upt_conv_Cons del: upt_Suc)
  note E = eval_layer_nodes [OF assms(1-3) i Suc.prems(2,3)]
  have "d = m - Suc i" using Suc.hyps(2) by simp
  from Suc.hyps(1) [OF this _ E] i show ?case unfolding u by simp
qed

lemma eval_partial_nodes:
  assumes "max_layer (dk_n key) = m" and "m < 57" and "bins \<le> 2 ^ (m + 7)"
  shows "eval_partial enc key (of_nat bins) = map (\<lambda>j. finish_block key (node_at enc key m j)) [0..<div_ceil bins 128]"
proof -
  have b: "bins < 2 ^ 64 - 127"
  proof -
    have "(2 :: nat) ^ (m + 7) \<le> 2 ^ 63" using assms(2) by (intro power_increasing) simp_all
    then show ?thesis using assms(3) by simp
  qed
  then have u: "unat (of_nat bins :: u64) = bins" by (intro unat_of_nat_small) simp
  have "bins \<le> 2 ^ m * 128" using assms(3) by (simp add: power_add)
  then have n: "div_ceil bins 128 \<le> 2 ^ m" by (simp add: div_ceil_le_iff)
  have s: "shl_one m = 2 ^ m" using assms(2) by (simp add: shl_one_def)
  have nb: "min ((unat (of_nat bins :: u64) + 127) mod 2 ^ 64 div 128) (shl_one m) = div_ceil bins 128"
    unfolding u s using b n by (simp add: div_ceil_def)
  show ?thesis
  proof (cases "div_ceil bins 128 = 0")
    case True
    then show ?thesis unfolding eval_partial_def Let_def assms(1) nb by simp
  next
    case False
    let ?nb = "div_ceil bins 128"
    let ?buf = "replicate (if ?nb = shl_one m then shl_one m else ?nb + 1) (block_zero, 0 :: u8)"
    have l: "0 < length ?buf" by (simp add: s)
    have "div_ceil ?nb (2 ^ (m - 0)) \<le> 1" using n by (simp add: div_ceil_le_iff)
    then have one: "j < div_ceil ?nb (2 ^ (m - 0)) \<Longrightarrow> j = 0" for j by simp
    have "\<forall>j < ?nb. eval_layers enc key ?nb [Suc 0..<Suc m] (?buf[0 := (dk_s0 key, dk_t0 key)]) ?buf ! j = node_at enc key m j"
    proof (rule eval_layers_nodes [OF assms(1) _ n])
      show "m < 64" using assms(2) by simp
      show "div_ceil ?nb (2 ^ (m - 0)) \<le> length (?buf[0 := (dk_s0 key, dk_t0 key)])"
        unfolding length_list_update using \<open>div_ceil ?nb (2 ^ (m - 0)) \<le> 1\<close> l by linarith
      show "\<forall>j < div_ceil ?nb (2 ^ (m - 0)). ?buf[0 := (dk_s0 key, dk_t0 key)] ! j = node_at enc key 0 j"
        using one l by (metis node_at.simps(1) nth_list_update_eq)
    qed simp
    then show ?thesis unfolding eval_partial_def Let_def assms(1) nb using False by simp
  qed
qed


section \<open>The two trees of a key pair\<close>

text \<open>The control bits of the two parties differ.\<close>

definition split_bits :: "dpf_node \<Rightarrow> dpf_node \<Rightarrow> bool" where
  "split_bits a b \<longleftrightarrow> (snd a = 0 \<and> snd b = 1) \<or> (snd a = 1 \<and> snd b = 0)"

lemma xor_twice: "x XOR (x XOR y) = (y :: u8)"
  by (simp flip: xor.assoc)

lemma gen_layer_splits:
  assumes "gen_layer enc w a b = (cw, a', b')" and "split_bits a b" and "w = 0 \<or> w = 1"
  shows "split_bits a' b'" and "expand_node enc (fst cw) (snd cw) a ! unat w = a'" and "expand_node enc (fst cw) (snd cw) b ! unat w = b'"
    and "expand_node enc (fst cw) (snd cw) a ! (1 - unat w) = expand_node enc (fst cw) (snd cw) b ! (1 - unat w)"
proof -
  obtain sl sr tl tr where g: "generate enc (fst a) = (sl, sr, tl, tr)" by (metis prod_cases4)
  obtain sl' sr' tl' tr' where g': "generate enc (fst b) = (sl', sr', tl', tr')" by (metis prod_cases4)
  have t: "tl = 0 \<or> tl = 1" "tr = 0 \<or> tr = 1" "tl' = 0 \<or> tl' = 1" "tr' = 0 \<or> tr' = 1"
    using g g' lsb_range by (auto simp: generate_def Let_def)
  note defs = gen_layer_def g g' Let_def expand_node_def correct_def block_xor_ac block_xor_cancel xor_twice xor.assoc xor.commute xor.left_commute split_bits_def
  consider "w = 0" "snd a = 0" "snd b = 1" | "w = 0" "snd a = 1" "snd b = 0" | "w = 1" "snd a = 0" "snd b = 1" | "w = 1" "snd a = 1" "snd b = 0"
    using assms(2,3) by (auto simp: split_bits_def)
  then have "split_bits a' b' \<and> expand_node enc (fst cw) (snd cw) a ! unat w = a' \<and> expand_node enc (fst cw) (snd cw) b ! unat w = b' \<and>
    expand_node enc (fst cw) (snd cw) a ! (1 - unat w) = expand_node enc (fst cw) (snd cw) b ! (1 - unat w)"
  proof cases
    case 1
    then show ?thesis using assms(1) t(1,3) by (auto simp: defs)
  next
    case 2
    then show ?thesis using assms(1) t(1,3) by (auto simp: defs)
  next
    case 3
    then show ?thesis using assms(1) t(2,4) by (auto simp: defs)
  next
    case 4
    then show ?thesis using assms(1) t(2,4) by (auto simp: defs)
  qed
  then show "split_bits a' b'" "expand_node enc (fst cw) (snd cw) a ! unat w = a'" "expand_node enc (fst cw) (snd cw) b ! unat w = b'"
    "expand_node enc (fst cw) (snd cw) a ! (1 - unat w) = expand_node enc (fst cw) (snd cw) b ! (1 - unat w)" by blast+
qed

lemma get_bit_value: "get_bit x n b = 0 \<or> get_bit x n b = 1" "unat (get_bit x n b) = unat x div 2 ^ (n - b) mod 2"
proof -
  let ?y = "drop_bit (n - b) x"
  have g: "get_bit x n b = of_bool (odd ?y)" by (simp add: get_bit_def and_one_eq mod_2_eq_odd)
  then show "get_bit x n b = 0 \<or> get_bit x n b = 1" by simp
  have "odd ?y \<longleftrightarrow> bit x (n - b)" by (simp add: bit_iff_odd_drop_bit)
  also have "\<dots> \<longleftrightarrow> odd (unat x div 2 ^ (n - b))" unfolding bit_iff_odd [of "unat x", symmetric] by (simp add: bit_unsigned_iff)
  finally show "unat (get_bit x n b) = unat x div 2 ^ (n - b) mod 2" unfolding g by (simp add: mod_2_eq_odd)
qed

text \<open>The trees of two keys agree outside the path to \<open>alpha\<close>, and on the path their nodes are \<open>a\<close> and \<open>b\<close>.\<close>

definition differ_on_path :: "(dpf_block \<Rightarrow> dpf_block) \<Rightarrow> dpf_key \<Rightarrow> dpf_key \<Rightarrow> u64 \<Rightarrow> nat \<Rightarrow> nat \<Rightarrow> dpf_node \<Rightarrow> dpf_node \<Rightarrow> bool" where
  "differ_on_path enc ka kb alpha n i a b \<longleftrightarrow>
     (let p = unat alpha div 2 ^ (n - i)
      in split_bits a b \<and> node_at enc ka i p = a \<and> node_at enc kb i p = b \<and> (\<forall>j < 2 ^ i. j \<noteq> p \<longrightarrow> node_at enc ka i j = node_at enc kb i j))"

lemma path_step:
  assumes "differ_on_path enc ka kb alpha n i a b" and "gen_layer enc (get_bit alpha n (Suc i)) a b = (cw, a', b')" and "i < n"
    and "dk_scw ka ! i = fst cw" and "dk_scw kb ! i = fst cw" and "dk_tcw ka ! i = snd cw" and "dk_tcw kb ! i = snd cw"
  shows "differ_on_path enc ka kb alpha n (Suc i) a' b'"
proof -
  let ?p = "unat alpha div 2 ^ (n - i)" and ?q = "unat alpha div 2 ^ (n - Suc i)"
  have D: "split_bits a b" "node_at enc ka i ?p = a" "node_at enc kb i ?p = b" "\<And>j. j < 2 ^ i \<Longrightarrow> j \<noteq> ?p \<Longrightarrow> node_at enc ka i j = node_at enc kb i j"
    using assms(1) by (auto simp: differ_on_path_def Let_def)
  note G = gen_layer_splits [OF assms(2) D(1) get_bit_value(1), unfolded get_bit_value(2)]
  have "n - i = Suc (n - Suc i)" using assms(3) by simp
  then have q: "?q div 2 = ?p" by (simp add: div_mult2_eq [symmetric] mult.commute)
  have "node_at enc ka (Suc i) j = node_at enc kb (Suc i) j" if "j < 2 ^ Suc i" "j \<noteq> ?q" for j
  proof (cases "j div 2 = ?p")
    case True
    then have "j mod 2 \<noteq> ?q mod 2" using that(2) q by (metis div_mult_mod_eq)
    then have "j mod 2 = 1 - ?q mod 2" by (auto simp: mod_2_eq_odd of_bool_def split: if_splits)
    then show ?thesis using G(4) True D(2,3) assms(4-7) by simp
  next
    case False
    then show ?thesis using D(4) [of "j div 2"] that(1) assms(4-7) by simp
  qed
  then show ?thesis using G(1-3) q D(2,3) assms(4-7) by (simp add: differ_on_path_def Let_def)
qed

lemma gen_layers_path:
  assumes "gen_layers enc alpha n [Suc i..<Suc m] a b = (cws, a', b')" and "i \<le> m" and "m \<le> n" and "differ_on_path enc ka kb alpha n i a b"
    and "dk_scw ka = map fst (pre @ cws)" and "dk_scw kb = map fst (pre @ cws)" and "dk_tcw ka = map snd (pre @ cws)" and "dk_tcw kb = map snd (pre @ cws)"
    and "length pre = i"
  shows "differ_on_path enc ka kb alpha n m a' b'" and "length cws = m - i"
proof -
  have "differ_on_path enc ka kb alpha n m a' b' \<and> length cws = m - i"
    using assms
  proof (induction "m - i" arbitrary: i a b cws pre)
    case 0
    then show ?case by simp
  next
    case (Suc d)
    then have i: "i < m" by simp
    then have u: "[Suc i..<Suc m] = Suc i # [Suc (Suc i)..<Suc m]" by (simp add: upt_conv_Cons del: upt_Suc)
    obtain cw a1 b1 where g: "gen_layer enc (get_bit alpha n (Suc i)) a b = (cw, a1, b1)" by (metis prod_cases3)
    obtain cws1 where c: "gen_layers enc alpha n [Suc (Suc i)..<Suc m] a1 b1 = (cws1, a', b')" "cws = cw # cws1"
      using Suc.prems(1) g unfolding u by (auto simp: Let_def split: prod.splits simp del: upt_Suc)
    have k: "dk_scw ka ! i = fst cw" "dk_scw kb ! i = fst cw" "dk_tcw ka ! i = snd cw" "dk_tcw kb ! i = snd cw"
      using Suc.prems(5-9) c(2) by (simp_all add: nth_append)
    have "differ_on_path enc ka kb alpha n (Suc i) a1 b1" by (rule path_step [OF Suc.prems(4) g _ k]) (use i Suc.prems(3) in simp)
    from Suc.hyps(1) [OF _ c(1) _ Suc.prems(3) this, of "pre @ [cw]"] Suc.hyps(2) Suc.prems(5-9) c(2) i show ?case by auto
  qed
  then show "differ_on_path enc ka kb alpha n m a' b'" "length cws = m - i" by blast+
qed


section \<open>Key pairs\<close>

lemma low_bits: "unat (x AND 127 :: u64) = unat x mod 128"
proof -
  have "x AND 127 = take_bit 7 x" by (simp add: take_bit_eq_mask mask_eq_exp_minus_1)
  then have "x AND 127 = x mod 128" by (simp add: take_bit_eq_mod)
  then show ?thesis by (simp add: unat_mod)
qed

lemma finish_differ:
  assumes "split_bits a b" and "dk_final ka = f" and "dk_final kb = f"
    and "f = block_xor (block_xor (reverse_lsb (left_shift (reverse_lsb block_zero) k)) (fst a)) (fst b)" and "k < 128" and "i < 128"
  shows "get_dpf_bit (finish_block ka a) i \<noteq> get_dpf_bit (finish_block kb b) i \<longleftrightarrow> i = k"
proof -
  have "reverse_lsb block_zero = block_one" by (simp add: reverse_lsb_def block_zero_def block_one_def)
  then have f: "f = block_xor (block_xor (block_xor (demo_block k) block_one) (fst a)) (fst b)"
    using assms(4,5) by (simp add: shifted_one reverse_lsb_xor)
  have "block_xor (finish_block ka a) (finish_block kb b) = demo_block k"
    using assms(1-3) by (auto simp: split_bits_def finish_block_def reverse_lsb_xor f block_xor_ac block_xor_cancel)
  then show ?thesis using demo_block_bit [OF assms(5,6)] get_dpf_bit_xor [of "finish_block ka a" "finish_block kb b" i] by auto
qed

lemma gen_keys_differ:
  assumes "dpf_gen enc seed0 seed1 alpha n = (k0, k1)" and "7 \<le> unat n" and "unat alpha < 2 ^ unat n"
  shows "dk_n k0 = n \<and> dk_n k1 = n \<and> length (dk_scw k0) = unat n - 7 \<and> length (dk_tcw k0) = unat n - 7 \<and>
    length (dk_scw k1) = unat n - 7 \<and> length (dk_tcw k1) = unat n - 7"
    and "j < 2 ^ (unat n - 7) \<Longrightarrow> i < 128 \<Longrightarrow>
      get_dpf_bit (finish_block k0 (node_at enc k0 (unat n - 7) j)) i \<noteq> get_dpf_bit (finish_block k1 (node_at enc k1 (unat n - 7) j)) i \<longleftrightarrow>
      j * 128 + i = unat alpha"
proof -
  let ?m = "unat n - 7"
  have m: "max_layer n = ?m" using assms(2) by (simp add: max_layer_def unat_sub word_le_nat_alt)
  let ?a = "(set_lsb_zero seed0, block_lsb seed0)" and ?b = "(set_lsb_zero seed1, block_lsb seed0 XOR 1)"
  obtain cws a b where g: "gen_layers enc alpha (unat n) [Suc 0..<Suc ?m] ?a ?b = (cws, a, b)" by (metis prod_cases3)
  define f where "f = block_xor (block_xor (reverse_lsb (left_shift (reverse_lsb block_zero) (unat (alpha AND 127)))) (fst a)) (fst b)"
  define key where "key = (\<lambda>s t. \<lparr>dk_n = n, dk_s0 = s, dk_t0 = t, dk_scw = map fst cws, dk_tcw = map snd cws, dk_final = f\<rparr>)"
  have k: "k0 = key (set_lsb_zero seed0) (block_lsb seed0)" "k1 = key (set_lsb_zero seed1) (block_lsb seed0 XOR 1)"
    using assms(1) g unfolding dpf_gen_def Let_def m One_nat_def by (auto simp: key_def f_def split: prod.splits simp del: upt_Suc)
  have "split_bits ?a ?b" using lsb_range [of seed0] by (auto simp: split_bits_def)
  then have "differ_on_path enc k0 k1 alpha (unat n) 0 ?a ?b" using assms(3) by (simp add: differ_on_path_def k key_def)
  from gen_layers_path [OF g _ _ this, of "[]"] have P: "differ_on_path enc k0 k1 alpha (unat n) ?m a b" "length cws = ?m" by (simp_all add: k key_def)
  show "dk_n k0 = n \<and> dk_n k1 = n \<and> length (dk_scw k0) = ?m \<and> length (dk_tcw k0) = ?m \<and> length (dk_scw k1) = ?m \<and> length (dk_tcw k1) = ?m"
    using P(2) by (simp add: k key_def)
  have "unat n - ?m = 7" using assms(2) by simp
  then have D: "split_bits a b" "node_at enc k0 ?m (unat alpha div 128) = a" "node_at enc k1 ?m (unat alpha div 128) = b"
    "\<And>j. j < 2 ^ ?m \<Longrightarrow> j \<noteq> unat alpha div 128 \<Longrightarrow> node_at enc k0 ?m j = node_at enc k1 ?m j"
    using P(1) by (auto simp: differ_on_path_def Let_def)
  assume j: "j < 2 ^ ?m" "i < 128"
  have fin: "dk_final k0 = f" "dk_final k1 = f" by (simp_all add: k key_def)
  show "get_dpf_bit (finish_block k0 (node_at enc k0 ?m j)) i \<noteq> get_dpf_bit (finish_block k1 (node_at enc k1 ?m j)) i \<longleftrightarrow> j * 128 + i = unat alpha"
  proof (cases "j = unat alpha div 128")
    case True
    have "unat (alpha AND 127) < 128" by (simp add: low_bits)
    from finish_differ [OF D(1) fin f_def this j(2)] show ?thesis using True D(2,3) by (simp add: low_bits) (metis add_left_cancel div_mult_mod_eq)
  next
    case False
    then have "j * 128 + i \<noteq> unat alpha" using j(2) by auto
    moreover have "finish_block k0 (node_at enc k0 ?m j) = finish_block k1 (node_at enc k1 ?m j)"
      using D(4) [OF j(1) False] fin by (simp add: finish_block_def)
    ultimately show ?thesis by simp
  qed
qed


lemma key_bytes:
  assumes "length (dk_scw key) = max_layer (dk_n key)" and "length (dk_tcw key) = max_layer (dk_n key)"
  shows "length (key_to_bytes key) = 34 + 18 * max_layer (dk_n key)" and "key_to_bytes key ! 0 = dk_n key" and "key_from_bytes (key_to_bytes key) = Inr key"
proof -
  let ?m = "max_layer (dk_n key)" and ?bs = "key_to_bytes key"
  define rows where "rows = map (\<lambda>i. block_to_bytes (dk_scw key ! i) @ [fst (dk_tcw key ! i), snd (dk_tcw key ! i)]) [0..<?m]"
  define h where "h = [dk_n key] @ block_to_bytes (dk_s0 key) @ [dk_t0 key]"
  have bs: "?bs = h @ concat rows @ block_to_bytes (dk_final key)" by (simp add: key_to_bytes_def h_def rows_def assms(1))
  have r: "\<forall>x \<in> set rows. length x = 18" "length rows = ?m" by (simp_all add: rows_def block_bytes_roundtrip)
  have h: "length h = 18" "h ! 0 = dk_n key" "h ! 17 = dk_t0 key" "slice h 1 16 = block_to_bytes (dk_s0 key)"
    by (simp_all add: h_def block_bytes_roundtrip nth_append slice_def)
  have l: "length (concat rows) = ?m * 18" using length_concat_fixed [OF r(1)] r(2) by simp
  show len: "length ?bs = 34 + 18 * ?m" unfolding bs using l h(1) by (simp add: block_bytes_roundtrip)
  show z: "?bs ! 0 = dk_n key" unfolding bs using h(1,2) by (simp add: nth_append)
  have s: "slice ?bs (18 * (i + 1)) 18 = rows ! i" if "i < ?m" for i
    using slice_shift [of h "concat rows @ block_to_bytes (dk_final key)" "i * 18" 18] slice_concat_fixed [OF r(1), of i] that r(2) h(1)
    unfolding bs by (simp add: algebra_simps)
  have row: "block_from_bytes (slice ?bs (18 * (i + 1)) 16) = dk_scw key ! i" "?bs ! (18 * (i + 1) + 16) = fst (dk_tcw key ! i)"
    "?bs ! (18 * (i + 1) + 17) = snd (dk_tcw key ! i)" if i: "i < ?m" for i
  proof -
    have "18 * (i + 1) + 18 \<le> length ?bs" using len i by simp
    then have n: "?bs ! (18 * (i + 1) + k) = rows ! i ! k" if "k < 18" for k
      using arg_cong [OF s [OF i], of "\<lambda>x. x ! k"] that by (simp add: slice_def)
    have "slice ?bs (18 * (i + 1)) 16 = take 16 (rows ! i)" using arg_cong [OF s [OF i], of "take 16"] by (simp add: slice_def)
    then show "block_from_bytes (slice ?bs (18 * (i + 1)) 16) = dk_scw key ! i" using i by (simp add: rows_def block_bytes_roundtrip)
    show "?bs ! (18 * (i + 1) + 16) = fst (dk_tcw key ! i)" "?bs ! (18 * (i + 1) + 17) = snd (dk_tcw key ! i)"
      using n [of 16] n [of 17] i by (simp_all add: rows_def block_bytes_roundtrip nth_append)
  qed
  have "slice ?bs 1 16 = block_to_bytes (dk_s0 key)" using h(1,4) unfolding bs by (simp add: slice_def)
  moreover have "?bs ! 17 = dk_t0 key" unfolding bs using h(1,3) by (simp add: nth_append)
  moreover have "slice ?bs (18 * (?m + 1)) 16 = block_to_bytes (dk_final key)"
    unfolding bs using h(1) l by (simp add: slice_def block_bytes_roundtrip algebra_simps)
  moreover have "map (\<lambda>i. block_from_bytes (slice ?bs (18 * (i + 1)) 16)) [0..<?m] = dk_scw key"
    using row(1) assms(1) by (intro nth_equalityI) simp_all
  moreover have "map (\<lambda>i. (?bs ! (18 * (i + 1) + 16), ?bs ! (18 * (i + 1) + 17))) [0..<?m] = dk_tcw key"
    using row(2,3) assms(2) by (intro nth_equalityI) simp_all
  ultimately show "key_from_bytes ?bs = Inr key"
    using len z by (simp add: key_from_bytes_def Let_def block_bytes_roundtrip)
qed

lemma libdpf_pair:
  assumes "dpf_gen enc seed0 seed1 alpha n = (k0, k1)" and "MIN_DPF_DOMAIN_N \<le> n" and "n \<le> MAX_DPF_DOMAIN_N" and "unat alpha < 2 ^ unat n"
  shows "dpf_pair parse_key (eval_partial enc) alpha n (key_to_bytes k0, key_to_bytes k1)"
proof -
  have n: "7 \<le> unat n" "unat n \<le> 32" using assms(2,3) by (simp_all add: MIN_DPF_DOMAIN_N_def MAX_DPF_DOMAIN_N_def word_le_nat_alt)
  then have m: "max_layer n = unat n - 7" by (simp add: max_layer_def unat_sub word_le_nat_alt)
  note G = gen_keys_differ [OF assms(1) n(1) assms(4)]
  have B: "length (key_to_bytes k) = 34 + 18 * (unat n - 7)" "key_to_bytes k ! 0 = n" "key_from_bytes (key_to_bytes k) = Inr k" if "k = k0 \<or> k = k1" for k
    using key_bytes [of k] G(1) m that by auto
  have ok: "key_ok (key_to_bytes k)" if "k = k0 \<or> k = k1" for k
    using B(1,2) [OF that] n m assms(2,3) by (simp add: key_ok_def validate_dpf_key_bytes_def Let_def max_layer_def)
  have ps: "parse_key (key_to_bytes k) = Some k" if "k = k0 \<or> k = k1" for k using B(3) [OF that] by (simp add: parse_key_def)
  have ev: "eval_partial enc k (of_nat bins) = map (\<lambda>j. finish_block k (node_at enc k (unat n - 7) j)) [0..<div_ceil bins 128]"
    if "k = k0 \<or> k = k1" "bins \<le> 2 ^ unat n" for k bins
    using eval_partial_nodes [of k "unat n - 7" bins enc] that G(1) m n by auto
  have "dpf_bit (eval_partial enc k0 (of_nat bins)) i \<noteq> dpf_bit (eval_partial enc k1 (of_nat bins)) i \<longleftrightarrow> i = unat alpha"
    if b: "bins \<le> 2 ^ unat n" "i < bins" for bins i
  proof -
    let ?j = "i div 128" and ?r = "i mod 128"
    have j: "?j < div_ceil bins 128" using div_less_div_ceil [of 128 i bins] b(2) by simp
    have "(2 :: nat) ^ unat n = 2 ^ (unat n - 7) * 128" using n(1) power_add [of "2 :: nat" "unat n - 7" 7] by simp
    then have "?j < 2 ^ (unat n - 7)" using b by (simp add: less_mult_imp_div_less)
    from G(2) [OF this, of ?r] have "get_dpf_bit (finish_block k0 (node_at enc k0 (unat n - 7) ?j)) ?r \<noteq>
        get_dpf_bit (finish_block k1 (node_at enc k1 (unat n - 7) ?j)) ?r \<longleftrightarrow> i = unat alpha" by simp
    then show ?thesis using j ev [OF _ b(1)] by (simp add: dpf_bit_def)
  qed
  then show ?thesis using ok ps by (simp add: dpf_pair_def)
qed


section \<open>The library behind the client\<close>

text \<open>What the client and the server rely on: key pairs that parse and whose expansions differ at the point only.\<close>

locale dpf_scheme =
  fixes gen :: "'s \<Rightarrow> u64 \<Rightarrow> u8 \<Rightarrow> bytes \<times> bytes" and from_bytes :: "bytes \<Rightarrow> 'k option" and eval :: "'k \<Rightarrow> u64 \<Rightarrow> dpf_block list"
  assumes pair: "MIN_DPF_DOMAIN_N \<le> n \<Longrightarrow> n \<le> MAX_DPF_DOMAIN_N \<Longrightarrow> unat alpha < 2 ^ unat n \<Longrightarrow> dpf_pair from_bytes eval alpha n (gen s alpha n)"
begin

lemma env_correct:
  assumes "\<forall>e g h alpha n. \<exists>s. de_gen env e g h alpha n = gen s alpha n"
  shows "dpf_correct env from_bytes eval"
  using assms pair unfolding dpf_correct_def by metis

end

definition gen_bytes :: "(dpf_block \<Rightarrow> dpf_block) \<Rightarrow> dpf_block \<times> dpf_block \<Rightarrow> u64 \<Rightarrow> u8 \<Rightarrow> bytes \<times> bytes" where
  "gen_bytes enc seeds alpha n = map_prod key_to_bytes key_to_bytes (dpf_gen enc (fst seeds) (snd seeds) alpha n)"

interpretation libdpf: dpf_scheme "gen_bytes enc" parse_key "eval_partial enc" for enc
proof unfold_locales
  fix n :: u8 and alpha :: u64 and s assume "MIN_DPF_DOMAIN_N \<le> n" "n \<le> MAX_DPF_DOMAIN_N" "unat alpha < 2 ^ unat n"
  then show "dpf_pair parse_key (eval_partial enc) alpha n (gen_bytes enc s alpha n)"
    using libdpf_pair [of enc "fst s" "snd s" alpha n] by (cases "dpf_gen enc (fst s) (snd s) alpha n") (simp add: gen_bytes_def)
qed

interpretation demo: dpf_scheme "\<lambda>_ :: unit. demo_gen" demo_from_bytes demo_eval
proof unfold_locales
  fix n :: u8 and alpha :: u64 assume "MIN_DPF_DOMAIN_N \<le> n" "n \<le> MAX_DPF_DOMAIN_N" "unat alpha < 2 ^ unat n"
  then show "dpf_pair demo_from_bytes demo_eval alpha n (demo_gen alpha n)"
    using demo_env_correct [of "[]"] by (simp add: dpf_correct_def demo_env_def)
qed

text \<open>The client draws its keys from the library, with any seeds.\<close>

definition libdpf_client :: "(dpf_block \<Rightarrow> dpf_block) \<Rightarrow> dpf_env \<Rightarrow> bool" where
  "libdpf_client enc env \<longleftrightarrow> (\<forall>e g h alpha n. \<exists>seeds. de_gen env e g h alpha n = gen_bytes enc seeds alpha n)"

lemma libdpf_client_correct: "libdpf_client enc env \<Longrightarrow> dpf_correct env parse_key (eval_partial enc)"
  unfolding libdpf_client_def by (rule libdpf.env_correct)

text \<open>Two honest servers and a client that all run the library, for examples.\<close>

definition lib_env :: "(dpf_block \<Rightarrow> dpf_block) \<Rightarrow> dpf_block \<times> dpf_block \<Rightarrow> mapped_database list \<Rightarrow> dpf_env" where
  "lib_env enc seeds dbs =
     \<lparr>de_send = (\<lambda>s e req. Inr ()),
      de_recv = (\<lambda>s e req. case handle_dpf parse_key (eval_partial enc) dbs (drop 4 req) of
                   Reply r \<Rightarrow> Inr r | _ \<Rightarrow> Inl (ConnectionFailed ''closed'')),
      de_gen = (\<lambda>e g h. gen_bytes enc seeds),
      de_seed_nanos = (\<lambda>e. 0)\<rparr>"

lemma lib_env_honest: "honest_servers (lib_env enc seeds dbs) parse_key (eval_partial enc) dbs"
  by (simp add: honest_servers_def lib_env_def)

lemma lib_env_client: "libdpf_client enc (lib_env enc seeds dbs)"
  unfolding libdpf_client_def lib_env_def by auto (metis surj_pair)

section \<open>Single points\<close>

lemma eval_walk_nodes:
  assumes "i \<le> m" and "m \<le> unat (dk_n key)"
  shows "eval_walk enc key x [Suc i..<Suc m] (node_at enc key i (unat x div 2 ^ (unat (dk_n key) - i))) =
    node_at enc key m (unat x div 2 ^ (unat (dk_n key) - m))"
  using assms
proof (induction "m - i" arbitrary: i)
  case (Suc d)
  let ?n = "unat (dk_n key)" and ?p = "unat x div 2 ^ (unat (dk_n key) - Suc i)"
  have i: "i < m" using Suc.hyps(2) by simp
  have "?n - i = Suc (?n - Suc i)" using i Suc.prems(2) by simp
  then have "unat x div 2 ^ (?n - i) = ?p div 2" by (simp add: power_Suc2 div_mult2_eq del: power_Suc)
  moreover have "?p mod 2 = (if get_bit x ?n (Suc i) = 0 then 0 else 1)" using get_bit_value [of x ?n "Suc i"] by auto
  ultimately have "eval_walk enc key x [Suc i..<Suc m] (node_at enc key i (unat x div 2 ^ (?n - i))) =
      eval_walk enc key x [Suc (Suc i)..<Suc m] (node_at enc key (Suc i) ?p)"
    using i by (simp add: upt_conv_Cons Let_def del: upt_Suc)
  also have "\<dots> = node_at enc key m (unat x div 2 ^ (?n - m))" by (rule Suc.hyps(1)) (use Suc.hyps(2) i Suc.prems(2) in simp_all)
  finally show ?case .
qed simp

lemma dpf_eval_node:
  assumes "7 \<le> unat (dk_n key)"
  shows "dpf_eval enc key x = finish_block key (node_at enc key (unat (dk_n key) - 7) (unat x div 128))"
proof -
  have "max_layer (dk_n key) = unat (dk_n key) - 7" using assms by (simp add: max_layer_def unat_sub word_le_nat_alt)
  then show ?thesis using eval_walk_nodes [of 0 "unat (dk_n key) - 7" key enc x] assms by (simp add: dpf_eval_def)
qed

section \<open>Properties\<close>

text \<open>
  C22: The optimised expansion agrees with the evaluation at a single point. For every key that parses, with a
  domain of fewer than \<open>2 ^ 64\<close> points, and every point below the number of points asked for, the block of
  \<open>eval_partial\<close> that holds the point is the block that \<open>eval\<close> computes by walking from the root; the same
  holds of \<open>eval_full\<close> for every point of the domain.
\<close>

theorem eval_partial_equals_eval:
  assumes "key_from_bytes bs = Inr key" and "7 \<le> unat (dk_n key)" and "unat (dk_n key) < 64"
    and "bins \<le> 2 ^ unat (dk_n key)" and "x < bins"
  shows "x div 128 < length (eval_partial enc key (of_nat bins)) \<and> eval_partial enc key (of_nat bins) ! (x div 128) = dpf_eval enc key (of_nat x) \<and>
    x div 128 < length (eval_full enc key) \<and> eval_full enc key ! (x div 128) = dpf_eval enc key (of_nat x)"
proof -
  let ?n = "unat (dk_n key)"
  have m: "max_layer (dk_n key) = ?n - 7" "?n - 7 < 57" "?n - 7 + 7 = ?n" using assms(2,3) by (simp_all add: max_layer_def unat_sub word_le_nat_alt)
  have "(2 :: nat) ^ ?n \<le> 2 ^ 63" using assms(3) by (intro power_increasing) simp_all
  then have "unat (of_nat x :: u64) = x" using assms(4,5) by (intro unat_of_nat_small) simp
  then have e: "dpf_eval enc key (of_nat x) = finish_block key (node_at enc key (?n - 7) (x div 128))" using dpf_eval_node [OF assms(2)] by simp
  have P: "x div 128 < length (eval_partial enc key (of_nat b)) \<and> eval_partial enc key (of_nat b) ! (x div 128) = dpf_eval enc key (of_nat x)"
    if "b \<le> 2 ^ ?n" "x < b" for b
  proof -
    have "x div 128 < div_ceil b 128" using that(2) div_ceil_le_iff [of 128 b "x div 128"] by (simp add: not_le [symmetric])
    then show ?thesis using eval_partial_nodes [of key "?n - 7" b enc] m that(1) e by simp
  qed
  have "push_bit (?n mod 64) 1 = (of_nat (2 ^ ?n) :: u64)" using assms(3) by (simp add: push_bit_eq_mult)
  then show ?thesis using P [OF assms(4,5)] P [of "2 ^ ?n"] assms(4,5) by (simp add: eval_full_def)
qed

theorem eval_partial_equals_eval_witness:
  "\<exists>key. key_from_bytes (9 # replicate 69 3) = Inr key \<and> eval_partial reverse_lsb key 300 ! 2 = dpf_eval reverse_lsb key 299"
proof -
  obtain key where k: "key_from_bytes (9 # replicate 69 3) = Inr key" "dk_n key = 9" by (simp add: key_from_bytes_def max_layer_def Let_def)
  show ?thesis using eval_partial_equals_eval [OF k(1), of 300 299 reverse_lsb] k by (auto simp: k(2))
qed


text \<open>
  C5: The DPF library is correct, whatever function stands for the block cipher and whatever the seeds are. For a
  domain of at most \<open>2 ^ 32\<close> points, both keys of a pair pass the server's check of key bytes and parse back,
  and for every number of bins in the domain the two partial expansions, with batching, parallel chunks and
  reused buffers, select different sets of bins: they differ at the point \<open>alpha\<close> and nowhere else.
\<close>

theorem libdpf_point_function:
  assumes "7 \<le> unat n" and "unat n \<le> 32" and "unat alpha < 2 ^ unat n" and "dpf_gen enc seed0 seed1 alpha n = (k0, k1)"
  shows "key_ok (key_to_bytes k0) \<and> key_ok (key_to_bytes k1) \<and>
    key_from_bytes (key_to_bytes k0) = Inr k0 \<and> key_from_bytes (key_to_bytes k1) = Inr k1 \<and>
    (\<forall>bins \<le> 2 ^ unat n. \<forall>i < bins.
       (dpf_bit (eval_partial enc k0 (of_nat bins)) i \<noteq> dpf_bit (eval_partial enc k1 (of_nat bins)) i) \<longleftrightarrow> i = unat alpha)"
proof -
  have n: "MIN_DPF_DOMAIN_N \<le> n" "n \<le> MAX_DPF_DOMAIN_N" using assms(1,2) by (simp_all add: MIN_DPF_DOMAIN_N_def MAX_DPF_DOMAIN_N_def word_le_nat_alt)
  have "max_layer n = unat n - 7" using assms(1) by (simp add: max_layer_def unat_sub word_le_nat_alt)
  then have "key_from_bytes (key_to_bytes k) = Inr k" if "k = k0 \<or> k = k1" for k
    using key_bytes(3) [of k] gen_keys_differ(1) [OF assms(4,1,3)] that by auto
  moreover from this have "parse_key (key_to_bytes k0) = Some k0" "parse_key (key_to_bytes k1) = Some k1" by (simp_all add: parse_key_def)
  ultimately show ?thesis using libdpf_pair [OF assms(4) n assms(3)] by (simp add: dpf_pair_def)
qed

theorem libdpf_point_function_witness:
  "\<exists>k0 k1. dpf_gen reverse_lsb block_one block_zero 200 8 = (k0, k1) \<and> key_ok (key_to_bytes k0) \<and>
     dpf_bit (eval_partial reverse_lsb k0 201) 200 \<noteq> dpf_bit (eval_partial reverse_lsb k1 201) 200 \<and>
     dpf_bit (eval_partial reverse_lsb k0 201) 199 = dpf_bit (eval_partial reverse_lsb k1 201) 199"
proof -
  obtain k0 k1 where k: "dpf_gen reverse_lsb block_one block_zero 200 8 = (k0, k1)" by (cases "dpf_gen reverse_lsb block_one block_zero 200 8")
  have ok: "key_ok (key_to_bytes k0)" and T: "\<forall>bins \<le> 2 ^ unat (8 :: u8). \<forall>i < bins.
      (dpf_bit (eval_partial reverse_lsb k0 (of_nat bins)) i \<noteq> dpf_bit (eval_partial reverse_lsb k1 (of_nat bins)) i) \<longleftrightarrow> i = unat (200 :: u64)"
    using libdpf_point_function [OF _ _ _ k] by simp_all
  have "(dpf_bit (eval_partial reverse_lsb k0 201) i \<noteq> dpf_bit (eval_partial reverse_lsb k1 201) i) \<longleftrightarrow> i = 200" if "i < 201" for i
    using T [rule_format, of 201 i] that by simp
  from this [of 200] this [of 199] ok k show ?thesis by auto
qed


end
