(* ===== verification/Dpf_Privacy.thy ===== *)
theory Dpf_Privacy
  imports Dpf_Merkle Libdpf_Correct Bucket_Complete
begin

text \<open>
  What the servers see of a Merkle verification: the sibling requests that \<open>DpfSiblingQuerier\<close> of
  \<open>crates/sdk/client/src/merkle_verify.rs\<close> prepares. Two runs are compared, for different batches, different seeds
  of the dummy queries and different keys. That the bytes of a key hide its point is a property of the
  DPF that is not modelled; everything around them is.
\<close>

section \<open>Observations\<close>

text \<open>The length of a key depends on the domain only.\<close>

definition fixed_key_size :: "(u8 \<Rightarrow> nat) \<Rightarrow> dpf_env \<Rightarrow> bool" where
  "fixed_key_size ksize env \<longleftrightarrow>
     (\<forall>e g h alpha n. length (fst (de_gen env e g h alpha n)) = ksize n \<and> length (snd (de_gen env e g h alpha n)) = ksize n)"

text \<open>Two requests that differ in the bytes of their keys only, with \<open>k\<close> keys each.\<close>

definition same_frame :: "u8 \<Rightarrow> u16 \<Rightarrow> nat \<Rightarrow> bytes \<Rightarrow> bytes \<Rightarrow> bool" where
  "same_frame db_id round_id k req req' \<longleftrightarrow>
     (\<exists>keys keys'. req = encode_sibling_batch db_id round_id keys \<and> req' = encode_sibling_batch db_id round_id keys' \<and>
        length keys = k \<and> map length keys = map length keys' \<and> length req = length req')"

definition same_round :: "u8 \<Rightarrow> nat \<Rightarrow> sibling_round \<Rightarrow> sibling_round \<Rightarrow> bool" where
  "same_round db_id k r r' \<longleftrightarrow>
     sg_exchange r = sg_exchange r' \<and> sg_round_id r = sg_round_id r' \<and>
     same_frame db_id (sg_round_id r) k (sg_request0 r) (sg_request0 r') \<and> same_frame db_id (sg_round_id r) k (sg_request1 r) (sg_request1 r')"

section \<open>Requests of a level\<close>

lemma same_frame_keys:
  assumes "length keys = k" and "map length keys = map length keys'"
  shows "same_frame db_id round_id k (encode_sibling_batch db_id round_id keys) (encode_sibling_batch db_id round_id keys')"
proof -
  have "map length keys = map length keys' \<Longrightarrow>
      length (concat (map (\<lambda>key. u16_to_le (of_nat (length key)) @ key) keys)) = length (concat (map (\<lambda>key. u16_to_le (of_nat (length key)) @ key) keys'))"
    by (induction keys keys' rule: list_induct2') simp_all
  moreover have "length keys = length keys'" using assms(2) map_eq_imp_length_eq by blast
  ultimately have "length (encode_sibling_batch db_id round_id keys) = length (encode_sibling_batch db_id round_id keys')"
    using assms(2) by (simp add: encode_sibling_batch_def Let_def)
  then show ?thesis using assms unfolding same_frame_def by blast
qed

lemma length_sibling_alphas: "length (fst (sibling_alphas bins targets rng)) = length targets"
  by (induction targets arbitrary: rng) (simp_all add: Let_def case_prod_beta)

lemma prepared_round_same:
  assumes "fixed_key_size ksize env" and "fixed_key_size ksize env'" and "length targets = k" and "length targets' = k"
  shows "same_round db_id k (fst (prepare_round env tt level bins db_id (pass, targets) rng))
    (fst (prepare_round env' tt level bins db_id (pass, targets') rng'))"
proof -
  have "length (fst (sibling_alphas bins targets rng)) = k" "length (fst (sibling_alphas bins targets' rng')) = k"
    using assms(3,4) by (simp_all add: length_sibling_alphas)
  then show ?thesis using assms(1,2) unfolding same_round_def prepare_round_def
    by (auto simp: Let_def fixed_key_size_def split: prod.split intro!: same_frame_keys nth_equalityI)
qed

lemma thread_map_length: "length (fst (thread_map f xs s)) = length xs"
  by (induction xs arbitrary: s) (simp_all add: Let_def case_prod_beta)

lemma thread_map_related:
  assumes "list_all2 P xs ys" and "\<And>x y s t. P x y \<Longrightarrow> Q (fst (f x s)) (fst (g y t))"
  shows "list_all2 Q (fst (thread_map f xs s)) (fst (thread_map g ys t))"
  using assms(1)
proof (induction arbitrary: s t rule: list_all2_induct)
  case (Cons x xs y ys)
  have "Q (fst (f x s)) (fst (g y t))" by (rule assms(2) [OF Cons(1)])
  then show ?case using Cons(3) [of "snd (f x s)" "snd (g y t)"] by (simp add: Let_def case_prod_beta)
qed simp

text \<open>Two plans of the same level, with the same number of passes over the same groups.\<close>

definition same_plan :: "nat \<Rightarrow> nat \<Rightarrow> sibling_level_plan \<Rightarrow> sibling_level_plan \<Rightarrow> bool" where
  "same_plan passes k plan plan' \<longleftrightarrow>
     slp_level plan = slp_level plan' \<and> slp_bins_per_table plan = slp_bins_per_table plan' \<and>
     map length (slp_passes plan) = replicate passes k \<and> map length (slp_passes plan') = replicate passes k"

lemma prepared_levels_same:
  assumes "fixed_key_size ksize env" and "fixed_key_size ksize env'" and "list_all2 (same_plan passes k) plans plans'"
  shows "list_all2 (\<lambda>rs rs'. length rs = passes \<and> list_all2 (same_round db_id k) rs rs')
    (fst (prepare_levels env tt db_id plans rng)) (fst (prepare_levels env' tt db_id plans' rng'))"
  unfolding prepare_levels_def
proof (rule thread_map_related [OF assms(3)])
  fix plan plan' s t assume p: "same_plan passes k plan plan'"
  let ?f = "prepare_round env tt (slp_level plan) (slp_bins_per_table plan) db_id"
    and ?g = "prepare_round env' tt (slp_level plan') (slp_bins_per_table plan') db_id"
  have l: "length (slp_passes plan) = passes" "length (slp_passes plan') = passes"
    using p arg_cong [of _ _ length] unfolding same_plan_def by (metis length_map length_replicate)+
  have e: "length (slp_passes plan ! i) = k" "length (slp_passes plan' ! i) = k" if "i < passes" for i
    using p l that unfolding same_plan_def by (metis nth_map nth_replicate)+
  have "list_all2 (\<lambda>x y. fst x = fst y \<and> length (snd x) = k \<and> length (snd y) = k) (enumerate 0 (slp_passes plan)) (enumerate 0 (slp_passes plan'))"
    using l e by (simp add: list_all2_conv_all_nth nth_enumerate_eq)
  then have "list_all2 (same_round db_id k) (fst (thread_map ?f (enumerate 0 (slp_passes plan)) s)) (fst (thread_map ?g (enumerate 0 (slp_passes plan')) t))"
    by (rule thread_map_related) (use p prepared_round_same [OF assms(1,2)] in \<open>auto simp: same_plan_def\<close>)
  then show "length (fst (thread_map ?f (enumerate 0 (slp_passes plan)) s)) = passes \<and>
      list_all2 (same_round db_id k) (fst (thread_map ?f (enumerate 0 (slp_passes plan)) s)) (fst (thread_map ?g (enumerate 0 (slp_passes plan')) t))"
    using l(1) by (simp add: thread_map_length)
qed

lemma level_plans_cong:
  assumes "map (\<lambda>it. (si_group it, si_bin_index it)) items = map (\<lambda>it. (si_group it, si_bin_index it)) items'"
  shows "level_plans items bins k tops = level_plans items' bins k tops"
proof -
  have g: "map si_group items = map si_group items'" and b: "map si_bin_index items = map si_bin_index items'"
    using arg_cong [OF assms, of "map fst"] arg_cong [OF assms, of "map snd"] by (simp_all add: comp_def)
  have n: "length items = length items'" using g map_eq_imp_length_eq by blast
  have "si_group (items ! i) = si_group (items' ! i)" if "i < length items" for i using that n arg_cong [OF g, of "\<lambda>xs. xs ! i"] by simp
  then have f: "items_by_group items = items_by_group items'" using n by (intro ext) (auto simp: items_by_group_def intro!: filter_cong)
  have "item_groups items = item_groups items'" using g by (simp add: item_groups_def)
  moreover have "items = [] \<longleftrightarrow> items' = []" using n by auto
  ultimately have m: "max_items_per_group items = max_items_per_group items'" and p: "pass_group_to_item items = pass_group_to_item items'"
    using f by (auto simp: max_items_per_group_def pass_group_to_item_def)
  have "level_plans_loop items k l counts planned = level_plans_loop items' k l counts planned" for l counts planned
    by (induction counts arbitrary: l planned) (simp_all add: m p pass_targets_def)
  then show ?thesis by (simp add: level_plans_def b)
qed

lemma plans_same:
  assumes "max_items_per_group items = max_items_per_group items'"
  shows "list_all2 (same_plan (max_items_per_group items) k) (level_plans items bins k tops) (level_plans items' bins k tops)"
proof -
  show ?thesis using assms
    by (simp add: level_plans_def list_all2_conv_all_nth level_plans_loop_nth same_plan_def pass_targets_def map_replicate_trivial comp_def)
qed

section \<open>The library\<close>

lemma gen_layers_length: "length (fst (gen_layers enc alpha n layers a b)) = length layers"
  by (induction layers arbitrary: a b) (simp_all add: Let_def case_prod_beta)

lemma gen_bytes_size:
  assumes "gen_bytes enc seeds alpha n = (b0, b1)"
  shows "length b0 = 34 + 18 * max_layer n" and "length b1 = 34 + 18 * max_layer n"
proof -
  let ?a = "(set_lsb_zero (fst seeds), block_lsb (fst seeds))" and ?b = "(set_lsb_zero (snd seeds), block_lsb (fst seeds) XOR 1)"
  obtain cws x t y u where g: "gen_layers enc alpha (unat n) [1..<Suc (max_layer n)] ?a ?b = (cws, (x, t), (y, u))" by (metis surj_pair)
  have c: "length cws = max_layer n" using gen_layers_length [of enc alpha "unat n" "[1..<Suc (max_layer n)]" ?a ?b] unfolding g by simp
  have k: "length (key_to_bytes k) = 34 + 18 * max_layer n" if "dk_n k = n" "dk_scw k = map fst cws" "dk_tcw k = map snd cws" for k
    using key_bytes(1) [of k] that c by simp
  show "length b0 = 34 + 18 * max_layer n" "length b1 = 34 + 18 * max_layer n"
    using assms unfolding gen_bytes_def dpf_gen_def Let_def g by (auto simp: k simp del: upt_Suc)
qed

lemma libdpf_key_size: "libdpf_client enc env \<Longrightarrow> fixed_key_size (\<lambda>n. 34 + 18 * max_layer n) env"
  unfolding libdpf_client_def fixed_key_size_def by (metis gen_bytes_size prod.collapse)

section \<open>Properties\<close>

text \<open>
  C26: The sibling requests of a verification reveal its load only. Take two batches with the same largest number of
  items in a group, whatever bins they verify and in whatever groups, in two runs with different keys and
  different dummy queries. In both runs the client prepares, for every sibling level of the tree tops, one round per item of that
  group and in every round one key for each of the \<open>k\<close> groups; the requests of a round to the two servers
  agree in everything but the bytes of the keys, their lengths included. If moreover the batches have the same groups and bin indices,
  the plans are the same, whatever the contents of the bins are.
\<close>

theorem sibling_requests_reveal_load:
  assumes "libdpf_client enc env" and "libdpf_client enc' env'" and "max_items_per_group items = max_items_per_group items'"
  shows "length (level_plans items bins k tops) = max_sib_levels tops \<and>
    list_all2 (\<lambda>rs rs'. length rs = max_items_per_group items \<and> list_all2 (same_round db_id k) rs rs')
      (fst (prepare_levels env tt db_id (level_plans items bins k tops) rng))
      (fst (prepare_levels env' tt db_id (level_plans items' bins k tops) rng')) \<and>
    (map (\<lambda>it. (si_group it, si_bin_index it)) items = map (\<lambda>it. (si_group it, si_bin_index it)) items' \<longrightarrow>
      level_plans items bins k tops = level_plans items' bins k tops)"
proof -
  note k = libdpf_key_size [OF assms(1)] libdpf_key_size [OF assms(2)]
  have "length (level_plans items bins k tops) = max_sib_levels tops" by (simp add: level_plans_def)
  then show ?thesis using prepared_levels_same [OF k plans_same [OF assms(3)]] level_plans_cong by blast
qed

text \<open>Two items in one group against two items in another, in runs with different ciphers and seeds.\<close>

theorem sibling_requests_reveal_load_witness:
  "list_all2 (\<lambda>rs rs'. length rs = 2 \<and> list_all2 (same_round 0 75) rs rs')
     (fst (prepare_levels (lib_env reverse_lsb (block_one, block_zero) []) 0 0
        (level_plans [\<lparr>si_group = 3, si_bin_index = 9, si_bin_content = []\<rparr>, \<lparr>si_group = 3, si_bin_index = 5, si_bin_content = []\<rparr>] 100 75 [\<lparr>cache_from_level = 2, top_levels = []\<rparr>]) 1))
     (fst (prepare_levels (lib_env set_lsb_zero (block_zero, block_one) []) 0 0
        (level_plans [\<lparr>si_group = 8, si_bin_index = 0, si_bin_content = [7]\<rparr>, \<lparr>si_group = 8, si_bin_index = 1, si_bin_content = []\<rparr>] 100 75 [\<lparr>cache_from_level = 2, top_levels = []\<rparr>]) 2))"
proof -
  let ?a = "[\<lparr>si_group = 3, si_bin_index = 9, si_bin_content = []\<rparr>, \<lparr>si_group = 3, si_bin_index = 5, si_bin_content = []\<rparr>]"
    and ?b = "[\<lparr>si_group = 8, si_bin_index = 0, si_bin_content = [7]\<rparr>, \<lparr>si_group = 8, si_bin_index = 1, si_bin_content = []\<rparr>]"
  have m: "max_items_per_group ?a = 2" "max_items_per_group ?b = 2"
    by (simp_all add: max_items_per_group_def item_groups_def items_by_group_def upt_rec)
  then have "max_items_per_group ?a = max_items_per_group ?b" by simp
  from sibling_requests_reveal_load [OF lib_env_client [of reverse_lsb "(block_one, block_zero)" "[]"]
      lib_env_client [of set_lsb_zero "(block_zero, block_one)" "[]"] this, of 100 75 "[\<lparr>cache_from_level = 2, top_levels = []\<rparr>]" 0 0 1 2]
  show ?thesis unfolding m by blast
qed

end
