(* ===== verification/Dpf_Trace.thy ===== *)
theory Dpf_Trace
  imports Dpf_Chunk Dpf_Merkle
begin

text \<open>
  What a query step of the DPF client records when it ends without an error, for arbitrary servers, keys
  and replies: each query has probed its two cuckoo positions in one of its groups, and each chunk was
  found in a bin at one of its positions.
\<close>

section \<open>Invariants of loops\<close>

lemma fold_client_inv:
  assumes "fold_client f xs s = Inr s'" and "P [] s"
    and "\<And>ys x zs s s'. xs = ys @ x # zs \<Longrightarrow> P ys s \<Longrightarrow> f x s = Inr s' \<Longrightarrow> P (ys @ [x]) s'"
  shows "P xs s'"
proof -
  have "fold_client f ys s = Inr t \<Longrightarrow> xs = ys @ zs \<Longrightarrow> P ys t" for ys zs t
  proof (induction ys arbitrary: t zs rule: rev_induct)
    case Nil
    then show ?case using assms(2) by simp
  next
    case (snoc y ys)
    then obtain u where u: "fold_client f ys s = Inr u" "f y u = Inr t" by (auto simp: fold_client_append)
    from snoc.IH [OF u(1)] snoc.prems(2) have "P ys u" by simp
    from assms(3) [OF _ this u(2)] snoc.prems(2) show ?case by simp
  qed
  from this [of xs s' "[]"] assms(1) show ?thesis by simp
qed

lemma map_client_InrD:
  "map_client f xs = Inr ys \<Longrightarrow> length ys = length xs \<and> (\<forall>i < length xs. f (xs ! i) = Inr (ys ! i))"
  by (induction xs arbitrary: ys) (auto simp: less_Suc_eq_0_disj)

section \<open>The INDEX phase\<close>

definition index_probed :: "database_info \<Rightarrow> bytes \<Rightarrow> nat \<Rightarrow> bytes \<Rightarrow> bytes \<Rightarrow> index_outcome" where
  "index_probed db sh g bin0 bin1 =
     (let tag = the (compute_tag (di_tag_seed db) sh);
          loc = cuckoo_loc (di_index_master_seed db) (unat (di_index_bins db)) sh g
      in probe_step tag g (of_nat (loc 1)) bin1 (probe_step tag g (of_nat (loc 0)) bin0 (None, [], None)))"

lemma index_probe_InrD:
  assumes "index_probe tag g locs r0 r1 h out = Inr out'"
  shows "\<exists>bin. h < length locs \<and> out' = probe_step tag g (locs ! h) bin out"
proof -
  obtain bin where bin: "xor_bin r0 r1 g h = Inr bin" "h < length locs"
    using assms by (auto simp: index_probe_def nth_client_def split: if_splits)
  from index_probe_step [OF this, of tag out] assms bin(2) show ?thesis by auto
qed

lemma index_item_probed:
  assumes "index_item (di_tag_seed db) shs locs r0 r1 (i, g) outs = Inr outs'" and "i < length shs" and "20 \<le> length (shs ! i)"
    and "locs ! i = sh_locs db (shs ! i) g" and "outs ! i = (None, [], None)" and "0 < unat (di_index_bins db)"
  shows "i < length outs \<and> (\<exists>c0 c1. outs' = outs[i := index_probed db (shs ! i) g c0 c1])"
proof -
  obtain tag where tag: "compute_tag (di_tag_seed db) (shs ! i) = Some tag" using assms(3) by (simp add: compute_tag_def Let_def)
  obtain out where out: "i < length outs" "outs' = outs[i := out]"
    "fold_client (index_probe tag g (locs ! i) r0 r1) [0..<INDEX_CUCKOO_NUM_HASHES] (outs ! i) = Inr out"
    using assms(1,2) tag by (auto simp: index_item_def nth_client_def or_panic_def split: if_splits)
  obtain o1 where o1: "index_probe tag g (locs ! i) r0 r1 0 (None, [], None) = Inr o1" "index_probe tag g (locs ! i) r0 r1 1 o1 = Inr out"
    using out(3) unfolding two_hashes assms(5) by (auto elim!: rbind_eq_InrE)
  obtain c0 c1 where c: "o1 = probe_step tag g (locs ! i ! 0) c0 (None, [], None)" "out = probe_step tag g (locs ! i ! 1) c1 o1"
    using index_probe_InrD [OF o1(1)] index_probe_InrD [OF o1(2)] by blast
  have "out = index_probed db (shs ! i) g c0 c1"
    unfolding c assms(4) index_probed_def tag using sh_locs_nth(2) [OF assms(3,6)] by (simp add: Let_def)
  then show ?thesis using out by blast
qed

lemma index_round_items:
  assumes "index_round env db shs locs (rid, round) (outs, rng) = Inr (outs', rng')"
  shows "\<exists>r0 r1. fold_client (index_item (di_tag_seed db) shs locs r0 r1) round outs = Inr outs'"
  using assms by (auto simp: index_round_def Let_def elim!: rbind_eq_InrE)

definition probed :: "database_info \<Rightarrow> bytes list \<Rightarrow> (nat \<times> nat) list \<Rightarrow> index_outcome list \<Rightarrow> bool" where
  "probed db shs handled outs \<longleftrightarrow>
     length outs = length shs \<and> (\<forall>(i, g) \<in> set handled. \<exists>c0 c1. outs ! i = index_probed db (shs ! i) g c0 c1) \<and>
     (\<forall>i. i \<notin> fst ` set handled \<longrightarrow> i < length shs \<longrightarrow> outs ! i = (None, [], None))"

lemma round_probed:
  assumes "fold_client (index_item (di_tag_seed db) shs locs r0 r1) round outs = Inr outs'" and "probed db shs handled outs"
    and "distinct (map fst (handled @ round))" and "0 < unat (di_index_bins db)"
    and "\<forall>(i, g) \<in> set round. i < length shs \<and> 20 \<le> length (shs ! i) \<and> locs ! i = sh_locs db (shs ! i) g"
  shows "probed db shs (handled @ round) outs'"
  using assms(1)
proof (rule fold_client_inv [where P = "\<lambda>ys outs. probed db shs (handled @ ys) outs"])
  show "probed db shs (handled @ []) outs" using assms(2) by simp
  fix ys x zs s s'
  assume r: "round = ys @ x # zs" and P: "probed db shs (handled @ ys) s" and st: "index_item (di_tag_seed db) shs locs r0 r1 x s = Inr s'"
  obtain i g where x: "x = (i, g)" by (cases x)
  have i: "i < length shs" "20 \<le> length (shs ! i)" "locs ! i = sh_locs db (shs ! i) g" "i \<notin> fst ` set (handled @ ys)"
    using assms(3,5) r x by auto
  then have "s ! i = (None, [], None)" using P by (auto simp: probed_def)
  from index_item_probed [OF st [unfolded x] i(1-3) this assms(4)] obtain c0 c1 where
    s': "s' = s[i := index_probed db (shs ! i) g c0 c1]" by blast
  have keep: "s' ! j = s ! j" if "j \<noteq> i" for j using that s' by simp
  have new: "s' ! i = index_probed db (shs ! i) g c0 c1" and len: "length s' = length shs" using s' i(1) P by (simp_all add: probed_def)
  have "\<exists>c0 c1. s' ! j = index_probed db (shs ! j) h c0 c1" if "(j, h) \<in> set (handled @ ys @ [x])" for j h
  proof (cases "(j, h) = (i, g)")
    case False
    then have m: "(j, h) \<in> set (handled @ ys)" using that x by auto
    then have "j \<noteq> i" using i(4) by (metis fst_conv image_eqI)
    then show ?thesis using m P keep unfolding probed_def by fastforce
  qed (use new in auto)
  moreover have "s' ! j = (None, [], None)" if "j \<notin> fst ` set (handled @ ys @ [x])" "j < length shs" for j
    using that P keep [of j] x unfolding probed_def by simp
  ultimately show "probed db shs (handled @ ys @ [x]) s'" using len unfolding probed_def by blast
qed

lemma index_phase_probed:
  assumes "query_index_phase_batched env shs db = Inr outs" and "shs \<noteq> []" and "\<forall>sh \<in> set shs. 20 \<le> length sh"
    and "3 \<le> unat (di_index_k db)" and "0 < unat (di_index_bins db)"
  shows "length outs = length shs"
    and "i < length shs \<Longrightarrow> \<exists>g \<in> set (hash_groups (shs ! i) (unat (di_index_k db))). \<exists>c0 c1. outs ! i = index_probed db (shs ! i) g c0 c1"
proof -
  let ?k = "unat (di_index_k db)"
  from index_phase_rounds [OF assms(2-5), of env] obtain rounds where
    ok: "plan_ok (map (\<lambda>sh. hash_groups sh ?k) shs) ?k rounds"
    and "query_index_phase_batched env shs db =
      rbind (fold_client (index_round env db shs (plan_locs db shs rounds)) (enumerate 0 rounds)
        (replicate (length shs) (None, [], None), rng_new (de_seed_nanos env (Index_Round 0)))) (\<lambda>(outs, rng). Inr outs)" (is "_ = rbind ?f _")
    by blast
  then have "rbind ?f (\<lambda>(outs, rng). Inr outs) = Inr outs" using assms(1) by simp
  then obtain rng where run: "?f = Inr (outs, rng)" by (auto elim!: rbind_eq_InrE)
  have item: "i < length shs \<and> 20 \<le> length (shs ! i) \<and> plan_locs db shs rounds ! i = sh_locs db (shs ! i) g"
    if "(i, g) \<in> set (concat rounds)" for i g
    using plan_ok_items(3) [OF ok that] group_of_item(1) [OF ok that] assms(3) by (simp add: plan_locs_def)
  have P: "probed db shs (concat (map snd (enumerate 0 rounds))) (fst (outs, rng))"
    using run
  proof (rule fold_client_inv [where P = "\<lambda>ys s. probed db shs (concat (map snd ys)) (fst s)"])
    show "probed db shs (concat (map snd [])) (fst (replicate (length shs) (None, [], None), rng_new (de_seed_nanos env (Index_Round 0))))"
      by (simp add: probed_def)
    fix ys x zs s s'
    assume e: "enumerate 0 rounds = ys @ x # zs" and I: "probed db shs (concat (map snd ys)) (fst s)"
      and st: "index_round env db shs (plan_locs db shs rounds) x s = Inr s'"
    have r: "rounds = map snd ys @ snd x # map snd zs" using arg_cong [OF e, of "map snd"] by simp
    obtain r0 r1 where f: "fold_client (index_item (di_tag_seed db) shs (plan_locs db shs rounds) r0 r1) (snd x) (fst s) = Inr (fst s')"
      using index_round_items [of env db shs "plan_locs db shs rounds" "fst x" "snd x" "fst s" "snd s" "fst s'" "snd s'"] st by auto
    have "distinct (map fst (concat (map snd ys) @ snd x))" using plan_ok_items(1) [OF ok] r by simp blast
    from round_probed [OF f I this assms(5)] show "probed db shs (concat (map snd (ys @ [x]))) (fst s')"
      using item r by auto
  qed
  then have P: "probed db shs (concat rounds) outs" by simp
  then show "length outs = length shs" by (simp add: probed_def)
  assume i: "i < length shs"
  then have m: "(i, group_of rounds i) \<in> set (concat rounds)" using group_of_item(2) [OF ok, of i] by simp
  from plan_ok_items(3) [OF ok m] i have "group_of rounds i \<in> set (hash_groups (shs ! i) ?k)" by simp
  moreover have "\<exists>c0 c1. outs ! i = index_probed db (shs ! i) (group_of rounds i) c0 c1" using P m unfolding probed_def by fast
  ultimately show "\<exists>g \<in> set (hash_groups (shs ! i) ?k). \<exists>c0 c1. outs ! i = index_probed db (shs ! i) g c0 c1" by blast
qed

section \<open>The CHUNK phase\<close>

text \<open>A chunk was found in a bin that one of its positions asked for.\<close>

definition chunk_probed :: "database_info \<Rightarrow> u32 \<Rightarrow> bytes \<Rightarrow> bin_trace \<Rightarrow> bool" where
  "chunk_probed db c data t \<longleftrightarrow>
     (\<exists>g \<in> set (id_groups c (unat (di_chunk_k db))). \<exists>h content.
        t = \<lparr>bt_pbc_group = g, bt_bin_index = of_nat (chunk_loc db c g h), bt_bin_content = content\<rparr> \<and>
        find_chunk_in_result content c = Some data)"

definition maps_probed :: "database_info \<Rightarrow> chunk_maps \<Rightarrow> bool" where
  "maps_probed db maps \<longleftrightarrow>
     (\<forall>c. (fst maps c = None \<and> snd maps c = None) \<or> (\<exists>data t. fst maps c = Some data \<and> snd maps c = Some t \<and> chunk_probed db c data t))"

lemma find_chunk_bin_found:
  "find_chunk_bin r0 r1 c g hs = Inr (Some (h, data, content)) \<Longrightarrow> h \<in> set hs \<and> find_chunk_in_result content c = Some data"
proof (induction hs)
  case (Cons h' hs)
  then obtain bin where "xor_bin r0 r1 g h' = Inr bin" by (auto elim!: rbind_eq_InrE)
  with Cons show ?case by (auto split: option.splits)
qed simp

lemma chunk_item_probed:
  assumes "chunk_item r0 r1 locs (c, g) maps = Inr maps'" and "maps_probed db maps" and "g \<in> set (id_groups c (unat (di_chunk_k db)))"
    and "\<forall>h < 2. locs (g, h) = Some (of_nat (chunk_loc db c g h))"
  shows "maps_probed db maps'"
proof -
  obtain dm tm where m: "maps = (dm, tm)" by (cases maps)
  obtain found where f: "find_chunk_bin r0 r1 c g [0, 1] = Inr found"
    using assms(1) unfolding chunk_item_def two_hashes by (auto simp: m elim!: rbind_eq_InrE)
  then obtain h data content where fd: "found = Some (h, data, content)"
    using assms(1) unfolding chunk_item_def two_hashes by (cases found) (auto simp: m)
  from find_chunk_bin_found [OF f [unfolded fd]] have h: "h < 2" "find_chunk_in_result content c = Some data" by auto
  have "maps' = (dm(c \<mapsto> data), tm(c \<mapsto> \<lparr>bt_pbc_group = g, bt_bin_index = of_nat (chunk_loc db c g h), bt_bin_content = content\<rparr>))"
    using assms(1,4) f h(1) unfolding chunk_item_def two_hashes by (simp add: m fd)
  then show ?thesis using assms(2,3) h(2) m by (auto simp: maps_probed_def chunk_probed_def)
qed

lemma chunk_round_probed:
  assumes "chunk_round env db q (rid, round) maps = Inr maps'" and "maps_probed db maps" and "0 < unat (di_chunk_bins db)"
    and "distinct (map snd round)" and "\<forall>(c, g) \<in> set round. g < unat (di_chunk_k db) \<and> g \<in> set (id_groups c (unat (di_chunk_k db)))"
  shows "maps_probed db maps'"
proof -
  let ?k = "unat (di_chunk_k db)" and ?e = "Chunk_Round q rid"
  let ?gtc = "fold (\<lambda>(chunk_id, group_id) m. m(group_id \<mapsto> chunk_id)) round Map.empty"
  obtain alphas locs where al: "chunk_alphas ?k (di_chunk_master_seed db) (unat (di_chunk_bins db)) ?gtc (rng_new (de_seed_nanos env ?e)) = Inr (alphas, locs)"
    "\<forall>g < ?k. \<forall>c. ?gtc g = Some c \<longrightarrow> (\<forall>h < 2. unat (alphas ! g ! h) = chunk_loc db c g h \<and> locs (g, h) = Some (of_nat (chunk_loc db c g h)))"
    using chunk_alphas_ok [OF assms(3)] by blast
  obtain r0 r1 where "fold_client (chunk_item r0 r1 locs) round maps = Inr maps'"
    using assms(1) al(1) by (auto simp: chunk_round_def Let_def elim!: rbind_eq_InrE)
  then show ?thesis
  proof (rule fold_client_inv [where P = "\<lambda>_. maps_probed db"])
    show "maps_probed db maps" by fact
    fix ys x zs s s' assume r: "round = ys @ x # zs" and I: "maps_probed db s" and st: "chunk_item r0 r1 locs x s = Inr s'"
    obtain c g where x: "x = (c, g)" by (cases x)
    have "g < ?k" "g \<in> set (id_groups c ?k)" "?gtc g = Some c" using assms(5) group_to_chunk_item [OF assms(4), of c g] r x by auto
    then show "maps_probed db s'" using chunk_item_probed [OF st [unfolded x] I] al(2) by blast
  qed
qed

lemma assemble_chunks_probed:
  assumes "maps_probed db maps" and "distinct ids" and "length (snd (assemble_chunks ids maps)) = length ids"
  shows "\<exists>datas. length datas = length ids \<and> fst (assemble_chunks ids maps) = concat datas \<and>
    (\<forall>j < length ids. chunk_probed db (ids ! j) (datas ! j) (snd (assemble_chunks ids maps) ! j))"
  using assms
proof (induction ids arbitrary: maps)
  case (Cons c ids)
  obtain dm tm where m: "maps = (dm, tm)" by (cases maps)
  have le: "length (snd (assemble_chunks ids ms)) \<le> length ids" for ids ms
    by (induction ids ms rule: assemble_chunks.induct) (auto split: option.splits prod.splits)
  have full: "tm c \<noteq> None" using Cons.prems(3) le [of ids "(dm, tm(c := None))"] m by (auto split: prod.splits option.splits)
  then obtain data t where d: "dm c = Some data" "tm c = Some t" "chunk_probed db c data t"
    using Cons.prems(1) m unfolding maps_probed_def by (metis fst_conv snd_conv option.inject)
  define maps' where "maps' = (dm(c := None), tm(c := None))"
  have eq: "assemble_chunks ids (dm, tm(c := None)) = assemble_chunks ids maps'"
  proof -
    have "c \<notin> set ids \<Longrightarrow> assemble_chunks ids (dm, tm') = assemble_chunks ids (dm(c := None), tm')" for ids tm'
      by (induction ids arbitrary: tm') auto
    then show ?thesis using Cons.prems(2) by (simp add: maps'_def)
  qed
  have "maps_probed db maps'" using Cons.prems(1) m by (auto simp: maps_probed_def maps'_def)
  moreover have "length (snd (assemble_chunks ids maps')) = length ids"
    using Cons.prems(3) m d(2) eq by (auto split: prod.splits)
  ultimately obtain datas where ds: "length datas = length ids" "fst (assemble_chunks ids maps') = concat datas"
    "\<forall>j < length ids. chunk_probed db (ids ! j) (datas ! j) (snd (assemble_chunks ids maps') ! j)"
    using Cons.IH Cons.prems(2) by (meson distinct.simps(2))
  have a: "assemble_chunks (c # ids) maps = (data @ concat datas, t # snd (assemble_chunks ids maps'))"
    using d(1,2) m eq ds(2) by (simp split: prod.splits) (metis fst_conv snd_conv)
  show ?case unfolding a using ds d(3) by (intro exI [of _ "data # datas"]) (auto simp: less_Suc_eq_0_disj)
qed simp

lemma chunk_phase_probed:
  assumes "query_chunk_level env q ids db = Inr (data, bins)" and "distinct ids" and "3 \<le> unat (di_chunk_k db)" and "0 < unat (di_chunk_bins db)"
  shows "length bins = length ids \<and> (\<exists>datas. length datas = length ids \<and> data = concat datas \<and>
    (\<forall>j < length ids. chunk_probed db (ids ! j) (datas ! j) (bins ! j)))"
proof -
  let ?k = "unat (di_chunk_k db)"
  have "?k \<le> 2 ^ 64" using unsigned_less [of "di_chunk_k db", where 'a = nat] by simp
  from plan_chunks [OF assms(3) this] obtain rounds where r: "plan_chunk_rounds ids ?k = Inr rounds" "chunk_rounds_ok ?k rounds" by blast
  let ?p = "pad_chunk_rounds_for_presence rounds"
  have p: "chunk_rounds_ok ?k ?p" using r(2) by (auto simp: pad_chunk_rounds_for_presence_def chunk_rounds_ok_def)
  obtain maps where m: "fold_client (chunk_round env db q) (enumerate 0 ?p) (Map.empty, Map.empty) = Inr maps"
    "assemble_chunks ids maps = (data, bins)" "length bins = length ids"
    using assms(1) r(1) by (auto simp: query_chunk_level_def split: prod.splits if_splits elim!: rbind_eq_InrE)
  from m(1) have "maps_probed db maps"
  proof (rule fold_client_inv [where P = "\<lambda>_. maps_probed db"])
    show "maps_probed db (Map.empty, Map.empty)" by (simp add: maps_probed_def)
    fix ys x zs s s' assume e: "enumerate 0 ?p = ys @ x # zs" and I: "maps_probed db s" and st: "chunk_round env db q x s = Inr s'"
    have "?p = map snd ys @ snd x # map snd zs" using arg_cong [OF e, of "map snd"] by simp
    then have "snd x \<in> set ?p" by simp
    then have "distinct (map snd (snd x))" "\<forall>(c, g) \<in> set (snd x). g < ?k \<and> g \<in> set (id_groups c ?k)"
      using p by (auto simp: chunk_rounds_ok_def)
    from chunk_round_probed [of env db q "fst x" "snd x", OF _ I assms(4) this] st show "maps_probed db s'" by simp
  qed
  from assemble_chunks_probed [OF this assms(2)] m(2,3) show ?thesis by simp
qed

end
