(* ===== verification/Dpf_Query.thy ===== *)
theory Dpf_Query
  imports Dpf_Demo
begin

text \<open>
  A whole query step of the DPF client against honest servers (\<open>execute_step_unverified\<close> of
  \<open>crates/sdk/client/src/dpf.rs\<close>): what it returns for a database that the table builder wrote, and why a
  batch of more script hashes than groups fails.
\<close>

section \<open>Decoding the stored entries\<close>

definition sdk_entry :: "utxo_entry \<Rightarrow> sdk_utxo_entry" where
  "sdk_entry e = \<lparr>ux_txid = txid e, ux_vout = vout e, ux_amount_sats = amount e\<rparr>"

lemma read_varint_prefix: "try_read_varint (write_varint_loop v @ rest) = Inr (v, length (write_varint_loop v))"
  using try_read_write_varint [of "length (write_varint_loop v @ rest)" v rest] by simp

lemma decode_entries_loop_serialized:
  assumes "drop pos data = concat (map serialize_utxo_entry es) @ pad" and "pos \<le> length data" and "\<forall>e \<in> set es. length (txid e) = 32"
  shows "decode_entries_loop data (length es) pos = Inr (map sdk_entry es)"
  using assms
proof (induction es arbitrary: pos)
  case Nil
  show ?case by (simp add: decode_entries_loop.simps)
next
  case (Cons e es)
  let ?v = "write_varint_loop (ucast (vout e))" and ?a = "write_varint_loop (amount e)" and ?r = "concat (map serialize_utxo_entry es) @ pad"
  have d: "drop pos data = txid e @ ?v @ ?a @ ?r" using Cons.prems(1) by (simp add: serialize_utxo_entry_def [of e])
  have t: "length (txid e) = 32" using Cons.prems(3) by simp
  have len: "length data = pos + 32 + length ?v + length ?a + length ?r"
    using arg_cong [OF d, of length] t Cons.prems(2) by simp
  have d1: "drop (pos + 32) data = ?v @ ?a @ ?r" using arg_cong [OF d, of "drop 32"] t by (simp add: add.commute)
  have d2: "drop (pos + 32 + length ?v) data = ?a @ ?r" using arg_cong [OF d1, of "drop (length ?v)"] by (simp add: add.commute)
  have d3: "drop (pos + 32 + length ?v + length ?a) data = ?r" using arg_cong [OF d2, of "drop (length ?a)"] by (simp add: add.commute)
  have tx: "slice data pos 32 = txid e" using arg_cong [OF d, of "take 32"] t by (simp add: slice_def)
  have pos: "0 < length ?v" "0 < length ?a" by simp_all
  have IH: "decode_entries_loop data (length es) (pos + 32 + length ?v + length ?a) = Inr (map sdk_entry es)"
    using Cons.IH [OF d3] Cons.prems(3) len by simp
  show ?case
    using len pos d1 d2 IH tx
    by (subst decode_entries_loop.simps) (simp add: read_varint_prefix Let_def sdk_entry_def)
qed

lemma decode_serialized_entries:
  assumes "\<forall>e \<in> set es. length (txid e) = 32" and "length es < 2 ^ 64"
  shows "decode_utxo_entries (serialize_utxo_data es @ pad) = Inr (map sdk_entry es)"
proof -
  let ?h = "write_varint_loop (of_nat (length es))"
  have s: "serialize_utxo_data es @ pad = ?h @ concat (map serialize_utxo_entry es) @ pad"
    by (simp add: serialize_utxo_data_def write_varint_def)
  have "unat (of_nat (length es) :: u64) = length es" using assms(2) by (intro unat_of_nat_small) simp
  then show ?thesis
    using decode_entries_loop_serialized [of "length ?h" "?h @ concat (map serialize_utxo_entry es) @ pad" es pad] assms(1)
    unfolding s decode_utxo_entries_def by (simp add: read_varint_prefix)
qed

section \<open>The contents of a database\<close>

datatype stored = Absent | Whale | Entries "utxo_entry list"

text \<open>What the two input files of the table builder say of a script hash.\<close>

fun holds :: "bytes \<Rightarrow> bytes \<Rightarrow> bytes \<Rightarrow> stored \<Rightarrow> bool" where
  "holds mmap cfile sh Absent \<longleftrightarrow> lookup_record mmap sh = None"
| "holds mmap cfile sh Whale \<longleftrightarrow> (\<exists>tail. lookup_record mmap sh = Some tail \<and> snd (tail_entry tail) = 0)"
| "holds mmap cfile sh (Entries es) \<longleftrightarrow>
     (\<exists>tail pad. lookup_record mmap sh = Some tail \<and>
        (let start = unat (fst (tail_entry tail)); num = unat (snd (tail_entry tail))
         in 0 < num \<and> start + num \<le> chunk_count cfile \<and>
            slice cfile (start * CHUNK_SIZE) (num * CHUNK_SIZE) = serialize_utxo_data es @ pad)) \<and>
     (\<forall>e \<in> set es. length (txid e) = 32) \<and> length es < 2 ^ 64"

fun result_of :: "stored \<Rightarrow> query_result option" where
  "result_of Absent = None"
| "result_of Whale = Some (empty_result\<lparr>qr_is_whale := True\<rparr>)"
| "result_of (Entries es) = Some (with_entries (map sdk_entry es))"

definition built_database :: "(nat \<Rightarrow> nat \<Rightarrow> nat) \<Rightarrow> bytes \<Rightarrow> bytes \<Rightarrow> resolved_anchor \<Rightarrow> mapped_database \<Rightarrow> bool" where
  "built_database compute_bins mmap cfile seeds d \<longleftrightarrow>
     (\<forall>l s. compute_bins l s < 2 ^ 32) \<and> (\<forall>a. ra_anchor seeds = Some a \<longrightarrow> wf_header_anchor a) \<and> record_count mmap \<le> 2 ^ 32 - 1 \<and>
     Option.bind (build_index_cuckoo compute_bins mmap seeds) (\<lambda>f. load_sub_table f INDEX_PARAMS) = Some (md_index d) \<and>
     Option.bind (build_chunk_cuckoo compute_bins cfile seeds) (\<lambda>f. load_sub_table f CHUNK_PARAMS) = Some (md_chunk d)"

lemma built_database_served:
  assumes "built_database cb mmap cfile seeds d"
  obtains it ct where "index_served mmap seeds it (md_index d)" "chunk_served cfile seeds ct (md_chunk d)"
proof -
  have cb: "\<And>l s. cb l s < 2 ^ 32" "\<forall>a. ra_anchor seeds = Some a \<longrightarrow> wf_header_anchor a"
    using assms by (simp_all add: built_database_def)
  obtain f where f: "build_index_cuckoo cb mmap seeds = Some f" "load_sub_table f INDEX_PARAMS = Some (md_index d)"
    using assms unfolding built_database_def by (auto simp: bind_eq_Some_conv)
  obtain f' where f': "build_chunk_cuckoo cb cfile seeds = Some f'" "load_sub_table f' CHUNK_PARAMS = Some (md_chunk d)"
    using assms unfolding built_database_def by (auto simp: bind_eq_Some_conv)
  show ?thesis using built_index_served [OF f(1) cb] built_chunk_served [OF f'(1) cb] f(2) f'(2) that by auto
qed

lemma demo_database:
  "\<exists>d. built_database (\<lambda>_ _. 1) demo_index demo_chunks demo_seeds d \<and> catalog_matches demo_info demo_seeds d"
proof -
  have a: "ra_anchor demo_seeds = None" by (simp add: demo_seeds_def)
  obtain f f' where f: "build_index_cuckoo (\<lambda>_ _. 1) demo_index demo_seeds = Some f" "build_chunk_cuckoo (\<lambda>_ _. 1) demo_chunks demo_seeds = Some f'"
    using one_record_builds two_chunks_build demo_lengths a by blast
  obtain t where t: "load_sub_table f INDEX_PARAMS = Some t" "mt_bins_per_table t = 1"
    using built_index_served [OF f(1)] a by auto
  obtain t' where t': "load_sub_table f' CHUNK_PARAMS = Some t'" "mt_bins_per_table t' = 1"
    using built_chunk_served [OF f(2)] a by auto
  define d where "d = \<lparr>md_index = t, md_chunk = t', md_index_siblings = [], md_chunk_siblings = [], md_tree_tops = None, md_roots = None, md_root = None\<rparr>"
  have "built_database (\<lambda>_ _. 1) demo_index demo_chunks demo_seeds d" using f t(1) t'(1) a demo_lengths by (simp add: built_database_def d_def)
  moreover have "catalog_matches demo_info demo_seeds d"
    using t(2) t'(2) by (simp add: catalog_matches_def d_def demo_info_def demo_seeds_def domain_ok_def MIN_DPF_DOMAIN_N_def MAX_DPF_DOMAIN_N_def)
  ultimately show ?thesis by blast
qed

lemma demo_holds: "holds demo_index demo_chunks demo_hash (Entries [demo_entry])"
proof -
  have "tail_entry (u32_to_le 1 @ [1]) = (1, 1)" by (simp add: tail_entry_def nth_append)
  then show ?thesis using demo_lookup demo_lengths
    by (auto simp: slice_def CHUNK_SIZE_def demo_chunks_def demo_entry_def intro!: exI [of _ "replicate 4 0"])
qed

section \<open>One query\<close>

lemma range_ids:
  assumes "start + n \<le> chunk_count cfile"
  defines "ids \<equiv> map of_nat [start..<start + n] :: u32 list"
  shows "start + n < 2 ^ 32" and "distinct ids" and "c \<in> set ids \<Longrightarrow> unat c < chunk_count cfile"
proof -
  show k: "start + n < 2 ^ 32" using assms(1) unsigned_less [of "of_nat (length cfile div CHUNK_SIZE) :: u32", where 'a = nat]
    by (simp add: chunk_count_def)
  have u: "unat (of_nat i :: u32) = i" if "i < start + n" for i using that k by (intro unat_of_nat_small) simp
  then have "inj_on (of_nat :: nat \<Rightarrow> u32) {start..<start + n}" by (intro inj_onI) (metis atLeastLessThan_iff)
  then show "distinct ids" by (simp add: ids_def distinct_map)
  show "c \<in> set ids \<Longrightarrow> unat c < chunk_count cfile" using u assms(1) by (auto simp: ids_def)
qed

lemma catalog_tables:
  assumes "catalog_matches db seeds d" and "index_served mmap seeds it (md_index d)" and "chunk_served cfile seeds ct (md_chunk d)"
  shows "index_match db (md_index d)" and "chunk_match db (md_chunk d)"
proof -
  have k: "unat (di_index_k db) = 75" "unat (di_chunk_k db) = 80" using assms(1) by (simp_all add: catalog_matches_def)
  have "table_covers (md_index d) 75" using assms(2) by (auto simp: index_served_def table_covers_def bin_size_params)
  moreover have "table_covers (md_chunk d) 80" using assms(3) by (auto simp: chunk_served_def table_covers_def bin_size_params)
  ultimately show "index_match db (md_index d)" "chunk_match db (md_chunk d)"
    using assms k by (simp_all add: index_match_def chunk_match_def table_ok_def catalog_matches_def index_served_def chunk_served_def
        group_params bin_size_params)
qed

text \<open>A bin of the trace is a bin of the table.\<close>

definition bin_served :: "mapped_sub_table \<Rightarrow> bin_trace \<Rightarrow> bool" where
  "bin_served t b \<longleftrightarrow> bt_pbc_group b < tp_k (mt_params t) \<and> unat (bt_bin_index b) < mt_bins_per_table t \<and>
     bt_bin_content b = served_bin t (bt_pbc_group b) (unat (bt_bin_index b))"

lemma chunk_level_result:
  assumes "honest_servers env from_bytes eval dbs" and "dpf_correct env from_bytes eval" and "get_db dbs (di_db_id db) = Some d"
    and "chunk_served cfile seeds ct (md_chunk d)" and "catalog_matches db seeds d" and "chunk_match db (md_chunk d)"
    and "distinct ids" and "\<And>c. c \<in> set ids \<Longrightarrow> unat c < chunk_count cfile"
  shows "\<exists>bins. query_chunk_level env i ids db = Inr (concat (map (chunk_at cfile) ids), bins) \<and> length bins = length ids \<and>
    length (concat (map (chunk_at cfile) ids)) = length ids * CHUNK_SIZE \<and> (\<forall>b \<in> set bins. bin_served (md_chunk d) b)"
proof -
  let ?t = "md_chunk d"
  have l: "length (chunk_at cfile c) = CHUNK_SIZE" if "c \<in> set ids" for c
  proof -
    have "Suc (unat c) * 40 \<le> chunk_count cfile * 40" using assms(8) [OF that] by (intro mult_le_mono1) simp
    then show ?thesis using chunk_count_le [of cfile] by (simp add: chunk_at_def CHUNK_SIZE_def)
  qed
  have k: "unat (di_chunk_k db) = 80" "unat (di_chunk_bins db) = mt_bins_per_table ?t" "0 < mt_bins_per_table ?t"
    using assms(5) by (simp_all add: catalog_matches_def)
  have av: "\<forall>c \<in> set ids. length (chunk_at cfile c) = CHUNK_SIZE \<and>
      (\<forall>g \<in> set (id_groups c (unat (di_chunk_k db))). \<exists>h. chunk_hit db (served_bin ?t) c g h (chunk_at cfile c))"
    unfolding k(1) id_groups_range(2) using l assms(8) chunk_found [OF assms(4,5)] by blast
  have p: "mt_params ?t = CHUNK_PARAMS" "mt_bins_per_table ?t < 2 ^ 32" using assms(4) unfolding chunk_served_def by blast+
  from chunk_phase_answer [OF assms(1-3,6,7) av, of i] obtain bins where
    b: "query_chunk_level env i ids db = Inr (concat (map (chunk_at cfile) ids), bins)"
      "list_all2 (\<lambda>c t. \<exists>g h. chunk_hit db (served_bin ?t) c g h (chunk_at cfile c) \<and> t = chunk_trace db (served_bin ?t) c g h) ids bins" by blast
  have "bin_served ?t x" if xin: "x \<in> set bins" for x
  proof -
    obtain j where j: "j < length bins" "bins ! j = x" using xin unfolding in_set_conv_nth by blast
    obtain g h where hit: "chunk_hit db (served_bin ?t) (ids ! j) g h (chunk_at cfile (ids ! j))"
      "x = chunk_trace db (served_bin ?t) (ids ! j) g h" using list_all2_nthD2 [OF b(2) j(1)] unfolding j(2) by blast
    define c where "c = ids ! j"
    have x: "g \<in> set (id_groups c 80)" "x = chunk_trace db (served_bin ?t) c g h" using hit k(1) by (simp_all add: c_def chunk_hit_def)
    have loc: "chunk_loc db c g h < mt_bins_per_table ?t" using chunk_loc_less(2) [of db c g h] k by simp
    then have "unat (of_nat (chunk_loc db c g h) :: u32) = chunk_loc db c g h" using p(2) by (intro unat_of_nat_small) simp
    moreover have "g < 80" using x(1) unfolding id_groups_range(2) by (rule id_groups_range(1))
    ultimately show ?thesis using x(2) loc p(1) by (simp add: bin_served_def chunk_trace_def group_params)
  qed
  then have "\<forall>x \<in> set bins. bin_served ?t x" by blast
  moreover have "length bins = length ids" using list_all2_lengthD [OF b(2)] by simp
  moreover have "length (concat (map (chunk_at cfile) ids)) = length ids * CHUNK_SIZE"
    using length_concat_fixed [of "map (chunk_at cfile) ids" CHUNK_SIZE] l by simp
  ultimately show ?thesis using b(1) by blast
qed

lemma step_query_result:
  assumes "honest_servers env from_bytes eval dbs" and "dpf_correct env from_bytes eval" and "get_db dbs (di_db_id db) = Some d"
    and "chunk_served cfile seeds ct (md_chunk d)" and "catalog_matches db seeds d" and "chunk_match db (md_chunk d)"
    and "di_kind db = Full" and "holds mmap cfile sh x" and "fst out = map_option found_of (lookup_record mmap sh)"
  shows "\<exists>tr. step_query env db (i, out) = Inr (result_of x, tr) \<and> qt_index_bins tr = fst (snd out) \<and>
    (\<forall>b \<in> set (qt_chunk_bins tr). bin_served (md_chunk d) b)"
proof -
  obtain bins idx where out: "out = (map_option found_of (lookup_record mmap sh), bins, idx)" using assms(9) by (metis prod.collapse)
  note chunk = chunk_level_result [OF assms(1-6), where i = i]
  show ?thesis
  proof (cases x)
    case Absent
    then have o: "out = (None, bins, idx)" using out assms(8) by simp
    show ?thesis using chunk [of "[]"] Absent by (auto simp: o step_query_def real_chunks_def)
  next
    case Whale
    then obtain tail where t: "lookup_record mmap sh = Some tail" "snd (tail_entry tail) = 0" using assms(8) by auto
    show ?thesis using chunk [of "[]"] Whale assms(7) t
      by (auto simp: out step_query_def real_chunks_def found_of_def decode_utxo_entries_def try_pir_def empty_result_def)
  next
    case (Entries es)
    then obtain tail pad where t: "lookup_record mmap sh = Some tail" "0 < unat (snd (tail_entry tail))"
      "unat (fst (tail_entry tail)) + unat (snd (tail_entry tail)) \<le> chunk_count cfile"
      "slice cfile (unat (fst (tail_entry tail)) * 40) (unat (snd (tail_entry tail)) * 40) = serialize_utxo_data es @ pad"
      "\<forall>e \<in> set es. length (txid e) = 32" "length es < 2 ^ 64"
      using assms(8) by (auto simp: Let_def CHUNK_SIZE_def)
    let ?ids = "map of_nat [unat (fst (tail_entry tail))..<unat (fst (tail_entry tail)) + unat (snd (tail_entry tail))] :: u32 list"
    note R = range_ids [OF t(3)]
    have n: "0 < snd (tail_entry tail)" using t(2) by (simp add: unat_gt_0 word_gt_0)
    have data: "concat (map (chunk_at cfile) ?ids) = serialize_utxo_data es @ pad" using concat_whole_chunks [OF t(3)] t(4) by simp
    obtain tr where tr: "query_chunk_level env i ?ids db = Inr (serialize_utxo_data es @ pad, tr)" "length tr = length ?ids"
      "length (serialize_utxo_data es @ pad) = length ?ids * CHUNK_SIZE"
      "\<forall>b \<in> set tr. bin_served (md_chunk d) b"
      using chunk [OF R(2,3)] unfolding data by blast
    have rc: "real_chunks (Some (found_of tail)) = Inr (?ids, False, True)"
      using R(1) n by (auto simp: real_chunks_def found_of_def)
    show ?thesis
      using tr rc decode_serialized_entries [OF t(5,6), of pad] assms(7) Entries
      by (simp add: out t(1) step_query_def with_entries_def empty_result_def try_pir_def)
  qed
qed

section \<open>The step\<close>

lemma map_client_results:
  assumes "\<forall>x \<in> set xs. \<exists>t. f x = Inr (g x, t) \<and> P x t"
  shows "\<exists>ts. map_client f xs = Inr (zip (map g xs) ts) \<and> list_all2 P xs ts"
  using assms
proof (induction xs)
  case (Cons x xs)
  then obtain t ts where "f x = Inr (g x, t)" "P x t" "map_client f xs = Inr (zip (map g xs) ts)" "list_all2 P xs ts" by auto
  then show ?case by (intro exI [of _ "t # ts"]) simp
qed simp

lemma one_round_capacity:
  assumes "plan_ok cands k [round]"
  shows "length cands \<le> k"
proof -
  have "length cands = length round"
    using arg_cong [OF assms [unfolded plan_ok_def, THEN conjunct1], of size] by simp
  also have "\<dots> = card (set (map snd round))"
    using plan_ok_items(4) [OF assms, of round] distinct_card [of "map snd round"] by simp
  also have "\<dots> \<le> card {..<k}"
    using plan_ok_items(3) [OF assms] by (intro card_mono) auto
  finally show ?thesis by simp
qed

lemma index_bins_served:
  assumes "index_served mmap seeds it (md_index d)" and "catalog_matches db seeds d" and "20 \<le> length sh" and "g < 75"
  shows "length (fst (snd (index_answer db (served_bin (md_index d)) sh g))) = 2 \<and>
    (\<forall>b \<in> set (fst (snd (index_answer db (served_bin (md_index d)) sh g))). bin_served (md_index d) b)"
proof -
  let ?t = "md_index d" and ?loc = "cuckoo_loc (di_index_master_seed db) (unat (di_index_bins db)) sh g"
  have k: "unat (di_index_bins db) = mt_bins_per_table ?t" "0 < mt_bins_per_table ?t" using assms(2) by (simp_all add: catalog_matches_def)
  have loc: "?loc h < mt_bins_per_table ?t" "?loc h < 2 ^ 32" for h
    using cuckoo_loc_less(2) [OF assms(3), of "unat (di_index_bins db)" "di_index_master_seed db" g h] k unsigned_less [of "di_index_bins db", where 'a = nat]
    by simp_all
  have "(ucast (of_nat (?loc h) :: u64) :: u32) = of_nat (?loc h)" for h
    using loc(2) [of h] by (simp add: unsigned_of_nat take_bit_nat_eq_self)
  then have "unat (ucast (of_nat (?loc h) :: u64) :: u32) = ?loc h" for h using loc(2) [of h] by (simp add: unat_of_nat_small)
  then show ?thesis using loc(1) assms(1,4) by (simp add: index_answer_def Let_def probe_step_bins bin_served_def index_served_def group_params)
qed

lemma honest_step:
  assumes "honest_servers env from_bytes eval dbs" and "dpf_correct env from_bytes eval" and "get_db dbs (di_db_id db) = Some d"
    and "built_database cb mmap cfile seeds d" and "catalog_matches db seeds d" and "di_kind db = Full"
    and "shs \<noteq> []" and "\<forall>sh \<in> set shs. length sh = 20 \<and> tag_exact (ra_index_tag seeds) mmap sh"
    and "list_all2 (holds mmap cfile) shs xs" and "plan_index_pbc_rounds_for_hashes shs 75 = Inr ([round], placement)"
  shows "\<exists>traces. execute_step_unverified env shs db = Inr (map result_of xs, traces) \<and> length traces = length shs \<and>
    (\<forall>tr \<in> set traces. length (qt_index_bins tr) = 2 \<and> (\<forall>b \<in> set (qt_index_bins tr). bin_served (md_index d) b) \<and>
      (\<forall>b \<in> set (qt_chunk_bins tr). bin_served (md_chunk d) b))"
proof -
  obtain it ct where sv: "index_served mmap seeds it (md_index d)" "chunk_served cfile seeds ct (md_chunk d)"
    using built_database_served [OF assms(4)] .
  note M = catalog_tables [OF assms(5) sv]
  have k: "unat (di_index_k db) = 75" using assms(5) by (simp add: catalog_matches_def)
  have l: "\<forall>sh \<in> set shs. 20 \<le> length sh" using assms(8) by simp
  from index_phase_answer [OF assms(1-3) M(1) assms(7) l] assms(10) have
    ok: "plan_ok (map (\<lambda>sh. hash_groups sh 75) shs) 75 [round]"
    and ph: "query_index_phase_batched env shs db =
      Inr (map (\<lambda>i. index_answer db (served_bin (md_index d)) (shs ! i) (group_of [round] i)) [0..<length shs])" (is "_ = Inr ?outs")
    by (auto simp: k)
  have rc: "record_count mmap \<le> 2 ^ 32 - 1" using assms(4) by (simp add: built_database_def)
  define outs where "outs = ?outs"
  have ll: "length outs = length shs" by (simp add: outs_def)
  define P where "P = (\<lambda>tr :: query_traces. length (qt_index_bins tr) = 2 \<and> (\<forall>b \<in> set (qt_index_bins tr). bin_served (md_index d) b) \<and>
      (\<forall>b \<in> set (qt_chunk_bins tr). bin_served (md_chunk d) b))"
  have st: "\<exists>t. step_query env db (i, outs ! i) = Inr (result_of (xs ! i), t) \<and> P t" if i: "i < length shs" for i
  proof -
    have sh: "20 \<le> length (shs ! i)" "tag_exact (ra_index_tag seeds) mmap (shs ! i)" using assms(8) i by simp_all
    have "group_of [round] i \<in> set (hash_groups (shs ! i) 75)"
      using group_of_item(2) [OF ok] plan_ok_items(3) [OF ok, of i "group_of [round] i"] i by (auto simp: nth_map)
    then have g: "group_of [round] i \<in> set (index_groups (shs ! i))" unfolding index_groups_range(2) [OF sh(1)] .
    from index_answer_found [OF sv(1) assms(5) rc sh(2,1) g]
    have "fst (outs ! i) = map_option found_of (lookup_record mmap (shs ! i))" using i by (simp add: outs_def)
    from step_query_result [OF assms(1-3) sv(2) assms(5) M(2) assms(6) list_all2_nthD [OF assms(9) i] this, of i] show ?thesis
      using index_bins_served [OF sv(1) assms(5) sh(1) index_groups_range(1) [OF sh(1) g]] i by (auto simp: P_def outs_def)
  qed
  have "\<forall>x \<in> set (enumerate 0 outs). \<exists>t. step_query env db x = Inr (result_of (xs ! fst x), t) \<and> P t"
  proof
    fix x assume "x \<in> set (enumerate 0 outs)"
    then have "fst x < length shs" "outs ! fst x = snd x" using ll by (simp_all add: in_set_enumerate_eq)
    then show "\<exists>t. step_query env db x = Inr (result_of (xs ! fst x), t) \<and> P t" using st [of "fst x"] by simp
  qed
  from map_client_results [OF this] obtain ts where
    ts: "map_client (step_query env db) (enumerate 0 outs) = Inr (zip (map (\<lambda>x. result_of (xs ! fst x)) (enumerate 0 outs)) ts)"
      "list_all2 (\<lambda>x. P) (enumerate 0 outs) ts" by blast
  have len: "length ts = length shs" using list_all2_lengthD [OF ts(2)] ll by simp
  have "map (\<lambda>x. result_of (xs ! fst x)) (enumerate 0 outs) = map result_of xs"
    using list_all2_lengthD [OF assms(9)] ll by (intro nth_equalityI) (simp_all add: nth_enumerate_eq)
  then have "execute_step_unverified env shs db = Inr (map result_of xs, ts)"
    using ph ts(1) outs_def len list_all2_lengthD [OF assms(9)] by (simp add: execute_step_unverified_def)
  moreover have "\<forall>tr \<in> set ts. P tr" using ts(2) by (auto simp: list_all2_conv_all_nth in_set_conv_nth)
  ultimately show ?thesis using len unfolding P_def by blast
qed

text \<open>
  C40: A batch of more script hashes than the INDEX table has groups always fails, with a protocol error, even
  when both servers run the server code on the same tables and the DPF keys are correct. The planner then
  needs a second INDEX round, whose request carries round 1; the server answers every INDEX batch with
  round 0, and the client rejects a reply of another round.
\<close>

theorem oversized_batch_fails:
  assumes "honest_servers env from_bytes eval dbs" and "dpf_correct env from_bytes eval" and "get_db dbs (di_db_id db) = Some d"
    and "index_match db (md_index d)" and "\<forall>sh \<in> set shs. 20 \<le> length sh" and "unat (di_index_k db) < length shs"
  shows "execute_step_unverified env shs db = Inl (Stop_Error (Protocol ''batch response round_id mismatch''))"
proof -
  have "shs \<noteq> []" using assms(6) by auto
  from index_phase_answer [OF assms(1-4) this assms(5)] obtain rounds where
    r: "plan_ok (map (\<lambda>sh. hash_groups sh (unat (di_index_k db))) shs) (unat (di_index_k db)) rounds"
      "length rounds \<noteq> 1 \<Longrightarrow> query_index_phase_batched env shs db = Inl round_mismatch" by auto
  have "length rounds \<noteq> 1"
    using one_round_capacity [of _ "unat (di_index_k db)"] r(1) assms(6) by (cases rounds rule: list.exhaust; cases "tl rounds") fastforce+
  then show ?thesis using r(2) by (simp add: execute_step_unverified_def round_mismatch_def)
qed

theorem oversized_batch_fails_witness:
  "\<exists>d. built_database (\<lambda>_ _. 1) demo_index demo_chunks demo_seeds d \<and>
    execute_step_unverified (demo_env [d]) (replicate 76 demo_hash) demo_info =
      Inl (Stop_Error (Protocol ''batch response round_id mismatch''))"
proof -
  obtain d where d: "built_database (\<lambda>_ _. 1) demo_index demo_chunks demo_seeds d" "catalog_matches demo_info demo_seeds d"
    using demo_database by blast
  obtain it ct where sv: "index_served demo_index demo_seeds it (md_index d)" "chunk_served demo_chunks demo_seeds ct (md_chunk d)"
    using built_database_served [OF d(1)] .
  have "get_db [d] (di_db_id demo_info) = Some d" by (simp add: get_db_def demo_info_def)
  from oversized_batch_fails [OF demo_env_honest demo_env_correct this catalog_tables(1) [OF d(2) sv], of "replicate 76 demo_hash"] show ?thesis
    using d(1) by (auto simp: demo_lengths demo_info_def)
qed

text \<open>
  C1: A query step retrieves what is stored. The database is any that the table builder writes and the server
  loads, the two servers are honest, the DPF keys are correct, and the catalog entry describes the tables.
  The database is a full one, and the 64-bit tags of the queried script hashes are not 0 and clash with no
  other record. Then a batch that the planner fits into one INDEX round gets, for each script hash, nothing if
  it has no record, the whale mark if its record has no chunks, and otherwise exactly the entries that were
  serialised into its chunks.
\<close>

theorem query_returns_stored:
  assumes "honest_servers env from_bytes eval dbs" and "dpf_correct env from_bytes eval" and "get_db dbs (di_db_id db) = Some d"
    and "built_database cb mmap cfile seeds d" and "catalog_matches db seeds d" and "di_kind db = Full"
    and "shs \<noteq> []" and "\<forall>sh \<in> set shs. length sh = 20 \<and> tag_exact (ra_index_tag seeds) mmap sh"
    and "list_all2 (holds mmap cfile) shs xs" and "plan_index_pbc_rounds_for_hashes shs 75 = Inr ([round], placement)"
  shows "\<exists>traces. execute_step_unverified env shs db = Inr (map result_of xs, traces)"
  using honest_step [OF assms] by blast

lemma single_plan:
  assumes "plan_ok [c] k rounds"
  shows "\<exists>round. rounds = [round]"
proof -
  have "length (concat rounds) = 1" using arg_cong [OF assms [unfolded plan_ok_def, THEN conjunct1], of size] by simp
  moreover have "\<forall>es \<in> set rounds. es \<noteq> []" using plan_ok_items(4) [OF assms] by blast
  ultimately show ?thesis
  proof (cases rounds)
    case (Cons r rs)
    with \<open>length (concat rounds) = 1\<close> \<open>\<forall>es \<in> set rounds. es \<noteq> []\<close> show ?thesis by (cases rs; cases r) auto
  qed simp
qed

lemma demo_plan: "\<exists>round placement. plan_index_pbc_rounds_for_hashes [demo_hash] 75 = Inr ([round], placement)"
proof -
  obtain rounds placement where r: "plan_index_pbc_rounds_for_hashes [demo_hash] 75 = Inr (rounds, placement)"
      "plan_ok [hash_groups demo_hash 75] 75 rounds"
    using plan_for_hashes [of "[demo_hash]" 75] demo_lengths(1) by auto
  then show ?thesis using single_plan [OF r(2)] by auto
qed

theorem query_returns_stored_witness:
  "\<exists>d traces. built_database (\<lambda>_ _. 1) demo_index demo_chunks demo_seeds d \<and>
    execute_step_unverified (demo_env [d]) [demo_hash] demo_info =
      Inr ([Some (with_entries [\<lparr>ux_txid = replicate 32 9, ux_vout = 1, ux_amount_sats = 5000\<rparr>])], traces)"
proof -
  obtain d where d: "built_database (\<lambda>_ _. 1) demo_index demo_chunks demo_seeds d" "catalog_matches demo_info demo_seeds d"
    using demo_database by blast
  have g: "get_db [d] (di_db_id demo_info) = Some d" by (simp add: get_db_def demo_info_def)
  obtain round placement where pl: "plan_index_pbc_rounds_for_hashes [demo_hash] 75 = Inr ([round], placement)" using demo_plan by blast
  have "\<forall>sh \<in> set [demo_hash]. length sh = 20 \<and> tag_exact (ra_index_tag demo_seeds) demo_index sh"
    using demo_lengths(1) demo_tag by (simp add: demo_seeds_def)
  from query_returns_stored [OF demo_env_honest demo_env_correct g d _ _ this _ pl, of "[Entries [demo_entry]]"] d(1) show ?thesis
    using demo_holds by (auto simp: demo_info_def demo_entry_def sdk_entry_def)
qed

end
