(* ===== verification/Dpf_Sound.thy ===== *)
theory Dpf_Sound
  imports Dpf_Trace Dpf_Query Bucket_Complete
begin

text \<open>
  What a verified result of the DPF client is worth against malicious servers
  (\<open>execute_step_traced\<close> of \<open>crates/sdk/client/src/dpf.rs\<close> with tree tops bound to an attested super-root).
\<close>

section \<open>Verdicts\<close>

lemma fold_verdicts:
  assumes "fold_client (fold_verdict itq) (enumerate 0 oks) (replicate n None) = Inr v"
  shows "length v = n \<and> (\<forall>ii < length oks. ii < length itq \<and> itq ! ii < n \<and>
    (\<exists>b. v ! (itq ! ii) = Some b \<and> (b \<longrightarrow> oks ! ii)))"
proof -
  have "length v = n \<and> (\<forall>(ii, k) \<in> set (enumerate 0 oks). ii < length itq \<and> itq ! ii < n \<and>
      (\<exists>b. v ! (itq ! ii) = Some b \<and> (b \<longrightarrow> k)))" (is "?P (enumerate 0 oks) v")
    using assms
  proof (rule fold_client_inv)
    show "?P [] (replicate n None)" by simp
    fix ys x zs s s' assume I: "?P ys s" and st: "fold_verdict itq x s = Inr s'"
    obtain ii k where x: "x = (ii, k)" by (cases x)
    have b: "ii < length itq" "itq ! ii < length s" "s' = s[itq ! ii := Some (case s ! (itq ! ii) of None \<Rightarrow> k | Some p \<Rightarrow> p \<and> k)]"
      using st x by (auto simp: fold_verdict_def nth_client_def split: if_splits)
    have "jj < length itq \<and> itq ! jj < n \<and> (\<exists>b. s' ! (itq ! jj) = Some b \<and> (b \<longrightarrow> l))" if "(jj, l) \<in> set (ys @ [x])" for jj l
    proof (cases "(jj, l) \<in> set ys")
      case True
      then have "jj < length itq" "itq ! jj < n" "\<exists>b. s ! (itq ! jj) = Some b \<and> (b \<longrightarrow> l)" using I by auto
      then show ?thesis using b by (cases "itq ! jj = itq ! ii") auto
    next
      case False
      then have "jj = ii" "l = k" using that x by auto
      then show ?thesis using I b by (auto split: option.splits)
    qed
    then show "?P (ys @ [x]) s'" using I b(3) by auto
  qed
  moreover have "(ii, oks ! ii) \<in> set (enumerate 0 oks)" if "ii < length oks" for ii using that by (simp add: in_set_enumerate_eq)
  ultimately show ?thesis by fast
qed

lemma collected_item:
  assumes "collect_merkle_items_from_traces traces = (items, itq)" and "i < length traces" and "b < length (qt_index_bins (traces ! i))"
  shows "\<exists>ii < length items. ii < length itq \<and> itq ! ii = i \<and> items ! ii = items_from_trace (traces ! i) ! b"
proof -
  let ?ps = "concat (map (\<lambda>(qi, trace). map (\<lambda>it. (it, qi)) (items_from_trace trace)) (enumerate 0 traces))"
  have p: "items = map fst ?ps" "itq = map snd ?ps" using assms(1) by (simp_all add: collect_merkle_items_from_traces_def Let_def)
  have "(i, traces ! i) \<in> set (enumerate 0 traces)" using assms(2) by (simp add: in_set_enumerate_eq)
  moreover have "items_from_trace (traces ! i) ! b \<in> set (items_from_trace (traces ! i))" using assms(3) by (simp add: items_from_trace_def)
  ultimately have "(items_from_trace (traces ! i) ! b, i) \<in> set ?ps" by force
  then obtain ii where "ii < length ?ps" "?ps ! ii = (items_from_trace (traces ! i) ! b, i)" by (metis in_set_conv_nth)
  then show ?thesis unfolding p by (intro exI [of _ ii]) simp
qed

text \<open>The verdict that a result shows: a missing result counts as verified, because a failed proof is kept as an unverified result.\<close>

definition shown_verified :: "query_result option \<Rightarrow> bool" where
  "shown_verified r \<longleftrightarrow> (case r of None \<Rightarrow> True | Some q \<Rightarrow> qr_merkle_verified q)"

lemma verification_accepts:
  assumes "run_merkle_verification env (Some tops) results traces db = Inr results'" and "length traces = length results"
    and "i < length results" and "shown_verified (results' ! i)" and "qt_index_bins (traces ! i) \<noteq> []"
  defines "items \<equiv> fst (collect_merkle_items_from_traces traces)"
  shows "length results' = length results \<and> results' ! i = map_option (\<lambda>r. r\<lparr>qr_merkle_verified := True\<rparr>) (results ! i) \<and>
    (\<exists>oks. verify_bucket_merkle_batch_generic (batch_querier env items (di_index_bins db) (unat (di_index_k db)) (di_db_id db) tops)
        items (di_index_bins db) (di_chunk_bins db) (unat (di_index_k db)) (unat (di_chunk_k db)) (di_db_id db) tops = Some (Inr oks) \<and>
      (\<forall>b < length (qt_index_bins (traces ! i)). \<exists>ii < length items. oks ! ii \<and> items ! ii = items_from_trace (traces ! i) ! b))"
proof -
  obtain itq where c: "collect_merkle_items_from_traces traces = (items, itq)" by (simp add: items_def prod_eq_iff)
  note I = collected_item [OF c, of i]
  have ne: "items \<noteq> []" using I [of 0] assms(2,3,5) by auto
  obtain oks v where r: "verify_bucket_merkle_batch_dpf env items (di_index_bins db) (di_chunk_bins db) (unat (di_index_k db)) (unat (di_chunk_k db))
      (di_db_id db) tops = Some (Inr oks)"
    "fold_client (fold_verdict itq) (enumerate 0 oks) (replicate (length results) None) = Inr v" "results' = map2 apply_verdict v results"
    using assms(1) c ne by (auto simp: run_merkle_verification_def verify_merkle_items_def try_pir_def or_panic_def elim!: rbind_eq_InrE)
  note F = fold_verdicts [OF r(2)]
  have lo: "length oks = length items"
    using r(1) by (auto simp: verify_bucket_merkle_batch_dpf_def verify_bucket_merkle_batch_generic_def
        split: if_splits sum.splits option.splits elim!: rbind_eq_InrE)
  have nth: "results' ! i = apply_verdict (v ! i) (results ! i)" and len: "length results' = length results"
    using r(3) F assms(3) by simp_all
  obtain b where b: "v ! i = Some b" using I [of 0] F lo assms(2,3,5) by auto
  have T: "v ! i = Some True" using assms(4) b nth by (cases b) (auto simp: apply_verdict_def shown_verified_def)
  have "\<exists>ii < length items. oks ! ii \<and> items ! ii = items_from_trace (traces ! i) ! b" if "b < length (qt_index_bins (traces ! i))" for b
    using I [of b] that F lo T assms(2,3) by auto
  then show ?thesis using r(1) nth T len by (auto simp: verify_bucket_merkle_batch_dpf_def apply_verdict_def)
qed

section \<open>Committed bins\<close>

lemma bin_content_served:
  assumes "load_sub_table f p = Some t" and "read_cuckoo_header_with_anchor f p = Inr hdr" and "group_bytes t g \<noteq> None"
  shows "bin_content f hdr p g b = served_bin t g b" and "ch_bins_per_table hdr = mt_bins_per_table t"
proof -
  have t: "mt_mmap t = f" "mt_params t = p" "mt_data_offset t = ch_header_size hdr"
    "mt_table_byte_size t = ch_bins_per_table hdr * tp_bin_size p" "mt_bins_per_table t = ch_bins_per_table hdr"
    using assms(1,2) by (auto simp: load_sub_table_def Let_def tp_table_byte_size_def split: if_splits)
  then show "ch_bins_per_table hdr = mt_bins_per_table t" by simp
  show "bin_content f hdr p g b = served_bin t g b"
    using assms(3) t by (auto simp: bin_content_def group_data_def served_bin_def group_bytes_def Let_def split: if_splits)
qed

lemma committed_served:
  assumes "load_sub_table f p = Some t" and "read_cuckoo_header_with_anchor f p = Inr hdr" and "\<forall>g < tp_k p. group_bytes t g \<noteq> None"
    and "committed_bin f hdr p \<lparr>si_group = g, si_bin_index = idx, si_bin_content = content\<rparr>"
  shows "content = served_bin t g (unat idx)"
  using assms(3,4) bin_content_served(1) [OF assms(1,2)] by (auto simp: committed_bin_def)

text \<open>Chunks other than the first are recognised without doubt: an empty slot reads as chunk 0.\<close>

lemma chunk_bin_honest:
  assumes "chunk_served cfile seeds tables t" and "g < 80" and "b < mt_bins_per_table t" and "c \<noteq> 0"
    and "find_chunk_in_result (served_bin t g b) c = Some data"
  shows "data = chunk_at cfile c"
proof -
  let ?bin = "served_bin t g b"
  obtain s where s: "s < 3" "slot_id ?bin s = u32_to_le c" "data = slot_data ?bin s"
    using find_chunk_cases [OF chunk_served_bins(1) [OF assms(1-3)], of c] assms(5) by auto
  have "tables ! g ! (b * 3 + s) \<noteq> EMPTY"
  proof
    assume e: "tables ! g ! (b * 3 + s) = EMPTY"
    have "slice ?bin (s * 44) 44 = replicate 44 0"
      using chunk_served_bins(2) [OF assms(1-3) s(1)] e by (simp add: chunk_slot_def slot_sizes)
    then have "slot_id ?bin s = replicate 4 0" using slice_slice [of 0 4 44 ?bin "s * 44"] by (simp add: slot_id_def) (simp add: slice_def)
    moreover have "replicate 4 0 = u32_to_le 0" by code_simp
    ultimately have "u32_to_le c = u32_to_le 0" using s(2) by simp
    then show False using assms(4) by simp
  qed
  from chunk_bin_slot [OF assms(1-3) s(1) this] s(2,3) show ?thesis by simp
qed

section \<open>One query\<close>

definition bin_honest :: "mapped_sub_table \<Rightarrow> bin_trace \<Rightarrow> bool" where
  "bin_honest t b \<longleftrightarrow> bt_bin_content b = served_bin t (bt_pbc_group b) (unat (bt_bin_index b))"

text \<open>The chunks of the record do not start at chunk 0, or it has none.\<close>

definition skips_chunk_zero :: "bytes \<Rightarrow> bytes \<Rightarrow> bool" where
  "skips_chunk_zero mmap sh \<longleftrightarrow> (\<forall>tail. lookup_record mmap sh = Some tail \<longrightarrow> fst (tail_entry tail) \<noteq> 0 \<or> snd (tail_entry tail) = 0)"

lemma chunk_data_honest:
  assumes "chunk_served cfile seeds ct (md_chunk d)" and "catalog_matches db seeds d" and "query_chunk_level env i ids db = Inr (data, bins)"
    and "distinct ids" and "\<forall>c \<in> set ids. c \<noteq> 0" and "\<forall>b \<in> set bins. bin_honest (md_chunk d) b"
  shows "data = concat (map (chunk_at cfile) ids)"
proof -
  let ?t = "md_chunk d"
  have k: "unat (di_chunk_k db) = 80" "unat (di_chunk_bins db) = mt_bins_per_table ?t" "0 < mt_bins_per_table ?t"
    using assms(2) by (simp_all add: catalog_matches_def)
  from chunk_phase_probed [OF assms(3,4)] k obtain datas where
    d: "length bins = length ids" "length datas = length ids" "data = concat datas" "\<forall>j < length ids. chunk_probed db (ids ! j) (datas ! j) (bins ! j)"
    by auto
  have "datas ! j = chunk_at cfile (ids ! j)" if j: "j < length ids" for j
  proof -
    obtain g h content where p: "g \<in> set (id_groups (ids ! j) 80)"
      "bins ! j = \<lparr>bt_pbc_group = g, bt_bin_index = of_nat (chunk_loc db (ids ! j) g h), bt_bin_content = content\<rparr>"
      "find_chunk_in_result content (ids ! j) = Some (datas ! j)"
      using d(4) j k(1) by (auto simp: chunk_probed_def)
    have l: "chunk_loc db (ids ! j) g h < mt_bins_per_table ?t" using chunk_loc_less(2) [of db "ids ! j" g h] k by simp
    then have "unat (of_nat (chunk_loc db (ids ! j) g h) :: u32) = chunk_loc db (ids ! j) g h"
      using assms(1) by (intro unat_of_nat_small) (simp add: chunk_served_def)
    then have c: "content = served_bin ?t g (chunk_loc db (ids ! j) g h)"
      using assms(6) p(2) j d(1) nth_mem [of j bins] by (auto simp: bin_honest_def)
    have g: "g < 80" using p(1) id_groups_range by metis
    show ?thesis using chunk_bin_honest [OF assms(1) g l] assms(5) j p(3) c by simp
  qed
  then have "datas = map (chunk_at cfile) ids" using d(2) by (intro nth_equalityI) simp_all
  then show ?thesis using d(3) by simp
qed

lemma step_query_sound:
  assumes "chunk_served cfile seeds ct (md_chunk d)" and "catalog_matches db seeds d" and "di_kind db = Full" and "holds mmap cfile sh x"
    and "skips_chunk_zero mmap sh" and "fst out = map_option found_of (lookup_record mmap sh)"
    and "step_query env db (i, out) = Inr (res, tr)" and "\<forall>b \<in> set (qt_chunk_bins tr). bin_honest (md_chunk d) b"
  shows "res = result_of x"
proof -
  obtain bins idx where out: "out = (map_option found_of (lookup_record mmap sh), bins, idx)" using assms(6) by (metis prod.collapse)
  obtain ids whale real data cbins where q: "real_chunks (map_option found_of (lookup_record mmap sh)) = Inr (ids, whale, real)"
    "query_chunk_level env i ids db = Inr (data, cbins)" "cbins = qt_chunk_bins tr"
    "if real then \<exists>es. decode_utxo_entries data = Inr es \<and> res = Some ((with_entries es)\<lparr>qr_is_whale := whale\<rparr>) else res = None"
    using assms(3,7) by (auto simp: out step_query_def Let_def try_pir_def with_entries_def empty_result_def split: if_splits elim!: rbind_eq_InrE)
  note D = chunk_data_honest [OF assms(1,2) q(2)]
  show ?thesis
  proof (cases x)
    case Absent
    then show ?thesis using q assms(4) by (simp add: real_chunks_def)
  next
    case Whale
    then obtain tail where t: "lookup_record mmap sh = Some tail" "snd (tail_entry tail) = 0" using assms(4) by auto
    then have r: "ids = []" "whale" "real" using q(1) by (auto simp: real_chunks_def found_of_def)
    then have "data = []" using D q(3) assms(8) by simp
    then show ?thesis using q(4) r Whale by (auto simp: decode_utxo_entries_def with_entries_def empty_result_def)
  next
    case (Entries es)
    then obtain tail pad where t: "lookup_record mmap sh = Some tail" "0 < unat (snd (tail_entry tail))"
      "unat (fst (tail_entry tail)) + unat (snd (tail_entry tail)) \<le> chunk_count cfile"
      "slice cfile (unat (fst (tail_entry tail)) * 40) (unat (snd (tail_entry tail)) * 40) = serialize_utxo_data es @ pad"
      "\<forall>e \<in> set es. length (txid e) = 32" "length es < 2 ^ 64"
      using assms(4) by (auto simp: Let_def CHUNK_SIZE_def)
    let ?a = "unat (fst (tail_entry tail))" and ?n = "unat (snd (tail_entry tail))"
    note R = range_ids [OF t(3)]
    have n: "0 < snd (tail_entry tail)" using t(2) by (simp add: unat_gt_0 word_gt_0)
    then have r: "ids = map of_nat [?a..<?a + ?n]" "\<not> whale" "real" using q(1) R(1) t(1) by (auto simp: real_chunks_def found_of_def)
    have "fst (tail_entry tail) \<noteq> 0" using assms(5) t(1) n by (auto simp: skips_chunk_zero_def)
    then have "0 < ?a" by (simp add: unat_gt_0)
    then have "c \<noteq> 0" if "c \<in> set ids" for c
    proof -
      obtain m where m: "c = of_nat m" "?a \<le> m" "m < ?a + ?n" using \<open>c \<in> set ids\<close> r(1) by auto
      then have "unat c = m" using R(1) by (simp add: unat_of_nat_small)
      then show ?thesis using m(2) \<open>0 < ?a\<close> by auto
    qed
    then have "data = serialize_utxo_data es @ pad"
      using D R(2) concat_whole_chunks [OF t(3)] t(4) q(3) assms(8) r(1) by simp
    then show ?thesis using q(4) r decode_serialized_entries [OF t(5,6), of pad] Entries by (simp add: with_entries_def empty_result_def)
  qed
qed

section \<open>The step\<close>

text \<open>The Merkle trees of two table files.\<close>

definition committed_trees ::
  "bytes \<Rightarrow> cuckoo_header \<Rightarrow> per_group_tree list \<Rightarrow> bytes \<Rightarrow> cuckoo_header \<Rightarrow> per_group_tree list \<Rightarrow> bool" where
  "committed_trees im ih its cm ch cts \<longleftrightarrow>
     read_cuckoo_header_with_anchor im INDEX_PARAMS = Inr ih \<and> build_trees im INDEX_PARAMS ih = Some its \<and>
     read_cuckoo_header_with_anchor cm CHUNK_PARAMS = Inr ch \<and> build_trees cm CHUNK_PARAMS ch = Some cts"

text \<open>The evidence that a step leaves: for every verified item what theory \<open>Bucket_Complete\<close> extracts from its proof.\<close>

definition step_evidence ::
  "bytes \<Rightarrow> cuckoo_header \<Rightarrow> per_group_tree list \<Rightarrow> bytes \<Rightarrow> cuckoo_header \<Rightarrow> per_group_tree list \<Rightarrow>
     dpf_env \<Rightarrow> database_info \<Rightarrow> tree_top list \<Rightarrow> query_traces list \<Rightarrow> evidence list" where
  "step_evidence im ih its cm ch cts env db tops traces =
     (let items = fst (collect_merkle_items_from_traces traces);
          q = batch_querier env items (di_index_bins db) (unat (di_index_k db)) (di_db_id db) tops
      in concat (map (batch_evidence im ih its cm ch cts q items (di_index_bins db) (di_chunk_bins db) (di_db_id db) tops)
           [0..<length items]))"

text \<open>A traced bin as an item of the verification, and a trace with a bin that is an inner node of its tree.\<close>

definition traced_sub :: "bin_trace \<Rightarrow> sub_item" where
  "traced_sub t = \<lparr>si_group = bt_pbc_group t, si_bin_index = bt_bin_index t, si_bin_content = bt_bin_content t\<rparr>"

definition trace_poses :: "per_group_tree list \<Rightarrow> per_group_tree list \<Rightarrow> query_traces \<Rightarrow> bool" where
  "trace_poses its cts tr \<longleftrightarrow> (\<exists>t \<in> set (qt_index_bins tr). poses_as_node its (traced_sub t)) \<or>
     (\<exists>t \<in> set (qt_chunk_bins tr). poses_as_node cts (traced_sub t))"

lemma item_of_trace:
  assumes "b < length (qt_index_bins tr)"
  shows "index_sub (items_from_trace tr ! b) = traced_sub (qt_index_bins tr ! b)"
    and "chunk_subs (items_from_trace tr ! b) = Some (if b = 0 then map traced_sub (qt_chunk_bins tr) else [])"
  using assms by (auto simp: items_from_trace_def nth_enumerate_eq index_sub_def chunk_subs_def traced_sub_def intro!: nth_equalityI)

lemma trace_honest:
  assumes "committed_trees im ih its cm ch cts" and "load_sub_table im INDEX_PARAMS = Some it" and "load_sub_table cm CHUNK_PARAMS = Some ct"
    and "\<forall>g < 75. group_bytes it g \<noteq> None" and "\<forall>g < 80. group_bytes ct g \<noteq> None"
    and "mt_bins_per_table it < 2 ^ 32" and "mt_bins_per_table ct < 2 ^ 32" and "\<forall>t \<in> set tops. wf_top t"
    and "verify_tree_tops_super_root sha256 tops 75 80 (bucket_super_root its cts) = Inr ()"
    and "verify_bucket_merkle_batch_generic q items ib cb 75 80 dbid tops = Some (Inr oks)"
    and "b < length (qt_index_bins tr)" and "ii < length items" and "oks ! ii" and "items ! ii = items_from_trace tr ! b"
    and "\<not> trace_poses its cts tr"
  shows "bin_honest it (qt_index_bins tr ! b) \<and> (b = 0 \<longrightarrow> (\<forall>t \<in> set (qt_chunk_bins tr). bin_honest ct t)) \<or>
    (\<exists>e \<in> set (batch_evidence im ih its cm ch cts q items ib cb dbid tops ii). breaks_sha256 e)"
proof -
  have C: "read_cuckoo_header_with_anchor im INDEX_PARAMS = Inr ih" "build_trees im INDEX_PARAMS ih = Some its"
    "read_cuckoo_header_with_anchor cm CHUNK_PARAMS = Inr ch" "build_trees cm CHUNK_PARAMS ch = Some cts"
    using assms(1) by (simp_all add: committed_trees_def)
  have n: "ch_bins_per_table ih \<le> 2 ^ 32" "ch_bins_per_table ch \<le> 2 ^ 32"
    using bin_content_served(2) [OF assms(2) C(1), of 0] bin_content_served(2) [OF assms(3) C(3), of 0] assms(4-7) by simp_all
  note I = item_of_trace [OF assms(11)]
  have np: "\<not> poses_as_node its (index_sub (items ! ii))" "\<not> (\<exists>subs. chunk_subs (items ! ii) = Some subs \<and> (\<exists>s \<in> set subs. poses_as_node cts s))"
    using assms(11,15) unfolding assms(14) I trace_poses_def by auto
  from batch_sound [OF C(2,4) n assms(8), unfolded group_params, OF assms(9,10,12,13)] np
  consider "committed_bin im ih INDEX_PARAMS (index_sub (items ! ii))"
      "\<exists>subs. chunk_subs (items ! ii) = Some subs \<and> (\<forall>s \<in> set subs. committed_bin cm ch CHUNK_PARAMS s)"
    | "\<exists>e \<in> set (batch_evidence im ih its cm ch cts q items ib cb dbid tops ii). breaks_sha256 e" by blast
  then show ?thesis
  proof cases
    case 1
    then have i: "committed_bin im ih INDEX_PARAMS (index_sub (items_from_trace tr ! b))"
      and c: "\<exists>subs. chunk_subs (items_from_trace tr ! b) = Some subs \<and> (\<forall>s \<in> set subs. committed_bin cm ch CHUNK_PARAMS s)"
      unfolding assms(14) by blast+
    have "bin_honest it (qt_index_bins tr ! b)"
      using committed_served [OF assms(2) C(1) _ i [unfolded I(1) traced_sub_def]] assms(4) by (simp add: bin_honest_def group_params)
    moreover have "bin_honest ct t" if "b = 0" "t \<in> set (qt_chunk_bins tr)" for t
    proof -
      have "committed_bin cm ch CHUNK_PARAMS \<lparr>si_group = bt_pbc_group t, si_bin_index = bt_bin_index t, si_bin_content = bt_bin_content t\<rparr>"
        using c I(2) that by (auto simp: traced_sub_def)
      from committed_served [OF assms(3) C(3) _ this] assms(5) show ?thesis by (simp add: bin_honest_def group_params)
    qed
    ultimately show ?thesis by blast
  qed simp
qed

lemma index_probed_honest:
  assumes "20 \<le> length sh" and "unat (di_index_bins db) = mt_bins_per_table t" and "0 < mt_bins_per_table t"
    and "fst (snd (index_probed db sh g c0 c1)) = bins" and "\<forall>b < length bins. bin_honest t (bins ! b)"
  shows "index_probed db sh g c0 c1 = index_answer db (served_bin t) sh g"
proof -
  let ?loc = "cuckoo_loc (di_index_master_seed db) (unat (di_index_bins db)) sh g"
  have b: "bins = [\<lparr>bt_pbc_group = g, bt_bin_index = ucast (of_nat (?loc 0) :: u64), bt_bin_content = c0\<rparr>,
      \<lparr>bt_pbc_group = g, bt_bin_index = ucast (of_nat (?loc 1) :: u64), bt_bin_content = c1\<rparr>]"
    using assms(4) by (simp add: index_probed_def Let_def probe_step_bins)
  have l: "?loc h < 2 ^ 32" for h
    using cuckoo_loc_less(2) [OF assms(1), of "unat (di_index_bins db)" "di_index_master_seed db" g h] assms(2,3)
      unsigned_less [of "di_index_bins db", where 'a = nat] by simp
  have u: "unat (ucast (of_nat (?loc h) :: u64) :: u32) = ?loc h" for h
  proof -
    have "(ucast (of_nat (?loc h) :: u64) :: u32) = of_nat (?loc h)"
      using l [of h] by (simp add: unsigned_of_nat take_bit_nat_eq_self)
    then show ?thesis using l [of h] by (simp add: unat_of_nat_small)
  qed
  have "length bins = 2" using b by simp
  then have "bin_honest t (bins ! 0)" "bin_honest t (bins ! 1)" using assms(5) by simp_all
  then have "c0 = served_bin t g (?loc 0)" "c1 = served_bin t g (?loc 1)" unfolding b by (simp_all add: bin_honest_def u)
  then show ?thesis by (simp add: index_probed_def index_answer_def)
qed

lemma step_query_index_bins:
  "step_query env db (i, out) = Inr (res, tr) \<Longrightarrow> qt_index_bins tr = fst (snd out)"
  by (cases out) (auto simp: step_query_def Let_def split: if_splits elim!: rbind_eq_InrE)

lemma unverified_queries:
  assumes "execute_step_unverified env shs db = Inr (results, traces)" and "shs \<noteq> []" and "\<forall>sh \<in> set shs. 20 \<le> length sh"
    and "3 \<le> unat (di_index_k db)" and "0 < unat (di_index_bins db)"
  shows "length results = length shs" and "length traces = length shs"
    and "i < length shs \<Longrightarrow> \<exists>g \<in> set (hash_groups (shs ! i) (unat (di_index_k db))). \<exists>c0 c1.
      step_query env db (i, index_probed db (shs ! i) g c0 c1) = Inr (results ! i, traces ! i)"
proof -
  obtain outs steps where o: "query_index_phase_batched env shs db = Inr outs"
    "map_client (step_query env db) (enumerate 0 outs) = Inr steps" "results = map fst steps" "traces = map snd steps"
    using assms(1) by (auto simp: execute_step_unverified_def elim!: rbind_eq_InrE)
  note P = index_phase_probed [OF o(1) assms(2-5)]
  note M = map_client_InrD [OF o(2)]
  show "length results = length shs" "length traces = length shs" using M P(1) o(3,4) by simp_all
  assume i: "i < length shs"
  then have "step_query env db (i, outs ! i) = Inr (results ! i, traces ! i)" using M P(1) o(3,4) by (simp add: nth_enumerate_eq)
  with P(2) [OF i] show "\<exists>g \<in> set (hash_groups (shs ! i) (unat (di_index_k db))). \<exists>c0 c1.
      step_query env db (i, index_probed db (shs ! i) g c0 c1) = Inr (results ! i, traces ! i)" by metis
qed

lemma verified_step_honest:
  assumes "built_database cb mmap cfile seeds d" and "build_index_cuckoo cb mmap seeds = Some im" and "build_chunk_cuckoo cb cfile seeds = Some cm"
    and "committed_trees im ih its cm ch cts" and "\<forall>t \<in> set tops. wf_top t"
    and "verify_tree_tops_super_root sha256 tops 75 80 (bucket_super_root its cts) = Inr ()"
    and "catalog_matches db seeds d" and "di_has_bucket_merkle db" and "shs \<noteq> []" and "\<forall>sh \<in> set shs. 20 \<le> length sh"
    and "execute_step_traced env (Some tops) shs db = Inr (results, traces)" and "i < length shs" and "shown_verified (results ! i)"
    and "\<not> trace_poses its cts (traces ! i)"
  shows "(\<exists>e \<in> set (step_evidence im ih its cm ch cts env db tops traces). breaks_sha256 e) \<or>
    (\<exists>g \<in> set (hash_groups (shs ! i) 75). \<exists>res. results ! i = map_option (\<lambda>r. r\<lparr>qr_merkle_verified := True\<rparr>) res \<and>
       step_query env db (i, index_answer db (served_bin (md_index d)) (shs ! i) g) = Inr (res, traces ! i) \<and>
       (\<forall>b \<in> set (qt_chunk_bins (traces ! i)). bin_honest (md_chunk d) b))"
proof (cases "\<exists>e \<in> set (step_evidence im ih its cm ch cts env db tops traces). breaks_sha256 e")
  case False
  let ?it = "md_index d" and ?ct = "md_chunk d" and ?tr = "traces ! i"
  obtain tt tt' where sv: "index_served mmap seeds tt ?it" "chunk_served cfile seeds tt' ?ct" using built_database_served [OF assms(1)] .
  have k: "unat (di_index_k db) = 75" "unat (di_chunk_k db) = 80" "unat (di_index_bins db) = mt_bins_per_table ?it" "0 < mt_bins_per_table ?it"
    using assms(7) by (simp_all add: catalog_matches_def)
  have ld: "load_sub_table im INDEX_PARAMS = Some ?it" "load_sub_table cm CHUNK_PARAMS = Some ?ct" using assms(1-3) by (auto simp: built_database_def)
  have t: "\<forall>g < 75. group_bytes ?it g \<noteq> None" "\<forall>g < 80. group_bytes ?ct g \<noteq> None" "mt_bins_per_table ?it < 2 ^ 32" "mt_bins_per_table ?ct < 2 ^ 32"
    using sv by (simp_all add: index_served_def chunk_served_def)
  obtain res0 where u: "execute_step_unverified env shs db = Inr (res0, traces)" "run_merkle_verification env (Some tops) res0 traces db = Inr results"
    using assms(8,9,11) by (auto simp: execute_step_traced_def elim!: rbind_eq_InrE)
  have pre: "3 \<le> unat (di_index_k db)" "0 < unat (di_index_bins db)" using k by simp_all
  note U = unverified_queries [OF u(1) assms(9,10) pre, unfolded k(1)]
  from U(3) [OF assms(12)] obtain g c0 c1 where g: "g \<in> set (hash_groups (shs ! i) 75)"
    "step_query env db (i, index_probed db (shs ! i) g c0 c1) = Inr (res0 ! i, ?tr)" by blast
  note B = step_query_index_bins [OF g(2)]
  have ne: "qt_index_bins ?tr \<noteq> []" unfolding B index_probed_def Let_def probe_step_bins by simp
  define items where "items = fst (collect_merkle_items_from_traces traces)"
  let ?q = "batch_querier env items (di_index_bins db) 75 (di_db_id db) tops"
  from verification_accepts [OF u(2) _ _ assms(13) ne, folded items_def, unfolded k] U(1,2) k assms(12) obtain oks where
    v: "results ! i = map_option (\<lambda>r. r\<lparr>qr_merkle_verified := True\<rparr>) (res0 ! i)"
    "verify_bucket_merkle_batch_generic ?q items (di_index_bins db) (di_chunk_bins db) 75 80 (di_db_id db) tops = Some (Inr oks)"
    "\<forall>b < length (qt_index_bins ?tr). \<exists>ii < length items. oks ! ii \<and> items ! ii = items_from_trace ?tr ! b" by auto
  have H: "bin_honest ?it (qt_index_bins ?tr ! b) \<and> (b = 0 \<longrightarrow> (\<forall>t \<in> set (qt_chunk_bins ?tr). bin_honest ?ct t))" if b: "b < length (qt_index_bins ?tr)" for b
  proof -
    from v(3) b obtain ii where ii: "ii < length items" "oks ! ii" "items ! ii = items_from_trace ?tr ! b" by blast
    have "\<not> (\<exists>e \<in> set (batch_evidence im ih its cm ch cts ?q items (di_index_bins db) (di_chunk_bins db) (di_db_id db) tops ii). breaks_sha256 e)"
      using False ii(1) by (auto simp: step_evidence_def Let_def k items_def)
    with trace_honest [OF assms(4) ld t assms(5,6) v(2) b ii assms(14)] show ?thesis by blast
  qed
  have "index_probed db (shs ! i) g c0 c1 = index_answer db (served_bin ?it) (shs ! i) g"
    by (rule index_probed_honest [OF _ k(3,4) B [symmetric]]) (use H assms(10,12) in auto)
  then show ?thesis using g v(1) H [of 0] ne by auto
qed simp

end
