(* ===== verification/Dpf_Siblings.thy ===== *)
theory Dpf_Siblings
  imports Dpf_Merkle Dpf_Round Bucket_Complete
begin

text \<open>
  The sibling rounds of the DPF client against honest servers: the sibling files of the Merkle builder load
  as tables whose bins are the sibling rows, a round asks for one row per group, and the rows that the
  client reconstructs are those of the committed trees.
\<close>

section \<open>Sibling tables\<close>

lemma sibling_header_written:
  assumes "l < 256"
  shows "write_header_with_anchor (sibling_params k (push_bit 40 (ucast tt)) l) n 0 None =
    Some (sibling_table_header n k (bucket_sib_magic tt (of_nat l)))"
proof -
  have "(ucast (of_nat l :: u8) :: u64) = of_nat l" using assms by (simp add: unsigned_of_nat take_bit_nat_eq_self)
  then show ?thesis
    by (simp add: write_header_with_anchor_def write_header_def sibling_params_def sibling_table_header_def bucket_sib_magic_def)
qed

lemma length_sibling_row:
  assumes "\<forall>x \<in> set lv. length x = 32"
  shows "length (sibling_row lv r) = 256"
  using length_concat_fixed [OF node_children_32 [OF assms], of ARITY r] by (simp add: sibling_row_children ARITY_def)

lemma sibling_table_loads:
  assumes f: "write_flat_sibling_table trees l n k (bucket_sib_magic tt (of_nat l)) = Some file" and "l < 256" and "n < 2 ^ 32" and "length trees = k"
    and lv: "\<forall>t \<in> set trees. \<forall>x \<in> set (pg_levels t ! l). length x = 32"
  shows "\<exists>t. load_sub_table file (sibling_params k (push_bit 40 (ucast tt)) l) = Some t \<and> tp_k (mt_params t) = k \<and>
    tp_bin_size (mt_params t) = 256 \<and> mt_bins_per_table t = n \<and> table_covers t k \<and>
    (\<forall>g < k. \<forall>r < n. served_bin t g r = sibling_row (pg_levels (trees ! g) ! l) r)"
proof -
  let ?p = "sibling_params k (push_bit 40 (ucast tt)) l"
  let ?rows = "\<lambda>t. map (sibling_row (pg_levels t ! l)) [0..<n]"
  let ?body = "concat (map (\<lambda>t. concat (?rows t)) trees)"
  have fe: "file = sibling_table_header n k (bucket_sib_magic tt (of_nat l)) @ ?body"
    using f assms(4) by (simp add: write_flat_sibling_table_def split: if_splits)
  have hs: "tp_header_size ?p = 32" "tp_bin_size ?p = 256" "tp_k ?p = k" by (simp_all add: sibling_params_def tp_bin_size_def)
  have len: "length (sibling_table_header n k (bucket_sib_magic tt (of_nat l))) = 32" by (simp add: sibling_table_header_def)
  have rd: "read_cuckoo_header_with_anchor file ?p = Inr (expected_header ?p n 0 None)"
    using header_roundtrip_aux [of ?p n None 0 ?body] sibling_header_written [OF assms(2)] assms(3) hs fe by simp
  have row: "\<forall>x \<in> set (?rows t). length x = 256" if "t \<in> set trees" for t using lv that length_sibling_row by auto
  have grp: "length (concat (?rows t)) = n * 256" if "t \<in> set trees" for t using length_concat_fixed [OF row [OF that]] by simp
  then have grps: "\<forall>x \<in> set (map (\<lambda>t. concat (?rows t)) trees). length x = n * 256" by auto
  then have lb: "length ?body = k * (n * 256)" using length_concat_fixed [OF grps] assms(4) by simp
  define t where "t = \<lparr>mt_mmap = file, mt_params = ?p, mt_bins_per_table = n, mt_table_byte_size = n * 256, mt_data_offset = 32,
    mt_tag_seed = 0, mt_master_seed = 0, mt_anchor = None\<rparr>"
  have ld: "load_sub_table file ?p = Some t"
    using rd hs by (simp add: load_sub_table_def expected_header_def t_def tp_table_byte_size_def sibling_params_def)
  have gb: "group_bytes t g = Some (concat (?rows (trees ! g)))" if "g < k" for g
  proof -
    have "Suc g * (n * 256) \<le> k * (n * 256)" using that by (intro mult_le_mono1) simp
    then have "\<not> length file < 32 + g * (n * 256) + n * 256" using fe len lb by simp
    moreover have "slice file (32 + g * (n * 256)) (n * 256) = concat (?rows (trees ! g))"
      using slice_concat_fixed [OF grps, of g "[]"] that assms(4) len by (simp add: fe slice_def)
    ultimately show ?thesis by (simp add: group_bytes_def t_def)
  qed
  have "served_bin t g r = sibling_row (pg_levels (trees ! g) ! l) r" if "g < k" "r < n" for g r
    using gb [OF that(1)] slice_concat_fixed [OF row, of "trees ! g" r "[]"] that assms(4) hs by (simp add: served_bin_def t_def)
  then show ?thesis using ld gb hs by (intro exI [of _ t]) (simp add: t_def table_covers_def)
qed

section \<open>Requests and replies\<close>

lemma sibling_frame:
  "keys \<noteq> [] \<Longrightarrow> encode_sibling_batch db_id rid keys = client_encode_batch_query REQ_BUCKET_MERKLE_SIB_BATCH rid db_id (map (\<lambda>k. [k]) keys)"
  by (cases keys) (simp_all add: encode_sibling_batch_def client_encode_batch_query_def Let_def o_def)

lemma sibling_keys: "gen_keys env e n (map (\<lambda>a. [a]) alphas) = map (\<lambda>(g, a). [de_gen env e g 0 a n]) (enumerate 0 alphas)"
proof -
  have "enumerate i (map (\<lambda>a. [a]) alphas) = map (\<lambda>(g, a). (g, [a])) (enumerate i alphas)" for i
    by (induction alphas arbitrary: i) simp_all
  then show ?thesis by (simp add: gen_keys_def o_def case_prod_unfold)
qed

lemma sibling_round_id_parts:
  assumes "tt = 0 \<or> tt = 1" and "l < 100"
  shows "unat (sibling_round_id tt l) div 100 = unat tt" and "unat (sibling_round_id tt l) mod 100 = l"
proof -
  have "sibling_round_id tt l = of_nat (unat tt * 100 + l)" using assms(1) by (auto simp: sibling_round_id_def)
  moreover have "unat (of_nat (unat tt * 100 + l) :: u16) = unat tt * 100 + l" using assms by (intro unat_of_nat_small) auto
  ultimately have "unat (sibling_round_id tt l) = unat tt * 100 + l" by simp
  then show "unat (sibling_round_id tt l) div 100 = unat tt" "unat (sibling_round_id tt l) mod 100 = l" using assms(2) by simp_all
qed

definition sibling_tables :: "u8 \<Rightarrow> mapped_database \<Rightarrow> mapped_sub_table list" where
  "sibling_tables tt d = (if tt = 0 then md_index_siblings d else md_chunk_siblings d)"

lemma sibling_request_served:
  assumes "keys_ok from_bytes k 1 keys" and "k < 256" and "0 < k" and "get_db dbs db_id = Some d" and "has_bucket_merkle d"
    and "tt = 0 \<or> tt = 1" and "l < 100" and "l < length (sibling_tables tt d)" and "sibling_tables tt d ! l = t" and "tp_k (mt_params t) = k"
    and "table_covers t k"
  shows "handle_dpf from_bytes eval dbs (drop 4 (client_encode_batch_query REQ_BUCKET_MERKLE_SIB_BATCH (sibling_round_id tt l) db_id keys)) =
    Reply (response_encode (BucketMerkleSibBatchR
      \<lparr>br_level = 0, br_round_id = sibling_round_id tt l, br_results = own_results eval t (map (map (the \<circ> from_bytes)) keys)\<rparr>))"
proof -
  let ?rid = "sibling_round_id tt l"
  let ?q = "sent_query ?rid db_id keys"
  have "batch_query_ok 0 ?q" using keys_ok_query [OF assms(1-3)] by (simp add: MAX_KEYS_PER_GROUP_def)
  then have rd: "request_decode (REQ_BUCKET_MERKLE_SIB_BATCH # encode_batch_query ?q) = Inr (BucketMerkleSibBatch ?q)"
    using batch_query_roundtrip [of 0 ?q] by (simp add: request_decode_def request_opcodes) (simp add: sent_query_def)
  have keys: "dpf_keys from_bytes ?q t USIZE_MAX = Some (map (map (the \<circ> from_bytes)) keys)"
    by (rule keys_ok_parse [OF assms(1,10)]) (simp add: USIZE_MAX_def)
  have q: "bq_db_id ?q = db_id" "bq_round_id ?q = ?rid" "bq_level ?q = 0" by (simp_all add: sent_query_def)
  have op: "REQ_BUCKET_MERKLE_SIB_BATCH \<noteq> REQ_INDEX_BATCH" "REQ_BUCKET_MERKLE_SIB_BATCH \<noteq> REQ_CHUNK_BATCH" by (simp_all add: request_opcodes)
  have sib: "(if unat tt = 0 then md_index_siblings d else md_chunk_siblings d) = sibling_tables tt d" by (simp add: sibling_tables_def unat_eq_0)
  have "process_generic_batch from_bytes eval ?q t =
      Some \<lparr>br_level = 0, br_round_id = ?rid, br_results = own_results eval t (map (map (the \<circ> from_bytes)) keys)\<rparr>"
    using keys scan_batch_served [OF assms(1,11), of eval 0 ?rid] q by (simp add: process_generic_batch_def)
  then show ?thesis
    using rd q op assms(4,5,8,9)
    unfolding client_frame_payload handle_dpf_def handle_sibling_batch_def
    by (simp add: Let_def sibling_round_id_parts [OF assms(6,7)] sib reply_with_def)
qed

lemma sibling_frame_decodes:
  assumes "batch_result_ok r" and "length (encode_batch_result r) < 2 ^ 32 - 1" and "br_results r \<noteq> []" and "\<forall>g \<in> set (br_results r). length g = 1"
  shows "decode_sibling_batch_frame (response_encode (BucketMerkleSibBatchR r)) (br_round_id r) (length (br_results r)) = Inr (br_results r)"
proof -
  let ?v = "RESP_BUCKET_MERKLE_SIB_BATCH" and ?rs = "br_results r"
  have n: "length ?rs < 256" "\<forall>g \<in> set ?rs. length g = 1 \<and> (\<forall>b \<in> set g. length b < 65536)" using assms(1,4) by (auto simp: batch_result_ok_def Let_def)
  let ?body = "concat (map (\<lambda>group_results. concat (map encode_blob16 group_results)) ?rs)"
  have enc: "encode_batch_result r = u16_to_le (br_round_id r) @ [of_nat (length ?rs), 1] @ ?body"
    using assms(3,4) by (cases ?rs) (simp_all add: encode_batch_result_def)
  have one: "read_sibling_result (encode_blob16 b @ d) = Inr (b, d)" if "length b < 65536" for b d
    using that by (simp add: read_sibling_result_def encode_blob16_def Let_def unat_of_nat_small)
  have "client_read_many 1 read_sibling_result (concat (map encode_blob16 g) @ d) = Inr (g, d)"
    if "length g = 1 \<and> (\<forall>b \<in> set g. length b < 65536)" for g d
    using client_read_many_enc [of "\<lambda>b. length b < 65536" read_sibling_result encode_blob16 g d] one that by simp
  then have rd: "client_read_many (length ?rs) (client_read_many 1 read_sibling_result) (?body @ []) = Inr (?rs, [])"
    using client_read_many_enc [of "\<lambda>g. length g = 1 \<and> (\<forall>b \<in> set g. length b < 65536)" "client_read_many 1 read_sibling_result"
        "\<lambda>g. concat (map encode_blob16 g)" ?rs "[]"] n(2) by blast
  have fr: "response_encode (BucketMerkleSibBatchR r) = u32_to_le (of_nat (length (?v # encode_batch_result r))) @ ?v # encode_batch_result r"
    by (simp add: response_encode_def)
  have len: "unat (of_nat (length (?v # encode_batch_result r)) :: u32) = length (?v # encode_batch_result r)"
    using assms(2) by (intro unat_of_nat_small) simp
  have u: "unat (of_nat (length ?rs) :: u8) = length ?rs" using n by (intro unat_of_nat_small) simp
  have er: "decode_error_response_message (?v # encode_batch_result r) = Inr None"
    by (simp add: decode_error_response_message_def response_opcodes)
  have f: "take 2 (encode_batch_result r) = u16_to_le (br_round_id r)" "encode_batch_result r ! 2 = of_nat (length ?rs)" "encode_batch_result r ! 3 = 1"
    "drop 4 (encode_batch_result r) = ?body" "\<not> length (encode_batch_result r) < 4"
    unfolding enc by (simp_all add: nth_append)
  have "decode_sibling_batch_body (?v # encode_batch_result r) (br_round_id r) (length ?rs) = Inr ?rs"
    unfolding decode_sibling_batch_body_def using er f u rd by (simp add: Let_def)
  then show ?thesis unfolding decode_sibling_batch_frame_def fr using len by simp
qed

section \<open>A round\<close>

lemma unat_widen: "unat (ucast (x :: u32) :: u64) = unat x"
  by transfer (simp add: take_bit_take_bit)

lemma sibling_alphas_ok:
  assumes "bins \<noteq> 0" and "\<forall>x. Some x \<in> set targets \<longrightarrow> unat x < unat bins"
  shows "length (fst (sibling_alphas bins targets rng)) = length targets \<and>
    (\<forall>a \<in> set (fst (sibling_alphas bins targets rng)). unat a < unat bins) \<and>
    (\<forall>g < length targets. \<forall>x. targets ! g = Some x \<longrightarrow> unat (fst (sibling_alphas bins targets rng) ! g) = unat x)"
  using assms(2)
proof (induction targets arbitrary: rng)
  case (Cons target targets)
  obtain alpha rng' where a: "(case target of Some t \<Rightarrow> (ucast t, rng)
      | None \<Rightarrow> if bins = 0 then (0, rng) else (let (v, rng) = rng_next rng in (v mod ucast bins, rng))) = (alpha, rng')"
    by (metis surj_pair)
  have b: "unat (ucast bins :: u64) = unat bins" by (rule unat_widen)
  have "(ucast bins :: u64) \<noteq> 0" using assms(1) b by (metis unat_eq_0)
  then have "unat (v mod ucast bins) < unat bins" for v :: u64 using b assms(1) by (simp add: unat_mod unat_gt_0)
  then have al: "unat alpha < unat bins" "\<forall>x. target = Some x \<longrightarrow> unat alpha = unat x"
    using a Cons.prems assms(1) by (auto simp: unat_widen Let_def split: option.splits prod.splits)
  have st: "fst (sibling_alphas bins (target # targets) rng) = alpha # fst (sibling_alphas bins targets rng')"
    using a by (simp split: prod.splits)
  show ?case unfolding st using Cons.IH [of rng'] Cons.prems al by (auto simp: less_Suc_eq_0_disj)
qed simp

lemma sibling_round_rows:
  fixes p :: nat and rng :: u64
  assumes "honest_servers env from_bytes eval dbs" and "dpf_correct env from_bytes eval" and "get_db dbs db_id = Some d" and "has_bucket_merkle d"
    and "tt = 0 \<or> tt = 1" and "l < 100" and "l < length (sibling_tables tt d)" and "sibling_tables tt d ! l = t"
    and "table_ok t (length targets) (the (compute_dpf_n (unat bins)))" and "unat bins = mt_bins_per_table t" and "bins \<noteq> 0"
    and "\<forall>x. Some x \<in> set targets \<longrightarrow> unat x < unat bins"
  defines "r \<equiv> fst (prepare_round env tt l bins db_id (p, targets) rng)"
  shows "send_round env r = Inr () \<and> (\<exists>rs. recv_round env r = Inr rs \<and>
    finish_round r rs = Inr (map (\<lambda>(g, target). map_option (\<lambda>x. served_bin t g (unat x)) target) (enumerate 0 targets)))"
proof -
  let ?k = "length targets" and ?e = "Sibling_Round tt l p" and ?n = "the (compute_dpf_n (unat bins))" and ?rid = "sibling_round_id tt l"
  define alphas where "alphas = fst (sibling_alphas bins targets rng)"
  note A = sibling_alphas_ok [OF assms(11,12), of rng, folded alphas_def]
  note T = assms(9) [unfolded table_ok_def]
  let ?as = "map (\<lambda>a. [a]) alphas"
  let ?keys = "gen_keys env ?e ?n ?as"
  have as: "alphas_ok ?k 1 (mt_bins_per_table t) ?as" using A assms(10) by (auto simp: alphas_ok_def)
  have ok: "keys_ok from_bytes ?k 1 (map (map fst) ?keys)" "keys_ok from_bytes ?k 1 (map (map snd) ?keys)"
    using gen_keys_ok [OF assms(2) as, where n = ?n and e = ?e] T by blast+
  have ne: "alphas \<noteq> []" using A T by auto
  have q: "client_encode_batch_query REQ_BUCKET_MERKLE_SIB_BATCH ?rid db_id (map (map f) ?keys) =
      encode_sibling_batch db_id ?rid (map f (map (\<lambda>(g, a). de_gen env ?e g 0 a ?n) (enumerate 0 alphas)))" for f :: "bytes \<times> bytes \<Rightarrow> bytes"
  proof -
    have "map (map f) ?keys = map (\<lambda>k. [k]) (map f (map (\<lambda>(g, a). de_gen env ?e g 0 a ?n) (enumerate 0 alphas)))"
      by (simp add: sibling_keys case_prod_unfold)
    moreover have "enumerate 0 alphas \<noteq> []" using ne by (metis enumerate_simps(2) length_0_conv length_enumerate)
    ultimately show ?thesis using sibling_frame by simp
  qed
  have r: "r = \<lparr>sg_exchange = ?e, sg_round_id = ?rid, sg_pass_targets = targets,
      sg_request0 = client_encode_batch_query REQ_BUCKET_MERKLE_SIB_BATCH ?rid db_id (map (map fst) ?keys),
      sg_request1 = client_encode_batch_query REQ_BUCKET_MERKLE_SIB_BATCH ?rid db_id (map (map snd) ?keys)\<rparr>"
    unfolding r_def prepare_round_def q Let_def by (simp add: alphas_def split: prod.split)
  have k: "?k < 256" "0 < ?k" "tp_bin_size (mt_params t) < 65536" using T by simp_all
  let ?res = "scan_pair from_bytes eval t ?keys"
  let ?R = "\<lambda>x. response_encode (BucketMerkleSibBatchR \<lparr>br_level = 0, br_round_id = ?rid, br_results = x\<rparr>)"
  note served = sibling_request_served [OF _ k(1,2) assms(3-8), where eval = eval and from_bytes = from_bytes]
  have rv: "recv_round env r = Inr (?R (fst ?res), ?R (snd ?res))" and sd: "send_round env r = Inr ()"
    using served [OF ok(1)] served [OF ok(2)] T assms(1) by (simp_all add: recv_round_def send_round_def r honest_servers_def scan_pair_def)
  have dec: "decode_sibling_batch_frame (?R x) ?rid ?k = Inr x \<and> length x = ?k \<and> (\<forall>g < ?k. length (x ! g) = 1)"
    if x: "x = fst ?res \<or> x = snd ?res" for x
  proof -
    have R: "batch_result_ok \<lparr>br_level = 0, br_round_id = ?rid, br_results = x\<rparr>"
      "length (encode_batch_result \<lparr>br_level = 0, br_round_id = ?rid, br_results = x\<rparr>) < 2 ^ 32 - 1"
      "check_batch_response_shape x ?k 1 = Inr ()"
      using scan_result_ok(1,2) [OF ok(1) k(1) _ k(3), where eval = eval and l = 0 and rid = ?rid] scan_result_ok(3) [OF ok(1) k(1) _ k(3), where eval = eval]
        scan_result_ok(1,2) [OF ok(2) k(1) _ k(3), where eval = eval and l = 0 and rid = ?rid] scan_result_ok(3) [OF ok(2) k(1) _ k(3), where eval = eval] x
      by (auto simp: scan_pair_def)
    have sh: "length x = ?k" "\<forall>g \<in> set x. length g = 1" using R(3) by (auto simp: check_batch_response_shape_def split: if_splits)
    then have "x \<noteq> []" using k(2) by auto
    then show ?thesis using sibling_frame_decodes [OF R(1,2)] sh by auto
  qed
  have bin: "xor_into (fst ?res ! g ! 0) (snd ?res ! g ! 0) = served_bin t g (unat x)" if "g < ?k" "targets ! g = Some x" for g x
  proof -
    have "xor_bin (fst ?res) (snd ?res) g 0 = Inr (served_bin t g (unat (?as ! g ! 0)))"
      using scan_pair_bins [OF assms(2,9) as that(1), of 0] by simp
    moreover have "unat (?as ! g ! 0) = unat x" using A that by simp
    moreover have "fst ?res ! g \<noteq> []" "snd ?res ! g \<noteq> []" "g < length (fst ?res)" "g < length (snd ?res)"
      using dec [of "fst ?res"] dec [of "snd ?res"] that(1) by auto
    ultimately show ?thesis by (simp add: xor_bin_def nth_client_def)
  qed
  have "finish_round r (?R (fst ?res), ?R (snd ?res)) =
      Inr (map (\<lambda>(g, target). map_option (\<lambda>x. served_bin t g (unat x)) target) (enumerate 0 targets))"
  proof -
    have "(if target = None \<or> length (fst ?res) \<le> g \<or> length (snd ?res) \<le> g \<or> fst ?res ! g = [] \<or> snd ?res ! g = [] then None
        else Some (xor_into (fst ?res ! g ! 0) (snd ?res ! g ! 0))) = map_option (\<lambda>x. served_bin t g (unat x)) target"
      if "(g, target) \<in> set (enumerate 0 targets)" for g target
    proof -
      have g: "g < ?k" "targets ! g = target" using that by (simp_all add: in_set_enumerate_eq)
      have "length (fst ?res ! g) = 1" "length (snd ?res ! g) = 1" "g < length (fst ?res)" "g < length (snd ?res)"
        using dec [of "fst ?res"] dec [of "snd ?res"] g(1) by auto
      then show ?thesis using bin [OF g(1)] g(2) by (cases target) auto
    qed
    then show ?thesis using dec [of "fst ?res"] dec [of "snd ?res"] by (auto simp: finish_round_def r Let_def intro!: map_cong)
  qed
  then show ?thesis using rv sd by blast
qed

section \<open>All rounds of a table\<close>

lemma try_map_wave:
  assumes "list_all2 (\<lambda>x y. (\<exists>u. send x = Inr u) \<and> (\<exists>z. recv x = Inr z \<and> fin (x, z) = Inr y)) xs ys"
  shows "(\<exists>us. try_map send xs = Inr us) \<and> (\<exists>zs. try_map recv xs = Inr zs \<and> try_map fin (zip xs zs) = Inr ys)"
  using assms by (induction rule: list_all2_induct) auto

lemma thread_map_each: "list_all2 (\<lambda>x y. \<exists>s. y = fst (f x s)) xs (fst (thread_map f xs s))"
proof (induction xs arbitrary: s)
  case (Cons x xs)
  obtain y s' where y: "f x s = (y, s')" by (cases "f x s")
  have "\<exists>s. y = fst (f x s)" using y by (metis fst_conv)
  then show ?case using Cons [of s'] y by (auto split: prod.splits)
qed simp

text \<open>A level whose sibling table the servers have, with targets inside it.\<close>

definition level_served :: "mapped_database \<Rightarrow> u8 \<Rightarrow> per_group_tree list \<Rightarrow> sibling_level_plan \<Rightarrow> bool" where
  "level_served d tt trees plan \<longleftrightarrow>
     (let l = slp_level plan; bins = slp_bins_per_table plan; t = sibling_tables tt d ! l
      in l < 100 \<and> l < length (sibling_tables tt d) \<and> table_ok t (length trees) (the (compute_dpf_n (unat bins))) \<and>
         unat bins = mt_bins_per_table t \<and> bins \<noteq> 0 \<and>
         (\<forall>g < length trees. \<forall>r < unat bins. served_bin t g r = sibling_row (pg_levels (trees ! g) ! l) r) \<and>
         (\<forall>targets \<in> set (slp_passes plan). length targets = length trees \<and> (\<forall>x. Some x \<in> set targets \<longrightarrow> unat x < unat bins)))"

lemma level_rounds_rows:
  assumes "honest_servers env from_bytes eval dbs" and "dpf_correct env from_bytes eval" and "get_db dbs db_id = Some d" and "has_bucket_merkle d"
    and "tt = 0 \<or> tt = 1" and "level_served d tt trees plan"
    and "rounds = fst (thread_map (prepare_round env tt (slp_level plan) (slp_bins_per_table plan) db_id) (enumerate 0 (slp_passes plan)) rng)"
  shows "(\<exists>us. try_map (send_round env) rounds = Inr us) \<and>
    (\<exists>zs. try_map (recv_round env) rounds = Inr zs \<and> try_map (\<lambda>(r, rs). finish_round r rs) (zip rounds zs) = Inr (honest_rows trees plan))"
proof (rule try_map_wave)
  let ?l = "slp_level plan" and ?bins = "slp_bins_per_table plan"
  let ?t = "sibling_tables tt d ! ?l"
  have L: "?l < 100" "?l < length (sibling_tables tt d)" "table_ok ?t (length trees) (the (compute_dpf_n (unat ?bins)))" "unat ?bins = mt_bins_per_table ?t"
    "?bins \<noteq> 0" "\<forall>g < length trees. \<forall>r < unat ?bins. served_bin ?t g r = sibling_row (pg_levels (trees ! g) ! ?l) r"
    "\<forall>targets \<in> set (slp_passes plan). length targets = length trees \<and> (\<forall>x. Some x \<in> set targets \<longrightarrow> unat x < unat ?bins)"
    using assms(6) unfolding level_served_def Let_def by blast+
  note E = thread_map_each [of "prepare_round env tt ?l ?bins db_id" "enumerate 0 (slp_passes plan)" rng, folded assms(7), unfolded list_all2_conv_all_nth]
  show "list_all2 (\<lambda>r rows. (\<exists>u. send_round env r = Inr u) \<and> (\<exists>z. recv_round env r = Inr z \<and> (case (r, z) of (r, rs) \<Rightarrow> finish_round r rs) = Inr rows))
      rounds (honest_rows trees plan)"
  proof (rule list_all2_all_nthI)
    show "length rounds = length (honest_rows trees plan)" using E by (simp add: honest_rows_def)
    fix p assume "p < length rounds"
    then have p: "p < length (slp_passes plan)" using E by simp
    let ?targets = "slp_passes plan ! p"
    obtain s where r: "rounds ! p = fst (prepare_round env tt ?l ?bins db_id (p, ?targets) s)" using E p by (auto simp: nth_enumerate_eq)
    have tg: "length ?targets = length trees" "\<forall>x. Some x \<in> set ?targets \<longrightarrow> unat x < unat ?bins" using L(7) nth_mem [OF p] by blast+
    have "map (\<lambda>(g, target). map_option (\<lambda>x. served_bin ?t g (unat x)) target) (enumerate 0 ?targets) = honest_rows trees plan ! p"
    proof -
      have "map_option (\<lambda>x. served_bin ?t g (unat x)) target = map_option (\<lambda>r. sibling_row (pg_levels (trees ! g) ! ?l) (unat r)) target"
        if "(g, target) \<in> set (enumerate 0 ?targets)" for g target
      proof (cases target)
        case (Some x)
        then have "g < length trees" "Some x \<in> set ?targets" using that tg(1) by (auto simp: in_set_enumerate_eq) (metis nth_mem)
        then show ?thesis using L(6) tg(2) Some by simp
      qed simp
      then show ?thesis using p by (auto simp: honest_rows_def enumerate_eq_zip intro!: map_cong)
    qed
    then show "(\<exists>u. send_round env (rounds ! p) = Inr u) \<and>
        (\<exists>z. recv_round env (rounds ! p) = Inr z \<and> (case (rounds ! p, z) of (r, rs) \<Rightarrow> finish_round r rs) = Inr (honest_rows trees plan ! p))"
      using sibling_round_rows [OF assms(1-5) L(1,2) refl L(3) [folded tg(1)] L(4,5) tg(2), where p = p and rng = s, folded r] by auto
  qed
qed

lemma dpf_query_levels_honest:
  assumes "honest_servers env from_bytes eval dbs" and "dpf_correct env from_bytes eval" and "get_db dbs db_id = Some d" and "has_bucket_merkle d"
    and "tt = 0 \<or> tt = 1" and "\<forall>plan \<in> set plans. level_served d tt trees plan"
  shows "dpf_query_levels env rng tt plans db_id = Inr (map (honest_rows trees) plans)"
proof -
  let ?prep = "\<lambda>plan. thread_map (prepare_round env tt (slp_level plan) (slp_bins_per_table plan) db_id) (enumerate 0 (slp_passes plan))"
  define prepared where "prepared = fst (thread_map ?prep plans (rng tt))"
  have E: "list_all2 (\<lambda>plan rounds. \<exists>s. rounds = fst (?prep plan s)) plans prepared" unfolding prepared_def by (rule thread_map_each)
  have "list_all2 (\<lambda>rounds rows. (\<exists>us. try_map (send_round env) rounds = Inr us) \<and>
      (\<exists>zs. try_map (recv_round env) rounds = Inr zs \<and>
        (case (rounds, zs) of (rounds, level_responses) \<Rightarrow> try_map (\<lambda>(r, rs). finish_round r rs) (zip rounds level_responses)) = Inr rows))
    prepared (map (honest_rows trees) plans)"
  proof (rule list_all2_all_nthI)
    show "length prepared = length (map (honest_rows trees) plans)" using list_all2_lengthD [OF E] by simp
    fix j assume "j < length prepared"
    then have j: "j < length plans" using list_all2_lengthD [OF E] by simp
    obtain s where r: "prepared ! j = fst (?prep (plans ! j) s)" using list_all2_nthD [OF E j] by blast
    have "level_served d tt trees (plans ! j)" using assms(6) j by simp
    from level_rounds_rows [OF assms(1-5) this r] j
    show "(\<exists>us. try_map (send_round env) (prepared ! j) = Inr us) \<and> (\<exists>zs. try_map (recv_round env) (prepared ! j) = Inr zs \<and>
        (case (prepared ! j, zs) of (rounds, level_responses) \<Rightarrow> try_map (\<lambda>(r, rs). finish_round r rs) (zip rounds level_responses)) =
        Inr (map (honest_rows trees) plans ! j))" by simp
  qed
  from try_map_wave [OF this] show ?thesis by (auto simp: dpf_query_levels_def prepare_levels_def Let_def prepared_def)
qed

end
