(* ===== verification/Dpf_Verified.thy ===== *)
theory Dpf_Verified
  imports Dpf_Sound Dpf_Siblings Libdpf_Correct
begin

text \<open>
  The whole chain for an honest database: the table builder writes the INDEX and CHUNK files, the Merkle
  builder the files over them, the server loads the directory and answers, and the client queries and
  verifies the results. Then what a verified result is worth when the servers are not honest.
\<close>

section \<open>Sibling levels\<close>

lemma sibling_levels_counts:
  "l < length (compute_sibling_levels n) \<Longrightarrow>
     level_groups_count (length (compute_sibling_levels n)) n ! l = of_nat (compute_sibling_levels n ! l)"
  unfolding compute_sibling_levels_def
proof (induction n arbitrary: l rule: sibling_levels_loop.induct)
  case (1 n)
  let ?g = "div_ceil n ARITY"
  have e: "sibling_levels_loop n = (if ?g \<le> TREE_TOP_THRESHOLD then [] else ?g # sibling_levels_loop ?g)"
    by (subst sibling_levels_loop.simps) (simp add: Let_def)
  have a: "BUCKET_MERKLE_ARITY = ARITY" by (simp add: BUCKET_MERKLE_ARITY_def ARITY_def)
  show ?case
  proof (cases "?g \<le> TREE_TOP_THRESHOLD")
    case True
    then show ?thesis using 1(2) e by simp
  next
    case False
    then show ?thesis using 1(1) [OF refl False, of "l - 1"] 1(2) e a by (cases l) (simp_all add: Let_def)
  qed
qed

lemma sibling_levels_bounds:
  assumes "l < length (compute_sibling_levels n)"
  shows "1024 < compute_sibling_levels n ! l" and "compute_sibling_levels n ! l \<le> n" and "i < n \<Longrightarrow> i div 8 ^ Suc l < compute_sibling_levels n ! l"
  using assms unfolding compute_sibling_levels_def
proof (induction n arbitrary: l i rule: sibling_levels_loop.induct)
  case (1 n)
  let ?g = "div_ceil n ARITY"
  have e: "sibling_levels_loop n = (if ?g \<le> TREE_TOP_THRESHOLD then [] else ?g # sibling_levels_loop ?g)"
    by (subst sibling_levels_loop.simps) (simp add: Let_def)
  {
    case 1
    then have ng: "\<not> ?g \<le> TREE_TOP_THRESHOLD" using e by (auto split: if_splits)
    show ?case using "1.IH"(1) [OF refl ng, of "l - 1"] 1 ng e by (cases l) (simp_all add: TREE_TOP_THRESHOLD_def)
  next
    case 2
    then have ng: "\<not> ?g \<le> TREE_TOP_THRESHOLD" using e by (auto split: if_splits)
    then have "?g \<le> n" using div_ceil_smaller [of ARITY n] by (cases "1 < n") (auto simp: ARITY_def TREE_TOP_THRESHOLD_def div_ceil_def)
    then show ?case using "1.IH"(2) [OF refl ng, of "l - 1"] 2 ng e by (cases l) auto
  next
    case 3
    then have ng: "\<not> ?g \<le> TREE_TOP_THRESHOLD" using e by (auto split: if_splits)
    have g: "i div 8 < ?g" using div_less_div_ceil [of ARITY i n] 3 by (simp add: ARITY_def)
    have d: "i div 8 ^ Suc (Suc m) = i div 8 div 8 ^ Suc m" for m
      by (metis div_mult2_eq power_Suc)
    show ?case using "1.IH"(3) [OF refl ng, of "i div 8" "l - 1"] 3 ng e g d by (cases l) auto
  }
qed

lemma sibling_domain_ok:
  assumes "1024 < unat (bins :: u32)"
  shows "domain_ok (unat bins) (the (compute_dpf_n (unat bins)))"
proof -
  have b: "unat bins < 2 ^ 32" using unsigned_less [where 'a = nat, of bins] by simp
  obtain m where m: "compute_dpf_n (unat bins) = Some (of_nat m)" "m \<le> 63" "unat bins \<le> 2 ^ m" "2 ^ (m - 1) < unat bins"
    using compute_dpf_n_returns [of "unat bins"] assms b by auto
  have "(2 :: nat) ^ (m - 1) < 2 ^ 32" using m(4) b by (rule less_trans)
  then have "m - 1 < 32" by (rule power_less_imp_less_exp [rotated]) simp
  moreover have "(2 :: nat) ^ 10 < 2 ^ m" using assms m(3) by simp
  then have "10 < m" by (rule power_less_imp_less_exp [rotated]) simp
  ultimately have "7 \<le> m" "m \<le> 32" by simp_all
  moreover have "unat (of_nat m :: u8) = m" using m(2) by (intro unat_of_nat_small) simp
  ultimately show ?thesis using m(1,3) by (simp add: domain_ok_def MIN_DPF_DOMAIN_N_def MAX_DPF_DOMAIN_N_def word_le_nat_alt)
qed

lemma cached_level_small:
  "x \<in> set (drop (length (sibling_levels_loop (length xs))) (build_levels ARITY xs)) \<Longrightarrow> length x \<le> 8192"
proof (induction "length xs" arbitrary: xs rule: sibling_levels_loop.induct)
  case 1
  let ?g = "div_ceil (length xs) ARITY"
  show ?case
  proof (cases "?g \<le> TREE_TOP_THRESHOLD")
    case True
    then have "length xs \<le> 8192" by (simp add: div_ceil_le_iff ARITY_def TREE_TOP_THRESHOLD_def)
    moreover have "x \<in> set (build_levels ARITY xs)" using 1(2) in_set_dropD by fast
    ultimately show ?thesis using build_levels_le [of ARITY x xs] by (simp add: ARITY_def)
  next
    case False
    then have n: "\<not> length xs \<le> 1" by (cases "length xs = 0"; cases "length xs = 1") (auto simp: div_ceil_def TREE_TOP_THRESHOLD_def ARITY_def)
    then have eq: "build_levels ARITY xs = xs # build_levels ARITY (next_level ARITY xs)"
      by (subst build_levels.simps) (simp add: ARITY_def)
    have "sibling_levels_loop (length xs) = ?g # sibling_levels_loop ?g"
      using False by (subst sibling_levels_loop.simps) (simp add: Let_def)
    then show ?thesis using 1(1) [of "next_level ARITY xs"] 1(2) False eq by simp
  qed
qed


lemma tree_top_size:
  assumes "build_group_tree mmap off g bins bs = Some t" and "bins < 2 ^ 32" and "write_one_tree_top t (length (compute_sibling_levels bins)) = Some b"
  shows "length b \<le> 8 + 12 * (4 + 8192 * 32)"
proof -
  let ?lv = "build_levels ARITY (leaf_hashes (group_data mmap off g bins bs) bins bs)" and ?c = "length (compute_sibling_levels bins)"
  note D = build_group_tree_SomeD [OF assms(1)]
  have sz: "length (write_level x) \<le> 4 + 8192 * 32" if "x \<in> set (drop ?c ?lv)" for x
  proof -
    have "length x \<le> 8192"
      using cached_level_small [of x "leaf_hashes (group_data mmap off g bins bs) bins bs"] that by (simp add: compute_sibling_levels_def)
    moreover have "\<forall>y \<in> set x. length y = 32"
      using in_set_dropD [OF that] build_levels_32 [of "leaf_hashes (group_data mmap off g bins bs) bins bs" _ ARITY]
      by (auto simp: in_set_conv_nth leaf_hashes_def)
    ultimately show ?thesis using length_concat_fixed [of x 32] by (simp add: write_level_def)
  qed
  have "bins \<le> ARITY ^ 11" using assms(2) by (simp add: ARITY_def)
  then have n: "length (drop ?c ?lv) \<le> 12" using build_levels_depth [of "leaf_hashes (group_data mmap off g bins bs) bins bs" 11] by simp
  have "length (concat (map write_level ls)) \<le> length ls * (4 + 8192 * 32)" if "set ls \<subseteq> set (drop ?c ?lv)" for ls
    using that
  proof (induction ls)
    case (Cons x ls)
    then show ?case using sz [of x] by simp
  qed simp
  from order_trans [OF this [OF subset_refl] mult_le_mono1 [OF n]]
  have "length (concat (map write_level (drop ?c ?lv))) \<le> 12 * (4 + 8192 * 32)" .
  then show ?thesis using assms(3) by (auto simp: write_one_tree_top_def Let_def D(1) split: if_splits)
qed

lemma tops_loop_size:
  "write_tops_loop ts = Some b \<Longrightarrow> (\<And>t c b. (t, c) \<in> set ts \<Longrightarrow> write_one_tree_top t c = Some b \<Longrightarrow> length b \<le> m) \<Longrightarrow>
     length b \<le> length ts * m"
proof (induction ts arbitrary: b rule: write_tops_loop.induct)
  case (2 t c ts)
  obtain x y where x: "write_one_tree_top t c = Some x" "write_tops_loop ts = Some y" "b = x @ y"
    using "2.prems"(1) by (auto split: option.splits)
  have "length y \<le> length ts * m" by (rule "2.IH" [OF x(1,2)]) (use "2.prems"(2) in auto)
  then show ?case using "2.prems"(2) [of t c x] x by simp
qed simp

lemma tree_tops_size:
  assumes "build_trees im INDEX_PARAMS ih = Some its" and "build_trees cm CHUNK_PARAMS ch = Some cts"
    and "ch_bins_per_table ih < 2 ^ 32" and "ch_bins_per_table ch < 2 ^ 32"
    and "write_tree_tops its cts (compute_sibling_levels (ch_bins_per_table ih)) (compute_sibling_levels (ch_bins_per_table ch)) = Some b"
  shows "length b < 2 ^ 32 - 1"
proof -
  let ?il = "length (compute_sibling_levels (ch_bins_per_table ih))" and ?cl = "length (compute_sibling_levels (ch_bins_per_table ch))"
  let ?ts = "map (\<lambda>t. (t, ?il)) its @ map (\<lambda>t. (t, ?cl)) cts" and ?m = "8 + 12 * (4 + 8192 * 32) :: nat"
  obtain bs where bs: "write_tops_loop ?ts = Some bs" "length b = 4 + length bs"
    using assms(5) by (auto simp: write_tree_tops_def)
  have one: "length x \<le> ?m" if "build_trees mmap p hdr = Some trees" "ch_bins_per_table hdr < 2 ^ 32" "t \<in> set trees"
    "write_one_tree_top t (length (compute_sibling_levels (ch_bins_per_table hdr))) = Some x" for mmap p hdr trees t x
    using tree_top_size build_trees_nth [OF that(1)] that(2-4) by (metis in_set_conv_nth)
  have "length x \<le> ?m" if "(t, c) \<in> set ?ts" "write_one_tree_top t c = Some x" for t c x
    using that one [OF assms(1,3)] one [OF assms(2,4)] by auto
  from tops_loop_size [OF bs(1) this] have "length bs \<le> (75 + 80) * ?m"
    using build_trees_nth(1) [OF assms(1)] build_trees_nth(1) [OF assms(2)] by (simp add: params_eval)
  then show ?thesis using bs(2) by simp
qed


section \<open>The directory of a database\<close>

lemma decimal_value: "foldl (\<lambda>a c. a * 10 + (of_char c - 48)) (0 :: nat) (decimal n) = n"
proof (induction n rule: decimal.induct)
  case (1 n)
  have d: "of_char (decimal_digit k) = 48 + k" if "k < 10" for k :: nat using that by (simp add: decimal_digit_def)
  show ?case
  proof (cases "n < 10")
    case True
    then show ?thesis by (subst decimal.simps) (simp add: d)
  next
    case False
    then show ?thesis using 1 by (subst decimal.simps) (simp add: d)
  qed
qed

lemma decimal_eq_iff [simp]: "decimal m = decimal n \<longleftrightarrow> m = n"
  using decimal_value by metis

text \<open>The files that the two builders leave in the directory that the server loads.\<close>

definition database_files :: "bytes \<Rightarrow> bytes \<Rightarrow> bucket_merkle_files \<Rightarrow> db_files" where
  "database_files im cm bm = map_of
     ([(''batch_pir_cuckoo.bin'', im), (''chunk_pir_cuckoo.bin'', cm), (''merkle_bucket_tree_tops.bin'', bm_tree_tops bm),
       (''merkle_bucket_roots.bin'', bm_roots bm), (''merkle_bucket_root.bin'', bm_root bm)] @
      map (\<lambda>(l, f). (''merkle_bucket_index_sib_L'' @ decimal l @ ''.bin'', f)) (enumerate 0 (bm_index_sib bm)) @
      map (\<lambda>(l, f). (''merkle_bucket_chunk_sib_L'' @ decimal l @ ''.bin'', f)) (enumerate 0 (bm_chunk_sib bm)))"

lemma map_of_numbered:
  assumes "\<And>l m. name l = name m \<longleftrightarrow> l = m"
  shows "map_of (map (\<lambda>(l, f). (name l, f)) (enumerate i fs)) (name l) = (if i \<le> l \<and> l < i + length fs then Some (fs ! (l - i)) else None)"
  by (induction fs arbitrary: i) (auto simp: assms nth_Cons')

lemma database_files_named:
  "database_files im cm bm ''batch_pir_cuckoo.bin'' = Some im"
  "database_files im cm bm ''chunk_pir_cuckoo.bin'' = Some cm"
  "database_files im cm bm ''merkle_bucket_tree_tops.bin'' = Some (bm_tree_tops bm)"
  "database_files im cm bm ''merkle_bucket_roots.bin'' = Some (bm_roots bm)"
  "database_files im cm bm ''merkle_bucket_root.bin'' = Some (bm_root bm)"
  by (simp_all add: database_files_def)

lemma database_files_siblings:
  "database_files im cm bm (''merkle_bucket_index_sib_L'' @ decimal l @ ''.bin'') = (if l < length (bm_index_sib bm) then Some (bm_index_sib bm ! l) else None)"
  "database_files im cm bm (''merkle_bucket_chunk_sib_L'' @ decimal l @ ''.bin'') = (if l < length (bm_chunk_sib bm) then Some (bm_chunk_sib bm ! l) else None)"
proof -
  have n: "map_of (map (\<lambda>(l, f). (''merkle_bucket_index_sib_L'' @ decimal l @ ''.bin'', f)) (enumerate 0 fs)) (''merkle_bucket_chunk_sib_L'' @ x) = None"
    "map_of (map (\<lambda>(l, f). (''merkle_bucket_chunk_sib_L'' @ decimal l @ ''.bin'', f)) (enumerate 0 fs)) (''merkle_bucket_index_sib_L'' @ x) = None" for fs :: "bytes list" and x
    by (auto simp: map_of_eq_None_iff)
  note m = map_of_numbered [of "\<lambda>l. ''merkle_bucket_index_sib_L'' @ decimal l @ ''.bin''" 0] map_of_numbered [of "\<lambda>l. ''merkle_bucket_chunk_sib_L'' @ decimal l @ ''.bin''" 0]
  show "database_files im cm bm (''merkle_bucket_index_sib_L'' @ decimal l @ ''.bin'') = (if l < length (bm_index_sib bm) then Some (bm_index_sib bm ! l) else None)"
    using m(1) [of "bm_index_sib bm" l] n(2) unfolding database_files_def map_of_append map_add_def by simp
  show "database_files im cm bm (''merkle_bucket_chunk_sib_L'' @ decimal l @ ''.bin'') = (if l < length (bm_chunk_sib bm) then Some (bm_chunk_sib bm ! l) else None)"
    using m(2) [of "bm_chunk_sib bm" l] n(1) unfolding database_files_def map_of_append map_add_def by simp
qed

lemma load_siblings_written:
  assumes "\<And>l. l < n \<Longrightarrow> Option.bind (files (stem @ decimal l @ ''.bin'')) (\<lambda>b. load_sub_table b (sibling_params k tb l)) = Some (t l)"
    and "files (stem @ decimal n @ ''.bin'') = None" and "i \<le> n" and "n \<le> limit"
  shows "load_siblings files stem k tb [i..<limit] = Some (map t [i..<n])"
  using assms(3)
proof (induction "n - i" arbitrary: i)
  case 0
  then have "i = n" by simp
  then show ?case using assms(2,4) by (cases "n < limit") (simp_all add: upt_conv_Cons)
next
  case (Suc d)
  then have "i < n" by simp
  then obtain b where b: "files (stem @ decimal i @ ''.bin'') = Some b" "load_sub_table b (sibling_params k tb i) = Some (t i)"
    using assms(1) [of i] by (cases "files (stem @ decimal i @ ''.bin'')") auto
  have "load_siblings files stem k tb [Suc i..<limit] = Some (map t [Suc i..<n])" using Suc by simp
  then show ?case using b \<open>i < n\<close> assms(4) by (simp add: upt_conv_Cons)
qed


text \<open>The sibling tables hold the rows of the trees, level by level.\<close>

definition siblings_serve :: "mapped_sub_table list \<Rightarrow> per_group_tree list \<Rightarrow> nat list \<Rightarrow> bool" where
  "siblings_serve ts trees levels \<longleftrightarrow> length ts = length levels \<and>
     (\<forall>l < length levels. tp_k (mt_params (ts ! l)) = length trees \<and> tp_bin_size (mt_params (ts ! l)) = 256 \<and>
        mt_bins_per_table (ts ! l) = levels ! l \<and> table_covers (ts ! l) (length trees) \<and>
        (\<forall>g < length trees. \<forall>r < levels ! l. served_bin (ts ! l) g r = sibling_row (pg_levels (trees ! g) ! l) r))"

lemma sibling_levels_count:
  assumes "build_trees mmap p hdr = Some trees" and "ch_bins_per_table hdr < 2 ^ 32" and "0 < tp_k p"
  shows "length (compute_sibling_levels (ch_bins_per_table hdr)) < 12"
proof -
  note bg = build_trees_nth(2) [OF assms(1,3)]
  have "ch_bins_per_table hdr \<le> ARITY ^ 11" using assms(2) by (simp add: ARITY_def)
  then have "length (pg_levels (trees ! 0)) \<le> Suc 11" unfolding build_group_tree_SomeD(1) [OF bg] by (intro build_levels_depth) simp
  with tree_sibling_levels [OF bg] show ?thesis by simp
qed

lemma siblings_loaded:
  assumes bt: "build_trees mmap p hdr = Some trees" and "ch_bins_per_table hdr < 2 ^ 32" and "0 < tp_k p"
    and ws: "write_sib_tables trees (compute_sibling_levels (ch_bins_per_table hdr)) (tp_k p) tt = Some fs"
    and dir: "\<And>l. files (stem @ decimal l @ ''.bin'') = (if l < length fs then Some (fs ! l) else None)" and "12 \<le> limit"
  shows "\<exists>ts. load_siblings files stem (tp_k p) (push_bit 40 (ucast tt)) [0..<limit] = Some ts \<and>
    siblings_serve ts trees (compute_sibling_levels (ch_bins_per_table hdr))"
proof -
  let ?ls = "compute_sibling_levels (ch_bins_per_table hdr)"
  have n: "length ?ls < 12" by (rule sibling_levels_count [OF assms(1-3)])
  note W = collect_options_SomeD [OF ws [unfolded write_sib_tables_def]]
  have fs: "length fs = length ?ls" using W by simp
  have lt: "length trees = tp_k p" by (rule build_trees_nth(1) [OF bt])
  have "\<exists>t. load_sub_table (fs ! l) (sibling_params (tp_k p) (push_bit 40 (ucast tt)) l) = Some t \<and> tp_k (mt_params t) = tp_k p \<and>
      tp_bin_size (mt_params t) = 256 \<and> mt_bins_per_table t = ?ls ! l \<and> table_covers t (tp_k p) \<and>
      (\<forall>g < tp_k p. \<forall>r < ?ls ! l. served_bin t g r = sibling_row (pg_levels (trees ! g) ! l) r)" if l: "l < length ?ls" for l
  proof (rule sibling_table_loads)
    show "write_flat_sibling_table trees l (?ls ! l) (tp_k p) (bucket_sib_magic tt (of_nat l)) = Some (fs ! l)"
      using W l by auto
    show "l < 256" using l n by simp
    show "?ls ! l < 2 ^ 32" using sibling_levels_bounds(2) [OF l] assms(2) by simp
    show "\<forall>t \<in> set trees. \<forall>x \<in> set (pg_levels t ! l). length x = 32"
    proof
      fix t assume "t \<in> set trees"
      then obtain g where g: "build_group_tree mmap (ch_header_size hdr) g (ch_bins_per_table hdr) (tp_bin_size p) = Some t"
        using build_trees_nth [OF bt] by (metis in_set_conv_nth)
      let ?lh = "leaf_hashes (group_data mmap (ch_header_size hdr) g (ch_bins_per_table hdr) (tp_bin_size p)) (ch_bins_per_table hdr) (tp_bin_size p)"
      have lp: "pg_levels t = build_levels ARITY ?lh" by (rule build_group_tree_SomeD(1) [OF g])
      have "\<forall>x \<in> set ?lh. length x = 32" by (auto simp: leaf_hashes_def)
      from build_levels_32 [OF this, of l ARITY] show "\<forall>x \<in> set (pg_levels t ! l). length x = 32"
        using tree_sibling_levels [OF g] l unfolding lp by simp
    qed
  qed (rule lt)
  then obtain t where t: "\<And>l. l < length ?ls \<Longrightarrow> load_sub_table (fs ! l) (sibling_params (tp_k p) (push_bit 40 (ucast tt)) l) = Some (t l)"
    "\<And>l. l < length ?ls \<Longrightarrow> tp_k (mt_params (t l)) = tp_k p \<and> tp_bin_size (mt_params (t l)) = 256 \<and> mt_bins_per_table (t l) = ?ls ! l \<and>
      table_covers (t l) (tp_k p) \<and> (\<forall>g < tp_k p. \<forall>r < ?ls ! l. served_bin (t l) g r = sibling_row (pg_levels (trees ! g) ! l) r)"
    by metis
  have "load_siblings files stem (tp_k p) (push_bit 40 (ucast tt)) [0..<limit] = Some (map t [0..<length ?ls])"
    by (rule load_siblings_written) (use t(1) dir fs n assms(6) in auto)
  moreover have "siblings_serve (map t [0..<length ?ls]) trees ?ls" using t(2) by (simp add: siblings_serve_def lt)
  ultimately show ?thesis by blast
qed


lemma header_bins_bound: "read_cuckoo_header_with_anchor f p = Inr hdr \<Longrightarrow> ch_bins_per_table hdr < 2 ^ 32"
  using unsigned_less [where 'a = nat and 'b = 32]
  by (auto simp: read_cuckoo_header_with_anchor_def Let_def split: if_splits option.splits)

lemma bucket_merkle_parts:
  assumes "build_bucket_merkle im cm = Some bm"
  obtains ih its ch cts where "committed_trees im ih its cm ch cts"
    "write_sib_tables its (compute_sibling_levels (ch_bins_per_table ih)) 75 0 = Some (bm_index_sib bm)"
    "write_sib_tables cts (compute_sibling_levels (ch_bins_per_table ch)) 80 1 = Some (bm_chunk_sib bm)"
    "write_tree_tops its cts (compute_sibling_levels (ch_bins_per_table ih)) (compute_sibling_levels (ch_bins_per_table ch)) = Some (bm_tree_tops bm)"
    "bm_roots bm = concat (map pg_root (its @ cts))" "bm_root bm = bucket_super_root its cts"
  using assms by (auto simp: build_bucket_merkle_def committed_trees_def group_params Let_def split: sum.splits option.splits)

lemma committed_treesD:
  assumes "committed_trees im ih its cm ch cts"
  shows "build_trees im INDEX_PARAMS ih = Some its" "build_trees cm CHUNK_PARAMS ch = Some cts"
    "ch_bins_per_table ih < 2 ^ 32" "ch_bins_per_table ch < 2 ^ 32" "length its = 75" "length cts = 80"
  using assms header_bins_bound build_trees_nth(1) unfolding committed_trees_def by (auto simp: group_params)

lemma written_database_loads:
  assumes "load_sub_table im INDEX_PARAMS = Some it" and "load_sub_table cm CHUNK_PARAMS = Some ct" and "build_bucket_merkle im cm = Some bm"
    and "12 \<le> limit"
  obtains d ih its ch cts where "load_database (database_files im cm bm) INDEX_PARAMS CHUNK_PARAMS limit = Some d"
    "md_index d = it" "md_chunk d = ct" "has_bucket_merkle d" "md_tree_tops d = Some (bm_tree_tops bm)"
    "committed_trees im ih its cm ch cts" "bm_root bm = bucket_super_root its cts"
    "write_tree_tops its cts (compute_sibling_levels (ch_bins_per_table ih)) (compute_sibling_levels (ch_bins_per_table ch)) = Some (bm_tree_tops bm)"
    "siblings_serve (md_index_siblings d) its (compute_sibling_levels (ch_bins_per_table ih))"
    "siblings_serve (md_chunk_siblings d) cts (compute_sibling_levels (ch_bins_per_table ch))"
proof -
  obtain ih its ch cts where b: "committed_trees im ih its cm ch cts"
    "write_sib_tables its (compute_sibling_levels (ch_bins_per_table ih)) 75 0 = Some (bm_index_sib bm)"
    "write_sib_tables cts (compute_sibling_levels (ch_bins_per_table ch)) 80 1 = Some (bm_chunk_sib bm)"
    "write_tree_tops its cts (compute_sibling_levels (ch_bins_per_table ih)) (compute_sibling_levels (ch_bins_per_table ch)) = Some (bm_tree_tops bm)"
    "bm_roots bm = concat (map pg_root (its @ cts))" "bm_root bm = bucket_super_root its cts"
    using bucket_merkle_parts [OF assms(3)] .
  note C = committed_treesD [OF b(1)]
  let ?dir = "database_files im cm bm"
  have k: "tp_k INDEX_PARAMS = 75" "tp_k CHUNK_PARAMS = 80" by (simp_all add: group_params)
  note F = database_files_siblings [of im cm bm]
  obtain ti where ti: "load_siblings ?dir ''merkle_bucket_index_sib_L'' 75 (push_bit 40 (ucast (0 :: u8))) [0..<limit] = Some ti"
    "siblings_serve ti its (compute_sibling_levels (ch_bins_per_table ih))"
    using siblings_loaded [OF C(1,3) _ _ F(1) assms(4), of 0, unfolded k] b(2) by auto
  obtain tc where tc: "load_siblings ?dir ''merkle_bucket_chunk_sib_L'' 80 (push_bit 40 (ucast (1 :: u8))) [0..<limit] = Some tc"
    "siblings_serve tc cts (compute_sibling_levels (ch_bins_per_table ch))"
    using siblings_loaded [OF C(2,4) _ _ F(2) assms(4), of 1, unfolded k] b(3) by auto
  have r: "length (bm_roots bm) = 155 * 32"
    using length_concat_fixed [of "map pg_root (its @ cts)" 32] build_trees_root_32 [OF C(1)] build_trees_root_32 [OF C(2)] C(5,6) b(5) by auto
  let ?d = "\<lparr>md_index = it, md_chunk = ct, md_index_siblings = ti, md_chunk_siblings = tc, md_tree_tops = Some (bm_tree_tops bm),
    md_roots = Some (bm_roots bm), md_root = Some (bm_root bm)\<rparr>"
  have "load_database ?dir INDEX_PARAMS CHUNK_PARAMS limit = Some ?d"
    using ti(1) tc(1) assms(1,2) r unfolding load_database_def database_files_named k by simp
  then show ?thesis by (rule that [OF _ _ _ _ _ b(1,6,4)]) (use ti(2) tc(2) in \<open>simp_all add: has_bucket_merkle_def\<close>)
qed


section \<open>The sibling rounds of a batch\<close>

lemma pass_target_bound:
  assumes "Some x \<in> set (pass_targets items k pass (map (div8 l) (map si_bin_index items)))" and "\<forall>it \<in> set items. unat (si_bin_index it) < n"
    and "l < length (compute_sibling_levels n)"
  shows "unat x < compute_sibling_levels n ! l"
proof -
  obtain g i where m: "map_of (pass_group_to_item items pass) g = Some i" "x = map (div8 l) (map si_bin_index items) ! i div 8"
    using assms(1) by (auto simp: pass_targets_def eq_commute [of "Some x"])
  have i: "i < length items" using map_of_SomeD [OF m(1)] by (simp add: pass_group_to_item_iff)
  have "unat x = unat (si_bin_index (items ! i)) div 8 ^ Suc l"
    using m(2) i unat_div8 [of "Suc l" "si_bin_index (items ! i)"] by (simp add: div8_Suc(1))
  then show ?thesis using sibling_levels_bounds(3) [OF assms(3)] assms(2) i by simp
qed

lemma plans_served:
  assumes "siblings_serve (sibling_tables tt d) trees (compute_sibling_levels n)" and "unat (bins :: u32) = n"
    and "trees \<noteq> []" and "length trees < 256" and "length (compute_sibling_levels n) < 100" and "\<forall>it \<in> set items. unat (si_bin_index it) < n"
  shows "\<forall>plan \<in> set (level_plans items bins (length trees) (honest_tops trees n)). level_served d tt trees plan"
proof
  let ?ls = "compute_sibling_levels n" and ?k = "length trees"
  have mx: "max_sib_levels (honest_tops trees n) = length ?ls" by (rule max_sib_levels_honest [OF assms(3)])
  fix plan assume "plan \<in> set (level_plans items bins ?k (honest_tops trees n))"
  then obtain l where l: "l < length ?ls" "plan = level_plans items bins ?k (honest_tops trees n) ! l"
    unfolding in_set_conv_nth by (auto simp: level_plans_def mx)
  then have p: "slp_level plan = l" "slp_bins_per_table plan = of_nat (?ls ! l)"
    "slp_passes plan = map (\<lambda>pass. pass_targets items ?k pass (map (div8 l) (map si_bin_index items))) [0..<max_items_per_group items]"
    by (simp_all add: level_plans_def level_plans_loop_nth mx assms(2) sibling_levels_counts)
  note B = sibling_levels_bounds [OF l(1)]
  have u: "unat (of_nat (?ls ! l) :: u32) = ?ls ! l"
    using B(2) unsigned_less [where 'a = nat, of bins] assms(2) by (intro unat_of_nat_small) simp
  have bins: "unat (slp_bins_per_table plan) = ?ls ! l" "slp_bins_per_table plan \<noteq> 0" using u B(1) p(2) by auto
  have dom: "domain_ok (?ls ! l) (the (compute_dpf_n (?ls ! l)))"
    using sibling_domain_ok [of "slp_bins_per_table plan"] bins(1) B(1) by simp
  have S: "tp_k (mt_params (sibling_tables tt d ! l)) = ?k" "tp_bin_size (mt_params (sibling_tables tt d ! l)) = 256"
    "mt_bins_per_table (sibling_tables tt d ! l) = ?ls ! l" "table_covers (sibling_tables tt d ! l) ?k"
    "\<forall>g < ?k. \<forall>r < ?ls ! l. served_bin (sibling_tables tt d ! l) g r = sibling_row (pg_levels (trees ! g) ! l) r"
    "l < length (sibling_tables tt d)"
    using assms(1) l(1) by (simp_all add: siblings_serve_def)
  have "table_ok (sibling_tables tt d ! l) ?k (the (compute_dpf_n (?ls ! l)))" using S dom assms(3,4) by (simp add: table_ok_def)
  moreover have "\<forall>targets \<in> set (slp_passes plan). length targets = ?k \<and> (\<forall>x. Some x \<in> set targets \<longrightarrow> unat x < ?ls ! l)"
    using pass_target_bound [OF _ assms(6) l(1)] by (auto simp: p(3)) (simp add: pass_targets_def)
  ultimately show "level_served d tt trees plan"
    using S l(1) assms(5) bins by (simp add: level_served_def Let_def p(1))
qed

text \<open>The verification uses its querier for two requests only.\<close>

lemma batch_same_rows:
  assumes "flatten_chunks 0 items = Some fl"
    and "q 0 (level_plans (map index_sub items) ib ik (take ik tops)) db = q' 0 (level_plans (map index_sub items) ib ik (take ik tops)) db"
    and "q 1 (level_plans (map snd fl) cb ck (slice tops ik ck)) db = q' 1 (level_plans (map snd fl) cb ck (slice tops ik ck)) db"
  shows "verify_bucket_merkle_batch_generic q items ib cb ik ck db tops = verify_bucket_merkle_batch_generic q' items ib cb ik ck db tops"
proof -
  have "verify_sibling_levels q (map index_sub items) ib ik 0 (take ik tops) db = verify_sibling_levels q' (map index_sub items) ib ik 0 (take ik tops) db"
    "verify_sibling_levels q (map snd fl) cb ck 1 (slice tops ik ck) db = verify_sibling_levels q' (map snd fl) cb ck 1 (slice tops ik ck) db"
    by (simp_all only: verify_sibling_levels_def Let_def assms(2,3))
  then show ?thesis by (simp add: verify_bucket_merkle_batch_generic_def assms(1) split: sum.split)
qed


lemma honest_tops_fetched:
  assumes "honest_servers env from_bytes eval dbs" and "get_db dbs db_id = Some d" and "md_tree_tops d = Some blob" and "length blob < 2 ^ 32 - 1"
    and "parse_tree_tops blob = Inr tops"
  shows "fetch_tree_tops env db_id = Inr tops"
proof -
  let ?reply = "u32_to_le (of_nat (1 + length blob)) @ [RESP_BUCKET_MERKLE_TREE_TOPS] @ blob"
  have op: "REQ_BUCKET_MERKLE_TREE_TOPS \<noteq> REQ_INDEX_BATCH" "REQ_BUCKET_MERKLE_TREE_TOPS \<noteq> REQ_CHUNK_BATCH"
    "REQ_BUCKET_MERKLE_TREE_TOPS \<noteq> REQ_BUCKET_MERKLE_SIB_BATCH" "RESP_BUCKET_MERKLE_TREE_TOPS \<noteq> RESP_ERROR"
    by (simp_all add: request_opcodes response_opcodes REQ_BUCKET_MERKLE_TREE_TOPS_def RESP_BUCKET_MERKLE_TREE_TOPS_def)
  have "handle_dpf from_bytes eval dbs (drop 4 (encode_tree_tops_request db_id)) = Reply ?reply"
    using op assms(2,3) by (cases "db_id = 0") (simp_all add: encode_tree_tops_request_def handle_dpf_def handle_tree_tops_def)
  then have rv: "de_recv env Server0 (Tops_Round db_id) (encode_tree_tops_request db_id) = Inr ?reply"
    using assms(1) unfolding honest_servers_def by blast
  have "unat (of_nat (1 + length blob) :: u32) = 1 + length blob" using assms(4) by (intro unat_of_nat_small) simp
  then have "decode_tree_tops_response ?reply = Inr tops"
    using op(4) assms(5) by (simp add: decode_tree_tops_response_def decode_error_response_message_def Let_def)
  then show ?thesis using rv assms(1) by (simp add: fetch_tree_tops_def Let_def honest_servers_def)
qed

section \<open>Verdicts of an accepted batch\<close>

lemma fold_accepted:
  assumes "i + m = length itq" and "\<forall>qi \<in> set itq. qi < length s" and "set s \<subseteq> {None, Some True}"
  shows "fold_client (fold_verdict itq) (enumerate i (replicate m True)) s =
    Inr (map (\<lambda>q. if q \<in> set (drop i itq) then Some True else s ! q) [0..<length s])"
  using assms
proof (induction m arbitrary: i s)
  case 0
  then show ?case by (simp add: map_nth)
next
  case (Suc m)
  let ?q = "itq ! i"
  have i: "i < length itq" "?q < length s" using Suc.prems by simp_all
  then have "s ! ?q \<in> {None, Some True}" using Suc.prems(3) nth_mem by blast
  then have st: "fold_verdict itq (i, True) s = Inr (s[?q := Some True])"
    using i by (auto simp: fold_verdict_def nth_client_def)
  have "set (s[?q := Some True]) \<subseteq> {None, Some True}" using Suc.prems(3) set_update_subset_insert [of s ?q "Some True"] by blast
  then have "fold_client (fold_verdict itq) (enumerate (Suc i) (replicate m True)) (s[?q := Some True]) =
      Inr (map (\<lambda>q. if q \<in> set (drop (Suc i) itq) then Some True else s[?q := Some True] ! q) [0..<length s])"
    using Suc.IH [of "Suc i" "s[?q := Some True]"] Suc.prems(1,2) by simp
  moreover have "set (drop i itq) = insert ?q (set (drop (Suc i) itq))" using i(1) by (metis Cons_nth_drop_Suc list.simps(15))
  ultimately show ?case using st by (auto simp: nth_list_update)
qed

lemma collected_items:
  assumes "collect_merkle_items_from_traces traces = (items, itq)"
  shows "length items = length itq" and "set itq = {i. i < length traces \<and> qt_index_bins (traces ! i) \<noteq> []}"
    and "it \<in> set items \<Longrightarrow> \<exists>tr \<in> set traces. \<exists>b < length (qt_index_bins tr). it = items_from_trace tr ! b"
proof -
  let ?ps = "concat (map (\<lambda>(qi, trace). map (\<lambda>it. (it, qi)) (items_from_trace trace)) (enumerate 0 traces))"
  have p: "items = map fst ?ps" "itq = map snd ?ps" using assms by (simp_all add: collect_merkle_items_from_traces_def Let_def)
  show "length items = length itq" unfolding p by simp
  have ps: "set ?ps = {(it, i). i < length traces \<and> it \<in> set (items_from_trace (traces ! i))}"
  proof -
    have "enumerate 0 traces = map (\<lambda>i. (i, traces ! i)) [0..<length traces]"
      by (rule nth_equalityI) (simp_all add: nth_enumerate_eq)
    then show ?thesis by auto
  qed
  have ne: "items_from_trace tr \<noteq> [] \<longleftrightarrow> qt_index_bins tr \<noteq> []" for tr
    by (cases "qt_index_bins tr") (simp_all add: items_from_trace_def)
  show "set itq = {i. i < length traces \<and> qt_index_bins (traces ! i) \<noteq> []}"
  proof -
    have "set itq = snd ` set ?ps" unfolding p(2) by simp
    also have "\<dots> = {i. i < length traces \<and> items_from_trace (traces ! i) \<noteq> []}"
      unfolding ps by (auto simp: image_iff) (metis list.set_intros(1) neq_Nil_conv)
    finally show ?thesis unfolding ne .
  qed
  assume "it \<in> set items"
  then have "it \<in> fst ` set ?ps" unfolding p(1) by simp
  then obtain i where i: "i < length traces" "it \<in> set (items_from_trace (traces ! i))" unfolding ps by auto
  then obtain b where "b < length (items_from_trace (traces ! i))" "it = items_from_trace (traces ! i) ! b" by (metis in_set_conv_nth)
  moreover have "length (items_from_trace (traces ! i)) = length (qt_index_bins (traces ! i))" by (simp add: items_from_trace_def)
  ultimately show "\<exists>tr \<in> set traces. \<exists>b < length (qt_index_bins tr). it = items_from_trace tr ! b" using i(1) by auto
qed


section \<open>A verified step\<close>

lemma served_committed:
  assumes "load_sub_table f p = Some t" and "read_cuckoo_header_with_anchor f p = Inr hdr" and "\<forall>g < tp_k p. group_bytes t g \<noteq> None" and "bin_served t b"
  shows "committed_bin f hdr p (traced_sub b)"
proof -
  have "mt_params t = p" using assms(1,2) by (auto simp: load_sub_table_def Let_def split: if_splits)
  moreover have "group_bytes t (bt_pbc_group b) \<noteq> None" using assms(3,4) calculation by (simp add: bin_served_def)
  from bin_content_served [OF assms(1,2) this] have "bin_content f hdr p (bt_pbc_group b) i = served_bin t (bt_pbc_group b) i"
    "ch_bins_per_table hdr = mt_bins_per_table t" for i by blast+
  ultimately show ?thesis using assms(4) by (simp add: bin_served_def committed_bin_def traced_sub_def)
qed

lemma served_item_committed:
  assumes "committed_trees im ih its cm ch cts" and "load_sub_table im INDEX_PARAMS = Some it" and "load_sub_table cm CHUNK_PARAMS = Some ct"
    and "\<forall>g < 75. group_bytes it g \<noteq> None" and "\<forall>g < 80. group_bytes ct g \<noteq> None"
    and "\<forall>b \<in> set (qt_index_bins tr). bin_served it b" and "\<forall>b \<in> set (qt_chunk_bins tr). bin_served ct b" and "b < length (qt_index_bins tr)"
  shows "committed_bin im ih INDEX_PARAMS (index_sub (items_from_trace tr ! b)) \<and>
    (\<exists>subs. chunk_subs (items_from_trace tr ! b) = Some subs \<and> (\<forall>s \<in> set subs. committed_bin cm ch CHUNK_PARAMS s))"
proof
  have h: "read_cuckoo_header_with_anchor im INDEX_PARAMS = Inr ih" "read_cuckoo_header_with_anchor cm CHUNK_PARAMS = Inr ch"
    using assms(1) by (simp_all add: committed_trees_def)
  note I = item_of_trace [OF assms(8)]
  show "committed_bin im ih INDEX_PARAMS (index_sub (items_from_trace tr ! b))"
    unfolding I(1) using served_committed [OF assms(2) h(1)] assms(4,6,8) by (simp add: group_params)
  show "\<exists>subs. chunk_subs (items_from_trace tr ! b) = Some subs \<and> (\<forall>s \<in> set subs. committed_bin cm ch CHUNK_PARAMS s)"
    using I(2) served_committed [OF assms(3) h(2)] assms(5,7) by (auto simp: group_params)
qed

lemma honest_batch_dpf:
  assumes "honest_servers env from_bytes eval dbs" and "dpf_correct env from_bytes eval" and "get_db dbs db_id = Some d" and "has_bucket_merkle d"
    and "committed_trees im ih its cm ch cts"
    and "siblings_serve (md_index_siblings d) its (compute_sibling_levels (ch_bins_per_table ih))"
    and "siblings_serve (md_chunk_siblings d) cts (compute_sibling_levels (ch_bins_per_table ch))"
    and "unat ib = ch_bins_per_table ih" and "unat cb = ch_bins_per_table ch"
    and it: "\<forall>it \<in> set items. committed_bin im ih INDEX_PARAMS (index_sub it) \<and>
      (\<exists>subs. chunk_subs it = Some subs \<and> (\<forall>s \<in> set subs. committed_bin cm ch CHUNK_PARAMS s))"
  defines "tops \<equiv> honest_tops its (ch_bins_per_table ih) @ honest_tops cts (ch_bins_per_table ch)"
  shows "verify_bucket_merkle_batch_dpf env items ib cb 75 80 db_id tops = Some (Inr (replicate (length items) True))"
proof -
  note C = committed_treesD [OF assms(5)]
  have k: "tp_k INDEX_PARAMS = 75" "tp_k CHUNK_PARAMS = 80" by (simp_all add: group_params)
  have l: "length (compute_sibling_levels (ch_bins_per_table ih)) < 100" "length (compute_sibling_levels (ch_bins_per_table ch)) < 100"
    using sibling_levels_count [OF C(1,3)] sibling_levels_count [OF C(2,4)] by (simp_all add: k)
  obtain fl where fl: "flatten_chunks 0 items = Some fl" "\<forall>s \<in> set (map snd fl). committed_bin cm ch CHUNK_PARAMS s"
    using flatten_chunks_all [of items "committed_bin cm ch CHUNK_PARAMS" 0] it by auto
  have t: "take 75 tops = honest_tops its (ch_bins_per_table ih)" "slice tops 75 80 = honest_tops cts (ch_bins_per_table ch)"
    using C(5,6) by (simp_all add: tops_def honest_tops_def slice_def)
  have ne: "its \<noteq> []" "cts \<noteq> []" using C(5,6) by auto
  have b: "\<forall>it \<in> set (map index_sub items). unat (si_bin_index it) < ch_bins_per_table ih"
    "\<forall>it \<in> set (map snd fl). unat (si_bin_index it) < ch_bins_per_table ch"
    using it fl(2) by (auto simp: committed_bin_def)
  have P: "\<forall>plan \<in> set (level_plans (map index_sub items) ib 75 (take 75 tops)). level_served d 0 its plan"
    "\<forall>plan \<in> set (level_plans (map snd fl) cb 80 (slice tops 75 80)). level_served d 1 cts plan"
    using plans_served [OF _ assms(8) ne(1) _ l(1) b(1), where tt = 0 and d = d] plans_served [OF _ assms(9) ne(2) _ l(2) b(2), where tt = 1 and d = d]
      assms(6,7) C(5,6) t by (simp_all add: sibling_tables_def)
  let ?q = "batch_querier env items ib 75 db_id tops"
  have "verify_bucket_merkle_batch_generic ?q items ib cb 75 80 db_id tops =
      verify_bucket_merkle_batch_generic (honest_querier (\<lambda>tt. if tt = 0 then its else cts)) items ib cb 75 80 db_id tops"
    by (rule batch_same_rows [OF fl(1)])
      (use dpf_query_levels_honest [OF assms(1-4) _ P(1)] dpf_query_levels_honest [OF assms(1-4) _ P(2)] in
        \<open>simp_all add: batch_querier_def Let_def honest_querier_def\<close>)
  moreover have "verify_bucket_merkle_batch_generic (honest_querier (\<lambda>tt. if tt = 0 then its else cts)) items ib cb 75 80 db_id tops =
      Some (Inr (replicate (length items) True))"
    using honest_batch [OF C(1,2) _ _ it] C(3,4) unfolding k tops_def by simp
  ultimately show ?thesis by (simp add: verify_bucket_merkle_batch_dpf_def)
qed


text \<open>Verification of honest traces marks every result, found or not, as verified.\<close>

lemma honest_verification:
  assumes "verify_bucket_merkle_batch_dpf env items (di_index_bins db) (di_chunk_bins db) (unat (di_index_k db)) (unat (di_chunk_k db)) (di_db_id db) tops =
      Some (Inr (replicate (length items) True))"
    and "cached = Some tops \<or> cached = None \<and> fetch_tree_tops env (di_db_id db) = Inr tops"
    and "collect_merkle_items_from_traces traces = (items, itq)" and "length results = length traces" and "\<forall>tr \<in> set traces. qt_index_bins tr \<noteq> []"
  shows "run_merkle_verification env cached results traces db = Inr (map (map_option (\<lambda>r. r\<lparr>qr_merkle_verified := True\<rparr>)) results)"
proof -
  note I = collected_items [OF assms(3)]
  let ?n = "length results"
  have q: "set itq = {..<?n}" unfolding I(2) using assms(4,5) by (auto simp: all_set_conv_all_nth)
  have "verify_merkle_items env cached items itq ?n db = Inr (replicate ?n (Some True))"
  proof (cases "items = []")
    case True
    then have "?n = 0" using I(1) q by auto
    then show ?thesis using True by (simp add: verify_merkle_items_def)
  next
    case False
    have "fold_client (fold_verdict itq) (enumerate 0 (replicate (length items) True)) (replicate ?n None) = Inr (replicate ?n (Some True))"
    proof -
      have "map (\<lambda>q. if q \<in> set (drop 0 itq) then Some True else replicate ?n None ! q) [0..<length (replicate ?n (None :: bool option))] = replicate ?n (Some True)"
        using q by (intro nth_equalityI) simp_all
      moreover have "set (replicate ?n None) \<subseteq> {None, Some True}" by auto
      ultimately show ?thesis using fold_accepted [of 0 "length items" itq "replicate ?n None"] I(1) q by simp
    qed
    moreover have "(case cached of Some tops \<Rightarrow> Inr tops | None \<Rightarrow> fetch_tree_tops env (di_db_id db)) = Inr tops" using assms(2) by auto
    ultimately show ?thesis using False assms(1) by (simp add: verify_merkle_items_def try_pir_def or_panic_def)
  qed
  moreover have "map2 apply_verdict (replicate ?n (Some True)) results = map (map_option (\<lambda>r. r\<lparr>qr_merkle_verified := True\<rparr>)) results"
    by (rule nth_equalityI) (simp_all add: apply_verdict_def)
  ultimately show ?thesis using assms(3) by (simp add: run_merkle_verification_def)
qed


definition mark_verified :: "query_result option \<Rightarrow> query_result option" where
  "mark_verified = map_option (\<lambda>r. r\<lparr>qr_merkle_verified := True\<rparr>)"

text \<open>
  A loaded directory as honest servers serve it: the tree tops arrive and match the super-root file, and every
  batch of the tables' own bins is accepted.
\<close>

lemma written_database_verifies:
  assumes hs: "honest_servers env from_bytes eval dbs" "dpf_correct env from_bytes eval" "get_db dbs db_id = Some d"
    and "load_sub_table im INDEX_PARAMS = Some it" and "load_sub_table cm CHUNK_PARAMS = Some ct"
    and "build_bucket_merkle im cm = Some bm" and d: "load_database (database_files im cm bm) INDEX_PARAMS CHUNK_PARAMS limit = Some d" and "12 \<le> limit"
  obtains ih its ch cts tops where "committed_trees im ih its cm ch cts" "fetch_tree_tops env db_id = Inr tops"
    "verify_tree_tops_super_root sha256 tops 75 80 (bm_root bm) = Inr ()"
    "\<And>items ib cb. unat ib = ch_bins_per_table ih \<Longrightarrow> unat cb = ch_bins_per_table ch \<Longrightarrow>
       \<forall>x \<in> set items. committed_bin im ih INDEX_PARAMS (index_sub x) \<and> (\<exists>subs. chunk_subs x = Some subs \<and> (\<forall>s \<in> set subs. committed_bin cm ch CHUNK_PARAMS s)) \<Longrightarrow>
       verify_bucket_merkle_batch_dpf env items ib cb 75 80 db_id tops = Some (Inr (replicate (length items) True))"
proof -
  obtain d' ih its ch cts where L: "load_database (database_files im cm bm) INDEX_PARAMS CHUNK_PARAMS limit = Some d'"
    "has_bucket_merkle d'" "md_tree_tops d' = Some (bm_tree_tops bm)"
    "committed_trees im ih its cm ch cts" "bm_root bm = bucket_super_root its cts"
    "write_tree_tops its cts (compute_sibling_levels (ch_bins_per_table ih)) (compute_sibling_levels (ch_bins_per_table ch)) = Some (bm_tree_tops bm)"
    "siblings_serve (md_index_siblings d') its (compute_sibling_levels (ch_bins_per_table ih))"
    "siblings_serve (md_chunk_siblings d') cts (compute_sibling_levels (ch_bins_per_table ch))"
    by (rule written_database_loads [OF assms(4-6,8)])
  have d': "d' = d" using L(1) d by simp
  note C = committed_treesD [OF L(4)]
  let ?tops = "honest_tops its (ch_bins_per_table ih) @ honest_tops cts (ch_bins_per_table ch)"
  have "parse_tree_tops (bm_tree_tops bm) = Inr ?tops" using honest_tops_parse [OF C(1-4)] L(6) by auto
  from honest_tops_fetched [OF hs(1,3) L(3) [unfolded d'] tree_tops_size [OF C(1-4) L(6)] this]
  have f: "fetch_tree_tops env db_id = Inr ?tops" .
  have "verify_tree_tops_super_root sha256 ?tops 75 80 (bm_root bm) = Inr ()"
    using honest_super_root [OF C(1,2)] unfolding L(5) group_params .
  from that [OF L(4) f this honest_batch_dpf [OF hs L(2,4,7,8) [unfolded d']]] show ?thesis .
qed

lemma honest_verified_step:
  assumes hs: "honest_servers env from_bytes eval dbs" "dpf_correct env from_bytes eval" "get_db dbs (di_db_id db) = Some d"
    and bd: "built_database cb mmap cfile seeds d" "build_index_cuckoo cb mmap seeds = Some im" "build_chunk_cuckoo cb cfile seeds = Some cm"
    and bm: "build_bucket_merkle im cm = Some bm" "load_database (database_files im cm bm) INDEX_PARAMS CHUNK_PARAMS limit = Some d" "12 \<le> limit"
    and db: "catalog_matches db seeds d" "di_kind db = Full" "di_has_bucket_merkle db"
    and shs: "shs \<noteq> []" "\<forall>sh \<in> set shs. length sh = 20 \<and> tag_exact (ra_index_tag seeds) mmap sh"
      "list_all2 (holds mmap cfile) shs xs" "plan_index_pbc_rounds_for_hashes shs 75 = Inr ([round], placement)"
  shows "\<exists>tops traces. fetch_tree_tops env (di_db_id db) = Inr tops \<and> verify_tree_tops_super_root sha256 tops 75 80 (bm_root bm) = Inr () \<and>
    (\<forall>cached \<in> {None, Some tops}. execute_step_traced env cached shs db = Inr (map (\<lambda>x. mark_verified (result_of x)) xs, traces)) \<and> length traces = length shs \<and>
    (\<forall>tr \<in> set traces. (\<forall>b \<in> set (qt_index_bins tr). bin_served (md_index d) b) \<and> (\<forall>b \<in> set (qt_chunk_bins tr). bin_served (md_chunk d) b))"
proof -
  obtain tt tt' where sv: "index_served mmap seeds tt (md_index d)" "chunk_served cfile seeds tt' (md_chunk d)" using built_database_served [OF bd(1)] .
  have ld: "load_sub_table im INDEX_PARAMS = Some (md_index d)" "load_sub_table cm CHUNK_PARAMS = Some (md_chunk d)"
    using bd by (auto simp: built_database_def)
  have gr: "\<forall>g < 75. group_bytes (md_index d) g \<noteq> None" "\<forall>g < 80. group_bytes (md_chunk d) g \<noteq> None"
    using sv by (simp_all add: index_served_def chunk_served_def)
  obtain ih its ch cts tops where L: "committed_trees im ih its cm ch cts" and f: "fetch_tree_tops env (di_db_id db) = Inr tops"
    and r: "verify_tree_tops_super_root sha256 tops 75 80 (bm_root bm) = Inr ()"
    and V: "\<And>items ib cb. unat ib = ch_bins_per_table ih \<Longrightarrow> unat cb = ch_bins_per_table ch \<Longrightarrow>
       \<forall>x \<in> set items. committed_bin im ih INDEX_PARAMS (index_sub x) \<and> (\<exists>subs. chunk_subs x = Some subs \<and> (\<forall>s \<in> set subs. committed_bin cm ch CHUNK_PARAMS s)) \<Longrightarrow>
       verify_bucket_merkle_batch_dpf env items ib cb 75 80 (di_db_id db) tops = Some (Inr (replicate (length items) True))"
    using written_database_verifies [OF hs ld bm] by blast
  have h: "read_cuckoo_header_with_anchor im INDEX_PARAMS = Inr ih" "read_cuckoo_header_with_anchor cm CHUNK_PARAMS = Inr ch"
    using L by (simp_all add: committed_trees_def)
  have bins: "unat (di_index_bins db) = ch_bins_per_table ih" "unat (di_chunk_bins db) = ch_bins_per_table ch" "unat (di_index_k db) = 75" "unat (di_chunk_k db) = 80"
    using bin_content_served(2) [OF ld(1) h(1), of 0] bin_content_served(2) [OF ld(2) h(2), of 0] gr db(1) by (simp_all add: catalog_matches_def)
  from honest_step [OF hs bd(1) db(1,2) shs] obtain traces where
    u: "execute_step_unverified env shs db = Inr (map result_of xs, traces)" "length traces = length shs"
    and tr: "\<forall>tr \<in> set traces. length (qt_index_bins tr) = 2 \<and> (\<forall>b \<in> set (qt_index_bins tr). bin_served (md_index d) b) \<and>
      (\<forall>b \<in> set (qt_chunk_bins tr). bin_served (md_chunk d) b)" by blast
  obtain items itq where c: "collect_merkle_items_from_traces traces = (items, itq)" by fastforce
  have "committed_bin im ih INDEX_PARAMS (index_sub it) \<and> (\<exists>subs. chunk_subs it = Some subs \<and> (\<forall>s \<in> set subs. committed_bin cm ch CHUNK_PARAMS s))"
    if xin: "it \<in> set items" for it
  proof -
    obtain t b where "t \<in> set traces" "b < length (qt_index_bins t)" "it = items_from_trace t ! b" using collected_items(3) [OF c xin] by blast
    then show ?thesis using served_item_committed [OF L ld gr] tr by blast
  qed
  then have v: "verify_bucket_merkle_batch_dpf env items (di_index_bins db) (di_chunk_bins db) 75 80 (di_db_id db) tops = Some (Inr (replicate (length items) True))"
    by (intro V [OF bins(1,2)]) blast
  have len: "length (map result_of xs) = length traces" using u(2) list_all2_lengthD [OF shs(3)] by simp
  have ne: "\<forall>tr \<in> set traces. qt_index_bins tr \<noteq> []" using tr by fastforce
  have "execute_step_traced env cached shs db = Inr (map (\<lambda>x. mark_verified (result_of x)) xs, traces)" if "cached \<in> {None, Some tops}" for cached
  proof -
    have "cached = Some tops \<or> cached = None \<and> fetch_tree_tops env (di_db_id db) = Inr tops" using that f by auto
    from honest_verification [OF v [folded bins(3,4)] this c len ne] show ?thesis
      using u(1) db(3) shs(1) by (simp add: execute_step_traced_def mark_verified_def)
  qed
  with f r u(2) tr show ?thesis by blast
qed


section \<open>The demonstration database with its commitment\<close>

definition demo_verified_info :: database_info where "demo_verified_info = demo_info\<lparr>di_has_bucket_merkle := True\<rparr>"

lemma loaded_file_complete:
  assumes "load_sub_table f p = Some t" and "\<forall>g < tp_k p. group_bytes t g \<noteq> None" and "0 < tp_k p"
  obtains hdr where "read_cuckoo_header_with_anchor f p = Inr hdr" "ch_bins_per_table hdr = mt_bins_per_table t"
    "ch_header_size hdr + tp_k p * (ch_bins_per_table hdr * tp_bin_size p) \<le> length f"
proof -
  obtain hdr where h: "read_cuckoo_header_with_anchor f p = Inr hdr" using assms(1) by (auto simp: load_sub_table_def split: sum.splits)
  have t: "mt_mmap t = f" "mt_data_offset t = ch_header_size hdr" "mt_table_byte_size t = ch_bins_per_table hdr * tp_bin_size p"
    "mt_bins_per_table t = ch_bins_per_table hdr"
    using assms(1) h by (auto simp: load_sub_table_def Let_def tp_table_byte_size_def split: if_splits)
  let ?n = "ch_bins_per_table hdr * tp_bin_size p"
  have "group_bytes t (tp_k p - 1) \<noteq> None" using assms(2,3) by simp
  then have "ch_header_size hdr + (tp_k p - 1) * ?n + ?n \<le> length f" using t by (auto simp: group_bytes_def Let_def split: if_splits)
  moreover have "(tp_k p - 1) * ?n + ?n = tp_k p * ?n" using assms(3) by (cases "tp_k p") simp_all
  ultimately show ?thesis using that h t(4) by simp
qed

lemma demo_verified_database:
  obtains d im cm bm where "built_database (\<lambda>_ _. 1) demo_index demo_chunks demo_seeds d" "catalog_matches demo_verified_info demo_seeds d"
    "build_index_cuckoo (\<lambda>_ _. 1) demo_index demo_seeds = Some im" "build_chunk_cuckoo (\<lambda>_ _. 1) demo_chunks demo_seeds = Some cm"
    "build_bucket_merkle im cm = Some bm" "load_database (database_files im cm bm) INDEX_PARAMS CHUNK_PARAMS 12 = Some d"
proof -
  obtain d0 where d0: "built_database (\<lambda>_ _. 1) demo_index demo_chunks demo_seeds d0" "catalog_matches demo_info demo_seeds d0"
    using demo_database by blast
  obtain im cm where f: "build_index_cuckoo (\<lambda>_ _. 1) demo_index demo_seeds = Some im" "load_sub_table im INDEX_PARAMS = Some (md_index d0)"
    "build_chunk_cuckoo (\<lambda>_ _. 1) demo_chunks demo_seeds = Some cm" "load_sub_table cm CHUNK_PARAMS = Some (md_chunk d0)"
    using d0(1) by (auto simp: built_database_def bind_eq_Some_conv)
  obtain tt tt' where sv: "index_served demo_index demo_seeds tt (md_index d0)" "chunk_served demo_chunks demo_seeds tt' (md_chunk d0)"
    using built_database_served [OF d0(1)] .
  have gr: "\<forall>g < tp_k INDEX_PARAMS. group_bytes (md_index d0) g \<noteq> None" "\<forall>g < tp_k CHUNK_PARAMS. group_bytes (md_chunk d0) g \<noteq> None"
    using sv by (simp_all add: index_served_def chunk_served_def group_params)
  obtain ih where ih: "read_cuckoo_header_with_anchor im INDEX_PARAMS = Inr ih" "ch_bins_per_table ih = mt_bins_per_table (md_index d0)"
    "ch_header_size ih + tp_k INDEX_PARAMS * (ch_bins_per_table ih * tp_bin_size INDEX_PARAMS) \<le> length im"
    by (rule loaded_file_complete [OF f(2) gr(1)]) (simp add: group_params)
  obtain ch where ch: "read_cuckoo_header_with_anchor cm CHUNK_PARAMS = Inr ch" "ch_bins_per_table ch = mt_bins_per_table (md_chunk d0)"
    "ch_header_size ch + tp_k CHUNK_PARAMS * (ch_bins_per_table ch * tp_bin_size CHUNK_PARAMS) \<le> length cm"
    by (rule loaded_file_complete [OF f(4) gr(2)]) (simp add: group_params)
  have p: "0 < ch_bins_per_table ih" "0 < ch_bins_per_table ch" using d0(2) ih(2) ch(2) by (simp_all add: catalog_matches_def)
  obtain bm where bm: "build_bucket_merkle im cm = Some bm" using bucket_merkle_returns [OF ih(1) ch(1) p ih(3) ch(3)] by blast
  obtain d where d: "load_database (database_files im cm bm) INDEX_PARAMS CHUNK_PARAMS 12 = Some d" "md_index d = md_index d0" "md_chunk d = md_chunk d0"
    by (rule written_database_loads [OF f(2,4) bm, of 12]) simp_all
  have "built_database (\<lambda>_ _. 1) demo_index demo_chunks demo_seeds d" using d0(1) d(2,3) by (simp add: built_database_def)
  moreover have "catalog_matches demo_verified_info demo_seeds d" using d0(2) d(2,3) by (simp add: catalog_matches_def demo_verified_info_def)
  ultimately show ?thesis using that f(1,3) bm d(1) by blast
qed


lemma served_bin_length:
  assumes "bin_served t b" and "mt_table_byte_size t = mt_bins_per_table t * tp_bin_size (mt_params t)"
    and "\<forall>g < tp_k (mt_params t). group_bytes t g \<noteq> None"
  shows "length (bt_bin_content b) = tp_bin_size (mt_params t)"
proof -
  let ?s = "tp_bin_size (mt_params t)"
  have b: "bt_pbc_group b < tp_k (mt_params t)" "unat (bt_bin_index b) < mt_bins_per_table t" "bt_bin_content b = served_bin t (bt_pbc_group b) (unat (bt_bin_index b))"
    using assms(1) by (simp_all add: bin_served_def)
  then obtain bs where bs: "group_bytes t (bt_pbc_group b) = Some bs" using assms(3) by blast
  have "Suc (unat (bt_bin_index b)) * ?s \<le> mt_bins_per_table t * ?s" using b(2) by (intro mult_le_mono1) simp
  then show ?thesis using b(3) bs group_bytes_length [OF bs] assms(2) by (simp add: served_bin_def)
qed

lemma fetched_tops_parse: "fetch_tree_tops env db_id = Inr tops \<Longrightarrow> \<exists>blob. parse_tree_tops blob = Inr tops"
  by (auto simp: fetch_tree_tops_def decode_tree_tops_response_def Let_def split: if_splits option.splits elim!: rbind_eq_InrE) blast

lemma demo_verified_run:
  obtains d im cm blob tops traces ih its ch cts where
    "built_database (\<lambda>_ _. 1) demo_index demo_chunks demo_seeds d" "catalog_matches demo_verified_info demo_seeds d"
    "build_index_cuckoo (\<lambda>_ _. 1) demo_index demo_seeds = Some im" "build_chunk_cuckoo (\<lambda>_ _. 1) demo_chunks demo_seeds = Some cm"
    "committed_trees im ih its cm ch cts" "parse_tree_tops blob = Inr tops"
    "verify_tree_tops_super_root sha256 tops 75 80 (bucket_super_root its cts) = Inr ()"
    "execute_step_traced (demo_env [d]) (Some tops) [demo_hash] demo_verified_info = Inr ([mark_verified (result_of (Entries [demo_entry]))], traces)"
    "\<forall>t \<in> set (qt_index_bins (traces ! 0) @ qt_chunk_bins (traces ! 0)). length (bt_bin_content t) \<noteq> 252"
proof -
  obtain d im cm bm where D: "built_database (\<lambda>_ _. 1) demo_index demo_chunks demo_seeds d" "catalog_matches demo_verified_info demo_seeds d"
    "build_index_cuckoo (\<lambda>_ _. 1) demo_index demo_seeds = Some im" "build_chunk_cuckoo (\<lambda>_ _. 1) demo_chunks demo_seeds = Some cm"
    "build_bucket_merkle im cm = Some bm" "load_database (database_files im cm bm) INDEX_PARAMS CHUNK_PARAMS 12 = Some d"
    by (rule demo_verified_database)
  have g: "get_db [d] (di_db_id demo_verified_info) = Some d" by (simp add: get_db_def demo_verified_info_def demo_info_def)
  have i: "di_kind demo_verified_info = Full" "di_has_bucket_merkle demo_verified_info" "di_db_id demo_verified_info = 0" by (simp_all add: demo_verified_info_def demo_info_def)
  obtain round placement where pl: "plan_index_pbc_rounds_for_hashes [demo_hash] 75 = Inr ([round], placement)" using demo_plan by blast
  have sh: "[demo_hash] \<noteq> []" "\<forall>sh \<in> set [demo_hash]. length sh = 20 \<and> tag_exact (ra_index_tag demo_seeds) demo_index sh"
    "list_all2 (holds demo_index demo_chunks) [demo_hash] [Entries [demo_entry]]"
    using demo_lengths(1) demo_tag demo_holds by (simp_all add: demo_seeds_def)
  from honest_verified_step [OF demo_env_honest demo_env_correct g D(1,3-6) _ D(2) i(1,2) sh pl] obtain tops traces where
    r: "fetch_tree_tops (demo_env [d]) 0 = Inr tops" "verify_tree_tops_super_root sha256 tops 75 80 (bm_root bm) = Inr ()"
    "execute_step_traced (demo_env [d]) (Some tops) [demo_hash] demo_verified_info = Inr ([mark_verified (result_of (Entries [demo_entry]))], traces)"
    "length traces = 1" "\<forall>tr \<in> set traces. (\<forall>b \<in> set (qt_index_bins tr). bin_served (md_index d) b) \<and> (\<forall>b \<in> set (qt_chunk_bins tr). bin_served (md_chunk d) b)"
    unfolding i(3) by fastforce
  obtain tt tt' where sv: "index_served demo_index demo_seeds tt (md_index d)" "chunk_served demo_chunks demo_seeds tt' (md_chunk d)"
    using built_database_served [OF D(1)] .
  have "length (bt_bin_content b) = 52" if "bin_served (md_index d) b" for b
    using served_bin_length [OF that] sv(1) by (simp add: index_served_def group_params bin_size_params)
  moreover have "length (bt_bin_content b) = 132" if "bin_served (md_chunk d) b" for b
    using served_bin_length [OF that] sv(2) by (simp add: chunk_served_def group_params bin_size_params)
  moreover have "traces ! 0 \<in> set traces" using r(4) by simp
  ultimately have "\<forall>t \<in> set (qt_index_bins (traces ! 0) @ qt_chunk_bins (traces ! 0)). length (bt_bin_content t) \<noteq> 252" using r(5) by fastforce
  moreover obtain ih its ch cts where "committed_trees im ih its cm ch cts" "bm_root bm = bucket_super_root its cts"
    by (rule bucket_merkle_parts [OF D(5)])
  moreover obtain blob where "parse_tree_tops blob = Inr tops" using fetched_tops_parse [OF r(1)] by blast
  ultimately show ?thesis using that D(1-4) r(2,3) by metis
qed


lemma complete_file_loads:
  assumes "read_cuckoo_header_with_anchor f p = Inr hdr" and "length f = ch_header_size hdr + tp_k p * (ch_bins_per_table hdr * tp_bin_size p)"
  shows "\<exists>t. load_sub_table f p = Some t"
  using assms by (simp add: load_sub_table_def tp_table_byte_size_def Let_def)

section \<open>Properties\<close>

text \<open>
  C6: The files that the Merkle builder writes verify the whole database. From two complete cuckoo table files the
  builder returns, and the server loads the directory it writes. When two honest servers serve that database,
  with the DPF library of the repository, then the tree tops that the client fetches match the super-root
  file, and the client's verification accepts every batch of bins of the two table files, whatever bins it
  holds: all sibling rows come out of the written sibling files through the wire protocol.
\<close>

theorem built_database_verifies:
  assumes "read_cuckoo_header_with_anchor im INDEX_PARAMS = Inr ih" and "read_cuckoo_header_with_anchor cm CHUNK_PARAMS = Inr ch"
    and "0 < ch_bins_per_table ih" and "0 < ch_bins_per_table ch"
    and "length im = ch_header_size ih + tp_k INDEX_PARAMS * (ch_bins_per_table ih * tp_bin_size INDEX_PARAMS)"
    and "length cm = ch_header_size ch + tp_k CHUNK_PARAMS * (ch_bins_per_table ch * tp_bin_size CHUNK_PARAMS)"
    and "12 \<le> limit"
  shows "\<exists>bm d. build_bucket_merkle im cm = Some bm \<and> load_database (database_files im cm bm) INDEX_PARAMS CHUNK_PARAMS limit = Some d \<and>
    (\<forall>enc env dbs db_id items. honest_servers env parse_key (eval_partial enc) dbs \<and> libdpf_client enc env \<and> get_db dbs db_id = Some d \<and>
       (\<forall>x \<in> set items. committed_bin im ih INDEX_PARAMS (index_sub x) \<and>
          (\<exists>subs. chunk_subs x = Some subs \<and> (\<forall>s \<in> set subs. committed_bin cm ch CHUNK_PARAMS s))) \<longrightarrow>
       (\<exists>tops. fetch_tree_tops env db_id = Inr tops \<and> verify_tree_tops_super_root sha256 tops 75 80 (bm_root bm) = Inr () \<and>
          verify_bucket_merkle_batch_dpf env items (of_nat (ch_bins_per_table ih)) (of_nat (ch_bins_per_table ch)) 75 80 db_id tops =
            Some (Inr (replicate (length items) True))))"
proof -
  obtain it ct where t: "load_sub_table im INDEX_PARAMS = Some it" "load_sub_table cm CHUNK_PARAMS = Some ct"
    using complete_file_loads [OF assms(1,5)] complete_file_loads [OF assms(2,6)] by blast
  obtain bm where bm: "build_bucket_merkle im cm = Some bm" using bucket_merkle_returns [OF assms(1-4)] assms(5,6) by auto
  obtain d where d: "load_database (database_files im cm bm) INDEX_PARAMS CHUNK_PARAMS limit = Some d"
    by (rule written_database_loads [OF t bm assms(7)])
  have u: "unat (of_nat (ch_bins_per_table ih) :: u32) = ch_bins_per_table ih" "unat (of_nat (ch_bins_per_table ch) :: u32) = ch_bins_per_table ch"
    using header_bins_bound [OF assms(1)] header_bins_bound [OF assms(2)] by (simp_all add: unat_of_nat_small)
  have "\<exists>tops. fetch_tree_tops env db_id = Inr tops \<and> verify_tree_tops_super_root sha256 tops 75 80 (bm_root bm) = Inr () \<and>
      verify_bucket_merkle_batch_dpf env items (of_nat (ch_bins_per_table ih)) (of_nat (ch_bins_per_table ch)) 75 80 db_id tops =
        Some (Inr (replicate (length items) True))"
    if h: "honest_servers env parse_key (eval_partial enc) dbs" "libdpf_client enc env" "get_db dbs db_id = Some d"
      and c: "\<forall>x \<in> set items. committed_bin im ih INDEX_PARAMS (index_sub x) \<and>
          (\<exists>subs. chunk_subs x = Some subs \<and> (\<forall>s \<in> set subs. committed_bin cm ch CHUNK_PARAMS s))" for enc env dbs db_id items
  proof (rule written_database_verifies [OF h(1) libdpf_client_correct [OF h(2)] h(3) t bm d assms(7)])
    fix ih' its ch' cts tops
    assume a: "committed_trees im ih' its cm ch' cts" "fetch_tree_tops env db_id = Inr tops" "verify_tree_tops_super_root sha256 tops 75 80 (bm_root bm) = Inr ()"
      and V: "\<And>items ib cb. unat ib = ch_bins_per_table ih' \<Longrightarrow> unat cb = ch_bins_per_table ch' \<Longrightarrow>
       \<forall>x \<in> set items. committed_bin im ih' INDEX_PARAMS (index_sub x) \<and> (\<exists>subs. chunk_subs x = Some subs \<and> (\<forall>s \<in> set subs. committed_bin cm ch' CHUNK_PARAMS s)) \<Longrightarrow>
       verify_bucket_merkle_batch_dpf env items ib cb 75 80 db_id tops = Some (Inr (replicate (length items) True))"
    have e: "ih' = ih" "ch' = ch" using a(1) assms(1,2) by (simp_all add: committed_trees_def)
    from V [unfolded e, OF u c] a(2,3) show ?thesis by blast
  qed
  with bm d show ?thesis by blast
qed


theorem built_database_verifies_witness:
  "\<exists>im cm bm d tops. build_bucket_merkle im cm = Some bm \<and> load_database (database_files im cm bm) INDEX_PARAMS CHUNK_PARAMS 12 = Some d \<and>
     verify_tree_tops_super_root sha256 tops 75 80 (bm_root bm) = Inr () \<and>
     verify_bucket_merkle_batch_dpf (lib_env reverse_lsb (block_one, block_zero) [d]) [one_bin_item] 1 1 75 80 0 tops = Some (Inr [True])"
proof -
  obtain h where h: "length h = 40" "read_cuckoo_header_with_anchor (h @ replicate 3900 0) INDEX_PARAMS = Inr (expected_header INDEX_PARAMS 1 5 None)"
    using header_roundtrip_aux [of INDEX_PARAMS 1 None 5 "replicate 3900 0"] by (auto simp: expected_header_def params_eval)
  obtain h' where h': "length h' = 32" "read_cuckoo_header_with_anchor (h' @ replicate 10560 0) CHUNK_PARAMS = Inr (expected_header CHUNK_PARAMS 1 0 None)"
    using header_roundtrip_aux [of CHUNK_PARAMS 1 None 0 "replicate 10560 0"] by (auto simp: expected_header_def params_eval)
  let ?im = "h @ replicate 3900 0" and ?cm = "h' @ replicate 10560 0" and ?ih = "expected_header INDEX_PARAMS 1 5 None" and ?ch = "expected_header CHUNK_PARAMS 1 0 None"
  have c: "\<forall>x \<in> set [one_bin_item]. committed_bin ?im ?ih INDEX_PARAMS (index_sub x) \<and>
      (\<exists>subs. chunk_subs x = Some subs \<and> (\<forall>s \<in> set subs. committed_bin ?cm ?ch CHUNK_PARAMS s))"
    using h(1) h'(1) by (simp add: committed_bin_def index_sub_def chunk_subs_def one_bin_item_def expected_header_def bin_content_def group_data_def slice_def params_eval)
  have l: "length ?im = ch_header_size ?ih + tp_k INDEX_PARAMS * (ch_bins_per_table ?ih * tp_bin_size INDEX_PARAMS)"
    "length ?cm = ch_header_size ?ch + tp_k CHUNK_PARAMS * (ch_bins_per_table ?ch * tp_bin_size CHUNK_PARAMS)" "0 < ch_bins_per_table ?ih" "0 < ch_bins_per_table ?ch"
    using h(1) h'(1) by (simp_all add: expected_header_def params_eval)
  from built_database_verifies [OF h(2) h'(2) l(3,4,1,2), of 12] obtain bm d where b: "build_bucket_merkle ?im ?cm = Some bm"
    "load_database (database_files ?im ?cm bm) INDEX_PARAMS CHUNK_PARAMS 12 = Some d"
    and V: "\<And>enc env dbs db_id items. honest_servers env parse_key (eval_partial enc) dbs \<and> libdpf_client enc env \<and> get_db dbs db_id = Some d \<and>
       (\<forall>x \<in> set items. committed_bin ?im ?ih INDEX_PARAMS (index_sub x) \<and>
          (\<exists>subs. chunk_subs x = Some subs \<and> (\<forall>s \<in> set subs. committed_bin ?cm ?ch CHUNK_PARAMS s))) \<Longrightarrow>
       (\<exists>tops. fetch_tree_tops env db_id = Inr tops \<and> verify_tree_tops_super_root sha256 tops 75 80 (bm_root bm) = Inr () \<and>
          verify_bucket_merkle_batch_dpf env items (of_nat (ch_bins_per_table ?ih)) (of_nat (ch_bins_per_table ?ch)) 75 80 db_id tops =
            Some (Inr (replicate (length items) True)))" by auto
  have "get_db [d] 0 = Some d" by (simp add: get_db_def)
  with V [OF conjI [OF lib_env_honest [of reverse_lsb "(block_one, block_zero)" "[d]"] conjI [OF lib_env_client conjI [OF _ c]]], of 0] b show ?thesis
    by (auto simp: expected_header_def) blast
qed

text \<open>
  C3: Completeness of the verified query. The table builder writes the tables, the Merkle builder the files over
  them, the server loads the directory, both servers are honest, and client and servers use the DPF library of
  the repository, with any block cipher and any seeds. Then the tree tops that the client
  fetches match the attested super-root, and a batch of one INDEX round returns exactly what is stored,
  with every result marked as verified, whether the tree tops were cached or are fetched during the step.
\<close>

theorem honest_query_verified:
  assumes "honest_servers env parse_key (eval_partial enc) dbs" and "libdpf_client enc env" and "get_db dbs (di_db_id db) = Some d"
    and "built_database cb mmap cfile seeds d" and "build_index_cuckoo cb mmap seeds = Some im" and "build_chunk_cuckoo cb cfile seeds = Some cm"
    and "build_bucket_merkle im cm = Some bm" and "load_database (database_files im cm bm) INDEX_PARAMS CHUNK_PARAMS limit = Some d" and "12 \<le> limit"
    and "catalog_matches db seeds d" and "di_kind db = Full" and "di_has_bucket_merkle db"
    and "shs \<noteq> []" and "\<forall>sh \<in> set shs. length sh = 20 \<and> tag_exact (ra_index_tag seeds) mmap sh"
    and "list_all2 (holds mmap cfile) shs xs" and "plan_index_pbc_rounds_for_hashes shs 75 = Inr ([round], placement)"
    and "\<forall>p. H p = sha256 p"
  shows "\<exists>tops traces. fetch_tree_tops env (di_db_id db) = Inr tops \<and> verify_tree_tops_super_root H tops 75 80 (bm_root bm) = Inr () \<and>
    execute_step_traced env None shs db = Inr (map (\<lambda>x. mark_verified (result_of x)) xs, traces) \<and>
    execute_step_traced env (Some tops) shs db = Inr (map (\<lambda>x. mark_verified (result_of x)) xs, traces)"
proof -
  have H: "H = sha256" using assms(17) by auto
  show ?thesis using honest_verified_step [OF assms(1) libdpf_client_correct [OF assms(2)] assms(3-16)] unfolding H by blast
qed

theorem honest_query_verified_witness:
  "\<exists>d tops traces. built_database (\<lambda>_ _. 1) demo_index demo_chunks demo_seeds d \<and> fetch_tree_tops (lib_env reverse_lsb (block_one, block_zero) [d]) 0 = Inr tops \<and>
    execute_step_traced (lib_env reverse_lsb (block_one, block_zero) [d]) (Some tops) [demo_hash] demo_verified_info =
      Inr ([Some ((with_entries [\<lparr>ux_txid = replicate 32 9, ux_vout = 1, ux_amount_sats = 5000\<rparr>])\<lparr>qr_merkle_verified := True\<rparr>)], traces)"
proof -
  obtain d im cm bm where D: "built_database (\<lambda>_ _. 1) demo_index demo_chunks demo_seeds d" "catalog_matches demo_verified_info demo_seeds d"
    "build_index_cuckoo (\<lambda>_ _. 1) demo_index demo_seeds = Some im" "build_chunk_cuckoo (\<lambda>_ _. 1) demo_chunks demo_seeds = Some cm"
    "build_bucket_merkle im cm = Some bm" "load_database (database_files im cm bm) INDEX_PARAMS CHUNK_PARAMS 12 = Some d"
    by (rule demo_verified_database)
  have g: "get_db [d] (di_db_id demo_verified_info) = Some d" by (simp add: get_db_def demo_verified_info_def demo_info_def)
  have i: "di_kind demo_verified_info = Full" "di_has_bucket_merkle demo_verified_info" "di_db_id demo_verified_info = 0" by (simp_all add: demo_verified_info_def demo_info_def)
  obtain round placement where pl: "plan_index_pbc_rounds_for_hashes [demo_hash] 75 = Inr ([round], placement)" using demo_plan by blast
  have sh: "\<forall>sh \<in> set [demo_hash]. length sh = 20 \<and> tag_exact (ra_index_tag demo_seeds) demo_index sh"
    "list_all2 (holds demo_index demo_chunks) [demo_hash] [Entries [demo_entry]]"
    using demo_lengths(1) demo_tag demo_holds by (simp_all add: demo_seeds_def)
  from honest_query_verified [OF lib_env_honest [of reverse_lsb "(block_one, block_zero)"] lib_env_client g D(1,3-6) _ D(2) i(1,2) _ sh pl, of sha256] obtain tops traces where
    "fetch_tree_tops (lib_env reverse_lsb (block_one, block_zero) [d]) 0 = Inr tops"
    "execute_step_traced (lib_env reverse_lsb (block_one, block_zero) [d]) (Some tops) [demo_hash] demo_verified_info = Inr ([mark_verified (result_of (Entries [demo_entry]))], traces)"
    unfolding i(3) by auto
  then show ?thesis using D(1) by (auto simp: mark_verified_def demo_entry_def sdk_entry_def)
qed

text \<open>
  C2: Soundness of the verified query against malicious servers. Nothing is assumed of the replies, the
  connections or the keys. The catalog entry and the super-root are the attested ones of the database that
  the builders wrote, and the tree tops passed the super-root check. Then a result that the client shows
  as verified, a missing result included, is exactly what is stored for the script hash, or the proofs that
  the client accepted contain a SHA-256 collision or a preimage of the zero hash, or a bin of the query has
  252 bytes and is an inner node of the committed tree, since leaves and inner nodes share the hash function.
  The database is a full one and its 64-bit tags do not clash with those of the queried script hashes.
  Records with chunk 0 are left out, because an empty slot reads as chunk 0.
\<close>

theorem verified_results_are_stored:
  assumes "built_database cb mmap cfile seeds d" and "build_index_cuckoo cb mmap seeds = Some im" and "build_chunk_cuckoo cb cfile seeds = Some cm"
    and "committed_trees im ih its cm ch cts" and "parse_tree_tops blob = Inr tops" and "\<forall>p. H p = sha256 p"
    and "verify_tree_tops_super_root H tops 75 80 (bucket_super_root its cts) = Inr ()"
    and "catalog_matches db seeds d" and "di_kind db = Full" and "di_has_bucket_merkle db"
    and "shs \<noteq> []" and "\<forall>sh \<in> set shs. length sh = 20 \<and> tag_exact (ra_index_tag seeds) mmap sh" and "list_all2 (holds mmap cfile) shs xs"
    and "execute_step_traced env (Some tops) shs db = Inr (results, traces)" and "i < length shs" and "shown_verified (results ! i)"
    and "skips_chunk_zero mmap (shs ! i)"
  shows "results ! i = mark_verified (result_of (xs ! i)) \<or>
    (\<exists>e \<in> set (step_evidence im ih its cm ch cts env db tops traces). breaks_sha256 e) \<or> trace_poses its cts (traces ! i)"
proof (cases "(\<exists>e \<in> set (step_evidence im ih its cm ch cts env db tops traces). breaks_sha256 e) \<or> trace_poses its cts (traces ! i)")
  case False
  then have np: "\<not> trace_poses its cts (traces ! i)" by blast
  have H: "H = sha256" using assms(6) by auto
  obtain it ct where sv: "index_served mmap seeds it (md_index d)" "chunk_served cfile seeds ct (md_chunk d)" using built_database_served [OF assms(1)] .
  have sh: "20 \<le> length (shs ! i)" "tag_exact (ra_index_tag seeds) mmap (shs ! i)" "\<forall>sh \<in> set shs. 20 \<le> length sh" using assms(12,15) by simp_all
  have rc: "record_count mmap \<le> 2 ^ 32 - 1" using assms(1) by (simp add: built_database_def)
  from verified_step_honest [OF assms(1-4) parse_tree_tops_wf [OF assms(5)] assms(7) [unfolded H] assms(8,10,11) sh(3) assms(14-16) np] False obtain g res where
    g: "g \<in> set (hash_groups (shs ! i) 75)" and r: "results ! i = map_option (\<lambda>r. r\<lparr>qr_merkle_verified := True\<rparr>) res"
      "step_query env db (i, index_answer db (served_bin (md_index d)) (shs ! i) g) = Inr (res, traces ! i)"
      "\<forall>b \<in> set (qt_chunk_bins (traces ! i)). bin_honest (md_chunk d) b" by blast
  have "g \<in> set (index_groups (shs ! i))" using g unfolding index_groups_range(2) [OF sh(1)] .
  from step_query_sound [OF sv(2) assms(8,9) list_all2_nthD [OF assms(13,15)] assms(17) index_answer_found [OF sv(1) assms(8) rc sh(2,1) this] r(2,3)]
  show ?thesis using r(1) by (simp add: mark_verified_def)
qed blast

theorem verified_results_are_stored_witness:
  "\<exists>d im cm ih its ch cts tops traces. built_database (\<lambda>_ _. 1) demo_index demo_chunks demo_seeds d \<and> committed_trees im ih its cm ch cts \<and>
    execute_step_traced (demo_env [d]) (Some tops) [demo_hash] demo_verified_info = Inr ([mark_verified (result_of (Entries [demo_entry]))], traces) \<and>
    ([mark_verified (result_of (Entries [demo_entry]))] ! 0 = mark_verified (result_of ([Entries [demo_entry]] ! 0)) \<or>
     (\<exists>e \<in> set (step_evidence im ih its cm ch cts (demo_env [d]) demo_verified_info tops traces). breaks_sha256 e))"
proof -
  obtain d im cm blob tops traces ih its ch cts where
    D: "built_database (\<lambda>_ _. 1) demo_index demo_chunks demo_seeds d" "catalog_matches demo_verified_info demo_seeds d"
      "build_index_cuckoo (\<lambda>_ _. 1) demo_index demo_seeds = Some im" "build_chunk_cuckoo (\<lambda>_ _. 1) demo_chunks demo_seeds = Some cm"
    and T: "committed_trees im ih its cm ch cts" "parse_tree_tops blob = Inr tops"
      "verify_tree_tops_super_root sha256 tops 75 80 (bucket_super_root its cts) = Inr ()"
    and X: "execute_step_traced (demo_env [d]) (Some tops) [demo_hash] demo_verified_info = Inr ([mark_verified (result_of (Entries [demo_entry]))], traces)"
      "\<forall>t \<in> set (qt_index_bins (traces ! 0) @ qt_chunk_bins (traces ! 0)). length (bt_bin_content t) \<noteq> 252"
    by (rule demo_verified_run)
  have i: "di_kind demo_verified_info = Full" "di_has_bucket_merkle demo_verified_info" by (simp_all add: demo_verified_info_def demo_info_def)
  have sh: "\<forall>sh \<in> set [demo_hash]. length sh = 20 \<and> tag_exact (ra_index_tag demo_seeds) demo_index sh"
    "list_all2 (holds demo_index demo_chunks) [demo_hash] [Entries [demo_entry]]" "skips_chunk_zero demo_index ([demo_hash] ! 0)"
    "shown_verified ([mark_verified (result_of (Entries [demo_entry]))] ! 0)"
    using demo_lengths(1) demo_tag demo_holds
    by (simp_all add: demo_seeds_def skips_chunk_zero_def demo_lookup tail_entry_def nth_append shown_verified_def mark_verified_def)
  from verified_results_are_stored [OF D(1,3,4) T(1,2) _ T(3) D(2) i _ sh(1,2) X(1) _ sh(4,3)]
  have "[mark_verified (result_of (Entries [demo_entry]))] ! 0 = mark_verified (result_of ([Entries [demo_entry]] ! 0)) \<or>
     (\<exists>e \<in> set (step_evidence im ih its cm ch cts (demo_env [d]) demo_verified_info tops traces). breaks_sha256 e)" using X(2) by (auto simp: trace_poses_def traced_sub_def dest!: poses_as_node_length)
  then show ?thesis using D(1) T(1) X(1) by blast
qed


end
