(* ===== verification/Spec2Isabelle.thy ===== *)
theory Spec2Isabelle
  imports Codec Bucket_Complete Cuckoo Pbc Delta_Pack Wire_Message Scan_Lane Dpf_Privacy Dpf_Verified
begin

text \<open>
  A verification of Bitcoin-PIR: private lookups of the unspent outputs of a script in a database that a
  builder derives from the chain, two servers hold, and a client queries and verifies.

  \<^bold>\<open>The program.\<close> A builder turns the UTXO set into INDEX records and CHUNK data, puts both into cuckoo
  tables (one table per group of a batch code) and commits to every bin with Merkle trees. Each of two
  servers maps the files into memory and answers batches of keys of a distributed point function (DPF) by
  scanning the tables. The client plans which group serves which script hash, asks both servers, adds the
  replies, looks for its record, fetches the chunks it points at and checks every bin it used against an
  attested super-root. Between two snapshots it merges delta databases into the old result.

  \<^bold>\<open>Conventions.\<close> Paths are relative to \<open>src/\<close>. A fixed-width integer is a word of that width and wraps as
  in the code; a \<open>usize\<close> has 64 bits, and one that only counts is a natural number. The build is a release
  build: debug assertions are not modelled, and where one matters the limits of the theorem contain it. \<open>Result\<close> is a sum with the error on the left,
  \<open>?\<close> is \<open>rbind\<close>. A panic is \<open>None\<close>, \<open>Stop_Panic\<close> or \<open>Server_Panic\<close>, always apart from the error values. Loops
  that may not end are partial functions into \<open>option\<close>; every other loop is a total function, and the
  only budgets are those of the eviction loops, which the code itself has, and \<open>limit\<close> of \<open>load_database\<close>, the number of
  sibling levels it looks for: the code looks until a file is missing, and 12 are enough for a table of
  \<open>2 ^ 32\<close> bins. Files are byte
  strings. Third-party code is an argument of the definitions that call it: the SHA-256 of the \<open>sha2\<close> crate
  (\<open>H\<close>), the AES of the \<open>aes\<close> crate (\<open>enc\<close>), HASH160, the block reader, the random seeds, the connections and the
  clock. The query and the scan take the DPF as arguments (\<open>de_gen\<close>, \<open>from_bytes\<close>, \<open>eval\<close>), which \<open>Libdpf\<close> provides. Messages of errors keep their fixed text. Logging, metrics and the leakage recorder are dropped.

  \<^bold>\<open>Shared vocabulary.\<close> \<open>Bpir_Prelude\<close> (words, bytes, endianness, \<open>rbind\<close>, chunks of a list) and
  \<open>Bpir_Multisets\<close>.

  \<^bold>\<open>Protocol core\<close>, \<open>crates/protocol/core/src\<close>.
  \<^item> \<open>Params\<close> (\<open>params.rs\<close>): table parameters; the DPF domain \<open>compute_dpf_n\<close> is the least one that covers
    the table, and the loop ends exactly up to \<open>2 ^ 63\<close> bins.
  \<^item> \<open>Hash_Fns\<close> (\<open>hash.rs\<close>): splitmix64, groups, cuckoo positions, tags. Group sampling returns distinct
    groups, panics or diverges, and exactly when. Its locale \<open>group_hash\<close> is interpreted for script hashes
    and for integers.
  \<^item> \<open>Codec\<close> (\<open>codec.rs\<close>): varints and UTXO records, round trips also for truncated data.
  \<^item> \<open>Sha256\<close>, \<open>Merkle\<close> (\<open>merkle.rs\<close>): the hash function and the n-ary trees. Equal roots mean equal leaves
    or a collision, returned by an executable function.
  \<^item> \<open>Seeds\<close> (\<open>seeds.rs\<close>), \<open>Cuckoo_Header\<close> (\<open>cuckoo.rs\<close>): seeds from chain anchors, bound to the anchor
    file; table headers and their check.
  \<^item> \<open>Cuckoo\<close>, \<open>Cuckoo_Probe\<close> (\<open>cuckoo.rs\<close>): insertion with eviction and the builders over the locale
    \<open>cuckoo_family\<close>; every entry is stored once, and a probe that stops at an empty slot finds it.
  \<^item> \<open>Pbc\<close> (\<open>pbc.rs\<close>): placement and round planning; every item is served once by a group of its own.

  \<^bold>\<open>Database builder\<close>, \<open>tools/db-builder/src\<close>.
  \<^item> \<open>Table_Build\<close> (\<open>build_cuckoo_generic.rs\<close>): the INDEX and CHUNK files; where a record or chunk lies in them.
  \<^item> \<open>Bucket_Build\<close> (\<open>merkle_bucket_builder.rs\<close>): trees, sibling tables, tree tops and super-root, with the
    locale \<open>honest_tree\<close>.
  \<^item> \<open>Delta_Build\<close>, \<open>Delta_Replay\<close>, \<open>Delta_Pack\<close> (\<open>delta_gen_0_compute_delta.rs\<close>,
    \<open>delta_gen_1_build_chunks.rs\<close>): replay of blocks, grouped records and their chunks, up to the theorem
    that the client's merge of a fetched delta gives the UTXO set after the blocks.

  \<^bold>\<open>Runtime and server\<close>, \<open>crates/protocol/runtime/src\<close> and \<open>apps/server/src/bin/unified_server\<close>.
  \<^item> \<open>Wire\<close>, \<open>Wire_Request\<close>, \<open>Wire_Response\<close>, \<open>Wire_Message\<close> (\<open>protocol.rs\<close>): all requests and responses;
    round trips from the field contracts \<open>wire_field\<close> and \<open>checked_field\<close>, safety of the request decoder, and the
    one input shape on which the response decoder panics.
  \<^item> \<open>Dpf_Eval\<close> (\<open>eval.rs\<close>), \<open>Table_Load\<close> (\<open>table.rs\<close>): the scan of a group is the exclusive or of the bins a
    key selects; loading of table files.
  \<^item> \<open>Scan_Batch\<close>, \<open>Scan_Lane\<close> (\<open>scan_batch.rs\<close>): queries that share a scan, and the batcher as a step
    relation over its critical sections: safety and termination for every interleaving when every query has
    a thread of its own; on the workers of the free pool (\<open>dispatch.rs\<close>) it can deadlock.
  \<^item> \<open>Dpf_Server\<close> (\<open>table.rs\<close>, \<open>state.rs\<close>, \<open>dispatch.rs\<close>): loading a database and the DPF arms of the request
    loop, from payload to reply.

  \<^bold>\<open>Client\<close>, \<open>crates/sdk\<close>.
  \<^item> \<open>Pir_Error\<close>, \<open>Sdk_Types\<close>, \<open>Sync\<close> (\<open>core/src/error.rs\<close>, \<open>types.rs\<close>, \<open>sync.rs\<close>): a sync plan is a shortest
    chain of deltas to the tip, or a fresh sync where there is none; merging keeps verification flags and entries right.
  \<^item> \<open>Tree_Tops\<close>, \<open>Bucket_Verify\<close> (\<open>client/src/merkle_verify.rs\<close>): the batch verifier for any querier.
    \<open>Bucket_Soundness\<close> and \<open>Bucket_Complete\<close> show that an accepted bin is the committed one, or yields a collision, or
    is an inner node of the committed tree, and that committed bins are accepted.
  \<^item> \<open>Dpf_Client\<close> (\<open>client/src/dpf.rs\<close>): the query step. \<open>Dpf_Round\<close>, \<open>Dpf_Index\<close>, \<open>Dpf_Chunk\<close>, \<open>Dpf_Lookup\<close> and
    \<open>Dpf_Query\<close> compose it with the server and the builder: a query returns what the input files of the
    builder hold. \<open>Dpf_Demo\<close> is the concrete database and DPF of the witnesses.
  \<^item> \<open>Dpf_Merkle\<close> (\<open>client/src/merkle_verify.rs\<close>, \<open>dpf.rs\<close>): the sibling querier and the verdicts of a step.
    \<open>Dpf_Trace\<close> and \<open>Dpf_Sound\<close> are about arbitrary servers, \<open>Dpf_Siblings\<close> about honest ones. \<open>Dpf_Verified\<close> shows that
    the builder's Merkle files verify every bin, that an honest query is returned and verified, and that a
    verified result is the stored one whatever the servers do. \<open>Dpf_Privacy\<close> shows what the sibling requests
    reveal.
  \<^item> \<open>Libdpf\<close> (\<open>vendor/libdpf/src\<close>): the distributed point function. \<open>Libdpf_Correct\<close> shows that the two keys of a pair
    share a point function, for every block cipher, and that the batched expansion agrees with the evaluation at a
    point; its locale \<open>dpf_scheme\<close> gives the client and the server what they need of a DPF.

  \<^bold>\<open>Hypotheses.\<close> \<open>dpf_correct\<close> states what a DPF promises: the two expansions of a key pair differ at the queried
  point only; \<open>libdpf_client\<close>, that the client draws its keys from the modelled library, implies it.
  \<open>honest_servers\<close> says that the replies are those of the modelled handlers. \<open>tag_exact\<close> says that no other stored
  script hash has the 64-bit tag of a queried one and that the tag is not zero. Theorems on malicious servers
  assume neither of the first two; they end in a collision of SHA-256 or a preimage of the zero hash that is part of
  the run, or in a bin of 252 bytes that is an inner node of a committed tree (\<open>poses_as_node\<close>), because leaves and inner
  nodes are hashed without domain separation. They leave out records with chunk 0, because an empty slot
  of a CHUNK bin reads as chunk 0 (\<open>skips_chunk_zero\<close>). That a DPF key hides its point is not modelled.

  \<^bold>\<open>Not modelled.\<close> The Harmony, OnionPIR and ORAM backends beyond their wire messages, the secure channel,
  attestation, credits, the directory and the transports: they wrap cryptography, storage or networking of
  third-party libraries, and the modelled client treats a connection as an arbitrary function from requests
  to replies. Argument parsing, progress output, memory mapping and timing have no effect on the results
  proved here. \<open>compute_bins_per_table\<close> computes in floating point; the number of bins is an argument.
\<close>

end
